(* ===== verification/Hpcc_Prelude.thy ===== *)
theory Hpcc_Prelude
  imports Main "HOL-Library.Word" "HOL-Library.Monad_Syntax"
begin

text \<open>
  The types and the shared facts of the development. A machine integer of the code is a word of
  its width, so \<open>+\<close>, \<open>-\<close> and \<open>*\<close> wrap as they do in C++. A call that the C++ program does not
  survive (undefined behaviour, a failed \<^verbatim>\<open>NS_ASSERT\<close>, \<^verbatim>\<open>NS_FATAL_ERROR\<close>) has the value \<open>None\<close>;
  a call that returns has the value \<open>Some\<close> of its result and of the state it leaves.
  A C array of a fixed size is a function of its index.
\<close>

unbundle bit_operations_syntax

type_synonym u8 = "8 word"
type_synonym u16 = "16 word"
type_synonym u32 = "32 word"
type_synonym u64 = "64 word"
type_synonym u128 = "128 word"

text \<open>An array is updated at one index; a two-dimensional array at a pair of indices.\<close>

definition upd2 :: "('a \<Rightarrow> 'b \<Rightarrow> 'c) \<Rightarrow> 'a \<Rightarrow> 'b \<Rightarrow> 'c \<Rightarrow> ('a \<Rightarrow> 'b \<Rightarrow> 'c)" where
  "upd2 f i j v = f(i := (f i)(j := v))"

text \<open>\<open>guard b\<close> returns when \<open>b\<close> holds: an assertion, or the condition under which an operation is
  defined.\<close>

definition guard :: "bool \<Rightarrow> unit option" where
  "guard b = (if b then Some () else None)"

named_theorems word_facts
named_theorems frame

subsection \<open>Guards and arrays\<close>

lemma guard_True [simp]: "guard True = Some ()"
  by (simp add: guard_def)

lemma guard_False [simp]: "guard False = None"
  by (simp add: guard_def)

lemma guard_eq_Some [simp]: "guard b = Some u \<longleftrightarrow> b"
  by (simp add: guard_def)

lemma guard_bind_eq_Some: "guard b \<bind> f = Some r \<longleftrightarrow> b \<and> f () = Some r"
  by (cases b) simp_all

lemma upd2_same [simp]: "upd2 f i j v i j = v"
  by (simp add: upd2_def)

lemma upd2_other: "\<not> (a = i \<and> b = j) \<Longrightarrow> upd2 f i j v a b = f a b"
  by (auto simp: upd2_def)

lemma upd2_apply: "upd2 f i j v a b = (if a = i \<and> b = j then v else f a b)"
  by (auto simp: upd2_def)

lemma bind_eq_SomeE:
  assumes "x \<bind> f = Some r"
  obtains y where "x = Some y" and "f y = Some r"
  using assms by (cases x) simp_all

lemma sum_fun_upd:
  fixes q n :: nat
  assumes "q < n"
  shows "(\<Sum>x<n. f ((g(q := v)) x)) + f (g q) = (\<Sum>x<n. f (g x)) + (f v :: nat)"
proof -
  have "(\<Sum>x\<in>{..<n} - {q}. f ((g(q := v)) x)) = (\<Sum>x\<in>{..<n} - {q}. f (g x))"
    by (intro sum.cong) auto
  moreover have "(\<Sum>x<n. h x) = h q + (\<Sum>x\<in>{..<n} - {q}. h x)" for h :: "nat \<Rightarrow> nat"
    using assms by (intro sum.remove) simp_all
  ultimately show ?thesis by simp
qed

subsection \<open>Words as numbers\<close>

lemma unat_lt_exp [word_facts]: "unat (x :: 'a::len word) < 2 ^ LENGTH('a)"
  by (rule unsigned_less)

lemma u8_lt [simp]: "unat (x :: u8) < 256"
  using unat_lt_exp [of x] by simp

lemma u16_lt [simp]: "unat (x :: u16) < 65536"
  using unat_lt_exp [of x] by simp

lemma u32_lt [simp]: "unat (x :: u32) < 4294967296"
  using unat_lt_exp [of x] by simp

lemma u64_lt [simp]: "unat (x :: u64) < 18446744073709551616"
  using unat_lt_exp [of x] by simp

lemma u128_lt: "unat (x :: u128) < 2 ^ 128"
  using unat_lt_exp [of x] by simp

text \<open>Additions and subtractions that do not wrap.\<close>

lemma unat_add_nowrap:
  "unat (a :: 'a::len word) + unat b < 2 ^ LENGTH('a) \<Longrightarrow> unat (a + b) = unat a + unat b"
  by (simp add: unat_word_ariths)

lemma unat_sub_nowrap: "(b :: 'a::len word) \<le> a \<Longrightarrow> unat (a - b) = unat a - unat b"
  by (rule unat_sub)

lemma unat_mult_nowrap:
  "unat (a :: 'a::len word) * unat b < 2 ^ LENGTH('a) \<Longrightarrow> unat (a * b) = unat a * unat b"
  by (simp add: unat_word_ariths)

lemma unat_min: "unat (min (a :: 'a::len word) b) = min (unat a) (unat b)"
  by (auto simp: min_def word_le_nat_alt)

lemma unat_max: "unat (max (a :: 'a::len word) b) = max (unat a) (unat b)"
  by (auto simp: max_def word_le_nat_alt)

lemma unat_of_nat_small: "n < 2 ^ LENGTH('a) \<Longrightarrow> unat (of_nat n :: 'a::len word) = n"
  by (simp add: unat_of_nat take_bit_nat_eq_self)

lemma unat_ucast_up:
  "LENGTH('a) \<le> LENGTH('b) \<Longrightarrow> unat (ucast (x :: 'a::len word) :: 'b::len word) = unat x"
  by (simp add: unsigned_ucast_eq take_bit_nat_eq_self order_less_le_trans [OF unat_lt_exp])

lemma ucast_eq_0_up:
  assumes "LENGTH('a) \<le> LENGTH('b)"
  shows "ucast (x :: 'a::len word) = (0 :: 'b::len word) \<longleftrightarrow> x = 0"
  using unat_ucast_up [OF assms, of x] by (metis unat_eq_zero unsigned_0)

lemma unat_take_bit: "unat (take_bit n (w :: 'a::len word)) = unat w mod 2 ^ n"
  unfolding unsigned_take_bit_eq by (rule take_bit_eq_mod)

lemma unat_drop_bit: "unat (drop_bit n (w :: 'a::len word)) = unat w div 2 ^ n"
  by (metis drop_bit_eq_div unat_drop_bit_eq)

lemma unat_drop_bit_le: "unat (drop_bit n w) \<le> unat (w :: 'a::len word)"
  by (metis div_le_dividend drop_bit_eq_div unat_drop_bit_eq)

lemma unat_le_of_uint: "uint w \<le> int n \<Longrightarrow> unat w \<le> n"
  using of_nat_le_iff [of "unat w" n, where 'a = int] by simp

lemma sint_u64_small: "uint (r :: u64) < 2 ^ 63 \<Longrightarrow> sint r = uint r"
  unfolding sint_uint by (rule signed_take_bit_int_eq_self) (auto intro: order_trans [OF _ uint_ge_0])

lemmas unat_simps = unat_add_nowrap unat_sub_nowrap unat_mult_nowrap unat_min unat_max

subsection \<open>Bytes of a word\<close>

text \<open>Byte \<open>n\<close> of a word, the way the code writes it: \<^verbatim>\<open>(data >> 8 * n) & 0xff\<close>.\<close>

definition byte_of :: "nat \<Rightarrow> 'a::len word \<Rightarrow> u8" where
  "byte_of n w = ucast (drop_bit (8 * n) w AND 255)"

lemma bit_255 [simp]: "bit (255 :: 'a::len word) i \<longleftrightarrow> i < LENGTH('a) \<and> i < 8"
  using bit_mask_iff [of 8 i, where ?'a = "'a word"] by (simp add: mask_eq_exp_minus_1)

lemma bit_byte_of: "bit (byte_of n w) i \<longleftrightarrow> i < 8 \<and> bit w (8 * n + i)"
  unfolding byte_of_def bit_ucast_iff bit_and_iff bit_drop_bit_eq bit_255 o_apply
  by (auto dest: bit_imp_le_length)

lemma word_of_bytes16:
  "(push_bit 8 (ucast (byte_of 1 w)) OR ucast (byte_of 0 w) :: u16) = w"
  by (rule bit_word_eqI)
    (auto simp: bit_or_iff bit_push_bit_iff bit_ucast_iff bit_byte_of not_le not_less)

end
