(* ===== verification/Cpp_Double.thy ===== *)
theory Cpp_Double
  imports Complex_Main Hpcc_Prelude "HOL-Library.Log_Nat"
begin

text \<open>
  The C++ \<^verbatim>\<open>double\<close> (IEEE 754 binary64, round to nearest, ties to even), which every rate computation
  of the program uses. A finite value is the rational number it stands for; an arithmetic operation
  is the exact rational result, rounded. Infinities and NaN are values of their own, so a division by
  zero behaves as it does on the machine. The two zeros are one value: the sign of a zero is only
  visible to a division by a zero that is negative, and no divisor of the modelled code is one.
  The locale \<open>rounding\<close> states what a rounding function promises; its clients (the rate controllers'
  range and monotonicity lemmas) rest on those laws, and the rounding of binary64 provides them.
\<close>

subsection \<open>The exponent of a positive rational\<close>

definition ilog2 :: "rat \<Rightarrow> int" where
  "ilog2 x = (if 1 \<le> x then bitlen \<lfloor>x\<rfloor> - 1 else - bitlen (\<lceil>1 / x\<rceil> - 1))"

lemma bitlen_le_iff:
  assumes "0 < (n :: int)"
  shows "2 ^ nat (bitlen n - 1) \<le> n \<and> n < 2 ^ nat (bitlen n)"
  using bitlen_bounds [OF assms] by simp

lemma powi_nat: "0 \<le> k \<Longrightarrow> (2 :: rat) powi k = 2 ^ nat k"
  by (simp add: power_int_def)

lemma powi_pos [simp]: "0 < (2 :: rat) powi k"
  by (simp add: power_int_def)

lemma powi_mono: "a \<le> b \<Longrightarrow> (2 :: rat) powi a \<le> 2 powi b"
  by (rule power_int_increasing) simp_all

lemma powi_less_imp: "(2 :: rat) powi a < 2 powi b \<Longrightarrow> a < b"
  using powi_mono [of b a] by (meson leD not_less)

lemma ilog2_bounds:
  assumes "0 < x"
  shows "2 powi (ilog2 x) \<le> x \<and> x < 2 powi (ilog2 x + 1)"
proof (cases "1 \<le> x")
  case True
  let ?n = "\<lfloor>x\<rfloor>"
  have n: "0 < ?n" using True by simp
  have b: "1 \<le> bitlen ?n" using n by (simp add: bitlen_def floorlog_def)
  have bd: "2 ^ nat (bitlen ?n - 1) \<le> ?n \<and> ?n < 2 ^ nat (bitlen ?n)"
    using bitlen_le_iff [OF n] .
  have "2 powi (bitlen ?n - 1) = (of_int (2 ^ nat (bitlen ?n - 1)) :: rat)"
    using b by (simp add: powi_nat)
  also have "\<dots> \<le> of_int ?n" using bd by (simp only: of_int_le_iff)
  also have "\<dots> \<le> x" by simp
  finally have lo: "2 powi (bitlen ?n - 1) \<le> x" .
  have "?n + 1 \<le> 2 ^ nat (bitlen ?n)" using bd by simp
  then have "of_int (?n + 1) \<le> (of_int (2 ^ nat (bitlen ?n)) :: rat)" by (simp only: of_int_le_iff)
  moreover have "x < of_int (?n + 1)" using floor_correct [of x] by simp
  ultimately have "x < 2 powi (bitlen ?n)" using b by (simp add: powi_nat)
  with lo True show ?thesis by (simp add: ilog2_def)
next
  case False
  let ?m = "\<lceil>1 / x\<rceil> - 1"
  have y: "1 < 1 / x" using False assms by simp
  have m: "0 < ?m" using y by (simp add: less_ceiling_iff)
  have b: "1 \<le> bitlen ?m" using m by (simp add: bitlen_def floorlog_def)
  have bd: "2 ^ nat (bitlen ?m - 1) \<le> ?m \<and> ?m < 2 ^ nat (bitlen ?m)"
    using bitlen_le_iff [OF m] .
  have bd1: "?m + 1 \<le> 2 ^ nat (bitlen ?m)" using bd by linarith
  have "1 / x \<le> of_int (?m + 1)" by simp
  also have "of_int (?m + 1) \<le> (of_int (2 ^ nat (bitlen ?m)) :: rat)"
    using bd1 by (simp only: of_int_le_iff)
  also have "\<dots> = 2 powi (bitlen ?m)" using b by (simp add: powi_nat)
  finally have "1 / x \<le> 2 powi (bitlen ?m)" .
  then have lo: "2 powi (- bitlen ?m) \<le> x"
    using assms by (simp add: power_int_minus field_simps)
  have "2 powi (bitlen ?m - 1) = (of_int (2 ^ nat (bitlen ?m - 1)) :: rat)"
    using b by (simp add: powi_nat)
  also have "\<dots> \<le> of_int ?m" using bd by (simp only: of_int_le_iff)
  also have "\<dots> < 1 / x" by (simp add: ceiling_correct)
  finally have "2 powi (bitlen ?m - 1) < 1 / x" .
  then have "x < inverse (2 powi (bitlen ?m - 1))"
    using assms by (simp add: field_simps)
  also have "inverse (2 powi (bitlen ?m - 1)) = (2 :: rat) powi (- bitlen ?m + 1)"
    by (simp flip: power_int_minus)
  finally show ?thesis using lo False by (simp add: ilog2_def)
qed

lemma ilog2_mono:
  assumes "0 < x" and "x \<le> y"
  shows "ilog2 x \<le> ilog2 y"
proof -
  have "2 powi ilog2 x \<le> x" using ilog2_bounds [OF assms(1)] by simp
  also have "x \<le> y" by fact
  also have "y < 2 powi (ilog2 y + 1)" using ilog2_bounds [of y] assms by simp
  finally show ?thesis using powi_less_imp by fastforce
qed

lemma ilog2_less: "0 < x \<Longrightarrow> x < 2 powi (k + 1) \<Longrightarrow> ilog2 x \<le> k"
  using ilog2_bounds [of x] powi_less_imp [of "ilog2 x" "k + 1"] by force

subsection \<open>Rounding\<close>

text \<open>Round a rational to an integer: to the nearest, a tie to the even neighbour.\<close>

definition rne :: "rat \<Rightarrow> int" where
  "rne y = (let f = \<lfloor>y\<rfloor>; d = y - of_int f
            in if d < 1 / 2 then f else if 1 / 2 < d then f + 1 else if even f then f else f + 1)"

lemma rne_of_int [simp]: "rne (of_int n) = n"
  by (simp add: rne_def)

lemma rne_floor: "rne y = \<lfloor>y\<rfloor> \<or> rne y = \<lfloor>y\<rfloor> + 1"
  by (auto simp: rne_def Let_def)

lemma rne_le:
  assumes "y \<le> of_int m"
  shows "rne y \<le> m"
proof (cases "\<lfloor>y\<rfloor> < m")
  case True
  then show ?thesis using rne_floor [of y] by auto
next
  case False
  then have "of_int m \<le> y" by (simp add: le_floor_iff not_less)
  with assms have "y = of_int m" by simp
  then show ?thesis by simp
qed

lemma rne_ge:
  assumes "of_int m \<le> y"
  shows "m \<le> rne y"
proof -
  have "m \<le> \<lfloor>y\<rfloor>" using assms by (simp add: le_floor_iff)
  then show ?thesis using rne_floor [of y] by auto
qed

lemma rne_mono:
  assumes "x \<le> y"
  shows "rne x \<le> rne y"
proof (cases "\<lfloor>x\<rfloor> < \<lfloor>y\<rfloor>")
  case True
  then show ?thesis using rne_floor [of x] rne_floor [of y] by auto
next
  case False
  with floor_mono [OF assms] have "\<lfloor>x\<rfloor> = \<lfloor>y\<rfloor>" by simp
  with assms show ?thesis by (auto simp: rne_def Let_def)
qed

text \<open>The unit in the last place: 53 significant bits, and \<open>2^-1074\<close> at the least.\<close>

definition ulp_exp :: "rat \<Rightarrow> int" where
  "ulp_exp x = max (ilog2 x - 52) (-1074)"

definition rnd_pos :: "rat \<Rightarrow> rat" where
  "rnd_pos x = of_int (rne (x / 2 powi (ulp_exp x))) * 2 powi (ulp_exp x)"

definition rnd :: "rat \<Rightarrow> rat" where
  "rnd x = (if x = 0 then 0 else if 0 < x then rnd_pos x else - rnd_pos (- x))"

lemma ulp_exp_mono: "0 < x \<Longrightarrow> x \<le> y \<Longrightarrow> ulp_exp x \<le> ulp_exp y"
  using ilog2_mono [of x y] by (simp add: ulp_exp_def)

lemma rnd_pos_grid_le:
  assumes "x \<le> of_int m * 2 powi (ulp_exp x)"
  shows "rnd_pos x \<le> of_int m * 2 powi (ulp_exp x)"
proof -
  have "x / 2 powi (ulp_exp x) \<le> of_int m" using assms by (simp add: divide_le_eq)
  then have "rne (x / 2 powi (ulp_exp x)) \<le> m" by (rule rne_le)
  then show ?thesis by (simp add: rnd_pos_def)
qed

lemma rnd_pos_grid_ge:
  assumes "of_int m * 2 powi (ulp_exp x) \<le> x"
  shows "of_int m * 2 powi (ulp_exp x) \<le> rnd_pos x"
proof -
  have "of_int m \<le> x / 2 powi (ulp_exp x)" using assms by (simp add: le_divide_eq)
  then have "m \<le> rne (x / 2 powi (ulp_exp x))" by (rule rne_ge)
  then show ?thesis by (simp add: rnd_pos_def)
qed

lemma powi_grid:
  assumes "k \<le> e"
  shows "(2 :: rat) powi e = of_int (2 ^ nat (e - k)) * 2 powi k"
proof -
  have "(2 :: rat) powi e = 2 powi ((e - k) + k)" by simp
  also have "\<dots> = 2 powi (e - k) * 2 powi k" by (rule power_int_add) simp
  finally show ?thesis using assms by (simp add: powi_nat)
qed

lemma rnd_pos_mono:
  assumes "0 < x" and "x \<le> y"
  shows "rnd_pos x \<le> rnd_pos y"
proof (cases "ulp_exp x = ulp_exp y")
  case True
  have "x / 2 powi (ulp_exp x) \<le> y / 2 powi (ulp_exp x)"
    using assms by (simp add: divide_right_mono)
  then show ?thesis by (simp add: rnd_pos_def True rne_mono)
next
  case False
  with ulp_exp_mono [OF assms] have lt: "ulp_exp x < ulp_exp y" by simp
  then have uy: "ulp_exp y = ilog2 y - 52" by (auto simp: ulp_exp_def max_def split: if_splits)
  have "ilog2 x < ilog2 y" using lt by (auto simp: ulp_exp_def)
  then have "(2 :: rat) powi (ilog2 x + 1) \<le> 2 powi (ilog2 y)" by (simp add: powi_mono)
  then have xle: "x \<le> 2 powi (ilog2 y)" using ilog2_bounds [OF assms(1)] by linarith
  have "ulp_exp x \<le> ilog2 y" using lt uy by simp
  note gx = powi_grid [OF this]
  have "rnd_pos x \<le> 2 powi (ilog2 y)"
    using rnd_pos_grid_le [of x "2 ^ nat (ilog2 y - ulp_exp x)"] xle gx by simp
  also have "2 powi (ilog2 y) \<le> rnd_pos y"
  proof -
    have gy: "(2 :: rat) powi (ilog2 y) = of_int (2 ^ nat (ilog2 y - ulp_exp y)) * 2 powi (ulp_exp y)"
      by (rule powi_grid) (simp add: uy)
    have "2 powi (ilog2 y) \<le> y" using ilog2_bounds [of y] assms by simp
    then show ?thesis
      using rnd_pos_grid_ge [of "2 ^ nat (ilog2 y - ulp_exp y)" y] gy by simp
  qed
  finally show ?thesis .
qed

lemma rnd_pos_nonneg: "0 < x \<Longrightarrow> 0 \<le> rnd_pos x"
  using rnd_pos_grid_ge [of 0 x] by simp

lemma rnd_0 [simp]: "rnd 0 = 0"
  by (simp add: rnd_def)

lemma rnd_minus: "rnd (- x) = - rnd x"
  by (auto simp: rnd_def)

lemma rnd_nonneg [simp]: "0 \<le> x \<Longrightarrow> 0 \<le> rnd x"
  by (auto simp: rnd_def rnd_pos_nonneg)

lemma rnd_mono:
  assumes "x \<le> y"
  shows "rnd x \<le> rnd y"
proof -
  consider "0 < x" | "x \<le> 0" "0 \<le> y" | "y < 0" using assms by linarith
  then show ?thesis
  proof cases
    case 1
    with assms show ?thesis by (simp add: rnd_def rnd_pos_mono)
  next
    case 2
    have "rnd x \<le> 0" using rnd_nonneg [of "- x"] 2 by (simp add: rnd_minus)
    also have "0 \<le> rnd y" using 2 by simp
    finally show ?thesis .
  next
    case 3
    with assms show ?thesis by (simp add: rnd_def rnd_pos_mono)
  qed
qed

text \<open>A dyadic number with at most 53 significant bits is not changed.\<close>

lemma rnd_pos_exact_lt:
  assumes "0 < m" and "m < 2 ^ 53" and "-1074 \<le> k"
  shows "rnd_pos (of_int m * 2 powi k) = of_int m * 2 powi k"
proof -
  let ?x = "of_int m * 2 powi k :: rat"
  have x: "0 < ?x" using assms by simp
  have "of_int m < (of_int (2 ^ 53) :: rat)" using assms(2) by (simp only: of_int_less_iff)
  then have "?x < 2 powi 53 * 2 powi k" by (simp add: powi_nat)
  also have "(2 :: rat) powi 53 * 2 powi k = 2 powi ((k + 52) + 1)"
    using power_int_add [of "2 :: rat" 53 k] by (simp add: ac_simps)
  finally have "ilog2 ?x \<le> k + 52" using x by (intro ilog2_less)
  then have u: "ulp_exp ?x \<le> k" using assms(3) by (simp add: ulp_exp_def)
  have g: "(2 :: rat) powi k = of_int (2 ^ nat (k - ulp_exp ?x)) * 2 powi (ulp_exp ?x)"
    using u by (rule powi_grid)
  have e: "?x = of_int (m * 2 ^ nat (k - ulp_exp ?x)) * 2 powi (ulp_exp ?x)"
    using g by (simp only: of_int_mult mult.assoc)
  show ?thesis
    using rnd_pos_grid_le [of ?x "m * 2 ^ nat (k - ulp_exp ?x)"]
      rnd_pos_grid_ge [of "m * 2 ^ nat (k - ulp_exp ?x)" ?x] e
    by (metis order_antisym order_refl)
qed

lemma rnd_exact:
  assumes "\<bar>m\<bar> \<le> 2 ^ 53" and "-1074 \<le> k"
  shows "rnd (of_int m * 2 powi k) = of_int m * 2 powi k"
proof -
  have pos: "rnd (of_int n * 2 powi k) = of_int n * 2 powi k" if n: "0 < n" "n \<le> 2 ^ 53" for n
  proof (cases "n = 2 ^ 53")
    case True
    have "(of_int n * 2 powi k :: rat) = of_int 1 * 2 powi (k + 53)"
      by (simp add: True power_int_add)
    then show ?thesis using rnd_pos_exact_lt [of 1 "k + 53"] assms(2) by (simp add: rnd_def)
  next
    case False
    with n have "n < 2 ^ 53" by simp
    then show ?thesis using rnd_pos_exact_lt [of n k] n assms(2) by (simp add: rnd_def)
  qed
  consider "m = 0" | "0 < m" | "m < 0" by linarith
  then show ?thesis
  proof cases
    case 2
    then show ?thesis using pos [of m] assms by simp
  next
    case 3
    then show ?thesis using pos [of "- m"] assms rnd_minus [of "of_int m * 2 powi k"] by simp
  qed simp
qed

lemma rnd_of_int: "\<bar>m\<bar> \<le> 2 ^ 53 \<Longrightarrow> rnd (of_int m) = of_int m"
  using rnd_exact [of m 0] by simp

lemma rnd_of_nat: "n \<le> 2 ^ 53 \<Longrightarrow> rnd (of_nat n) = of_nat n"
  using rnd_of_int [of "int n"] by simp

lemma rnd_1 [simp]: "rnd 1 = 1"
  using rnd_of_int [of 1] by simp

text \<open>A rounded value is on the grid, so rounding it again changes nothing.\<close>

lemma rnd_pos_form:
  assumes "0 < x"
  shows "\<exists>m k. rnd_pos x = of_int m * 2 powi k \<and> 0 \<le> m \<and> m \<le> 2 ^ 53 \<and> -1074 \<le> k"
proof -
  let ?k = "ulp_exp x"
  have "ilog2 x + 1 \<le> 53 + ?k" by (simp add: ulp_exp_def)
  then have "(2 :: rat) powi (ilog2 x + 1) \<le> 2 powi (53 + ?k)" by (rule powi_mono)
  also have "(2 :: rat) powi (53 + ?k) = of_int (2 ^ 53) * 2 powi ?k"
    by (simp add: power_int_add powi_nat)
  finally have "x \<le> of_int (2 ^ 53) * 2 powi ?k" using ilog2_bounds [OF assms] by simp
  then have "x / 2 powi ?k \<le> of_int (2 ^ 53)" by (simp add: divide_le_eq)
  then have "rne (x / 2 powi ?k) \<le> 2 ^ 53" by (rule rne_le)
  moreover have "0 \<le> rne (x / 2 powi ?k)" using assms by (intro rne_ge) simp
  moreover have "-1074 \<le> ?k" by (simp add: ulp_exp_def)
  ultimately show ?thesis unfolding rnd_pos_def by blast
qed

lemma rnd_idem [simp]: "rnd (rnd x) = rnd x"
proof -
  have pos: "rnd (rnd_pos y) = rnd_pos y" if "0 < y" for y
    using rnd_pos_form [OF that] rnd_exact by auto
  show ?thesis
  proof (cases "0 < x")
    case True
    then show ?thesis using pos [of x] by (simp add: rnd_def [of x])
  next
    case False
    then show ?thesis using pos [of "- x"] by (cases "x = 0") (simp_all add: rnd_def [of x] rnd_minus)
  qed
qed

text \<open>The rounding error below one is at most half of \<open>2^-53\<close>.\<close>

lemma rne_upper: "of_int (rne y) \<le> y + 1 / 2"
proof -
  have "of_int \<lfloor>y\<rfloor> \<le> y + 1 / 2" by linarith
  then show ?thesis by (simp add: rne_def Let_def)
qed

lemma rnd_upper_unit:
  assumes "0 \<le> x" and "x \<le> 1"
  shows "rnd x \<le> x + 2 powi (-54)"
proof -
  consider "x = 0" | "x = 1" | "0 < x" "x < 1" using assms by linarith
  then show ?thesis
  proof cases
    case 3
    have "ilog2 x \<le> -1" using ilog2_less [of x "-1"] 3 by simp
    then have u: "ulp_exp x \<le> -53" by (simp add: ulp_exp_def)
    have "of_int (rne (x / 2 powi (ulp_exp x))) * 2 powi (ulp_exp x)
        \<le> (x / 2 powi (ulp_exp x) + 1 / 2) * 2 powi (ulp_exp x)"
      by (rule mult_right_mono [OF rne_upper]) (simp add: less_imp_le)
    also have "\<dots> = x + 2 powi (ulp_exp x) / 2" by (simp add: field_simps)
    also have "\<dots> \<le> x + 2 powi (-53) / 2" using powi_mono [OF u] by simp
    finally show ?thesis using 3 by (simp add: rnd_def rnd_pos_def power_int_minus)
  qed simp_all
qed

subsection \<open>What a rounding promises\<close>

locale rounding =
  fixes r :: "rat \<Rightarrow> rat"
  assumes r_mono: "x \<le> y \<Longrightarrow> r x \<le> r y"
    and r_0: "r 0 = 0"
    and r_1: "r 1 = 1"
    and r_idem: "r (r x) = r x"
    and r_minus: "r (- x) = - r x"
begin

lemma nonneg: "0 \<le> x \<Longrightarrow> 0 \<le> r x"
  using r_mono [of 0 x] by (simp add: r_0)

lemma nonpos: "x \<le> 0 \<Longrightarrow> r x \<le> 0"
  using r_mono [of x 0] by (simp add: r_0)

lemma le_fixed: "x \<le> y \<Longrightarrow> r y = y \<Longrightarrow> r x \<le> y"
  using r_mono [of x y] by simp

lemma ge_fixed: "y \<le> x \<Longrightarrow> r y = y \<Longrightarrow> y \<le> r x"
  using r_mono [of y x] by simp

lemma unit_interval: "0 \<le> x \<Longrightarrow> x \<le> 1 \<Longrightarrow> 0 \<le> r x \<and> r x \<le> 1"
  using nonneg le_fixed [of x 1] by (simp add: r_1)

text \<open>A product with a factor of the unit interval does not exceed the other factor.\<close>

lemma mult_unit_le:
  assumes "0 \<le> a" and "r a = a" and "f \<le> 1"
  shows "r (a * f) \<le> a"
  by (rule le_fixed [OF _ assms(2)]) (use mult_left_le [OF assms(3,1)] in simp)

lemma mult_ge:
  assumes "0 \<le> a" and "r a = a" and "1 \<le> f"
  shows "a \<le> r (a * f)"
  by (rule ge_fixed [OF _ assms(2)]) (use mult_left_mono [OF assms(3,1)] in simp)

lemma inverse_le_1: "1 \<le> c \<Longrightarrow> r (1 / c) \<le> 1"
  using r_mono [of "1 / c" 1] by (simp add: r_1)

end

interpretation b64: rounding rnd
  by unfold_locales (simp_all add: rnd_mono rnd_minus)

subsection \<open>The values and the operations of double\<close>

datatype double = Fin rat | Infty bool | NaN

text \<open>\<open>Infty True\<close> is minus infinity. \<open>fl\<close> rounds an exact result and overflows to an infinity.\<close>

definition fl :: "rat \<Rightarrow> double" where
  "fl x = (let y = rnd x
           in if 2 ^ 1024 \<le> y then Infty False else if y \<le> - (2 ^ 1024) then Infty True else Fin y)"

fun dneg :: "double \<Rightarrow> double" where
  "dneg (Fin a) = Fin (- a)"
| "dneg (Infty s) = Infty (\<not> s)"
| "dneg NaN = NaN"

fun dadd :: "double \<Rightarrow> double \<Rightarrow> double" where
  "dadd (Fin a) (Fin b) = fl (a + b)"
| "dadd (Infty s) (Infty t) = (if s = t then Infty s else NaN)"
| "dadd NaN y = NaN"
| "dadd x NaN = NaN"
| "dadd (Infty s) y = Infty s"
| "dadd x (Infty s) = Infty s"

definition dsub :: "double \<Rightarrow> double \<Rightarrow> double" where
  "dsub x y = dadd x (dneg y)"

fun dmul :: "double \<Rightarrow> double \<Rightarrow> double" where
  "dmul (Fin a) (Fin b) = fl (a * b)"
| "dmul (Infty s) (Infty t) = Infty (s \<noteq> t)"
| "dmul NaN y = NaN"
| "dmul x NaN = NaN"
| "dmul (Infty s) (Fin b) = (if b = 0 then NaN else Infty (s \<noteq> (b < 0)))"
| "dmul (Fin a) (Infty t) = (if a = 0 then NaN else Infty ((a < 0) \<noteq> t))"

fun ddiv :: "double \<Rightarrow> double \<Rightarrow> double" where
  "ddiv (Fin a) (Fin b) =
     (if b = 0 then (if a = 0 then NaN else Infty (a < 0)) else fl (a / b))"
| "ddiv (Infty s) (Infty t) = NaN"
| "ddiv NaN y = NaN"
| "ddiv x NaN = NaN"
| "ddiv (Infty s) (Fin b) = Infty (s \<noteq> (b < 0))"
| "ddiv (Fin a) (Infty t) = Fin 0"

text \<open>Every comparison with NaN is false.\<close>

fun dless :: "double \<Rightarrow> double \<Rightarrow> bool" where
  "dless (Fin a) (Fin b) = (a < b)"
| "dless (Infty s) (Infty t) = (s \<and> \<not> t)"
| "dless NaN y = False"
| "dless x NaN = False"
| "dless (Infty s) (Fin b) = s"
| "dless (Fin a) (Infty t) = (\<not> t)"

fun deq :: "double \<Rightarrow> double \<Rightarrow> bool" where
  "deq (Fin a) (Fin b) = (a = b)"
| "deq (Infty s) (Infty t) = (s = t)"
| "deq x y = False"

definition dle :: "double \<Rightarrow> double \<Rightarrow> bool" where
  "dle x y = (dless x y \<or> deq x y)"

text \<open>Conversions. A cast to an integer truncates towards zero; out of range it is undefined.\<close>

definition trunc :: "rat \<Rightarrow> int" where
  "trunc x = (if 0 \<le> x then \<lfloor>x\<rfloor> else \<lceil>x\<rceil>)"

definition of_int_d :: "int \<Rightarrow> double" where
  "of_int_d i = fl (of_int i)"

definition u2r :: "'a::len word \<Rightarrow> rat" where
  "u2r w = of_int (uint w)"

definition of_u64_d :: "u64 \<Rightarrow> double" where
  "of_u64_d w = fl (u2r w)"

definition of_u32_d :: "u32 \<Rightarrow> double" where
  "of_u32_d w = fl (u2r w)"

fun to_int_range :: "int \<Rightarrow> int \<Rightarrow> double \<Rightarrow> int option" where
  "to_int_range lo hi (Fin x) = (if lo \<le> trunc x \<and> trunc x < hi then Some (trunc x) else None)"
| "to_int_range lo hi _ = None"

definition to_u64 :: "double \<Rightarrow> u64 option" where
  "to_u64 d = map_option word_of_int (to_int_range 0 (2 ^ 64) d)"

definition to_u32 :: "double \<Rightarrow> u32 option" where
  "to_u32 d = map_option word_of_int (to_int_range 0 (2 ^ 32) d)"

definition to_u16 :: "double \<Rightarrow> u16 option" where
  "to_u16 d = map_option word_of_int (to_int_range 0 (2 ^ 16) d)"

definition to_i32 :: "double \<Rightarrow> int option" where
  "to_i32 d = to_int_range (- (2 ^ 31)) (2 ^ 31) d"

definition to_i64 :: "double \<Rightarrow> int option" where
  "to_i64 d = to_int_range (- (2 ^ 63)) (2 ^ 63) d"

text \<open>A literal of the source, rounded as the compiler does.\<close>

definition lit :: "rat \<Rightarrow> double" where
  "lit q = fl q"

subsection \<open>Evaluation and ranges\<close>

lemma big_power: "(2 :: rat) ^ m < 2 ^ 1024 \<longleftrightarrow> m < 1024"
  by (rule power_strict_increasing_iff) simp

lemma rnd_power2: "rnd (2 ^ n) = 2 ^ n"
  using rnd_exact [of 1 "int n"] by (simp add: powi_nat)

lemma rnd_le_power2: "x \<le> 2 ^ n \<Longrightarrow> rnd x \<le> 2 ^ n"
  by (rule b64.le_fixed) (simp_all add: rnd_power2)

lemma fl_finite:
  assumes "\<bar>x\<bar> \<le> 2 ^ n" and "n < 1024"
  shows "fl x = Fin (rnd x)"
proof -
  have p: "(2 :: rat) ^ n < 2 ^ 1024" using assms(2) by (simp only: big_power)
  have "rnd x \<le> 2 ^ n" using assms(1) by (intro rnd_le_power2) simp
  moreover have "- rnd x \<le> 2 ^ n"
    using assms(1) rnd_le_power2 [of "- x" n] by (simp add: rnd_minus)
  ultimately have "\<not> 2 ^ 1024 \<le> rnd x" "\<not> rnd x \<le> - (2 ^ 1024)" using p by linarith+
  then show ?thesis by (simp only: fl_def Let_def if_False)
qed

lemma fl_unit: "0 \<le> x \<Longrightarrow> x \<le> 1 \<Longrightarrow> fl x = Fin (rnd x)"
  by (rule fl_finite [of _ 0]) simp_all

lemma fl_exact:
  assumes "x = of_int m * 2 powi k" and "\<bar>m\<bar> \<le> 2 ^ 53" and "-1074 \<le> k" and "\<bar>x\<bar> \<le> 2 ^ n" and "n < 1024"
  shows "fl x = Fin x"
  using fl_finite [OF assms(4,5)] rnd_exact [OF assms(2,3)] assms(1) by simp

lemma fl_of_int:
  assumes "\<bar>m\<bar> \<le> 2 ^ 53"
  shows "fl (of_int m) = Fin (of_int m)"
proof -
  have "\<bar>of_int m\<bar> \<le> (2 :: rat) ^ 53" using assms by (metis of_int_abs of_int_le_iff of_int_numeral of_int_power)
  then show ?thesis using fl_finite [of "of_int m" 53] rnd_of_int [OF assms] by simp
qed

lemma fl_numeral: "(numeral v :: int) \<le> 2 ^ 53 \<Longrightarrow> fl (numeral v) = Fin (numeral v)"
  using fl_of_int [of "numeral v"] by simp

lemma fl_0 [simp]: "fl 0 = Fin 0"
  using fl_of_int [of 0] by simp

lemma fl_1 [simp]: "fl 1 = Fin 1"
  using fl_of_int [of 1] by simp

lemma fl_cases: "fl x = Fin (rnd x) \<or> fl x = Infty (x < 0)"
proof -
  have p: "0 < (2 :: rat) ^ 1024" by (rule zero_less_power) simp
  show ?thesis
  proof (cases "x < 0")
    case True
    then have "\<not> 2 ^ 1024 \<le> rnd x" using b64.nonpos [of x] p by linarith
    then show ?thesis using True by (simp only: fl_def Let_def if_False) auto
  next
    case False
    then have "\<not> rnd x \<le> - (2 ^ 1024)" using rnd_nonneg [of x] p by linarith
    then show ?thesis using False by (simp only: fl_def Let_def if_False) auto
  qed
qed

text \<open>A certificate of a rounding: the nearest integer multiple of the unit in the last place.\<close>

lemma ilog2_eqI:
  assumes "2 powi e \<le> x" and "x < 2 powi (e + 1)"
  shows "ilog2 x = e"
proof -
  have x: "0 < x" using powi_pos [of e] assms(1) by linarith
  have "e < ilog2 x + 1"
    using ilog2_bounds [OF x] assms(1) by (intro powi_less_imp) linarith
  moreover have "ilog2 x \<le> e" by (rule ilog2_less [OF x assms(2)])
  ultimately show ?thesis by simp
qed

lemma rne_eqI: "\<bar>y - of_int m\<bar> < 1 / 2 \<Longrightarrow> rne y = m"
proof -
  assume a: "\<bar>y - of_int m\<bar> < 1 / 2"
  then have "\<lfloor>y\<rfloor> = m \<or> \<lfloor>y\<rfloor> = m - 1" by linarith
  with a show ?thesis by (auto simp: rne_def Let_def abs_if split: if_splits)
qed

lemma rnd_eqI:
  assumes "2 powi (k + 52) \<le> x" and "x < 2 powi (k + 53)" and "-1074 \<le> k"
    and "\<bar>x / 2 powi k - of_int m\<bar> < 1 / 2"
  shows "rnd x = of_int m * 2 powi k"
proof -
  have x: "0 < x" using powi_pos [of "k + 52"] assms(1) by linarith
  have "ilog2 x = k + 52" using assms(1,2) by (intro ilog2_eqI) (simp_all add: ac_simps)
  then have "ulp_exp x = k" using assms(3) by (simp add: ulp_exp_def)
  then show ?thesis using x rne_eqI [OF assms(4)] by (simp add: rnd_def rnd_pos_def)
qed

subsection \<open>Conversions of rates\<close>

lemma u2r_nonneg [simp]: "0 \<le> u2r w"
  by (simp only: u2r_def of_int_0_le_iff uint_ge_0)

lemma u2r_le_iff [simp]: "u2r v \<le> u2r w \<longleftrightarrow> v \<le> w"
  by (simp only: u2r_def of_int_le_iff word_le_def)

lemma u2r_less_iff [simp]: "u2r v < u2r w \<longleftrightarrow> v < w"
  by (simp only: u2r_def of_int_less_iff word_less_def)

lemma u2r_eq_iff [simp]: "u2r v = u2r w \<longleftrightarrow> v = w"
  by (simp only: u2r_def of_int_eq_iff word_uint_eq_iff)

lemma u2r_0 [simp]: "u2r 0 = 0"
  by (simp only: u2r_def uint_0_eq of_int_0)

lemma floor_u2r [simp]: "\<lfloor>u2r w\<rfloor> = uint w"
  by (simp only: u2r_def floor_of_int)

lemma trunc_u2r [simp]: "trunc (u2r w) = uint w"
  by (simp add: trunc_def)

lemma u2r_le: "uint w \<le> k \<Longrightarrow> u2r w \<le> of_int k"
  by (simp only: u2r_def of_int_le_iff)

lemma uint_u64_lt: "uint (w :: u64) < 2 ^ 64"
  using uint_lt2p [of w] by simp

lemma u2r_u64_le: "u2r (w :: u64) \<le> 2 ^ 64"
  using u2r_le [of w "2 ^ 64"] uint_u64_lt [of w] by simp

lemma rnd_u2r: "uint w \<le> 2 ^ 53 \<Longrightarrow> rnd (u2r w) = u2r w"
  using rnd_of_int [of "uint w"] uint_ge_0 [of w] by (simp only: u2r_def abs_of_nonneg)

lemma of_u64_d_eq: "of_u64_d w = Fin (rnd (u2r w))"
  unfolding of_u64_d_def by (rule fl_finite [of _ 64]) (use u2r_u64_le [of w] in simp_all)

lemma of_u64_d_exact: "uint w \<le> 2 ^ 53 \<Longrightarrow> of_u64_d w = Fin (u2r w)"
  by (simp add: of_u64_d_eq rnd_u2r)

lemma of_u32_d_eq [simp]: "of_u32_d w = Fin (u2r w)"
proof -
  have "uint w \<le> 2 ^ 53" using uint_lt2p [of w] by simp
  moreover have "u2r w \<le> 2 ^ 53" using u2r_le [OF calculation] by simp
  ultimately show ?thesis using fl_finite [of "u2r w" 53] by (simp add: of_u32_d_def rnd_u2r)
qed

lemma to_u64_Fin:
  assumes "0 \<le> x" and "x \<le> u2r w"
  shows "\<exists>v. to_u64 (Fin x) = Some v \<and> v \<le> w \<and> uint v = \<lfloor>x\<rfloor>"
proof -
  have t: "trunc x = \<lfloor>x\<rfloor>" "0 \<le> \<lfloor>x\<rfloor>" "\<lfloor>x\<rfloor> \<le> uint w"
    using assms floor_mono [OF assms(2)] by (simp_all add: trunc_def)
  then have r: "\<lfloor>x\<rfloor> < 2 ^ 64" using uint_u64_lt [of w] by linarith
  then have "uint (word_of_int \<lfloor>x\<rfloor> :: u64) = \<lfloor>x\<rfloor>"
    using t by (simp add: uint_word_of_int take_bit_int_eq_self)
  with t r show ?thesis by (simp add: to_u64_def word_le_def)
qed

lemma to_u64_u2r [simp]: "to_u64 (Fin (u2r w)) = Some w"
  using uint_u64_lt [of w] by (simp add: to_u64_def)

lemma to_u64_of_u64_d: "uint w \<le> 2 ^ 53 \<Longrightarrow> to_u64 (of_u64_d w) = Some w"
  by (simp add: of_u64_d_exact)

text \<open>Scaling an exactly represented rate by a factor of the unit interval does not raise it.\<close>

lemma to_u64_scale_down:
  assumes "uint w \<le> 2 ^ 53" and "0 \<le> f" and "f \<le> 1"
  shows "\<exists>v. to_u64 (dmul (of_u64_d w) (Fin f)) = Some v \<and> v \<le> w"
proof -
  have ab: "u2r w * f \<le> u2r w" "0 \<le> u2r w * f"
    using assms mult_left_le [of f "u2r w"] by simp_all
  have "\<bar>u2r w * f\<bar> \<le> 2 ^ 53" using ab u2r_le [OF assms(1)] by simp
  then have fl: "fl (u2r w * f) = Fin (rnd (u2r w * f))" by (rule fl_finite) simp
  have "rnd (u2r w * f) \<le> u2r w"
    using assms by (intro b64.mult_unit_le) (simp_all add: rnd_u2r)
  moreover have "0 \<le> rnd (u2r w * f)" using ab by simp
  ultimately show ?thesis
    using to_u64_Fin [of "rnd (u2r w * f)" w] fl assms(1) by (auto simp: of_u64_d_exact)
qed

subsection \<open>Comparisons are monotone in a rounded result\<close>

lemma dless_fl_mono:
  assumes "dless u (fl a)" and "a \<le> b"
  shows "dless u (fl b)"
proof -
  have r: "rnd a \<le> rnd b" using assms(2) by (rule rnd_mono)
  have p: "- ((2 :: rat) ^ 1024) < 2 ^ 1024"
    using zero_less_power [of "2 :: rat" 1024] by linarith
  show ?thesis using assms(1) r p
    by (cases u) (auto simp: fl_def Let_def split: if_splits)
qed

subsection \<open>Values between 0 and 1\<close>

definition unit_double :: "double \<Rightarrow> bool" where
  "unit_double d \<longleftrightarrow> (case d of Fin x \<Rightarrow> 0 \<le> x \<and> x \<le> 1 \<and> rnd x = x | _ \<Rightarrow> False)"

lemma unit_doubleE: "unit_double d \<Longrightarrow> (\<And>x. d = Fin x \<Longrightarrow> 0 \<le> x \<Longrightarrow> x \<le> 1 \<Longrightarrow> rnd x = x \<Longrightarrow> P) \<Longrightarrow> P"
  by (auto simp: unit_double_def split: double.splits)

lemma unit_double_fl: "0 \<le> x \<Longrightarrow> x \<le> 1 \<Longrightarrow> unit_double (fl x)"
  using b64.unit_interval [of x] by (simp add: unit_double_def fl_unit)

lemma rnd_slightly_above_1:
  assumes "x \<le> 1 + 2 powi (-54)"
  shows "rnd x \<le> 1"
proof -
  have "rnd (1 + 2 powi (-54)) = of_int (2 ^ 52) * 2 powi (-52)"
    by (rule rnd_eqI) (simp_all add: power_int_minus)
  then show ?thesis using rnd_mono [OF assms] by (simp add: power_int_minus)
qed

text \<open>A moving average of values between 0 and 1 stays there, also rounded.\<close>

lemma average_unit:
  assumes "unit_double g" and "unit_double a" and "unit_double f"
  shows "unit_double (dadd (dmul (dsub (Fin 1) g) a) (dmul g f))" and "unit_double (dmul (dsub (Fin 1) g) a)"
proof -
  obtain x where x: "g = Fin x" "0 \<le> x" "x \<le> 1" "rnd x = x" by (rule unit_doubleE [OF assms(1)])
  obtain y where y: "a = Fin y" "0 \<le> y" "y \<le> 1" "rnd y = y" by (rule unit_doubleE [OF assms(2)])
  obtain z where z: "f = Fin z" "0 \<le> z" "z \<le> 1" "rnd z = z" by (rule unit_doubleE [OF assms(3)])
  let ?u = "rnd (1 - x)" and ?v = "rnd (rnd (1 - x) * y)" and ?w = "rnd (x * z)"
  have u: "dsub (Fin 1) g = Fin ?u" using x fl_unit [of "1 - x"] by (simp add: dsub_def)
  have ub: "0 \<le> ?u" "?u \<le> 1" "?u \<le> 1 - x + 2 powi (-54)"
    using b64.unit_interval [of "1 - x"] rnd_upper_unit [of "1 - x"] x by auto
  have uy: "0 \<le> ?u * y" "?u * y \<le> 1" using ub y by (simp_all add: mult_le_one)
  have v: "dmul (Fin ?u) a = Fin ?v" using fl_unit [OF uy] y(1) by simp
  have vb: "0 \<le> ?v" "?v \<le> ?u" using uy b64.mult_unit_le [OF ub(1) rnd_idem y(3)] by simp_all
  have xz: "0 \<le> x * z" "x * z \<le> 1" using x z by (simp_all add: mult_le_one)
  have w: "dmul g f = Fin ?w" using fl_unit [OF xz] x(1) z(1) by simp
  have wb: "0 \<le> ?w" "?w \<le> x" using xz b64.mult_unit_le [OF x(2,4) z(3)] by simp_all
  have "?v + ?w \<le> 1 + 2 powi (-54)" using vb ub wb by linarith
  then have "rnd (?v + ?w) \<le> 1" by (rule rnd_slightly_above_1)
  moreover have "?v + ?w \<le> 2" "0 \<le> ?v + ?w" using vb ub wb x by linarith+
  then have "fl (?v + ?w) = Fin (rnd (?v + ?w))" by (intro fl_finite [of _ 1]) simp_all
  ultimately show "unit_double (dadd (dmul (dsub (Fin 1) g) a) (dmul g f))"
    using u v w vb wb by (simp add: unit_double_def)
  show "unit_double (dmul (dsub (Fin 1) g) a)" using u v unit_double_fl [OF uy] fl_unit [OF uy] by simp
qed

lemma unit_double_1: "unit_double (Fin 1)"
  by (simp add: unit_double_def)

end
