(* ===== verification/Fixed_Point_Time.thy ===== *)
theory Fixed_Point_Time
  imports Cpp_Double
begin

text \<open>
  The Q64.64 arithmetic of \<^verbatim>\<open>int64x64_t\<close> (src/core/model/int64x64-128.h and .cc) and the part of
  \<^verbatim>\<open>Time\<close> the transmission times rest on. A \<^verbatim>\<open>uint128_t\<close> is a natural number with the wrap-around
  at \<open>2^128\<close> written out, an \<^verbatim>\<open>int128_t\<close> an integer; a \<^verbatim>\<open>Time\<close> is its count of nanoseconds, an
  integer (the simulator's resolution is NS, so the \<open>int64_t\<close> count does not overflow for 292 years).
\<close>

definition wrap128 :: "nat \<Rightarrow> nat" where
  "wrap128 n = n mod 2 ^ 128"

definition hi_bit :: "nat \<Rightarrow> bool" where
  "hi_bit n = (2 ^ 127 \<le> n)"

definition to_int128 :: "nat \<Rightarrow> int" where
  "to_int128 n = signed_take_bit 127 (int n)"

subsection \<open>Division\<close>

text \<open>The three inner loops of \<^verbatim>\<open>Udiv\<close>, then its outer loop.\<close>

function udiv_skip_zeros :: "nat \<Rightarrow> nat \<Rightarrow> nat \<times> nat" where
  "udiv_skip_zeros shift den =
     (if shift < 64 \<and> even den then udiv_skip_zeros (Suc shift) (den div 2) else (shift, den))"
  by pat_completeness auto
termination by (relation "measure (\<lambda>(shift, den). 64 - shift)") auto

function udiv_skip_leading :: "nat \<Rightarrow> nat \<Rightarrow> nat \<Rightarrow> nat \<times> nat" where
  "udiv_skip_leading digis shift rem =
     (if digis + shift < 64 \<and> \<not> hi_bit rem
      then udiv_skip_leading digis (Suc shift) (wrap128 (2 * rem)) else (shift, rem))"
  by pat_completeness auto
termination by (relation "measure (\<lambda>(digis, shift, rem). 64 - (digis + shift))") auto

function udiv_cast_off :: "nat \<Rightarrow> nat \<Rightarrow> nat \<Rightarrow> nat \<Rightarrow> nat \<times> nat" where
  "udiv_cast_off digis shift rem den =
     (if digis + shift < 64 \<and> (even den \<or> rem < den)
      then udiv_cast_off digis (Suc shift) rem (den div 2) else (shift, den))"
  by pat_completeness auto
termination by (relation "measure (\<lambda>(digis, shift, rem, den). 64 - (digis + shift))") auto

declare udiv_skip_zeros.simps [simp del] udiv_skip_leading.simps [simp del]
  udiv_cast_off.simps [simp del]

text \<open>
  Every turn of the outer loop but the first adds a digit at least, and the first adds none only
  when no digit was asked for, so 66 turns are enough fuel; \<open>udiv\<close> is \<open>None\<close> for a zero divisor
  (the machine traps).
\<close>

fun udiv_loop :: "nat \<Rightarrow> nat \<Rightarrow> nat \<Rightarrow> nat \<Rightarrow> nat \<Rightarrow> nat \<Rightarrow> (nat \<times> nat) option" where
  "udiv_loop 0 digis shift rem den result = None"
| "udiv_loop (Suc fuel) digis shift rem den result =
     (if digis < 64 \<and> rem \<noteq> 0 then
        (let (shift1, rem1) = udiv_skip_leading digis shift rem;
             (shift2, den2) = udiv_cast_off digis shift1 rem1 den
         in if den2 = 0 then None
            else udiv_loop fuel (digis + shift2) 0 (rem1 mod den2) den2
                   (wrap128 (wrap128 (result * 2 ^ shift2) + rem1 div den2)))
      else Some (digis, result))"

definition udiv :: "nat \<Rightarrow> nat \<Rightarrow> nat option" where
  "udiv a b =
     (if b = 0 then None
      else let (shift, den) = udiv_skip_zeros 0 b
           in do { (digis, result) \<leftarrow> udiv_loop 66 0 shift (a mod b) den (a div b);
                   Some (if digis < 64 then wrap128 (result * 2 ^ (64 - digis)) else result) })"

definition out_sign :: "int \<Rightarrow> int \<Rightarrow> bool \<times> nat \<times> nat" where
  "out_sign sa sb = ((sa < 0) \<noteq> (sb < 0), nat \<bar>sa\<bar>, nat \<bar>sb\<bar>)"

definition q_div :: "int \<Rightarrow> int \<Rightarrow> int option" where
  "q_div v w = (let (neg, a, b) = out_sign v w
                in do { res \<leftarrow> udiv a b;
                        let r = to_int128 res;
                        Some (if neg then - r else r) })"

subsection \<open>Multiplication\<close>

definition umul :: "nat \<Rightarrow> nat \<Rightarrow> nat option" where
  "umul a b =
     (let al = a mod 2 ^ 64; bl = b mod 2 ^ 64; ah = a div 2 ^ 64; bh = b div 2 ^ 64;
          res = wrap128 (al * bl) div 2 ^ 64 + wrap128 (ah * bl + al * bh);
          high = ah * bh
      in do { guard (high \<le> 2 ^ 63);
              let res1 = wrap128 res;
              guard (res1 \<le> wrap128 (res1 + high * 2 ^ 64));
              Some (wrap128 (res1 + wrap128 (high * 2 ^ 64))) })"

definition q_mul :: "int \<Rightarrow> int \<Rightarrow> int option" where
  "q_mul v w = (let (neg, a, b) = out_sign v w
                in do { res \<leftarrow> umul a b;
                        guard (if neg then res \<le> 2 ^ 127 else res < 2 ^ 127);
                        Some (if neg then - int res else int res) })"

definition q_of_int :: "int \<Rightarrow> int" where
  "q_of_int n = n * 2 ^ 64"

definition q_round :: "int \<Rightarrow> int" where
  "q_round v = (let a = \<bar>v\<bar>; r = (a + 2 ^ 63) div 2 ^ 64 in if v < 0 then - r else r)"

subsection \<open>Times\<close>

text \<open>
  \<^verbatim>\<open>Seconds (int64x64_t)\<close> and the integer constructors; the resolution is NS, so the unit S has
  \<^verbatim>\<open>timeFrom = 1000000000\<close> and \<^verbatim>\<open>fromMul\<close>, and US has the factor 1000. \<^verbatim>\<open>MicroSeconds\<close> of a double
  converts it to \<^verbatim>\<open>uint64_t\<close> first.
\<close>

definition seconds_q :: "int \<Rightarrow> int option" where
  "seconds_q v = (if v = 0 then Some 0
                  else do { r \<leftarrow> q_mul v (q_of_int 1000000000); Some (q_round r) })"

definition micro_seconds :: "u64 \<Rightarrow> int" where
  "micro_seconds v = (if v = 0 then 0 else sint (v * 1000))"

definition micro_seconds_d :: "double \<Rightarrow> int option" where
  "micro_seconds_d d = map_option micro_seconds (to_u64 d)"

definition nano_seconds :: "u64 \<Rightarrow> int" where
  "nano_seconds v = (if v = 0 then 0 else sint v)"

subsection \<open>Integer operands divide exactly to 64 binary places\<close>

lemma udiv_skip_zeros_integer:
  assumes "shift \<le> 64"
  shows "udiv_skip_zeros shift (b * 2 ^ (64 - shift)) = (64, b)"
  using assms
proof (induction shift "b * 2 ^ (64 - shift)" rule: udiv_skip_zeros.induct)
  case (1 shift)
  show ?case
  proof (cases "shift < 64")
    case True
    then have p: "(2 :: nat) ^ (64 - shift) = 2 * 2 ^ (64 - Suc shift)"
      by (simp flip: power_Suc add: Suc_diff_Suc)
    have "udiv_skip_zeros (Suc shift) (b * 2 ^ (64 - Suc shift)) = (64, b)"
      using "1.hyps" True p by simp
    with True p show ?thesis by (subst udiv_skip_zeros.simps) simp
  next
    case False
    with "1.prems" show ?thesis by (subst udiv_skip_zeros.simps) simp
  qed
qed

lemmas udiv_loop_numeral =
  udiv_loop.simps(2) [of "pred_numeral v" for v, folded numeral_eq_Suc]

lemma udiv_integer:
  assumes "0 < b" and "a < 2 ^ 63" and "b < 2 ^ 63"
  shows "udiv (a * 2 ^ 64) (b * 2 ^ 64) = Some (a * 2 ^ 64 div b)"
proof -
  have z: "udiv_skip_zeros 0 (b * 2 ^ 64) = (64, b)"
    using udiv_skip_zeros_integer [of 0 b] by simp
  let ?r = "(a mod b) * 2 ^ 64"
  have m: "a * 2 ^ 64 mod (b * 2 ^ 64) = ?r" by (simp add: mod_mult_mult2)
  have d: "a * 2 ^ 64 div (b * 2 ^ 64) = a div b" by simp
  have sl: "udiv_skip_leading 0 64 r = (64, r)" for r by (subst udiv_skip_leading.simps) simp
  have co: "udiv_cast_off 0 64 r n = (64, n)" for r n by (subst udiv_cast_off.simps) simp
  have q: "a div b * 2 ^ 64 + ?r div b = a * 2 ^ 64 div b"
  proof -
    have e: "(x * b + y) * K = y * K + b * (x * K)" for x y K :: nat by (simp add: algebra_simps)
    have "a * 2 ^ 64 = (a div b * b + a mod b) * 2 ^ 64" by simp
    also have "\<dots> = ?r + b * (a div b * 2 ^ 64)" by (rule e)
    finally show ?thesis using assms(1) by simp
  qed
  have "a * 2 ^ 64 div b \<le> a * 2 ^ 64" by (rule div_le_dividend)
  also have "\<dots> < 2 ^ 128" using assms(2) by simp
  finally have small: "a * 2 ^ 64 div b < 2 ^ 128" .
  then have small1: "a div b * 2 ^ 64 < 2 ^ 128" using q by linarith
  have nz: "b * 2 ^ 64 \<noteq> 0" using assms(1) by simp
  have e: "udiv (a * 2 ^ 64) (b * 2 ^ 64) = udiv_loop 66 0 64 ?r b (a div b) \<bind>
      (\<lambda>(digis, result). Some (if digis < 64 then wrap128 (result * 2 ^ (64 - digis)) else result))"
    by (simp only: udiv_def nz z m d if_False Let_def prod.case)
  show ?thesis
  proof (cases "a mod b = 0")
    case True
    then have "a div b * 2 ^ 64 = a * 2 ^ 64 div b" using q by simp
    with True small1 show ?thesis
      by (simp only: e) (simp add: udiv_loop_numeral wrap128_def)
  next
    case False
    have "udiv_loop 66 0 64 ?r b (a div b) = Some (64, a * 2 ^ 64 div b)"
      using False small small1 assms q
      by (simp add: udiv_loop_numeral sl co wrap128_def)
    then show ?thesis by (simp only: e) simp
  qed
qed

lemma to_int128_small: "n < 2 ^ 127 \<Longrightarrow> to_int128 n = int n"
  by (simp add: to_int128_def signed_take_bit_int_eq_self)

lemma q_div_integer:
  assumes "0 < b" and "a < 2 ^ 62" and "b < 2 ^ 63"
  shows "q_div (q_of_int (int a)) (q_of_int (int b)) = Some (int (a * 2 ^ 64 div b))"
proof -
  have s: "out_sign (q_of_int (int a)) (q_of_int (int b)) = (False, a * 2 ^ 64, b * 2 ^ 64)"
    by (simp add: out_sign_def q_of_int_def nat_mult_distrib abs_mult)
  have "a * 2 ^ 64 div b \<le> a * 2 ^ 64" by simp
  also have "\<dots> < 2 ^ 127" using assms(2) by simp
  finally have "to_int128 (a * 2 ^ 64 div b) = int (a * 2 ^ 64 div b)" by (rule to_int128_small)
  moreover have "udiv (a * 2 ^ 64) (b * 2 ^ 64) = Some (a * 2 ^ 64 div b)"
    using assms by (intro udiv_integer) simp_all
  ultimately show ?thesis by (simp only: q_div_def s Let_def prod.case bind.bind_lunit if_False)
qed

text \<open>A product with an integer is exact when it fits.\<close>

lemma umul_integer:
  assumes "a * n < 2 ^ 127" and "n < 2 ^ 63"
  shows "umul a (n * 2 ^ 64) = Some (a * n)"
proof -
  let ?al = "a mod 2 ^ 64" and ?ah = "a div 2 ^ 64"
  have split: "a = ?ah * 2 ^ 64 + ?al" by simp
  have e: "(x * K + y) * n = y * n + (x * n) * K" for x y K :: nat by (simp add: algebra_simps)
  have sum: "a * n = ?al * n + (?ah * n) * 2 ^ 64"
    using e [of ?ah "2 ^ 64" ?al] split by simp
  have lo: "?al * n \<le> a * n" "(?ah * n) * 2 ^ 64 \<le> a * n" using sum by linarith+
  have h: "x * 2 ^ 64 < 2 ^ 127 \<Longrightarrow> x < 2 ^ 63" for x :: nat by simp
  have "(?ah * n) * 2 ^ 64 < 2 ^ 127" using lo(2) assms(1) by (rule le_less_trans)
  then have hi: "?ah * n < 2 ^ 63" by (rule h)
  have "?al * n < 2 ^ 127" using lo(1) assms(1) by (rule le_less_trans)
  then have "?al * n < 2 ^ 128" by simp
  moreover have "(?ah * n) * 2 ^ 64 < 2 ^ 128"
  proof -
    have "a * n < 2 ^ 128" using assms(1) by simp
    with lo(2) show ?thesis by (rule le_less_trans)
  qed
  moreover have "?al * n + (?ah * n) * 2 ^ 64 < 2 ^ 128" using sum assms(1) by simp
  moreover have "?ah * n \<le> 2 ^ 63" "?ah * n < 2 ^ 128" using hi by simp_all
  ultimately show ?thesis
    using sum by (simp add: umul_def Let_def wrap128_def mult.commute [of n])
qed

lemma q_mul_integer:
  assumes "a * n < 2 ^ 127" and "n < 2 ^ 63"
  shows "q_mul (int a) (q_of_int (int n)) = Some (int (a * n))"
proof -
  have s: "out_sign (int a) (q_of_int (int n)) = (False, a, n * 2 ^ 64)"
    by (simp add: out_sign_def q_of_int_def nat_mult_distrib abs_mult)
  show ?thesis
    using assms umul_integer [OF assms] by (simp add: q_mul_def s)
qed

lemma q_round_nonneg: "0 \<le> v \<Longrightarrow> q_round v = (v + 2 ^ 63) div 2 ^ 64"
  by (simp add: q_round_def)

lemma q_round_mono: "0 \<le> v \<Longrightarrow> v \<le> w \<Longrightarrow> q_round v \<le> q_round w"
  by (simp add: q_round_nonneg zdiv_mono1)

lemma seconds_q_nonneg:
  assumes "v < 2 ^ 97"
  shows "seconds_q (int v) = Some (q_round (int v * 1000000000))"
proof (cases "v = 0")
  case True
  then show ?thesis by (simp add: seconds_q_def q_round_def)
next
  case False
  have "v * 1000000000 < 2 ^ 127" using assms by simp
  then have "q_mul (int v) (q_of_int (int 1000000000)) = Some (int (v * 1000000000))"
    by (rule q_mul_integer) simp
  then show ?thesis using False by (simp add: seconds_q_def)
qed

end
