(* ===== verification/Data_Rate.thy ===== *)
theory Data_Rate
  imports Fixed_Point_Time
begin

text \<open>
  \<^verbatim>\<open>DataRate\<close> (src/network/utils/data-rate.cc): a rate is its 64-bit count of bits per second; the
  comparisons are those of the word. The parser and the printer of rates, the arithmetic the rate
  controllers use, and the transmission time of a packet.
\<close>

type_synonym rate = u64

subsection \<open>Arithmetic\<close>

definition dr_add :: "rate \<Rightarrow> rate \<Rightarrow> rate" where
  "dr_add a b = a + b"

definition dr_sub :: "rate \<Rightarrow> rate \<Rightarrow> rate option" where
  "dr_sub a b = do { guard (b \<le> a); Some (a - b) }"

definition dr_scale :: "rate \<Rightarrow> double \<Rightarrow> rate option" where
  "dr_scale a f = to_u64 (dmul (of_u64_d a) f)"

definition dr_mult :: "rate \<Rightarrow> u64 \<Rightarrow> rate" where
  "dr_mult a n = a * n"

definition dr_div :: "rate \<Rightarrow> double \<Rightarrow> rate option" where
  "dr_div a c = to_u64 (ddiv (of_u64_d a) c)"

definition CalculateBitsTxTime :: "rate \<Rightarrow> u32 \<Rightarrow> int option" where
  "CalculateBitsTxTime r bits =
     do { q \<leftarrow> q_div (q_of_int (uint bits)) (q_of_int (sint r)); seconds_q q }"

definition CalculateBytesTxTime :: "rate \<Rightarrow> u32 \<Rightarrow> int option" where
  "CalculateBytesTxTime r bytes = CalculateBitsTxTime r (bytes * 8)"

subsection \<open>Text\<close>

definition digit_val :: "char \<Rightarrow> nat option" where
  "digit_val c = (let n = of_char c in if 48 \<le> n \<and> n \<le> 57 then Some (n - 48) else None)"

definition is_digit :: "char \<Rightarrow> bool" where
  "is_digit c = (digit_val c \<noteq> None)"

fun digits_val :: "nat \<Rightarrow> string \<Rightarrow> nat" where
  "digits_val acc [] = acc"
| "digits_val acc (c # cs) =
     (case digit_val c of None \<Rightarrow> acc | Some d \<Rightarrow> digits_val (10 * acc + d) cs)"

text \<open>
  \<^verbatim>\<open>iss >> r\<close> for a double: white space, digits, a point, digits (the text holds no other
  character); without a digit the value is 0. For a \<^verbatim>\<open>uint64_t\<close>: white space and digits, the
  largest value when they do not fit.
\<close>

definition scan_double :: "string \<Rightarrow> double" where
  "scan_double s =
     (let t = dropWhile (\<lambda>c. c = CHR '' '') s;
          ip = takeWhile is_digit t;
          rest = dropWhile is_digit t;
          fp = (case rest of [] \<Rightarrow> [] | c # cs \<Rightarrow> if c = CHR ''.'' then takeWhile is_digit cs else [])
      in lit (of_nat (digits_val 0 (ip @ fp)) / 10 ^ length fp))"

definition scan_u64 :: "string \<Rightarrow> u64" where
  "scan_u64 s =
     (let n = digits_val 0 (takeWhile is_digit (dropWhile (\<lambda>c. c = CHR '' '') s))
      in if n < 2 ^ 64 then of_nat n else - 1)"

text \<open>The factors each unit multiplies the number by, in the order of the multiplications.\<close>

definition rate_units :: "(string \<times> rat list) list" where
  "rate_units =
     [(''bps'', []), (''b/s'', []), (''Bps'', [8]), (''B/s'', [8]),
      (''kbps'', [1000]), (''kb/s'', [1000]), (''Kbps'', [1000]), (''Kb/s'', [1000]),
      (''kBps'', [8000]), (''kB/s'', [8000]), (''KBps'', [8000]), (''KB/s'', [8000]),
      (''Kib/s'', [1024]), (''KiB/s'', [8192]),
      (''Mbps'', [1000000]), (''Mb/s'', [1000000]), (''MBps'', [8000000]), (''MB/s'', [8000000]),
      (''Mib/s'', [1048576]), (''MiB/s'', [1048576, 8]),
      (''Gbps'', [1000000000]), (''Gb/s'', [1000000000]),
      (''GBps'', [8, 1000000000]), (''GB/s'', [8, 1000000000]),
      (''Gib/s'', [1048576, 1024]), (''GiB/s'', [1048576, 1024, 8])]"

definition unit_char :: "char \<Rightarrow> bool" where
  "unit_char c = (\<not> (is_digit c \<or> c = CHR ''.'' \<or> c = CHR '' ''))"

datatype parse_result = Bad_Rate | Parsed rate | Parse_Undefined

definition DoParse :: "string \<Rightarrow> parse_result" where
  "DoParse s =
     (let trailer = dropWhile (\<lambda>c. \<not> unit_char c) s
      in if trailer \<noteq> [] then
           (let r = scan_double (takeWhile (\<lambda>c. \<not> unit_char c) s)
            in case map_of rate_units trailer of
                 None \<Rightarrow> Bad_Rate
               | Some fs \<Rightarrow> (case to_u64 (foldl (\<lambda>d f. dmul d (lit f)) r fs) of
                               None \<Rightarrow> Parse_Undefined | Some v \<Rightarrow> Parsed v))
         else Parsed (scan_u64 s))"

fun dec_digits :: "nat \<Rightarrow> string" where
  "dec_digits n = (if n < 10 then [char_of (48 + n)]
                   else dec_digits (n div 10) @ [char_of (48 + n mod 10)])"

declare dec_digits.simps [simp del]

definition print_rate :: "rate \<Rightarrow> string" where
  "print_rate r = dec_digits (unat r) @ ''bps''"

subsection \<open>Transmission times\<close>

lemma uint_unat: "uint (w :: 'a::len word) = int (unat w)"
  by (rule uint_nat)

lemma CalculateBitsTxTime_eq:
  assumes "0 < unat r" and "unat r < 2 ^ 63"
  shows "CalculateBitsTxTime r bits
    = Some (q_round (int (unat bits * 2 ^ 64 div unat r) * 1000000000))"
proof -
  let ?q = "unat bits * 2 ^ 64 div unat r"
  have "int (unat r) < 2 ^ 63" using assms(2) by (simp flip: of_nat_less_iff [where ?'a = int])
  then have "uint r < 2 ^ 63" by (simp only: uint_unat)
  then have s: "sint r = int (unat r)" "uint bits = int (unat bits)"
    using sint_u64_small by (simp_all only: uint_unat)
  have "unat bits < 2 ^ 62" by (rule less_trans [OF u32_lt]) simp
  then have "q_div (q_of_int (uint bits)) (q_of_int (sint r)) = Some (int ?q)"
    using assms q_div_integer [of "unat r" "unat bits"] by (simp only: s)
  moreover have "?q \<le> unat bits * 2 ^ 64" by (rule div_le_dividend)
  moreover have "unat bits * 2 ^ 64 < 2 ^ 97"
    using less_trans [OF u32_lt [of bits], of 8589934592] by simp
  ultimately show ?thesis
    by (simp only: CalculateBitsTxTime_def bind.bind_lunit seconds_q_nonneg le_less_trans)
qed

text \<open>C22: The transmission time of any number of bits, at any rate below \<open>2 ^ 63\<close> b/s, is defined and
  is the exact time in nanoseconds, up to half a nanosecond and a last place of the fixed-point
  quotient.\<close>

theorem tx_time_error:
  fixes bits :: u32 and r :: rate
  assumes "0 < unat r" and "unat r < 2 ^ 63"
  shows "\<exists>t. CalculateBitsTxTime r bits = Some t \<and> 0 \<le> t
    \<and> of_int t \<le> of_nat (unat bits) * 1000000000 / of_nat (unat r) + (1 / 2 :: rat)
    \<and> of_nat (unat bits) * 1000000000 / of_nat (unat r) - (1 / 2 + 1 / 2 ^ 34 :: rat) \<le> of_int t"
proof -
  let ?b = "unat bits" and ?r = "unat r"
  let ?q = "?b * 2 ^ 64 div ?r"
  let ?v = "int ?q * 1000000000"
  let ?t = "(?v + 2 ^ 63) div 2 ^ 64"
  let ?x = "of_nat ?b * 1000000000 / of_nat ?r :: rat"
  have t: "CalculateBitsTxTime r bits = Some ?t"
    using CalculateBitsTxTime_eq [OF assms, of bits] q_round_nonneg [of ?v] by simp
  have m: "?v + 2 ^ 63 = 2 ^ 64 * ?t + (?v + 2 ^ 63) mod 2 ^ 64" by simp
  have "0 \<le> (?v + 2 ^ 63) mod 2 ^ 64" "(?v + 2 ^ 63) mod 2 ^ 64 < 2 ^ 64" by simp_all
  with m have tb: "2 ^ 64 * ?t \<le> ?v + 2 ^ 63" "?v + 2 ^ 63 < 2 ^ 64 * ?t + 2 ^ 64" by linarith+
  have q: "of_nat ?q \<le> (of_nat ?b * 2 ^ 64 / of_nat ?r :: rat)"
    "of_nat ?b * 2 ^ 64 / of_nat ?r < (of_nat ?q + 1 :: rat)"
  proof -
    have "?r * ?q \<le> ?b * 2 ^ 64" by (rule times_div_less_eq_dividend)
    moreover have "?b * 2 ^ 64 < ?r * (?q + 1)"
      using dividend_less_times_div [OF assms(1), of "?b * 2 ^ 64"] by (simp only: distrib_left mult_1_right add.commute)
    ultimately have "?r * ?q \<le> ?b * 2 ^ 64" "?b * 2 ^ 64 < ?r * (?q + 1)" .
    then have "of_nat (?r * ?q) \<le> (of_nat (?b * 2 ^ 64) :: rat)"
      "(of_nat (?b * 2 ^ 64) :: rat) < of_nat (?r * (?q + 1))"
      by (simp_all only: of_nat_le_iff of_nat_less_iff)
    then show "of_nat ?q \<le> (of_nat ?b * 2 ^ 64 / of_nat ?r :: rat)"
      "of_nat ?b * 2 ^ 64 / of_nat ?r < (of_nat ?q + 1 :: rat)"
      using assms(1) by (simp_all add: field_simps del: of_nat_unat)
  qed
  have x: "of_nat ?b * 2 ^ 64 / of_nat ?r * 1000000000 = ?x * 2 ^ 64" by simp
  have "(of_int (2 ^ 64 * ?t) :: rat) \<le> of_int (?v + 2 ^ 63)"
    "(of_int (?v + 2 ^ 63) :: rat) < of_int (2 ^ 64 * ?t + 2 ^ 64)"
    using tb by (simp_all only: of_int_le_iff of_int_less_iff)
  then have "2 ^ 64 * of_int ?t \<le> of_nat ?q * 1000000000 + (2 ^ 63 :: rat)"
    "of_nat ?q * 1000000000 + (2 ^ 63 :: rat) < 2 ^ 64 * of_int ?t + 2 ^ 64"
    by (simp_all only: of_int_mult of_int_add of_int_of_nat_eq of_int_power of_int_numeral)
  with q x have "of_int ?t \<le> ?x + 1 / 2" "?x - (1 / 2 + 1 / 2 ^ 34) \<le> of_int ?t"
    by (simp_all add: field_simps del: of_nat_unat)
  moreover have "0 \<le> ?t" by simp
  ultimately show ?thesis using t by blast
qed

text \<open>A faster link, or a smaller packet, never has a longer transmission time.\<close>

lemma tx_time_antitone:
  assumes "0 < unat r" and "r \<le> r'" and "unat r' < 2 ^ 63" and "bits \<le> bits'"
    and "CalculateBitsTxTime r bits' = Some t" and "CalculateBitsTxTime r' bits = Some t'"
  shows "t' \<le> t"
proof -
  have le: "unat r \<le> unat r'" "unat bits \<le> unat bits'"
    using assms(2,4) by (simp_all add: word_le_nat_alt)
  then have r: "unat r < 2 ^ 63" "0 < unat r'" using assms(1,3) by linarith+
  have "unat bits * 2 ^ 64 div unat r' \<le> unat bits' * 2 ^ 64 div unat r"
    using div_le_mono2 [OF assms(1) le(1)] div_le_mono mult_le_mono1 [OF le(2)] le_trans by blast
  then have "q_round (int (unat bits * 2 ^ 64 div unat r') * 1000000000)
    \<le> q_round (int (unat bits' * 2 ^ 64 div unat r) * 1000000000)"
    by (intro q_round_mono mult_right_mono) (simp_all only: zero_le_mult_iff of_nat_0_le_iff of_nat_le_iff, simp_all)
  then show ?thesis
    using assms(5,6) CalculateBitsTxTime_eq [OF assms(1) r(1), of bits']
      CalculateBitsTxTime_eq [OF r(2) assms(3), of bits] by (simp only: option.inject)
qed

subsection \<open>The printed rate is parsed back\<close>

lemma digit_char: "n < 10 \<Longrightarrow> digit_val (char_of (48 + n)) = Some n"
  by (simp add: digit_val_def)

lemma dec_digits_digits: "c \<in> set (dec_digits n) \<Longrightarrow> is_digit c"
proof (induction n rule: dec_digits.induct)
  case (1 n)
  have "is_digit (char_of (48 + n mod 10))" by (simp add: is_digit_def digit_char)
  moreover have "n < 10 \<Longrightarrow> is_digit (char_of (48 + n))" by (simp add: is_digit_def digit_char)
  ultimately show ?case using 1 by (auto simp: dec_digits.simps [of n] split: if_splits)
qed

lemma digits_val_append:
  "(\<And>c. c \<in> set xs \<Longrightarrow> is_digit c) \<Longrightarrow> digits_val acc (xs @ ys) = digits_val (digits_val acc xs) ys"
proof (induction xs arbitrary: acc)
  case (Cons c cs)
  then obtain d where "digit_val c = Some d" by (auto simp: is_digit_def)
  with Cons show ?case by simp
qed simp

lemma digits_val_dec_digits: "digits_val 0 (dec_digits n) = n"
proof (induction n rule: dec_digits.induct)
  case (1 n)
  show ?case
  proof (cases "n < 10")
    case True
    then show ?thesis by (simp add: dec_digits.simps [of n] digit_char)
  next
    case False
    have "digits_val 0 (dec_digits n) = digits_val (digits_val 0 (dec_digits (n div 10))) [char_of (48 + n mod 10)]"
      using False by (simp add: dec_digits.simps [of n] digits_val_append dec_digits_digits)
    also have "\<dots> = 10 * (n div 10) + n mod 10"
      using 1 [OF False] by (simp add: digit_char)
    finally show ?thesis by simp
  qed
qed

lemma dec_digits_nonempty: "dec_digits n \<noteq> []"
  by (simp add: dec_digits.simps [of n])

text \<open>C23: A rate of up to \<open>2 ^ 53\<close> b/s that is printed is parsed back to the same rate.\<close>

theorem print_parse:
  assumes "uint r \<le> 2 ^ 53"
  shows "DoParse (print_rate r) = Parsed r"
proof -
  let ?d = "dec_digits (unat r)"
  have nd: "c \<in> set ?d \<Longrightarrow> \<not> unit_char c" for c
    using dec_digits_digits by (auto simp: unit_char_def)
  have u: "unit_char (CHR ''b'')" by (simp add: unit_char_def is_digit_def digit_val_def)
  have t: "dropWhile (\<lambda>c. \<not> unit_char c) (print_rate r) = ''bps''"
    "takeWhile (\<lambda>c. \<not> unit_char c) (print_rate r) = ?d"
    using nd u unfolding print_rate_def
    by (simp_all add: dropWhile_append2 takeWhile_append2)
  have sp: "dropWhile (\<lambda>c. c = CHR '' '') ?d = ?d"
  proof (cases ?d)
    case (Cons c cs)
    then have "is_digit c" using dec_digits_digits [of c "unat r"] by simp
    then have "c \<noteq> CHR '' ''" by (auto simp: is_digit_def digit_val_def)
    with Cons show ?thesis by simp
  qed simp
  have tw: "takeWhile is_digit ?d = ?d" "dropWhile is_digit ?d = []"
    using dec_digits_digits by (auto simp: takeWhile_eq_all_conv dropWhile_eq_Nil_conv)
  have "scan_double ?d = lit (of_nat (unat r))"
    by (simp add: scan_double_def sp tw digits_val_dec_digits del: of_nat_unat)
  also have "\<dots> = Fin (u2r r)"
    using of_u64_d_exact [OF assms] unfolding lit_def of_u64_d_def u2r_def by (simp add: of_nat_unat)
  finally have sd: "scan_double ?d = Fin (u2r r)" .
  show ?thesis
    using to_u64_u2r [of r] unfolding DoParse_def t Let_def sd by (simp add: rate_units_def)
qed

subsection \<open>Witnesses\<close>

lemma tx_time_error_witness: "\<exists>t. CalculateBitsTxTime 100000000000 8192 = Some t \<and> 0 \<le> t"
  using tx_time_error [of 100000000000 8192] by auto

lemma tx_time_antitone_witness:
  "\<exists>t t'. CalculateBitsTxTime 25000000000 8192 = Some t \<and> CalculateBitsTxTime 100000000000 800 = Some t'
     \<and> t' \<le> t"
proof -
  obtain t where t: "CalculateBitsTxTime 25000000000 8192 = Some t"
    using CalculateBitsTxTime_eq [of 25000000000 8192] by simp
  obtain t' where t': "CalculateBitsTxTime 100000000000 800 = Some t'"
    using CalculateBitsTxTime_eq [of 100000000000 800] by simp
  have "t' \<le> t" by (rule tx_time_antitone [OF _ _ _ _ t t']) simp_all
  with t t' show ?thesis by blast
qed

lemma print_parse_witness: "DoParse (print_rate 100000000000) = Parsed 100000000000"
  by (rule print_parse) simp

end
