(* ===== verification/Wire_Bytes.thy ===== *)
theory Wire_Bytes
  imports Hpcc_Prelude
begin

text \<open>
  \<^verbatim>\<open>Buffer::Iterator\<close> (src/network/model/buffer.h and .cc): how the headers write integers to the
  bytes of a packet and read them back. Writing gives the bytes written; reading takes the bytes
  from the iterator to the end of the buffer and returns the value and the bytes left, \<open>None\<close> past
  the end (the assertion of \<^verbatim>\<open>PeekU8\<close>). The plain and the \<^verbatim>\<open>Lsb\<close> forms are little endian, the
  \<^verbatim>\<open>Hton\<close> forms big endian. The locale \<open>codec\<close> is the contract of a header: what is written is read
  back, and takes a fixed size.
\<close>

type_synonym bytes = "u8 list"
type_synonym 'a reader = "bytes \<Rightarrow> ('a \<times> bytes) option"

subsection \<open>Writing\<close>

definition WriteU8 :: "u8 \<Rightarrow> bytes" where
  "WriteU8 data = [data]"

definition WriteU16 :: "u16 \<Rightarrow> bytes" where
  "WriteU16 data = WriteU8 (byte_of 0 data) @ WriteU8 (byte_of 1 data)"

definition WriteU32 :: "u32 \<Rightarrow> bytes" where
  "WriteU32 data = WriteU8 (byte_of 0 data) @ WriteU8 (byte_of 1 data) @ WriteU8 (byte_of 2 data)
     @ WriteU8 (byte_of 3 data)"

definition WriteU64 :: "u64 \<Rightarrow> bytes" where
  "WriteU64 data = WriteU8 (byte_of 0 data) @ WriteU8 (byte_of 1 data) @ WriteU8 (byte_of 2 data)
     @ WriteU8 (byte_of 3 data) @ WriteU8 (byte_of 4 data) @ WriteU8 (byte_of 5 data)
     @ WriteU8 (byte_of 6 data) @ WriteU8 (byte_of 7 data)"

definition WriteHtolsbU16 :: "u16 \<Rightarrow> bytes" where
  "WriteHtolsbU16 data = WriteU8 (byte_of 0 data) @ WriteU8 (byte_of 1 data)"

definition WriteHtolsbU32 :: "u32 \<Rightarrow> bytes" where
  "WriteHtolsbU32 data = WriteU8 (byte_of 0 data) @ WriteU8 (byte_of 1 data)
     @ WriteU8 (byte_of 2 data) @ WriteU8 (byte_of 3 data)"

definition WriteHtolsbU64 :: "u64 \<Rightarrow> bytes" where
  "WriteHtolsbU64 data = WriteU8 (byte_of 0 data) @ WriteU8 (byte_of 1 data)
     @ WriteU8 (byte_of 2 data) @ WriteU8 (byte_of 3 data) @ WriteU8 (byte_of 4 data)
     @ WriteU8 (byte_of 5 data) @ WriteU8 (byte_of 6 data) @ WriteU8 (byte_of 7 data)"

definition WriteHtonU16 :: "u16 \<Rightarrow> bytes" where
  "WriteHtonU16 data = WriteU8 (byte_of 1 data) @ WriteU8 (byte_of 0 data)"

definition WriteHtonU32 :: "u32 \<Rightarrow> bytes" where
  "WriteHtonU32 data = WriteU8 (byte_of 3 data) @ WriteU8 (byte_of 2 data)
     @ WriteU8 (byte_of 1 data) @ WriteU8 (byte_of 0 data)"

definition WriteHtonU64 :: "u64 \<Rightarrow> bytes" where
  "WriteHtonU64 data = WriteU8 (byte_of 7 data) @ WriteU8 (byte_of 6 data)
     @ WriteU8 (byte_of 5 data) @ WriteU8 (byte_of 4 data) @ WriteU8 (byte_of 3 data)
     @ WriteU8 (byte_of 2 data) @ WriteU8 (byte_of 1 data) @ WriteU8 (byte_of 0 data)"

subsection \<open>Reading\<close>

text \<open>\<open>shift_in d b\<close> is \<^verbatim>\<open>data <<= 8; data |= b\<close>.\<close>

definition shift_in :: "'a::len word \<Rightarrow> u8 \<Rightarrow> 'a word" where
  "shift_in d b = push_bit 8 d OR ucast b"

fun ReadU8 :: "u8 reader" where
  "ReadU8 [] = None"
| "ReadU8 (b # bs) = Some (b, bs)"

definition ReadU16 :: "u16 reader" where
  "ReadU16 s = do { (b0, s) \<leftarrow> ReadU8 s; (b1, s) \<leftarrow> ReadU8 s; Some (shift_in (ucast b1) b0, s) }"

definition ReadU32 :: "u32 reader" where
  "ReadU32 s = do { (b0, s) \<leftarrow> ReadU8 s; (b1, s) \<leftarrow> ReadU8 s; (b2, s) \<leftarrow> ReadU8 s;
     (b3, s) \<leftarrow> ReadU8 s; Some (shift_in (shift_in (shift_in (ucast b3) b2) b1) b0, s) }"

definition ReadU64 :: "u64 reader" where
  "ReadU64 s = do { (b0, s) \<leftarrow> ReadU8 s; (b1, s) \<leftarrow> ReadU8 s; (b2, s) \<leftarrow> ReadU8 s;
     (b3, s) \<leftarrow> ReadU8 s; (b4, s) \<leftarrow> ReadU8 s; (b5, s) \<leftarrow> ReadU8 s; (b6, s) \<leftarrow> ReadU8 s;
     (b7, s) \<leftarrow> ReadU8 s;
     Some (shift_in (shift_in (shift_in (shift_in (shift_in (shift_in (shift_in (ucast b7) b6) b5)
       b4) b3) b2) b1) b0, s) }"

definition ReadLsbtohU16 :: "u16 reader" where
  "ReadLsbtohU16 s = do { (b0, s) \<leftarrow> ReadU8 s; (b1, s) \<leftarrow> ReadU8 s; Some (shift_in (ucast b1) b0, s) }"

definition ReadLsbtohU32 :: "u32 reader" where
  "ReadLsbtohU32 s = do { (b0, s) \<leftarrow> ReadU8 s; (b1, s) \<leftarrow> ReadU8 s; (b2, s) \<leftarrow> ReadU8 s;
     (b3, s) \<leftarrow> ReadU8 s; Some (shift_in (shift_in (shift_in (ucast b3) b2) b1) b0, s) }"

definition ReadLsbtohU64 :: "u64 reader" where
  "ReadLsbtohU64 s = do { (b0, s) \<leftarrow> ReadU8 s; (b1, s) \<leftarrow> ReadU8 s; (b2, s) \<leftarrow> ReadU8 s;
     (b3, s) \<leftarrow> ReadU8 s; (b4, s) \<leftarrow> ReadU8 s; (b5, s) \<leftarrow> ReadU8 s; (b6, s) \<leftarrow> ReadU8 s;
     (b7, s) \<leftarrow> ReadU8 s;
     Some (shift_in (shift_in (shift_in (shift_in (shift_in (shift_in (shift_in (ucast b7) b6) b5)
       b4) b3) b2) b1) b0, s) }"

definition ReadNtohU16 :: "u16 reader" where
  "ReadNtohU16 s = do { (b1, s) \<leftarrow> ReadU8 s; (b0, s) \<leftarrow> ReadU8 s; Some (shift_in (ucast b1) b0, s) }"

definition ReadNtohU32 :: "u32 reader" where
  "ReadNtohU32 s = do { (b3, s) \<leftarrow> ReadU8 s; (b2, s) \<leftarrow> ReadU8 s; (b1, s) \<leftarrow> ReadU8 s;
     (b0, s) \<leftarrow> ReadU8 s; Some (shift_in (shift_in (shift_in (ucast b3) b2) b1) b0, s) }"

definition ReadNtohU64 :: "u64 reader" where
  "ReadNtohU64 s = do { (b7, s) \<leftarrow> ReadU8 s; (b6, s) \<leftarrow> ReadU8 s; (b5, s) \<leftarrow> ReadU8 s;
     (b4, s) \<leftarrow> ReadU8 s; (b3, s) \<leftarrow> ReadU8 s; (b2, s) \<leftarrow> ReadU8 s; (b1, s) \<leftarrow> ReadU8 s;
     (b0, s) \<leftarrow> ReadU8 s;
     Some (shift_in (shift_in (shift_in (shift_in (shift_in (shift_in (shift_in (ucast b7) b6) b5)
       b4) b3) b2) b1) b0, s) }"

text \<open>\<open>Next n\<close> of an iterator that reads.\<close>

definition Next :: "nat \<Rightarrow> bytes \<Rightarrow> bytes option" where
  "Next n s = do { guard (n \<le> length s); Some (drop n s) }"

subsection \<open>Bytes make the word again\<close>

lemma bit_shift_in:
  "bit (shift_in (d :: 'a::len word) b) i \<longleftrightarrow> i < LENGTH('a) \<and> (if i < 8 then bit b i else bit d (i - 8))"
  by (auto simp: shift_in_def bit_or_iff bit_push_bit_iff bit_ucast_iff not_less
      dest: bit_imp_le_length)

text \<open>The high bytes of a word, read by shifting: from byte \<open>n\<close> on.\<close>

lemma shift_in_byte:
  "shift_in (drop_bit (8 * Suc n) w) (byte_of n w) = drop_bit (8 * n) (w :: 'a::len word)"
  by (rule bit_word_eqI)
    (auto simp: bit_shift_in bit_drop_bit_eq bit_byte_of algebra_simps dest: bit_imp_le_length)

lemma ucast_top_byte:
  "LENGTH('a) = 8 * Suc n \<Longrightarrow> ucast (byte_of n w) = drop_bit (8 * n) (w :: 'a::len word)"
  by (rule bit_word_eqI)
    (auto simp: bit_ucast_iff bit_drop_bit_eq bit_byte_of dest: bit_imp_le_length)

lemma bytes_u16: "shift_in (ucast (byte_of 1 w)) (byte_of 0 w) = (w :: u16)"
  using shift_in_byte [of 0 w] ucast_top_byte [of 1 w] by simp

lemma bytes_u32:
  "shift_in (shift_in (shift_in (ucast (byte_of 3 w)) (byte_of 2 w)) (byte_of 1 w)) (byte_of 0 w)
    = (w :: u32)"
  using shift_in_byte [of 0 w] shift_in_byte [of 1 w] shift_in_byte [of 2 w]
    ucast_top_byte [of 3 w] by (simp add: eval_nat_numeral)

lemma bytes_u64:
  "shift_in (shift_in (shift_in (shift_in (shift_in (shift_in (shift_in (ucast (byte_of 7 w))
     (byte_of 6 w)) (byte_of 5 w)) (byte_of 4 w)) (byte_of 3 w)) (byte_of 2 w)) (byte_of 1 w))
     (byte_of 0 w) = (w :: u64)"
  using shift_in_byte [of 0 w] shift_in_byte [of 1 w] shift_in_byte [of 2 w] shift_in_byte [of 3 w]
    shift_in_byte [of 4 w] shift_in_byte [of 5 w] shift_in_byte [of 6 w] ucast_top_byte [of 7 w]
  by (simp add: eval_nat_numeral)

lemmas bytes_word = bytes_u16 [unfolded One_nat_def] bytes_u32 [unfolded One_nat_def]
  bytes_u64 [unfolded One_nat_def]

subsection \<open>The contract of a header\<close>

locale codec =
  fixes ser :: "'a \<Rightarrow> bytes" and des :: "'a reader" and wf :: "'a \<Rightarrow> bool" and width :: nat
  assumes round_trip: "wf x \<Longrightarrow> des (ser x @ rest) = Some (x, rest)"
    and fixed_size: "wf x \<Longrightarrow> length (ser x) = width"
begin

lemma injective: "wf x \<Longrightarrow> wf y \<Longrightarrow> ser x = ser y \<Longrightarrow> x = y"
  using round_trip [of x "[]"] round_trip [of y "[]"] by simp

lemma self_delimiting: "wf x \<Longrightarrow> wf y \<Longrightarrow> ser x @ r = ser y @ s \<Longrightarrow> x = y \<and> r = s"
  by (metis round_trip option.inject prod.inject)

fun des_list :: "nat \<Rightarrow> bytes \<Rightarrow> ('a list \<times> bytes) option" where
  "des_list 0 s = Some ([], s)"
| "des_list (Suc n) s = do { (x, s) \<leftarrow> des s; (xs, s) \<leftarrow> des_list n s; Some (x # xs, s) }"

lemma list_round_trip:
  "list_all wf xs \<Longrightarrow> des_list (length xs) (concat (map ser xs) @ rest) = Some (xs, rest)"
proof (induction xs)
  case (Cons x xs)
  then have "des (ser x @ (concat (map ser xs) @ rest)) = Some (x, concat (map ser xs) @ rest)"
    by (intro round_trip) simp
  then show ?case using Cons by simp
qed simp

end

interpretation u8: codec WriteU8 ReadU8 "\<lambda>_. True" 1
  by unfold_locales (simp_all add: WriteU8_def)

interpretation u16: codec WriteU16 ReadU16 "\<lambda>_. True" 2
  by unfold_locales (simp_all add: WriteU16_def ReadU16_def WriteU8_def bytes_word)

interpretation u32: codec WriteU32 ReadU32 "\<lambda>_. True" 4
  by unfold_locales (simp_all add: WriteU32_def ReadU32_def WriteU8_def bytes_word)

interpretation u64: codec WriteU64 ReadU64 "\<lambda>_. True" 8
  by unfold_locales (simp_all add: WriteU64_def ReadU64_def WriteU8_def bytes_word)

interpretation lsb16: codec WriteHtolsbU16 ReadLsbtohU16 "\<lambda>_. True" 2
  by unfold_locales (simp_all add: WriteHtolsbU16_def ReadLsbtohU16_def WriteU8_def bytes_word)

interpretation lsb32: codec WriteHtolsbU32 ReadLsbtohU32 "\<lambda>_. True" 4
  by unfold_locales (simp_all add: WriteHtolsbU32_def ReadLsbtohU32_def WriteU8_def bytes_word)

interpretation lsb64: codec WriteHtolsbU64 ReadLsbtohU64 "\<lambda>_. True" 8
  by unfold_locales (simp_all add: WriteHtolsbU64_def ReadLsbtohU64_def WriteU8_def bytes_word)

interpretation net16: codec WriteHtonU16 ReadNtohU16 "\<lambda>_. True" 2
  by unfold_locales (simp_all add: WriteHtonU16_def ReadNtohU16_def WriteU8_def bytes_word)

interpretation net32: codec WriteHtonU32 ReadNtohU32 "\<lambda>_. True" 4
  by unfold_locales (simp_all add: WriteHtonU32_def ReadNtohU32_def WriteU8_def bytes_word)

interpretation net64: codec WriteHtonU64 ReadNtohU64 "\<lambda>_. True" 8
  by unfold_locales (simp_all add: WriteHtonU64_def ReadNtohU64_def WriteU8_def bytes_word)

lemmas wire_round_trips [simp] =
  u8.round_trip [OF TrueI] u16.round_trip [OF TrueI] u32.round_trip [OF TrueI]
  u64.round_trip [OF TrueI] net16.round_trip [OF TrueI] net32.round_trip [OF TrueI]
  net64.round_trip [OF TrueI]

lemmas wire_sizes [simp] =
  u8.fixed_size [OF TrueI] u16.fixed_size [OF TrueI] u32.fixed_size [OF TrueI]
  u64.fixed_size [OF TrueI] net16.fixed_size [OF TrueI] net32.fixed_size [OF TrueI]
  net64.fixed_size [OF TrueI]

end
