(* ===== verification/Int_Header.thy ===== *)
theory Int_Header
  imports Wire_Bytes
begin

text \<open>
  \<^verbatim>\<open>IntHop\<close> and \<^verbatim>\<open>IntHeader\<close> (src/network/utils/int-header.h and .cc): the in-band telemetry a
  packet collects. A hop record is its 64-bit cell, whose bit fields lie from the low bits up: the
  line rate (3 bits), the time (24), the bytes (20), the queue length (17). The members of the
  union of \<^verbatim>\<open>IntHeader\<close> share the cells: \<^verbatim>\<open>ts\<close> and \<^verbatim>\<open>fairRate\<close> are the first cell, \<^verbatim>\<open>pint.power\<close> its
  low 16 bits. The static members \<^verbatim>\<open>mode\<close>, \<^verbatim>\<open>pint_bytes\<close> and \<^verbatim>\<open>IntHop::multi\<close> are the configuration
  the operations take.
\<close>

datatype int_mode = NORMAL | TS | PINT | FS | FSMIX | NO_INT

record int_conf =
  ih_mode :: int_mode
  pint_bytes :: int
  multi :: u32

subsection \<open>A hop record\<close>

type_synonym IntHop = u64

definition get_field :: "nat \<Rightarrow> nat \<Rightarrow> IntHop \<Rightarrow> u64" where
  "get_field lo width h = take_bit width (drop_bit lo h)"

definition set_field :: "nat \<Rightarrow> nat \<Rightarrow> u64 \<Rightarrow> IntHop \<Rightarrow> IntHop" where
  "set_field lo width v h = (h AND NOT (push_bit lo (mask width))) OR push_bit lo (take_bit width v)"

definition timeWidth :: nat where "timeWidth = 24"
definition bytesWidth :: nat where "bytesWidth = 20"
definition qlenWidth :: nat where "qlenWidth = 17"
definition byteUnit :: u32 where "byteUnit = 128"
definition qlenUnit :: u32 where "qlenUnit = 80"

definition lineRate :: "IntHop \<Rightarrow> u64" where "lineRate = get_field 0 3"
definition hop_time :: "IntHop \<Rightarrow> u64" where "hop_time = get_field 3 timeWidth"
definition hop_bytes :: "IntHop \<Rightarrow> u64" where "hop_bytes = get_field 27 bytesWidth"
definition hop_qlen :: "IntHop \<Rightarrow> u64" where "hop_qlen = get_field 47 qlenWidth"

definition lineRateValues :: "u64 list" where
  "lineRateValues = [25000000000, 50000000000, 100000000000, 200000000000, 400000000000, 0, 0, 0]"

definition GetLineRate :: "IntHop \<Rightarrow> u64" where
  "GetLineRate h = lineRateValues ! unat (lineRate h)"

definition GetBytes :: "int_conf \<Rightarrow> IntHop \<Rightarrow> u64" where
  "GetBytes c h = hop_bytes h * ucast byteUnit * ucast (multi c)"

definition GetQlen :: "int_conf \<Rightarrow> IntHop \<Rightarrow> u32" where
  "GetQlen c h = ucast (hop_qlen h) * qlenUnit * multi c"

definition GetTime :: "IntHop \<Rightarrow> u64" where
  "GetTime h = hop_time h"

text \<open>The divisors are products of \<^verbatim>\<open>uint32_t\<close>; a zero divisor is undefined. An unknown rate keeps
  the line rate the cell had.\<close>

definition hop_Set :: "int_conf \<Rightarrow> u64 \<Rightarrow> u64 \<Rightarrow> u32 \<Rightarrow> u64 \<Rightarrow> IntHop \<Rightarrow> IntHop option" where
  "hop_Set c time bytes qlen rate h = do {
     guard (byteUnit * multi c \<noteq> 0 \<and> qlenUnit * multi c \<noteq> 0);
     let h = set_field 3 timeWidth time h;
     let h = set_field 27 bytesWidth (bytes div ucast (byteUnit * multi c)) h;
     let h = set_field 47 qlenWidth (ucast (qlen div (qlenUnit * multi c))) h;
     let h = (if rate = 25000000000 then set_field 0 3 0 h
              else if rate = 50000000000 then set_field 0 3 1 h
              else if rate = 100000000000 then set_field 0 3 2 h
              else if rate = 200000000000 then set_field 0 3 3 h
              else if rate = 400000000000 then set_field 0 3 4 h
              else h);
     Some h }"

text \<open>The bit fields are narrower than \<^verbatim>\<open>int\<close> and are promoted to it, so the product with
  \<^verbatim>\<open>byteUnit\<close> and \<^verbatim>\<open>multi\<close> is computed in 32 bits.\<close>

definition GetBytesDelta :: "int_conf \<Rightarrow> IntHop \<Rightarrow> IntHop \<Rightarrow> u64" where
  "GetBytesDelta c a b =
     (if hop_bytes a \<ge> hop_bytes b
      then ucast (ucast (hop_bytes a - hop_bytes b) * byteUnit * multi c)
      else ucast (ucast (hop_bytes a + 2 ^ bytesWidth - hop_bytes b) * byteUnit * multi c))"

definition GetTimeDelta :: "IntHop \<Rightarrow> IntHop \<Rightarrow> u64" where
  "GetTimeDelta a b =
     (if hop_time a \<ge> hop_time b then hop_time a - hop_time b
      else hop_time a + 2 ^ timeWidth - hop_time b)"

subsection \<open>The header\<close>

definition maxHop :: nat where "maxHop = 5"

record IntHeader =
  hop :: "IntHop list"
  nhop :: u16

definition IntHeader_init :: IntHeader where
  "IntHeader_init = \<lparr>hop = replicate maxHop 0, nhop = 0\<rparr>"

definition GetStaticSize :: "int_conf \<Rightarrow> u32" where
  "GetStaticSize c = (case ih_mode c of NORMAL \<Rightarrow> 42 | FSMIX \<Rightarrow> 42 | TS \<Rightarrow> 8 | PINT \<Rightarrow> 2 | FS \<Rightarrow> 8
     | NO_INT \<Rightarrow> 0)"

definition PushHop :: "int_conf \<Rightarrow> u64 \<Rightarrow> u64 \<Rightarrow> u32 \<Rightarrow> u64 \<Rightarrow> IntHeader \<Rightarrow> IntHeader option" where
  "PushHop c time bytes qlen rate ih =
     (if ih_mode c = NORMAL \<or> ih_mode c = FSMIX then do {
        let idx = unat (nhop ih mod of_nat maxHop);
        h \<leftarrow> hop_Set c time bytes qlen rate (hop ih ! idx);
        Some (ih\<lparr>hop := (hop ih)[idx := h], nhop := nhop ih + 1\<rparr>) }
      else Some ih)"

text \<open>The words of a cell as \<^verbatim>\<open>buf[0]\<close> and \<^verbatim>\<open>buf[1]\<close>.\<close>

definition buf0 :: "IntHop \<Rightarrow> u32" where "buf0 h = ucast h"
definition buf1 :: "IntHop \<Rightarrow> u32" where "buf1 h = ucast (drop_bit 32 h)"
definition of_bufs :: "u32 \<Rightarrow> u32 \<Rightarrow> IntHop" where
  "of_bufs a b = ucast a OR push_bit 32 (ucast b)"

definition write_hop :: "IntHop \<Rightarrow> bytes" where
  "write_hop h = WriteU32 (buf0 h) @ WriteU32 (buf1 h)"

definition read_hop :: "IntHop reader" where
  "read_hop s = do { (a, s) \<leftarrow> ReadU32 s; (b, s) \<leftarrow> ReadU32 s; Some (of_bufs a b, s) }"

definition IntHeader_Serialize :: "int_conf \<Rightarrow> IntHeader \<Rightarrow> bytes" where
  "IntHeader_Serialize c ih = (case ih_mode c of
       NORMAL \<Rightarrow> concat (map write_hop (hop ih)) @ WriteU16 (nhop ih)
     | FSMIX \<Rightarrow> concat (map write_hop (hop ih)) @ WriteU16 (nhop ih)
     | TS \<Rightarrow> WriteU64 (hop ih ! 0)
     | PINT \<Rightarrow> (if pint_bytes c = 1 then WriteU8 (ucast (hop ih ! 0))
               else if pint_bytes c = 2 then WriteU16 (ucast (hop ih ! 0)) else [])
     | FS \<Rightarrow> WriteU64 (hop ih ! 0)
     | NO_INT \<Rightarrow> [])"

fun read_hops :: "nat \<Rightarrow> bytes \<Rightarrow> (IntHop list \<times> bytes) option" where
  "read_hops 0 s = Some ([], s)"
| "read_hops (Suc n) s = do { (x, s) \<leftarrow> read_hop s; (xs, s) \<leftarrow> read_hops n s; Some (x # xs, s) }"

definition IntHeader_Deserialize :: "int_conf \<Rightarrow> IntHeader \<Rightarrow> IntHeader reader" where
  "IntHeader_Deserialize c ih s = (case ih_mode c of
       NORMAL \<Rightarrow> do { (hs, s) \<leftarrow> read_hops maxHop s; (n, s) \<leftarrow> ReadU16 s;
                     Some (ih\<lparr>hop := hs, nhop := n\<rparr>, s) }
     | FSMIX \<Rightarrow> do { (hs, s) \<leftarrow> read_hops maxHop s; (n, s) \<leftarrow> ReadU16 s;
                    Some (ih\<lparr>hop := hs, nhop := n\<rparr>, s) }
     | TS \<Rightarrow> do { (t, s) \<leftarrow> ReadU64 s; Some (ih\<lparr>hop := (hop ih)[0 := t]\<rparr>, s) }
     | PINT \<Rightarrow> (if pint_bytes c = 1 then do { (p, s) \<leftarrow> ReadU8 s;
                   Some (ih\<lparr>hop := (hop ih)[0 := set_field 0 8 (ucast p) (hop ih ! 0)]\<rparr>, s) }
               else if pint_bytes c = 2 then do { (p, s) \<leftarrow> ReadU16 s;
                   Some (ih\<lparr>hop := (hop ih)[0 := set_field 0 16 (ucast p) (hop ih ! 0)]\<rparr>, s) }
               else Some (ih, s))
     | FS \<Rightarrow> do { (r, s) \<leftarrow> ReadU64 s; Some (ih\<lparr>hop := (hop ih)[0 := r]\<rparr>, s) }
     | NO_INT \<Rightarrow> Some (ih, s))"

definition GetTs :: "int_conf \<Rightarrow> IntHeader \<Rightarrow> u64" where
  "GetTs c ih = (if ih_mode c = TS then hop ih ! 0 else 0)"

definition SetTs :: "u64 \<Rightarrow> IntHeader \<Rightarrow> IntHeader" where
  "SetTs t ih = ih\<lparr>hop := (hop ih)[0 := t]\<rparr>"

definition GetPower :: "int_conf \<Rightarrow> IntHeader \<Rightarrow> u16" where
  "GetPower c ih = (if ih_mode c = PINT
     then (if pint_bytes c = 1 then ucast (get_field 0 8 (hop ih ! 0))
           else ucast (get_field 0 16 (hop ih ! 0))) else 0)"

definition SetPower :: "int_conf \<Rightarrow> u16 \<Rightarrow> IntHeader \<Rightarrow> IntHeader" where
  "SetPower c pw ih = (if ih_mode c = PINT
     then ih\<lparr>hop := (hop ih)[0 := set_field 0 (if pint_bytes c = 1 then 8 else 16) (ucast pw) (hop ih ! 0)]\<rparr>
     else ih)"

definition GetFairRate :: "int_conf \<Rightarrow> IntHeader \<Rightarrow> u64" where
  "GetFairRate c ih = (if ih_mode c = FS \<or> ih_mode c = FSMIX then hop ih ! 0 else 0)"

definition SetFairRate :: "int_conf \<Rightarrow> u64 \<Rightarrow> IntHeader \<Rightarrow> IntHeader" where
  "SetFairRate c r ih =
     (if ih_mode c = FS \<or> ih_mode c = FSMIX then ih\<lparr>hop := (hop ih)[0 := r]\<rparr> else ih)"

subsection \<open>Bit fields\<close>

lemma bit_get_field: "bit (get_field lo n h) i \<longleftrightarrow> i < n \<and> bit h (lo + i)"
  by (auto simp: get_field_def bit_take_bit_iff bit_drop_bit_eq)

lemma bit_set_field:
  "bit (set_field lo n v h) i \<longleftrightarrow> i < 64 \<and> (if lo \<le> i \<and> i < lo + n then bit v (i - lo) else bit h i)"
  unfolding set_field_def
  by (auto simp: bit_or_iff bit_and_iff bit_not_iff bit_push_bit_iff bit_take_bit_iff bit_mask_iff
      dest: bit_imp_le_length)

lemma get_set_same:
  "lo + n \<le> 64 \<Longrightarrow> get_field lo n (set_field lo n v h) = take_bit n v"
  by (rule bit_word_eqI) (auto simp: bit_get_field bit_set_field bit_take_bit_iff)

lemma get_set_other:
  "lo + n \<le> 64 \<Longrightarrow> lo + n \<le> lo' \<or> lo' + m \<le> lo \<Longrightarrow> get_field lo n (set_field lo' m v h) = get_field lo n h"
  by (rule bit_word_eqI) (auto simp: bit_get_field bit_set_field)

lemma of_bufs_eq: "of_bufs (buf0 h) (buf1 h) = h"
  by (rule bit_word_eqI)
    (auto simp: of_bufs_def buf0_def buf1_def bit_or_iff bit_push_bit_iff bit_ucast_iff
      bit_drop_bit_eq not_le)

subsection \<open>A hop record keeps what it was set to\<close>

lemma field_widths: "timeWidth = 24" "bytesWidth = 20" "qlenWidth = 17"
  by (simp_all add: timeWidth_def bytesWidth_def qlenWidth_def)

lemmas field_defs = lineRate_def hop_time_def hop_bytes_def hop_qlen_def field_widths

lemma hop_Set_fields:
  assumes "hop_Set c t b q r h = Some h'"
  shows "hop_time h' = take_bit 24 t"
    and "hop_bytes h' = take_bit 20 (b div ucast (byteUnit * multi c))"
    and "hop_qlen h' = take_bit 17 (ucast (q div (qlenUnit * multi c)))"
    and "r \<in> set (take 5 lineRateValues) \<Longrightarrow> GetLineRate h' = r"
  using assms
  by (auto simp: hop_Set_def field_defs get_set_same get_set_other Let_def guard_bind_eq_Some
      lineRateValues_def GetLineRate_def split: if_splits)

lemma hop_Set_defined: "byteUnit * multi c \<noteq> 0 \<Longrightarrow> qlenUnit * multi c \<noteq> 0 \<Longrightarrow> \<exists>h'. hop_Set c t b q r h = Some h'"
  by (simp add: hop_Set_def Let_def)

definition units_ok :: "int_conf \<Rightarrow> bool" where
  "units_ok c \<longleftrightarrow> 0 < unat (multi c) \<and> 128 * unat (multi c) < 2 ^ 32"

lemma units_nat:
  assumes "units_ok c"
  shows "unat (byteUnit * multi c) = 128 * unat (multi c)"
    and "unat (qlenUnit * multi c) = 80 * unat (multi c)"
  using assms by (simp_all add: units_ok_def byteUnit_def qlenUnit_def unat_mult_nowrap)

lemma units_nonzero:
  assumes "units_ok c"
  shows "byteUnit * multi c \<noteq> 0" and "qlenUnit * multi c \<noteq> 0"
  using units_nat [OF assms] assms unfolding units_ok_def by (metis mult_eq_0_iff unat_0 zero_neq_numeral less_irrefl)+

lemma hop_Set_nat:
  assumes "hop_Set c t b q r h = Some h'" and "units_ok c"
  shows "unat (hop_time h') = unat t mod 2 ^ 24"
    and "unat (hop_bytes h') = unat b div (128 * unat (multi c)) mod 2 ^ 20"
    and "unat (hop_qlen h') = unat q div (80 * unat (multi c)) mod 2 ^ 17"
proof -
  note f = hop_Set_fields(1-3) [OF assms(1)]
  show "unat (hop_time h') = unat t mod 2 ^ 24"
    unfolding f(1) by (simp only: unat_take_bit)
  have "unat (ucast (byteUnit * multi c) :: u64) = 128 * unat (multi c)"
    using units_nat(1) [OF assms(2)] by (simp add: unat_ucast_up)
  then show "unat (hop_bytes h') = unat b div (128 * unat (multi c)) mod 2 ^ 20"
    unfolding f(2) by (simp only: unat_take_bit unat_div_distrib)
  have "unat (ucast (q div (qlenUnit * multi c)) :: u64) = unat q div (80 * unat (multi c))"
    by (simp add: unat_ucast_up unat_div_distrib units_nat(2) [OF assms(2)])
  then show "unat (hop_qlen h') = unat q div (80 * unat (multi c)) mod 2 ^ 17"
    unfolding f(3) by (simp only: unat_take_bit)
qed

text \<open>The line rate of a record is the rate it was set to, when it is one of the five rates the
  header knows; the queue length is rounded down to its unit as long as it fits the field.\<close>

lemma hop_record_exact:
  assumes "units_ok c" and "r \<in> set (take 5 lineRateValues)"
    and "unat q < 2 ^ 17 * (80 * unat (multi c))"
  shows "\<exists>h'. hop_Set c t b q r h = Some h' \<and> GetLineRate h' = r
    \<and> unat (GetQlen c h') = unat q div (80 * unat (multi c)) * (80 * unat (multi c))
    \<and> unat (GetQlen c h') \<le> unat q \<and> unat q < unat (GetQlen c h') + 80 * unat (multi c)"
proof -
  let ?m = "80 * unat (multi c)"
  obtain h' where h': "hop_Set c t b q r h = Some h'"
    using hop_Set_defined units_nonzero [OF assms(1)] by blast
  have m: "0 < ?m" using assms(1) by (simp add: units_ok_def)
  have "unat q div ?m < 2 ^ 17" using assms(3) m by (simp add: div_less_iff_less_mult)
  then have n: "unat (hop_qlen h') = unat q div ?m"
    using hop_Set_nat(3) [OF h' assms(1)] by simp
  have u: "unat (ucast (hop_qlen h') :: u32) = unat q div ?m"
    using n \<open>unat q div ?m < 2 ^ 17\<close> by (simp add: unsigned_ucast_eq take_bit_nat_eq_self)
  have le: "unat q div ?m * ?m \<le> unat q" by (rule div_times_less_eq_dividend)
  have "GetQlen c h' = ucast (hop_qlen h') * (qlenUnit * multi c)"
    by (simp add: GetQlen_def mult.assoc)
  then have g: "unat (GetQlen c h') = unat q div ?m * ?m"
  proof (simp only:)
    have "unat (ucast (hop_qlen h') :: u32) * unat (qlenUnit * multi c) < 2 ^ LENGTH(32)"
      using le_less_trans [OF le u32_lt] by (simp only: u units_nat(2) [OF assms(1)]) simp
    then show "unat (ucast (hop_qlen h') * (qlenUnit * multi c)) = unat q div ?m * ?m"
      by (simp only: unat_mult_nowrap u units_nat(2) [OF assms(1)])
  qed
  have "unat q < unat q div ?m * ?m + ?m"
    using dividend_less_times_div [OF m, of "unat q"] by (simp add: mult.commute)
  then show ?thesis
    using h' g le hop_Set_fields(4) [OF h' assms(2)] by simp
qed

subsection \<open>Differences of two records\<close>

lemma mod_difference:
  fixes A B M :: nat
  assumes "B \<le> A" and "A - B < M"
  shows "(if A mod M \<ge> B mod M then A mod M - B mod M else A mod M + M - B mod M) = A - B"
proof -
  obtain d where "A = B + d" using assms(1) le_Suc_ex by blast
  with assms(2) have d: "A = B + d" "d < M" by simp_all
  have key: "(if b \<le> a then a - b else a + M - b) = d"
    if "b < M" "a = (if b + d < M then b + d else b + d - M)" for a b
    using that d(2) by auto
  have b: "B mod M < M" using d(2) by simp
  have "A mod M = (B mod M + d) mod M" by (simp only: d(1) mod_add_left_eq)
  also have "\<dots> = (if B mod M + d < M then B mod M + d else B mod M + d - M)"
  proof (cases "B mod M + d < M")
    case False
    have "B mod M + d - M < M" using b d(2) by linarith
    with False show ?thesis by (simp add: le_mod_geq)
  qed simp
  finally have a: "A mod M = (if B mod M + d < M then B mod M + d else B mod M + d - M)" .
  have "A - B = d" by (simp add: d(1))
  with key [OF b a] show ?thesis by (simp only:)
qed

text \<open>C24: The time between two records is exact, across a wrap of the 24-bit field, when less than
  \<open>2 ^ 24\<close> nanoseconds have passed.\<close>

theorem time_delta_exact:
  assumes "hop_Set c t1 b1 q1 r1 h1 = Some h1'" and "hop_Set c t2 b2 q2 r2 h2 = Some h2'"
    and "units_ok c" and "unat t1 \<le> unat t2" and "unat t2 - unat t1 < 2 ^ 24"
  shows "unat (GetTimeDelta h2' h1') = unat t2 - unat t1"
proof -
  note t = hop_Set_nat(1) [OF assms(2,3)] hop_Set_nat(1) [OF assms(1,3)]
  have b: "unat (hop_time h2') < 2 ^ 24" "unat (hop_time h1') < 2 ^ 24" by (simp_all add: t)
  have "unat (hop_time h2' + 2 ^ timeWidth) = unat (hop_time h2') + 2 ^ 24"
    using b by (subst unat_add_nowrap) (simp_all add: timeWidth_def)
  then have "unat (GetTimeDelta h2' h1') =
    (if unat (hop_time h2') \<ge> unat (hop_time h1') then unat (hop_time h2') - unat (hop_time h1')
     else unat (hop_time h2') + 2 ^ 24 - unat (hop_time h1'))"
    using b by (simp add: GetTimeDelta_def word_le_nat_alt unat_sub_nowrap)
  then show ?thesis using mod_difference [OF assms(4,5)] by (simp only: t)
qed

text \<open>The bytes between two records are the difference of the counters, each rounded down to
  the unit of the field, across a wrap of the 20-bit field, as long as the difference fits the field
  and the 32-bit product; so they are within one unit of the bytes really sent.\<close>

lemma bytes_delta_exact:
  assumes "hop_Set c t1 b1 q1 r1 h1 = Some h1'" and "hop_Set c t2 b2 q2 r2 h2 = Some h2'"
    and "units_ok c" and "unat b1 \<le> unat b2"
    and "unat b2 div (128 * unat (multi c)) - unat b1 div (128 * unat (multi c)) < 2 ^ 20"
    and "(unat b2 div (128 * unat (multi c)) - unat b1 div (128 * unat (multi c)))
      * (128 * unat (multi c)) < 2 ^ 32"
  shows "unat (GetBytesDelta c h2' h1')
    = (unat b2 div (128 * unat (multi c)) - unat b1 div (128 * unat (multi c))) * (128 * unat (multi c))"
proof -
  let ?u = "128 * unat (multi c)"
  let ?d = "unat b2 div ?u - unat b1 div ?u"
  note b = hop_Set_nat(2) [OF assms(2,3)] hop_Set_nat(2) [OF assms(1,3)]
  have le: "unat b1 div ?u \<le> unat b2 div ?u" using assms(4) by (rule div_le_mono)
  have lt: "unat (hop_bytes h2') < 2 ^ 20" "unat (hop_bytes h1') < 2 ^ 20" by (simp_all add: b)
  have add: "unat (hop_bytes h2' + 2 ^ bytesWidth) = unat (hop_bytes h2') + 2 ^ 20"
    using lt by (subst unat_add_nowrap) (simp_all add: bytesWidth_def)
  define x where "x = (if hop_bytes h2' \<ge> hop_bytes h1' then hop_bytes h2' - hop_bytes h1'
    else hop_bytes h2' + 2 ^ bytesWidth - hop_bytes h1')"
  have "unat x = (if unat (hop_bytes h2') \<ge> unat (hop_bytes h1')
      then unat (hop_bytes h2') - unat (hop_bytes h1')
      else unat (hop_bytes h2') + 2 ^ 20 - unat (hop_bytes h1'))"
    using lt add by (simp add: x_def word_le_nat_alt unat_sub_nowrap)
  then have x: "unat x = ?d" using mod_difference [OF le assms(5)] by (simp only: b)
  have "GetBytesDelta c h2' h1' = ucast (ucast x * (byteUnit * multi c) :: u32)"
    by (simp add: GetBytesDelta_def x_def mult.assoc)
  moreover have ux: "unat (ucast x :: u32) = ?d"
    using x assms(5) by (simp add: unsigned_ucast_eq take_bit_nat_eq_self)
  moreover have "unat (ucast x * (byteUnit * multi c) :: u32) = ?d * ?u"
  proof -
    have "unat (ucast x :: u32) * unat (byteUnit * multi c) < 2 ^ LENGTH(32)"
      using assms(6) by (simp only: ux units_nat(1) [OF assms(3)]) simp
    then show ?thesis by (simp only: unat_mult_nowrap ux units_nat(1) [OF assms(3)])
  qed
  ultimately show ?thesis by (simp add: unat_ucast_up)
qed

subsection \<open>The serialized header\<close>

lemma read_write_hop [simp]: "read_hop (write_hop h @ s) = Some (h, s)"
  by (simp add: read_hop_def write_hop_def of_bufs_eq)

lemma length_write_hop [simp]: "length (write_hop h) = 8"
  by (simp add: write_hop_def)

lemma read_write_hops: "read_hops (length hs) (concat (map write_hop hs) @ s) = Some (hs, s)"
  by (induction hs) simp_all

lemma read_hop_n: "length hs = n \<Longrightarrow> read_hops n (concat (map write_hop hs) @ s) = Some (hs, s)"
  using read_write_hops [of hs s] by simp

lemma length_write_hops: "length (concat (map write_hop hs)) = 8 * length hs"
  by (induction hs) simp_all

text \<open>The headers each mode can carry: the members of the union it does not use are zero.\<close>

definition int_wf :: "int_conf \<Rightarrow> IntHeader \<Rightarrow> bool" where
  "int_wf c ih \<longleftrightarrow> (case ih_mode c of
       NORMAL \<Rightarrow> length (hop ih) = maxHop
     | FSMIX \<Rightarrow> length (hop ih) = maxHop
     | TS \<Rightarrow> (\<exists>v. ih = SetTs v IntHeader_init)
     | FS \<Rightarrow> (\<exists>v. ih = SetTs v IntHeader_init)
     | PINT \<Rightarrow> (\<exists>v. ih = SetTs (if pint_bytes c = 1 then take_bit 8 v
                                 else if pint_bytes c = 2 then take_bit 16 v else 0) IntHeader_init)
     | NO_INT \<Rightarrow> ih = IntHeader_init)"

definition int_width :: "int_conf \<Rightarrow> nat" where
  "int_width c = (case ih_mode c of NORMAL \<Rightarrow> 42 | FSMIX \<Rightarrow> 42 | TS \<Rightarrow> 8 | FS \<Rightarrow> 8 | NO_INT \<Rightarrow> 0
     | PINT \<Rightarrow> if pint_bytes c = 1 then 1 else if pint_bytes c = 2 then 2 else 0)"

lemma set_field_0: "n \<le> 64 \<Longrightarrow> set_field 0 n v 0 = take_bit n v"
  by (rule bit_word_eqI) (auto simp: bit_set_field bit_take_bit_iff)

lemma ucast_down_up:
  "LENGTH('b) = n \<Longrightarrow> n \<le> 64 \<Longrightarrow> set_field 0 n (ucast (ucast w :: 'b::len word)) 0 = take_bit n (w :: u64)"
  by (rule bit_word_eqI) (auto simp: bit_set_field bit_take_bit_iff bit_ucast_iff dest: bit_imp_le_length)

lemma init_hops: "hop IntHeader_init = [0, 0, 0, 0, 0]" "nhop IntHeader_init = 0"
  by (simp_all add: IntHeader_init_def maxHop_def eval_nat_numeral)

lemma int_round_trip:
  assumes "int_wf c ih"
  shows "IntHeader_Deserialize c IntHeader_init (IntHeader_Serialize c ih @ s) = Some (ih, s)"
proof -
  have i: "IntHeader_init = \<lparr>hop = [0, 0, 0, 0, 0], nhop = 0\<rparr>"
    by (simp add: IntHeader_init_def maxHop_def eval_nat_numeral)
  show ?thesis
  proof (cases "ih_mode c")
    case PINT
    then obtain v where v: "ih = SetTs (if pint_bytes c = 1 then take_bit 8 v
        else if pint_bytes c = 2 then take_bit 16 v else 0) IntHeader_init"
      using assms by (auto simp: int_wf_def)
    show ?thesis
      using PINT ucast_down_up [of 8 "take_bit 8 v", where ?'b = 8]
        ucast_down_up [of 16 "take_bit 16 v", where ?'b = 16]
      by (simp add: IntHeader_Deserialize_def IntHeader_Serialize_def v i SetTs_def)
  qed (use assms in \<open>auto simp: IntHeader_Deserialize_def IntHeader_Serialize_def int_wf_def
      read_hop_n i SetTs_def\<close>)
qed

lemma int_fixed_size: "int_wf c ih \<Longrightarrow> length (IntHeader_Serialize c ih) = int_width c"
  by (auto simp: IntHeader_Serialize_def int_width_def int_wf_def length_write_hops maxHop_def
      split: int_mode.splits)

interpretation int_header: codec "IntHeader_Serialize c" "IntHeader_Deserialize c IntHeader_init"
    "int_wf c" "int_width c" for c
  by unfold_locales (simp_all add: int_round_trip int_fixed_size)

lemma int_width_le: "int_width c \<le> unat (GetStaticSize c)"
  by (simp add: int_width_def GetStaticSize_def split: int_mode.splits)

lemma int_wf_init: "int_wf c IntHeader_init"
proof -
  have "SetTs 0 IntHeader_init = IntHeader_init" by (simp add: SetTs_def init_hops IntHeader_init_def maxHop_def eval_nat_numeral)
  then show ?thesis
    by (auto simp: int_wf_def init_hops maxHop_def split: int_mode.splits intro!: exI [of _ 0])
qed

subsection \<open>The records along a path\<close>

text \<open>What the switches of a path push: time, bytes sent, queue length, line rate.\<close>

type_synonym hop_sample = "u64 \<times> u64 \<times> u32 \<times> u64"

fun push_path :: "int_conf \<Rightarrow> hop_sample list \<Rightarrow> IntHeader \<Rightarrow> IntHeader option" where
  "push_path c [] ih = Some ih"
| "push_path c ((t, b, q, r) # xs) ih = PushHop c t b q r ih \<bind> push_path c xs"

lemma PushHop_record:
  assumes "ih_mode c = NORMAL \<or> ih_mode c = FSMIX" and "PushHop c t b q r ih = Some ih'"
    and "length (hop ih) = maxHop" and "unat (nhop ih) < maxHop"
  obtains h where "hop_Set c t b q r (hop ih ! unat (nhop ih)) = Some h"
    and "hop ih' = (hop ih)[unat (nhop ih) := h]" and "unat (nhop ih') = Suc (unat (nhop ih))"
proof -
  have m: "unat (nhop ih mod of_nat maxHop) = unat (nhop ih)"
    using assms(4) by (simp add: maxHop_def unat_mod_distrib)
  have n: "unat (nhop ih + 1) = Suc (unat (nhop ih))"
    using assms(4) by (subst unat_add_nowrap) (simp_all add: maxHop_def)
  obtain h where "hop_Set c t b q r (hop ih ! unat (nhop ih)) = Some h"
    "ih' = ih\<lparr>hop := (hop ih)[unat (nhop ih) := h], nhop := nhop ih + 1\<rparr>"
    using assms(1,2) m by (auto simp: PushHop_def Let_def elim!: bind_eq_SomeE)
  with n show thesis by (intro that) simp_all
qed

lemma push_path_records:
  assumes "ih_mode c = NORMAL \<or> ih_mode c = FSMIX" and "push_path c xs ih = Some ih'"
    and "length (hop ih) = maxHop" and "unat (nhop ih) + length xs \<le> maxHop"
  shows "unat (nhop ih') = unat (nhop ih) + length xs \<and> length (hop ih') = maxHop
    \<and> (\<forall>i < unat (nhop ih). hop ih' ! i = hop ih ! i)
    \<and> (\<forall>i < length xs. \<exists>h. (case xs ! i of (t, b, q, r) \<Rightarrow> hop_Set c t b q r h)
          = Some (hop ih' ! (unat (nhop ih) + i)))"
  using assms(2-4)
proof (induction xs arbitrary: ih)
  case (Cons x xs)
  obtain t b q r where x: "x = (t, b, q, r)" by (cases x)
  with Cons.prems(1) obtain ih1 where p: "PushHop c t b q r ih = Some ih1" "push_path c xs ih1 = Some ih'"
    by (auto elim: bind_eq_SomeE)
  have "unat (nhop ih) < maxHop" using Cons.prems(3) by simp
  with PushHop_record [OF assms(1) p(1) Cons.prems(2)] obtain h where
    h: "hop_Set c t b q r (hop ih ! unat (nhop ih)) = Some h"
    "hop ih1 = (hop ih)[unat (nhop ih) := h]" "unat (nhop ih1) = Suc (unat (nhop ih))" by blast
  have l: "length (hop ih1) = maxHop" using h(2) Cons.prems(2) by simp
  note IH = Cons.IH [OF p(2) l]
  have le: "unat (nhop ih1) + length xs \<le> maxHop" using h(3) Cons.prems(3) by simp
  have first: "hop ih' ! unat (nhop ih) = h"
    using IH [OF le] h(2,3) \<open>unat (nhop ih) < maxHop\<close> Cons.prems(2) by simp
  show ?case
  proof (intro conjI allI impI)
    fix i assume "i < length (x # xs)"
    then show "\<exists>h. (case (x # xs) ! i of (t, b, q, r) \<Rightarrow> hop_Set c t b q r h)
        = Some (hop ih' ! (unat (nhop ih) + i))"
    proof (cases i)
      case 0
      then show ?thesis using h(1) first x by auto
    next
      case (Suc j)
      then show ?thesis using \<open>i < length (x # xs)\<close> IH [OF le] h(3) by simp
    qed
  next
    fix i assume i: "i < unat (nhop ih)"
    then have "hop ih' ! i = hop ih1 ! i" using IH [OF le] h(3) by simp
    then show "hop ih' ! i = hop ih ! i" using i h(2) by simp
  qed (use IH [OF le] h(3) in simp_all)
qed simp

subsection \<open>Witnesses\<close>

definition int_demo :: int_conf where
  "int_demo = \<lparr>ih_mode = NORMAL, pint_bytes = 2, multi = 1\<rparr>"

lemma units_demo: "units_ok int_demo"
  by (simp add: units_ok_def int_demo_def)

lemma hop_Set_units: "units_ok c \<Longrightarrow> \<exists>h'. hop_Set c t b q r h = Some h'"
  by (intro hop_Set_defined units_nonzero)

lemma hop_record_exact_witness:
  "\<exists>h'. hop_Set int_demo 7 0 1000 100000000000 0 = Some h' \<and> GetLineRate h' = 100000000000
     \<and> unat (GetQlen int_demo h') = 960"
proof -
  have "units_ok int_demo" by (simp add: units_ok_def int_demo_def)
  then show ?thesis
    using hop_record_exact [of int_demo 100000000000 1000 7 0 0]
    by (auto simp: lineRateValues_def int_demo_def)
qed

lemma time_delta_exact_witness:
  "\<exists>a b. hop_Set int_demo 16777000 0 0 25000000000 0 = Some a
     \<and> hop_Set int_demo 16778000 0 0 25000000000 0 = Some b \<and> unat (GetTimeDelta b a) = 1000"
proof -
  obtain a where a: "hop_Set int_demo 16777000 0 0 25000000000 0 = Some a"
    using hop_Set_units [OF units_demo] by blast
  obtain b where b: "hop_Set int_demo 16778000 0 0 25000000000 0 = Some b"
    using hop_Set_units [OF units_demo] by blast
  have "unat (GetTimeDelta b a) = 1000" using time_delta_exact [OF a b units_demo] by simp
  with a b show ?thesis by blast
qed

lemma bytes_delta_exact_witness:
  "\<exists>a b. hop_Set int_demo 0 134217000 0 25000000000 0 = Some a
     \<and> hop_Set int_demo 0 134218000 0 25000000000 0 = Some b
     \<and> unat (GetBytesDelta int_demo b a) = 1024"
proof -
  obtain a where a: "hop_Set int_demo 0 134217000 0 25000000000 0 = Some a"
    using hop_Set_units [OF units_demo] by blast
  obtain b where b: "hop_Set int_demo 0 134218000 0 25000000000 0 = Some b"
    using hop_Set_units [OF units_demo] by blast
  have "unat (GetBytesDelta int_demo b a) = 1024"
    using bytes_delta_exact [OF a b units_demo] by (simp add: int_demo_def)
  with a b show ?thesis by blast
qed

end
