(* ===== verification/Packet_Headers.thy ===== *)
theory Packet_Headers
  imports Int_Header
begin

text \<open>
  The headers of the packets: \<^verbatim>\<open>PppHeader\<close>, \<^verbatim>\<open>PauseHeader\<close>, \<^verbatim>\<open>CnHeader\<close>, \<^verbatim>\<open>qbbHeader\<close>
  and \<^verbatim>\<open>SeqTsHeader\<close> (src/point-to-point/model), \<^verbatim>\<open>UdpHeader\<close> and \<^verbatim>\<open>Ipv4Header\<close>
  (src/internet/model). Each has its record, its serialization and its parsing, and is a \<open>codec\<close>.
\<close>

subsection \<open>PPP: 14 bytes are reserved, as for Ethernet, of which the first two are written\<close>

definition ppp_GetStaticSize :: u32 where
  "ppp_GetStaticSize = 14"

definition PppHeader_Serialize :: "u16 \<Rightarrow> bytes" where
  "PppHeader_Serialize protocol = WriteHtonU16 protocol"

definition PppHeader_Deserialize :: "u16 reader" where
  "PppHeader_Deserialize = ReadNtohU16"

text \<open>The EtherType of a PPP protocol number and back (\<^verbatim>\<open>PointToPointNetDevice\<close>).\<close>

definition PppToEther :: "u16 \<Rightarrow> u16 option" where
  "PppToEther proto = (if proto = 0x21 then Some 0x800 else if proto = 0x57 then Some 0x86DD else None)"

definition EtherToPpp :: "u16 \<Rightarrow> u16 option" where
  "EtherToPpp proto = (if proto = 0x800 then Some 0x21 else if proto = 0x86DD then Some 0x57 else None)"

subsection \<open>PFC frames\<close>

record PauseHeader =
  pause_time :: u32
  pause_qlen :: u32
  pause_qindex :: u8

definition PauseHeader_size :: nat where "PauseHeader_size = 9"

definition PauseHeader_Serialize :: "PauseHeader \<Rightarrow> bytes" where
  "PauseHeader_Serialize h = WriteU32 (pause_time h) @ WriteU32 (pause_qlen h) @ WriteU8 (pause_qindex h)"

definition PauseHeader_Deserialize :: "PauseHeader reader" where
  "PauseHeader_Deserialize s = do { (t, s) \<leftarrow> ReadU32 s; (q, s) \<leftarrow> ReadU32 s; (i, s) \<leftarrow> ReadU8 s;
     Some (\<lparr>pause_time = t, pause_qlen = q, pause_qindex = i\<rparr>, s) }"

subsection \<open>Congestion notification frames\<close>

record CnHeader =
  cn_fid :: u16
  cn_qIndex :: u8
  cn_qfb :: u16
  cn_ecnBits :: u8
  cn_total :: u16

definition CnHeader_size :: nat where "CnHeader_size = 8"

definition CnHeader_Serialize :: "CnHeader \<Rightarrow> bytes" where
  "CnHeader_Serialize h = WriteU8 (cn_qIndex h) @ WriteU16 (cn_fid h) @ WriteU8 (cn_ecnBits h)
     @ WriteU16 (cn_qfb h) @ WriteU16 (cn_total h)"

definition CnHeader_Deserialize :: "CnHeader reader" where
  "CnHeader_Deserialize s = do { (i, s) \<leftarrow> ReadU8 s; (f, s) \<leftarrow> ReadU16 s; (e, s) \<leftarrow> ReadU8 s;
     (q, s) \<leftarrow> ReadU16 s; (t, s) \<leftarrow> ReadU16 s;
     Some (\<lparr>cn_fid = f, cn_qIndex = i, cn_qfb = q, cn_ecnBits = e, cn_total = t\<rparr>, s) }"

subsection \<open>ACK and NACK\<close>

record qbbHeader =
  qbb_sport :: u16
  qbb_dport :: u16
  qbb_flags :: u16
  qbb_pg :: u16
  qbb_seq :: u32
  qbb_ih :: IntHeader

definition FLAG_CNP :: nat where "FLAG_CNP = 0"

definition qbbHeader_init :: "u16 \<Rightarrow> qbbHeader" where
  "qbbHeader_init pg = \<lparr>qbb_sport = 0, qbb_dport = 0, qbb_flags = 0, qbb_pg = pg, qbb_seq = 0,
     qbb_ih = IntHeader_init\<rparr>"

definition SetCnp :: "qbbHeader \<Rightarrow> qbbHeader" where
  "SetCnp h = h\<lparr>qbb_flags := qbb_flags h OR push_bit FLAG_CNP 1\<rparr>"

definition GetCnp :: "qbbHeader \<Rightarrow> u8" where
  "GetCnp h = ucast (drop_bit FLAG_CNP (qbb_flags h) AND 1)"

definition qbb_SetTs :: "int_conf \<Rightarrow> u64 \<Rightarrow> qbbHeader \<Rightarrow> qbbHeader option" where
  "qbb_SetTs c ts h = do { guard (ih_mode c = TS); Some (h\<lparr>qbb_ih := SetTs ts (qbb_ih h)\<rparr>) }"

definition qbb_GetTs :: "int_conf \<Rightarrow> qbbHeader \<Rightarrow> u64 option" where
  "qbb_GetTs c h = do { guard (ih_mode c = TS); Some (hop (qbb_ih h) ! 0) }"

definition qbb_GetBaseSize :: u32 where "qbb_GetBaseSize = 12"

definition qbb_GetSerializedSize :: "int_conf \<Rightarrow> u32" where
  "qbb_GetSerializedSize c = qbb_GetBaseSize + GetStaticSize c"

definition qbbHeader_Serialize :: "int_conf \<Rightarrow> qbbHeader \<Rightarrow> bytes" where
  "qbbHeader_Serialize c h = WriteU16 (qbb_sport h) @ WriteU16 (qbb_dport h) @ WriteU16 (qbb_flags h)
     @ WriteU16 (qbb_pg h) @ WriteU32 (qbb_seq h) @ IntHeader_Serialize c (qbb_ih h)"

definition qbbHeader_Deserialize :: "int_conf \<Rightarrow> qbbHeader reader" where
  "qbbHeader_Deserialize c s = do { (sp, s) \<leftarrow> ReadU16 s; (dp, s) \<leftarrow> ReadU16 s; (f, s) \<leftarrow> ReadU16 s;
     (pg, s) \<leftarrow> ReadU16 s; (sq, s) \<leftarrow> ReadU32 s; (ih, s) \<leftarrow> IntHeader_Deserialize c IntHeader_init s;
     Some (\<lparr>qbb_sport = sp, qbb_dport = dp, qbb_flags = f, qbb_pg = pg, qbb_seq = sq, qbb_ih = ih\<rparr>, s) }"

subsection \<open>Data: sequence number, priority, telemetry\<close>

record SeqTsHeader =
  sts_seq :: u32
  sts_pg :: u16
  sts_ih :: IntHeader

text \<open>The constructor stamps the time \<open>now\<close> in mode TS.\<close>

definition SeqTsHeader_init :: "int_conf \<Rightarrow> u64 \<Rightarrow> u16 \<Rightarrow> SeqTsHeader" where
  "SeqTsHeader_init c now pg0 = \<lparr>sts_seq = 0, sts_pg = pg0,
     sts_ih = (if ih_mode c = TS then SetTs now IntHeader_init else IntHeader_init)\<rparr>"

definition SeqTsHeader_size :: "int_conf \<Rightarrow> u32" where
  "SeqTsHeader_size c = 6 + GetStaticSize c"

definition SeqTsHeader_Serialize :: "int_conf \<Rightarrow> SeqTsHeader \<Rightarrow> bytes" where
  "SeqTsHeader_Serialize c h = WriteHtonU32 (sts_seq h) @ WriteHtonU16 (sts_pg h)
     @ IntHeader_Serialize c (sts_ih h)"

definition SeqTsHeader_Deserialize :: "int_conf \<Rightarrow> SeqTsHeader reader" where
  "SeqTsHeader_Deserialize c s = do { (q, s) \<leftarrow> ReadNtohU32 s; (pg, s) \<leftarrow> ReadNtohU16 s;
     (ih, s) \<leftarrow> IntHeader_Deserialize c IntHeader_init s;
     Some (\<lparr>sts_seq = q, sts_pg = pg, sts_ih = ih\<rparr>, s) }"

subsection \<open>UDP, without its checksum\<close>

record UdpHeader =
  udp_sport :: u16
  udp_dport :: u16
  udp_checksum :: u16
  udp_forced :: u16

definition UdpHeader_Serialize :: "u16 \<Rightarrow> UdpHeader \<Rightarrow> bytes" where
  "UdpHeader_Serialize buffer_bytes h = WriteHtonU16 (udp_sport h) @ WriteHtonU16 (udp_dport h)
     @ WriteHtonU16 (if udp_forced h = 0 then buffer_bytes else udp_forced h)
     @ (if udp_checksum h = 0 then WriteU16 0 else WriteU16 (udp_checksum h))"

definition UdpHeader_Deserialize :: "(u16 \<times> u16 \<times> u16 \<times> u16) reader" where
  "UdpHeader_Deserialize s = do { (sp, s) \<leftarrow> ReadNtohU16 s; (dp, s) \<leftarrow> ReadNtohU16 s;
     (n, s) \<leftarrow> ReadNtohU16 s; (ck, s) \<leftarrow> ReadU16 s; Some ((sp, dp, n - 8, ck), s) }"

subsection \<open>IPv4\<close>

record Ipv4Header =
  ip_payloadSize :: u16
  ip_identification :: u16
  ip_tos :: u8
  ip_ttl :: u8
  ip_protocol :: u8
  ip_flags :: u8
  ip_fragmentOffset :: u16
  ip_source :: u32
  ip_destination :: u32

definition Ipv4Header_init :: Ipv4Header where
  "Ipv4Header_init = \<lparr>ip_payloadSize = 0, ip_identification = 0, ip_tos = 0, ip_ttl = 0,
     ip_protocol = 0, ip_flags = 0, ip_fragmentOffset = 0, ip_source = 0, ip_destination = 0\<rparr>"

definition DONT_FRAGMENT :: u8 where "DONT_FRAGMENT = 1"
definition MORE_FRAGMENTS :: u8 where "MORE_FRAGMENTS = 2"

definition SetDscp :: "u8 \<Rightarrow> Ipv4Header \<Rightarrow> Ipv4Header" where
  "SetDscp dscp h = h\<lparr>ip_tos := (ip_tos h AND 0x3) OR push_bit 2 dscp\<rparr>"

definition SetEcn :: "u8 \<Rightarrow> Ipv4Header \<Rightarrow> Ipv4Header" where
  "SetEcn ecn h = h\<lparr>ip_tos := (ip_tos h AND 0xFC) OR ecn\<rparr>"

definition GetEcn :: "Ipv4Header \<Rightarrow> u8" where
  "GetEcn h = ip_tos h AND 0x3"

definition SetFragmentOffset :: "u16 \<Rightarrow> Ipv4Header \<Rightarrow> Ipv4Header option" where
  "SetFragmentOffset off h = do { guard (off AND 7 = 0); Some (h\<lparr>ip_fragmentOffset := off\<rparr>) }"

text \<open>RFC 1071: the sum of the little-endian words of \<open>n\<close> bytes, folded to 16 bits and inverted. At
  most \<open>fold_fuel\<close> foldings are needed for a 32-bit sum.\<close>

fun sum_words :: "nat \<Rightarrow> u32 \<Rightarrow> bytes \<Rightarrow> (u32 \<times> bytes) option" where
  "sum_words 0 acc s = Some (acc, s)"
| "sum_words (Suc n) acc s = do { (w, s) \<leftarrow> ReadU16 s; sum_words n (acc + ucast w) s }"

definition fold_fuel :: nat where "fold_fuel = 3"

fun fold_sum :: "nat \<Rightarrow> u32 \<Rightarrow> u32 option" where
  "fold_sum 0 x = None"
| "fold_sum (Suc n) x = (if drop_bit 16 x = 0 then Some x else fold_sum n ((x AND 0xffff) + drop_bit 16 x))"

definition CalculateIpChecksum :: "u16 \<Rightarrow> u32 \<Rightarrow> bytes \<Rightarrow> u16 option" where
  "CalculateIpChecksum n init s = do {
     (acc, s) \<leftarrow> sum_words (unat n div 2) init s;
     acc \<leftarrow> (if n AND 1 = 1 then do { (b, s) \<leftarrow> ReadU8 s; Some (acc + ucast b) } else Some acc);
     x \<leftarrow> fold_sum fold_fuel acc;
     Some (ucast (NOT x)) }"

definition Ipv4_base :: "Ipv4Header \<Rightarrow> u16 \<Rightarrow> bytes" where
  "Ipv4_base h checksum =
     (let verIhl = push_bit 4 4 OR 5;
          fo = (ucast (ip_fragmentOffset h) :: u32) div 8;
          flagsFrag = ucast (drop_bit 8 fo AND 0x1f) :: u8;
          flagsFrag = (if ip_flags h AND DONT_FRAGMENT \<noteq> 0 then flagsFrag OR push_bit 6 1 else flagsFrag);
          flagsFrag = (if ip_flags h AND MORE_FRAGMENTS \<noteq> 0 then flagsFrag OR push_bit 5 1 else flagsFrag)
      in WriteU8 verIhl @ WriteU8 (ip_tos h) @ WriteHtonU16 (ip_payloadSize h + 5 * 4)
         @ WriteHtonU16 (ip_identification h) @ WriteU8 flagsFrag @ WriteU8 (ucast (fo AND 0xff))
         @ WriteU8 (ip_ttl h) @ WriteU8 (ip_protocol h) @ WriteU16 checksum
         @ WriteHtonU32 (ip_source h) @ WriteHtonU32 (ip_destination h))"

definition Ipv4Header_Serialize :: "bool \<Rightarrow> Ipv4Header \<Rightarrow> bytes option" where
  "Ipv4Header_Serialize calcChecksum h =
     (if calcChecksum
      then do { ck \<leftarrow> CalculateIpChecksum 20 0 (Ipv4_base h 0); Some (Ipv4_base h ck) }
      else Some (Ipv4_base h 0))"

text \<open>The header, the checksum and the size it was sent with, and the flag \<^verbatim>\<open>m_goodChecksum\<close>, which stays as it
  was constructed when no checksum is calculated.\<close>

definition Ipv4Header_Deserialize :: "bool \<Rightarrow> (Ipv4Header \<times> u16 \<times> u16 \<times> bool) option reader" where
  "Ipv4Header_Deserialize calcChecksum start = do {
     (verIhl, s) \<leftarrow> ReadU8 start;
     let headerSize = (ucast (verIhl AND 0x0f) :: u16) * 4;
     if drop_bit 4 verIhl \<noteq> 4 then Some (None, s)
     else do {
       (tos, s) \<leftarrow> ReadU8 s;
       (sz, s) \<leftarrow> ReadNtohU16 s;
       (ident, s) \<leftarrow> ReadNtohU16 s;
       (flags, s) \<leftarrow> ReadU8 s;
       let fl = (if flags AND push_bit 6 1 \<noteq> 0 then DONT_FRAGMENT else 0) OR
                (if flags AND push_bit 5 1 \<noteq> 0 then MORE_FRAGMENTS else 0);
       (low, s) \<leftarrow> ReadU8 s;
       let fo = (push_bit 3 (push_bit 8 (ucast (flags AND 0x1f)) OR ucast low) :: u16);
       (ttl, s) \<leftarrow> ReadU8 s;
       (prot, s) \<leftarrow> ReadU8 s;
       (ck, s) \<leftarrow> ReadU16 s;
       (src, s) \<leftarrow> ReadNtohU32 s;
       (dst, s) \<leftarrow> ReadNtohU32 s;
       good \<leftarrow> (if calcChecksum then map_option (\<lambda>checksum. checksum = 0) (CalculateIpChecksum headerSize 0 start)
         else Some True);
       Some (Some (\<lparr>ip_payloadSize = sz - headerSize, ip_identification = ident, ip_tos = tos,
         ip_ttl = ttl, ip_protocol = prot, ip_flags = fl, ip_fragmentOffset = fo, ip_source = src,
         ip_destination = dst\<rparr>, ck, headerSize, good), s) } }"

subsection \<open>Round trips\<close>

interpretation ppp_header: codec PppHeader_Serialize PppHeader_Deserialize "\<lambda>_. True" 2
  by unfold_locales (simp_all add: PppHeader_Serialize_def PppHeader_Deserialize_def)

interpretation pause_header: codec PauseHeader_Serialize PauseHeader_Deserialize "\<lambda>_. True" PauseHeader_size
  by unfold_locales
    (simp_all add: PauseHeader_Serialize_def PauseHeader_Deserialize_def PauseHeader_size_def)

interpretation cn_header: codec CnHeader_Serialize CnHeader_Deserialize "\<lambda>_. True" CnHeader_size
  by unfold_locales (simp_all add: CnHeader_Serialize_def CnHeader_Deserialize_def CnHeader_size_def)

interpretation qbb_header: codec "qbbHeader_Serialize c" "qbbHeader_Deserialize c"
    "\<lambda>h. int_wf c (qbb_ih h)" "12 + int_width c" for c
  by unfold_locales
    (simp_all add: qbbHeader_Serialize_def qbbHeader_Deserialize_def int_round_trip int_fixed_size)

interpretation seqts_header: codec "SeqTsHeader_Serialize c" "SeqTsHeader_Deserialize c"
    "\<lambda>h. int_wf c (sts_ih h)" "6 + int_width c" for c
  by unfold_locales
    (simp_all add: SeqTsHeader_Serialize_def SeqTsHeader_Deserialize_def int_round_trip int_fixed_size)

lemma udp_round_trip:
  "UdpHeader_Deserialize (UdpHeader_Serialize n h @ s)
    = Some ((udp_sport h, udp_dport h, (if udp_forced h = 0 then n else udp_forced h) - 8,
        udp_checksum h), s)"
  by (simp add: UdpHeader_Serialize_def UdpHeader_Deserialize_def)

lemma udp_size: "length (UdpHeader_Serialize n h) = 8"
  by (simp add: UdpHeader_Serialize_def)

text \<open>The flags and the offset of IPv4 share two bytes.\<close>

lemma div_8_drop_bit: "(x :: u32) div 8 = drop_bit 3 x"
  by (simp add: drop_bit_eq_div)

lemma bit_and_0x1f: "bit (0x1f :: 'a::len word) i \<longleftrightarrow> i < LENGTH('a) \<and> i < 5"
  using bit_mask_iff [of 5 i, where ?'a = "'a word"] by (simp add: mask_eq_exp_minus_1)

lemma bit_and_7: "bit (7 :: 'a::len word) i \<longleftrightarrow> i < LENGTH('a) \<and> i < 3"
  using bit_mask_iff [of 3 i, where ?'a = "'a word"] by (simp add: mask_eq_exp_minus_1)

lemma low_bits_zero: "(w :: u16) AND 7 = 0 \<Longrightarrow> bit w i \<Longrightarrow> 3 \<le> i"
  by (metis bit_and_7 bit_and_iff bit_imp_le_length linorder_not_less bit_0_eq bot_apply bot_bool_def)

lemma fragment_bytes:
  fixes fo :: u16 and x :: u8
  assumes "fo AND 7 = 0" and "x AND 0x1f = 0"
  shows "push_bit 3 (push_bit 8 (ucast (((ucast (drop_bit 8 ((ucast fo :: u32) div 8) AND 0x1f) :: u8) OR x) AND 0x1f))
     OR ucast (ucast (((ucast fo :: u32) div 8) AND 0xff) :: u8)) = fo"
proof -
  have x: "\<not> bit x i" if "i < 5" for i
  proof -
    have "bit (x AND 0x1f) i \<longleftrightarrow> bit x i" using that by (simp only: bit_and_iff bit_and_0x1f) simp
    then show ?thesis using assms(2) by simp
  qed
  have s3: "bit fo (3 + (n - 3))" if "bit fo n" for n
    using low_bits_zero [OF assms(1) that] that by simp
  have s11: "bit fo (11 + (n - 11))" if "bit fo n" "\<not> bit fo (3 + (n - 3))" for n
    using s3 that by blast
  show ?thesis
    unfolding div_8_drop_bit
    by (rule bit_word_eqI)
      (simp only: bit_push_bit_iff bit_or_iff bit_and_iff bit_ucast_iff bit_drop_bit_eq bit_and_0x1f
        bit_255 o_apply, auto simp: not_less not_le x dest: low_bits_zero [OF assms(1)] intro: s3 s11)
qed

definition ip_wf :: "Ipv4Header \<Rightarrow> bool" where
  "ip_wf h \<longleftrightarrow> ip_fragmentOffset h AND 7 = 0 \<and> ip_flags h \<in> {0, 1, 2, 3}"

text \<open>The byte of the flags and the high bits of the offset.\<close>

definition flags_byte :: "bool \<Rightarrow> bool \<Rightarrow> u16 \<Rightarrow> u8" where
  "flags_byte df mf fo = (ucast (drop_bit 8 ((ucast fo :: u32) div 8) AND 0x1f)
     OR ((if df then push_bit 6 1 else 0) OR (if mf then push_bit 5 1 else 0)))"

lemma flags_byte_bits:
  "flags_byte df mf fo AND push_bit 6 1 \<noteq> 0 \<longleftrightarrow> df" "flags_byte df mf fo AND push_bit 5 1 \<noteq> 0 \<longleftrightarrow> mf"
  unfolding bit_iff_and_push_bit_not_eq_0 [symmetric] flags_byte_def
  by (simp_all only: bit_or_iff bit_and_iff bit_ucast_iff bit_and_0x1f bit_push_bit_iff if_distribR
      if_distrib [of "\<lambda>x. bit x _"] bit_1_iff bit_0_eq bot_apply) auto

lemma flags_byte_offset:
  assumes "fo AND 7 = 0"
  shows "push_bit 3 (push_bit 8 (ucast (flags_byte df mf fo AND 0x1f))
     OR ucast (ucast (((ucast fo :: u32) div 8) AND 0xff) :: u8)) = fo"
  unfolding flags_byte_def by (rule fragment_bytes [OF assms]) simp

lemma Ipv4_base_eq:
  "Ipv4_base h ck = WriteU8 0x45 @ WriteU8 (ip_tos h) @ WriteHtonU16 (ip_payloadSize h + 20)
     @ WriteHtonU16 (ip_identification h)
     @ WriteU8 (flags_byte (ip_flags h AND DONT_FRAGMENT \<noteq> 0) (ip_flags h AND MORE_FRAGMENTS \<noteq> 0)
         (ip_fragmentOffset h))
     @ WriteU8 (ucast ((ucast (ip_fragmentOffset h) :: u32) div 8 AND 0xff))
     @ WriteU8 (ip_ttl h) @ WriteU8 (ip_protocol h) @ WriteU16 ck
     @ WriteHtonU32 (ip_source h) @ WriteHtonU32 (ip_destination h)"
  by (simp add: Ipv4_base_def Let_def flags_byte_def or.assoc)

lemma Ipv4_round_trip:
  assumes "ip_wf h"
  shows "Ipv4Header_Deserialize False (Ipv4_base h ck @ s) = Some (Some (h, ck, 20, True), s)"
    and "Ipv4Header_Deserialize True (Ipv4_base h ck @ s)
      = map_option (\<lambda>c. (Some (h, ck, 20, c = 0), s)) (CalculateIpChecksum 20 0 (Ipv4_base h ck @ s))"
proof -
  have fl: "(if ip_flags h AND DONT_FRAGMENT \<noteq> 0 then DONT_FRAGMENT else 0)
      OR (if ip_flags h AND MORE_FRAGMENTS \<noteq> 0 then MORE_FRAGMENTS else 0) = ip_flags h"
    using assms by (auto simp: ip_wf_def DONT_FRAGMENT_def MORE_FRAGMENTS_def)
  have fo: "ip_fragmentOffset h AND 7 = 0" using assms by (simp add: ip_wf_def)
  show "Ipv4Header_Deserialize False (Ipv4_base h ck @ s) = Some (Some (h, ck, 20, True), s)"
    unfolding Ipv4_base_eq Ipv4Header_Deserialize_def append_assoc
    by (simp add: Let_def flags_byte_bits [simplified] flags_byte_offset [OF fo, simplified] fl)
  show "Ipv4Header_Deserialize True (Ipv4_base h ck @ s)
      = map_option (\<lambda>c. (Some (h, ck, 20, c = 0), s)) (CalculateIpChecksum 20 0 (Ipv4_base h ck @ s))"
    unfolding Ipv4_base_eq Ipv4Header_Deserialize_def append_assoc
    by (cases "CalculateIpChecksum 20 0 (Ipv4_base h ck @ s)")
      (simp_all add: Let_def flags_byte_bits [simplified] flags_byte_offset [OF fo, simplified] fl Ipv4_base_eq)
qed

lemma Ipv4_size: "length (Ipv4_base h ck) = 20"
  by (simp add: Ipv4_base_eq)

interpretation ipv4_header: codec "\<lambda>h. Ipv4_base h 0"
    "\<lambda>s. do { (r, s) \<leftarrow> Ipv4Header_Deserialize False s; (h, ck, n, good) \<leftarrow> r; Some (h, s) }" ip_wf 20
  by unfold_locales (simp_all add: Ipv4_round_trip Ipv4_size)

subsection \<open>The checksum\<close>

lemma fold_step:
  fixes x :: u32
  defines "y \<equiv> (x AND 0xffff) + drop_bit 16 x"
  shows "unat y = unat x mod 65536 + unat x div 65536" and "unat y mod 65535 = unat x mod 65535"
    and "y = 0 \<longleftrightarrow> x = 0"
proof -
  have m: "x AND 0xffff = take_bit 16 x" by (simp add: take_bit_eq_mask mask_eq_exp_minus_1)
  have u: "unat (x AND 0xffff) = unat x mod 65536" "unat (drop_bit 16 x) = unat x div 65536"
    unfolding m unat_take_bit unat_drop_bit by simp_all
  have "unat x div 65536 < 65536" using u32_lt [of x] by (simp add: div_less_iff_less_mult)
  moreover have "unat x mod 65536 < 65536" by simp
  ultimately show n: "unat y = unat x mod 65536 + unat x div 65536"
    unfolding y_def by (subst unat_add_nowrap) (simp_all add: u)
  have e: "unat x = 65535 * (unat x div 65536) + (unat x mod 65536 + unat x div 65536)"
    using div_mult_mod_eq [of "unat x" 65536] by linarith
  have "unat x mod 65535 = (65535 * (unat x div 65536) + (unat x mod 65536 + unat x div 65536)) mod 65535"
    using e by (rule arg_cong)
  then show "unat y mod 65535 = unat x mod 65535" by (simp only: n mod_mult_self3 mod_mult_self4)
  have "unat y = 0 \<longleftrightarrow> unat x = 0" using n e by linarith
  then show "y = 0 \<longleftrightarrow> x = 0" by (simp only: unat_eq_zero)
qed

lemma shift_16_zero: "drop_bit 16 (x :: u32) = 0 \<longleftrightarrow> unat x < 65536"
proof -
  have "unat (drop_bit 16 x) = unat x div 65536" unfolding unat_drop_bit by simp
  then have "drop_bit 16 x = 0 \<longleftrightarrow> unat x div 65536 = 0" by (metis unat_eq_zero)
  then show ?thesis by (simp add: div_eq_0_iff)
qed

lemma fold_sum_spec:
  "\<exists>y. fold_sum fold_fuel x = Some y \<and> unat y < 65536 \<and> unat y mod 65535 = unat x mod 65535
     \<and> (y = 0 \<longleftrightarrow> x = 0)"
proof -
  let ?f = "\<lambda>x :: u32. (x AND 0xffff) + drop_bit 16 x"
  have a: "unat (?f x) \<le> 131070"
    using fold_step(1) [of x] u32_lt [of x] mod_less_divisor [of 65536 "unat x"]
      less_mult_imp_div_less [of "unat x" 65536 65536] by linarith
  have b: "unat (?f (?f x)) < 65536" if "\<not> unat (?f x) < 65536"
  proof -
    have q: "unat (?f x) div 65536 = 1" using a that by (intro div_nat_eqI) simp_all
    then have "unat (?f x) mod 65536 = unat (?f x) - 65536" by (simp add: modulo_nat_def)
    then show ?thesis using fold_step(1) [of "?f x"] a that q by linarith
  qed
  define x1 where "x1 = ?f x"
  define x2 where "x2 = ?f x1"
  have e: "fold_sum fold_fuel x = (if unat x < 65536 then Some x
      else if unat x1 < 65536 then Some x1 else if unat x2 < 65536 then Some x2 else None)"
    by (simp only: fold_fuel_def numeral_3_eq_3 fold_sum.simps shift_16_zero x1_def x2_def)
  have s1: "unat x1 mod 65535 = unat x mod 65535" "x1 = 0 \<longleftrightarrow> x = 0"
    using fold_step(2,3) [of x] unfolding x1_def .
  have s2: "unat x2 mod 65535 = unat x1 mod 65535" "x2 = 0 \<longleftrightarrow> x1 = 0"
    using fold_step(2,3) [of x1] unfolding x2_def .
  have "unat x < 65536 \<or> unat x1 < 65536 \<or> unat x2 < 65536"
    using b unfolding x1_def x2_def by blast
  then show ?thesis unfolding e using s1 s2 by auto
qed

text \<open>The sum of the words of a header, and how it depends on the checksum field.\<close>

lemma sum_words_base:
  "\<exists>acc. \<forall>ck s. sum_words 10 0 (Ipv4_base h ck @ s) = Some (acc + ucast ck, s) \<and> unat acc \<le> 9 * 65535"
proof -
  let ?w = "\<lambda>a b. ucast (shift_in (ucast (a :: u8)) b :: u16) :: u32"
  let ?fb = "flags_byte (ip_flags h AND DONT_FRAGMENT \<noteq> 0) (ip_flags h AND MORE_FRAGMENTS \<noteq> 0)
    (ip_fragmentOffset h)"
  let ?n = "ip_payloadSize h + 20" and ?i = "ip_identification h"
  let ?l = "ucast ((ucast (ip_fragmentOffset h) :: u32) div 8 AND 0xff)"
  let ?acc = "?w (ip_tos h) 0x45 + ?w (byte_of 0 ?n) (byte_of 1 ?n) + ?w (byte_of 0 ?i) (byte_of 1 ?i)
    + ?w ?l ?fb + ?w (ip_protocol h) (ip_ttl h)
    + ?w (byte_of 2 (ip_source h)) (byte_of 3 (ip_source h)) + ?w (byte_of 0 (ip_source h)) (byte_of 1 (ip_source h))
    + ?w (byte_of 2 (ip_destination h)) (byte_of 3 (ip_destination h))
    + ?w (byte_of 0 (ip_destination h)) (byte_of 1 (ip_destination h))"
  have w: "unat (?w a b) \<le> 65535" for a b
  proof -
    have "unat (?w a b) = unat (shift_in (ucast a) b :: u16)" by (rule unat_ucast_up) simp
    then show ?thesis using u16_lt [of "shift_in (ucast a) b"] by linarith
  qed
  have add: "unat (x + y) \<le> k + 65535" if "unat (x :: u32) \<le> k" "unat y \<le> 65535" for x y k
  proof -
    have "unat (x + y) \<le> unat x + unat y" by (simp add: unat_word_ariths)
    with that show ?thesis by linarith
  qed
  have "unat ?acc \<le> 65535 + 65535 + 65535 + 65535 + 65535 + 65535 + 65535 + 65535 + 65535"
    by (intro add w)
  moreover have "sum_words 10 0 (Ipv4_base h ck @ s) = Some (?acc + ucast ck, s)" for ck s
    unfolding Ipv4_base_eq
    by (simp add: eval_nat_numeral ReadU16_def WriteU8_def WriteU16_def WriteHtonU16_def
        WriteHtonU32_def bytes_word algebra_simps)
  ultimately show ?thesis by (intro exI [of _ ?acc]) simp
qed

lemma unat_low_complement: "unat (ucast (NOT (y :: u32)) :: u16) = (4294967295 - unat y) mod 65536"
proof -
  have "NOT y = - 1 - y" by (simp add: not_eq_complement)
  moreover have "unat (- 1 - y) = unat (- 1 :: u32) - unat y"
    by (rule unat_sub_nowrap) (rule word_order.extremum)
  moreover have "unat (- 1 :: u32) = 4294967295"
    unfolding unsigned_minus_1_eq_mask by (simp add: mask_eq_exp_minus_1)
  ultimately have "unat (NOT y) = 4294967295 - unat y" by simp
  then show ?thesis by (simp add: unsigned_ucast_eq take_bit_eq_mod)
qed

lemma complement_congruence:
  fixes a u m :: nat
  assumes "u mod m = a mod m" and "u \<le> m"
  shows "(a + (m - u)) mod m = 0"
proof -
  have "int a mod int m = int u mod int m" using assms(1) by (metis zmod_int)
  then have "int m dvd int a - int u" by (simp add: mod_eq_dvd_iff)
  then have "int m dvd (int a - int u) + int m" by simp
  moreover have "int (a + (m - u)) = (int a - int u) + int m" using assms(2) by (simp add: of_nat_diff)
  ultimately show ?thesis by (metis dvd_imp_mod_0 int_dvd_int_iff)
qed

lemma checksum_zero:
  "\<exists>bs. Ipv4Header_Serialize True h = Some bs \<and> CalculateIpChecksum 20 0 (bs @ rest) = Some 0"
proof -
  obtain acc where acc: "\<And>ck s. sum_words 10 0 (Ipv4_base h ck @ s) = Some (acc + ucast ck, s)"
    "unat acc \<le> 9 * 65535"
    using sum_words_base [of h] by blast
  obtain y where y: "fold_sum fold_fuel acc = Some y" "unat y < 65536"
    "unat y mod 65535 = unat acc mod 65535" "y = 0 \<longleftrightarrow> acc = 0"
    using fold_sum_spec [of acc] by blast
  let ?ck = "ucast (NOT y) :: u16"
  have n: "unat (20 :: u16) div 2 = 10" "((20 :: u16) AND 1 = 1) = False" by simp_all
  have ser: "Ipv4Header_Serialize True h = Some (Ipv4_base h ?ck)"
    using acc(1) [of 0 "[]"] y(1)
    by (simp only: Ipv4Header_Serialize_def CalculateIpChecksum_def n if_True if_False append_Nil2)
      simp
  have ck: "unat (ucast ?ck :: u32) = 65535 - unat y"
  proof -
    have "4294967295 - unat y = 65536 * 65535 + (65535 - unat y)" using y(2) by linarith
    then have "unat ?ck = (65536 * 65535 + (65535 - unat y)) mod 65536"
      by (simp only: unat_low_complement)
    also have "\<dots> = (65535 - unat y) mod 65536" by (simp only: mod_mult_self4)
    also have "\<dots> = 65535 - unat y" by (rule mod_less) simp
    finally have "unat ?ck = 65535 - unat y" .
    then show ?thesis by (simp add: unat_ucast_up)
  qed
  then have sum: "unat (acc + ucast ?ck) = unat acc + (65535 - unat y)"
    using acc(2) by (subst unat_add_nowrap) simp_all
  obtain z where z: "fold_sum fold_fuel (acc + ucast ?ck) = Some z" "unat z < 65536"
    "unat z mod 65535 = unat (acc + ucast ?ck) mod 65535" "z = 0 \<longleftrightarrow> acc + ucast ?ck = 0"
    using fold_sum_spec [of "acc + ucast ?ck"] by blast
  have "unat z mod 65535 = 0"
    unfolding z(3) sum using y(2,3) by (intro complement_congruence) simp_all
  moreover have "z \<noteq> 0"
  proof
    assume "z = 0"
    then have "unat acc + (65535 - unat y) = 0" using z(4) sum by simp
    then have "acc = 0" "unat y = 65535" using y(2) by (simp_all flip: unat_eq_zero)
    then show False using y(4) by simp
  qed
  ultimately have "unat z = 65535" 
  proof -
    assume "unat z mod 65535 = 0" and "z \<noteq> 0"
    moreover from this have "unat z \<noteq> 0" by (simp only: unat_eq_zero not_False_eq_True)
    moreover have "unat z < 65535 \<Longrightarrow> unat z mod 65535 = unat z" by (rule mod_less)
    ultimately show ?thesis using z(2) by linarith
  qed
  then have "unat (ucast (NOT z) :: u16) = 0" by (simp add: unat_low_complement)
  then have "(ucast (NOT z) :: u16) = 0" by (simp only: unat_eq_zero)
  then have "CalculateIpChecksum 20 0 (Ipv4_base h ?ck @ rest) = Some 0"
    using acc(1) [of ?ck rest] z(1)
    by (simp only: CalculateIpChecksum_def n if_False) simp
  with ser show ?thesis by blast
qed

text \<open>C26: The header checksum is accepted: over the serialized IPv4 header with the checksum it was
  given, the receiver computes zero.\<close>

theorem ip_checksum_accepted:
  "\<exists>bs. Ipv4Header_Serialize True h = Some bs \<and> CalculateIpChecksum 20 0 (bs @ rest) = Some 0"
  by (rule checksum_zero)

lemma checked_round_trip:
  assumes "ip_wf h"
  shows "\<exists>bs ck. Ipv4Header_Serialize True h = Some bs \<and> Ipv4Header_Deserialize True (bs @ s) = Some (Some (h, ck, 20, True), s)"
proof -
  obtain bs where bs: "Ipv4Header_Serialize True h = Some bs" "CalculateIpChecksum 20 0 (bs @ s) = Some 0"
    using checksum_zero by blast
  then obtain ck where "bs = Ipv4_base h ck" by (auto simp: Ipv4Header_Serialize_def elim!: bind_eq_SomeE)
  then show ?thesis using bs Ipv4_round_trip(2) [OF assms, of ck s] by simp
qed

end
