(* ===== verification/Custom_Header.thy ===== *)
theory Custom_Header
  imports Packet_Headers
begin

text \<open>
  \<^verbatim>\<open>CustomHeader\<close> (src/network/utils/custom-header.h and .cc): the header through which the
  switches and the network cards read a packet at one go. The members of its union are fields of
  their own here; the code reads the member it wrote for the same protocol. The telemetry of
  \<^verbatim>\<open>udp\<close> and of \<^verbatim>\<open>ack\<close> lies at the same place of the union and is one field.
\<close>

record tcp_part =
  tcp_sport :: u16
  tcp_dport :: u16
  tcp_seq :: u32
  tcp_ack :: u32
  tcp_length :: u8
  tcp_flags :: u8
  tcp_windowSize :: u16
  tcp_urgent :: u16
  tcp_options :: bytes

record CustomHeader =
  ch_brief :: bool
  ch_type :: u32
  ch_getInt :: bool
  pppProto :: u16
  ch_payloadSize :: u16
  ch_ipid :: u16
  ch_tos :: u8
  ch_ttl :: u8
  l3Prot :: u8
  ch_flags :: u8
  ch_fragmentOffset :: u16
  ch_sip :: u32
  ch_dip :: u32
  ch_checksum :: u16
  ch_headerSize :: u16
  ch_tcp :: tcp_part
  udp_sp :: u16
  udp_dp :: u16
  udp_len :: u16
  udp_pg :: u16
  udp_seq :: u32
  ch_cnp :: CnHeader
  ack_sport :: u16
  ack_dport :: u16
  ack_flags :: u16
  ack_pg :: u16
  ack_seq :: u32
  ch_ih :: IntHeader
  ch_pfc :: PauseHeader

definition L2_Header :: u32 where "L2_Header = 1"
definition L3_Header :: u32 where "L3_Header = 2"
definition L4_Header :: u32 where "L4_Header = 4"

definition CustomHeader_init :: "u32 \<Rightarrow> CustomHeader \<Rightarrow> CustomHeader" where
  "CustomHeader_init ty h = h\<lparr>ch_brief := True, ch_type := ty, ch_getInt := True, pppProto := 0,
     ch_payloadSize := 0, ch_ipid := 0, ch_tos := 0, ch_ttl := 0, l3Prot := 0, ch_flags := 0,
     ch_fragmentOffset := 0, ch_checksum := 0, ch_headerSize := 5 * 4\<rparr>"

definition GetIpv4EcnBits :: "CustomHeader \<Rightarrow> u8" where
  "GetIpv4EcnBits h = ch_tos h AND 0x3"

definition GetAckSerializedSize :: "int_conf \<Rightarrow> u32" where
  "GetAckSerializedSize c = 12 + GetStaticSize c"

definition GetUdpHeaderSize :: "int_conf \<Rightarrow> u32" where
  "GetUdpHeaderSize c = 8 + 2 + 4 + GetStaticSize c"

definition GetStaticWholeHeaderSize :: "int_conf \<Rightarrow> u32" where
  "GetStaticWholeHeaderSize c = 14 + 20 + GetUdpHeaderSize c"

definition ch_GetSerializedSize :: "int_conf \<Rightarrow> CustomHeader \<Rightarrow> u32" where
  "ch_GetSerializedSize c h =
     (if ch_type h AND L2_Header \<noteq> 0 then 14 else 0) + (if ch_type h AND L3_Header \<noteq> 0 then 5 * 4 else 0)
     + (if ch_type h AND L4_Header \<noteq> 0 then
          (if l3Prot h = 0x6 then ucast (tcp_length (ch_tcp h)) * 4
           else if l3Prot h = 0x11 then GetUdpHeaderSize c
           else if l3Prot h = 0xFC \<or> l3Prot h = 0xFD then GetAckSerializedSize c
           else if l3Prot h = 0xFF then 8
           else if l3Prot h = 0xFE then 9 else 0)
        else 0)"

subsection \<open>Writing\<close>

definition ch_ip :: "CustomHeader \<Rightarrow> Ipv4Header" where
  "ch_ip h = \<lparr>ip_payloadSize = ch_payloadSize h, ip_identification = ch_ipid h, ip_tos = ch_tos h,
     ip_ttl = ch_ttl h, ip_protocol = l3Prot h, ip_flags = ch_flags h,
     ip_fragmentOffset = ch_fragmentOffset h, ip_source = ch_sip h, ip_destination = ch_dip h\<rparr>"

definition tcp_Serialize :: "tcp_part \<Rightarrow> bytes" where
  "tcp_Serialize t =
     (let optionLen = (ucast (tcp_length t) - 5) * 4 :: u32 in
      WriteHtonU16 (tcp_sport t) @ WriteHtonU16 (tcp_dport t) @ WriteHtonU32 (tcp_seq t)
      @ WriteHtonU32 (tcp_ack t) @ WriteHtonU16 (push_bit 12 (ucast (tcp_length t)) OR ucast (tcp_flags t))
      @ WriteHtonU16 (tcp_windowSize t) @ WriteHtonU16 0 @ WriteHtonU16 (tcp_urgent t)
      @ (if optionLen \<le> 32 then take (unat optionLen) (tcp_options t) else []))"

definition CustomHeader_Serialize :: "int_conf \<Rightarrow> CustomHeader \<Rightarrow> bytes" where
  "CustomHeader_Serialize c h =
     (if ch_type h AND L2_Header \<noteq> 0 then WriteHtonU16 (pppProto h) @ WriteU64 0 @ WriteU32 0 else [])
     @ (if ch_type h AND L3_Header \<noteq> 0 then Ipv4_base (ch_ip h) 0 else [])
     @ (if ch_type h AND L4_Header \<noteq> 0 then
          (if l3Prot h = 0x6 then tcp_Serialize (ch_tcp h)
           else if l3Prot h = 0x11 then
             WriteHtonU16 (udp_sp h) @ WriteHtonU16 (udp_dp h) @ WriteHtonU16 (udp_len h)
             @ WriteHtonU16 0 @ WriteHtonU32 (udp_seq h) @ WriteHtonU16 (udp_pg h)
             @ IntHeader_Serialize c (ch_ih h)
           else if l3Prot h = 0xFF then CnHeader_Serialize (ch_cnp h)
           else if l3Prot h = 0xFC \<or> l3Prot h = 0xFD then
             WriteU16 (ack_sport h) @ WriteU16 (ack_dport h) @ WriteU16 (ack_flags h)
             @ WriteU16 (ack_pg h) @ WriteU32 (ack_seq h) @ IntHeader_Serialize c (ch_ih h)
           else if l3Prot h = 0xFE then PauseHeader_Serialize (ch_pfc h)
           else [])
        else [])"

subsection \<open>Reading\<close>

definition l3_brief :: "CustomHeader \<Rightarrow> CustomHeader reader" where
  "l3_brief h s = do { (tos, s) \<leftarrow> ReadU8 s; s \<leftarrow> Next 2 s; (ident, s) \<leftarrow> ReadNtohU16 s; s \<leftarrow> Next 3 s;
     (prot, s) \<leftarrow> ReadU8 s; s \<leftarrow> Next 2 s; (src, s) \<leftarrow> ReadNtohU32 s; (dst, s) \<leftarrow> ReadNtohU32 s;
     Some (h\<lparr>ch_tos := tos, ch_ipid := ident, l3Prot := prot, ch_sip := src, ch_dip := dst\<rparr>, s) }"

definition l3_full :: "u16 \<Rightarrow> CustomHeader \<Rightarrow> CustomHeader reader" where
  "l3_full headerSize h s = do { (tos, s) \<leftarrow> ReadU8 s; (sz, s) \<leftarrow> ReadNtohU16 s;
     (ident, s) \<leftarrow> ReadNtohU16 s; (flags, s) \<leftarrow> ReadU8 s;
     let fl = (if flags AND push_bit 6 1 \<noteq> 0 then DONT_FRAGMENT else 0) OR
              (if flags AND push_bit 5 1 \<noteq> 0 then MORE_FRAGMENTS else 0);
     (low, s) \<leftarrow> ReadU8 s;
     let fo = (push_bit 3 (push_bit 8 (ucast (flags AND 0x1f)) OR ucast low) :: u16);
     (ttl, s) \<leftarrow> ReadU8 s; (prot, s) \<leftarrow> ReadU8 s; (ck, s) \<leftarrow> ReadU16 s;
     (src, s) \<leftarrow> ReadNtohU32 s; (dst, s) \<leftarrow> ReadNtohU32 s;
     Some (h\<lparr>ch_tos := tos, ch_payloadSize := sz - headerSize, ch_ipid := ident, ch_flags := fl,
       ch_fragmentOffset := fo, ch_ttl := ttl, l3Prot := prot, ch_checksum := ck, ch_sip := src,
       ch_dip := dst, ch_headerSize := headerSize\<rparr>, s) }"

text \<open>\<open>Inr\<close> is the size returned when the options are too long.\<close>

definition l4_tcp :: "CustomHeader \<Rightarrow> (CustomHeader + CustomHeader) reader" where
  "l4_tcp h s = do { (sp, s) \<leftarrow> ReadNtohU16 s; (dp, s) \<leftarrow> ReadNtohU16 s; (sq, s) \<leftarrow> ReadNtohU32 s;
     (ak, s) \<leftarrow> ReadNtohU32 s; (field, s) \<leftarrow> ReadNtohU16 s;
     let t = (ch_tcp h)\<lparr>tcp_sport := sp, tcp_dport := dp, tcp_seq := sq, tcp_ack := ak,
                tcp_flags := ucast (field AND 0x3f)\<rparr>;
     if ch_brief h then Some (Inl (h\<lparr>ch_tcp := t\<rparr>), s)
     else do {
       (win, s) \<leftarrow> ReadNtohU16 s; s \<leftarrow> Next 2 s; (urg, s) \<leftarrow> ReadNtohU16 s;
       let t = t\<lparr>tcp_length := ucast (drop_bit 12 field), tcp_windowSize := win, tcp_urgent := urg\<rparr>;
       let optionLen = ((ucast (tcp_length t) - 5) * 4 :: u32);
       if optionLen > 32 then Some (Inr (h\<lparr>ch_tcp := t\<rparr>), s)
       else do { rest \<leftarrow> Next (unat optionLen) s;
                 Some (Inl (h\<lparr>ch_tcp := t\<lparr>tcp_options := take (unat optionLen) s
                                @ drop (unat optionLen) (tcp_options t)\<rparr>\<rparr>), rest) } } }"

definition l4_udp :: "int_conf \<Rightarrow> CustomHeader \<Rightarrow> CustomHeader reader" where
  "l4_udp c h s = do { (sp, s) \<leftarrow> ReadNtohU16 s; (dp, s) \<leftarrow> ReadNtohU16 s;
     (n, s) \<leftarrow> (if ch_brief h then do { s \<leftarrow> Next 4 s; Some (udp_len h, s) }
               else do { (n, s) \<leftarrow> ReadNtohU16 s; s \<leftarrow> Next 2 s; Some (n, s) });
     (sq, s) \<leftarrow> ReadNtohU32 s; (pg, s) \<leftarrow> ReadNtohU16 s;
     (ih, s) \<leftarrow> (if ch_getInt h then IntHeader_Deserialize c (ch_ih h) s else Some (ch_ih h, s));
     Some (h\<lparr>udp_sp := sp, udp_dp := dp, udp_len := n, udp_seq := sq, udp_pg := pg, ch_ih := ih\<rparr>, s) }"

definition l4_ack :: "int_conf \<Rightarrow> CustomHeader \<Rightarrow> CustomHeader reader" where
  "l4_ack c h s = do { (sp, s) \<leftarrow> ReadU16 s; (dp, s) \<leftarrow> ReadU16 s; (fl, s) \<leftarrow> ReadU16 s;
     (pg, s) \<leftarrow> ReadU16 s; (sq, s) \<leftarrow> ReadU32 s;
     (ih, s) \<leftarrow> (if ch_getInt h then IntHeader_Deserialize c (ch_ih h) s else Some (ch_ih h, s));
     Some (h\<lparr>ack_sport := sp, ack_dport := dp, ack_flags := fl, ack_pg := pg, ack_seq := sq,
       ch_ih := ih\<rparr>, s) }"

text \<open>
  \<open>s\<close> is the buffer from the start of the header. TCP and UDP are read after the length the IPv4
  header states, the other protocols where the iterator stands. The value is the header and the
  number of bytes the code returns.
\<close>

definition ch_read_l4 :: "int_conf \<Rightarrow> CustomHeader \<Rightarrow> bytes \<Rightarrow> nat \<Rightarrow> nat \<Rightarrow> bytes \<Rightarrow> (CustomHeader \<times> nat) option" where
  "ch_read_l4 c h s l2 l3 i =
     (if l3Prot h = 0x6 then do {
        i \<leftarrow> Next (l2 + l3) s; (r, i) \<leftarrow> l4_tcp h i;
        Some (case r of Inl h \<Rightarrow> (h, l2 + l3 + unat (tcp_length (ch_tcp h)) * 4) | Inr h \<Rightarrow> (h, 20)) }
      else if l3Prot h = 0x11 then do {
        i \<leftarrow> Next (l2 + l3) s; (h, i) \<leftarrow> l4_udp c h i;
        Some (h, l2 + l3 + unat (GetUdpHeaderSize c)) }
      else if l3Prot h = 0xFF then do {
        (cn, i) \<leftarrow> CnHeader_Deserialize i; Some (h\<lparr>ch_cnp := cn\<rparr>, l2 + l3 + 8) }
      else if l3Prot h = 0xFC \<or> l3Prot h = 0xFD then do {
        (h, i) \<leftarrow> l4_ack c h i; Some (h, l2 + l3 + unat (GetAckSerializedSize c)) }
      else if l3Prot h = 0xFE then do {
        (p, i) \<leftarrow> PauseHeader_Deserialize i; Some (h\<lparr>ch_pfc := p\<rparr>, l2 + l3 + 9) }
      else Some (h, l2 + l3))"

definition CustomHeader_Deserialize :: "int_conf \<Rightarrow> CustomHeader \<Rightarrow> bytes \<Rightarrow> (CustomHeader \<times> nat) option" where
  "CustomHeader_Deserialize c h s = do {
     (h, i, l2) \<leftarrow> (if ch_type h AND L2_Header \<noteq> 0
        then do { (p, i) \<leftarrow> ReadNtohU16 s; i \<leftarrow> Next 12 i; Some (h\<lparr>pppProto := p\<rparr>, i, 14) }
        else Some (h, s, 0));
     if ch_type h AND L3_Header \<noteq> 0 then do {
       i \<leftarrow> Next l2 s;
       (verIhl, i) \<leftarrow> ReadU8 i;
       let headerSize = (ucast (verIhl AND 0x0f) :: u16) * 4;
       if drop_bit 4 verIhl \<noteq> 4 then Some (h, 0)
       else do {
         (h, i) \<leftarrow> (if ch_brief h then l3_brief h i else l3_full headerSize h i);
         if ch_type h AND L4_Header \<noteq> 0 then ch_read_l4 c h s l2 (unat headerSize) i
         else Some (h, l2 + unat headerSize) } }
     else if ch_type h AND L4_Header \<noteq> 0 then ch_read_l4 c h s l2 0 i
     else Some (h, l2) }"

subsection \<open>What the sender wrote is what the receiver reads\<close>

lemma Next_append: "length a = n \<Longrightarrow> Next n (a @ s) = Some s"
  by (simp add: Next_def)

lemma Next_0 [simp]: "Next 0 s = Some s"
  by (simp add: Next_def)

lemma Next_wire [simp]:
  "Next 2 (WriteHtonU16 x @ s) = Some s" "Next 2 (WriteU16 x @ s) = Some s"
  "Next 4 (WriteHtonU16 x @ WriteHtonU16 y @ s) = Some s"
  "Next 4 (WriteHtonU16 x @ WriteU16 y @ s) = Some s"
  "Next 3 (WriteU8 a @ WriteU8 b @ WriteU8 d @ s) = Some s"
  using Next_append [of "WriteHtonU16 x @ WriteHtonU16 y" 4 s]
    Next_append [of "WriteHtonU16 x @ WriteU16 y" 4 s] Next_append [of "WriteU8 a @ WriteU8 b @ WriteU8 d" 3 s]
  by (simp_all add: Next_append)

definition link_bytes :: "u16 \<Rightarrow> bytes \<Rightarrow> bytes" where
  "link_bytes proto pad = PppHeader_Serialize proto @ pad"

definition seen_ip :: "u16 \<Rightarrow> Ipv4Header \<Rightarrow> CustomHeader \<Rightarrow> CustomHeader" where
  "seen_ip proto ip h = h\<lparr>pppProto := proto, ch_tos := ip_tos ip, ch_ipid := ip_identification ip,
     l3Prot := ip_protocol ip, ch_sip := ip_source ip, ch_dip := ip_destination ip\<rparr>"

definition full_brief :: "CustomHeader \<Rightarrow> bool" where
  "full_brief h \<longleftrightarrow> ch_type h = L2_Header OR L3_Header OR L4_Header \<and> ch_brief h \<and> ch_getInt h
     \<and> ch_ih h = IntHeader_init"

lemma full_brief_types:
  "full_brief h \<Longrightarrow> ch_type h AND L2_Header \<noteq> 0 \<and> ch_type h AND L3_Header \<noteq> 0 \<and> ch_type h AND L4_Header \<noteq> 0"
  by (simp add: full_brief_def L2_Header_def L3_Header_def L4_Header_def)

lemma seen_ip_simps [simp]:
  "l3Prot (seen_ip p ip h) = ip_protocol ip" "ch_type (seen_ip p ip h) = ch_type h"
  "ch_brief (seen_ip p ip h) = ch_brief h" "ch_getInt (seen_ip p ip h) = ch_getInt h"
  "ch_ih (seen_ip p ip h) = ch_ih h" "udp_len (seen_ip p ip h) = udp_len h"
  by (simp_all add: seen_ip_def)

lemma CustomHeader_Deserialize_packet:
  assumes "full_brief h" and "length pad = 12"
  shows "CustomHeader_Deserialize c h (link_bytes proto pad @ Ipv4_base ip ck @ s)
    = ch_read_l4 c (seen_ip proto ip h) (link_bytes proto pad @ Ipv4_base ip ck @ s) 14 20 s"
proof -
  have n: "Next 14 (link_bytes proto pad @ Ipv4_base ip ck @ s) = Some (Ipv4_base ip ck @ s)"
    using assms(2) by (intro Next_append) (simp add: link_bytes_def PppHeader_Serialize_def)
  have l2: "ReadNtohU16 (link_bytes proto pad @ Ipv4_base ip ck @ s) = Some (proto, pad @ Ipv4_base ip ck @ s)"
    by (simp add: link_bytes_def PppHeader_Serialize_def)
  note ty = full_brief_types [OF assms(1)]
  have b: "ch_brief h" using assms(1) by (simp add: full_brief_def)
  have l3: "ReadU8 (Ipv4_base ip ck @ s) = Some (0x45, drop 1 (Ipv4_base ip ck) @ s)"
    by (simp add: Ipv4_base_eq WriteU8_def)
  have br: "l3_brief (h\<lparr>pppProto := proto\<rparr>) (drop 1 (Ipv4_base ip ck) @ s) = Some (seen_ip proto ip h, s)"
  proof -
    have "drop 1 (Ipv4_base ip ck) = WriteU8 (ip_tos ip) @ WriteHtonU16 (ip_payloadSize ip + 20)
       @ WriteHtonU16 (ip_identification ip)
       @ WriteU8 (flags_byte (ip_flags ip AND DONT_FRAGMENT \<noteq> 0) (ip_flags ip AND MORE_FRAGMENTS \<noteq> 0)
           (ip_fragmentOffset ip))
       @ WriteU8 (ucast ((ucast (ip_fragmentOffset ip) :: u32) div 8 AND 0xff))
       @ WriteU8 (ip_ttl ip) @ WriteU8 (ip_protocol ip) @ WriteU16 ck
       @ WriteHtonU32 (ip_source ip) @ WriteHtonU32 (ip_destination ip)"
      by (simp add: Ipv4_base_eq WriteU8_def [of "0x45"])
    then show ?thesis by (simp add: l3_brief_def seen_ip_def)
  qed
  show ?thesis
    unfolding CustomHeader_Deserialize_def
    using ty b by (simp add: l2 n l3 br [unfolded One_nat_def] Next_append [OF assms(2)])
qed

lemma Next_34:
  "length pad = 12 \<Longrightarrow> Next 34 (link_bytes proto pad @ Ipv4_base ip ck @ s) = Some s"
  using Next_append [of "link_bytes proto pad @ Ipv4_base ip ck" 34 s]
  by (simp add: link_bytes_def PppHeader_Serialize_def Ipv4_size)

text \<open>C25: A data packet is read back by the network card that receives it as it was sent: the
  addresses, the ports, the sequence number, the priority and the telemetry.\<close>

theorem data_packet_parsed:
  assumes "full_brief h" and "length pad = 12" and "ip_protocol ip = 0x11" and "int_wf c (sts_ih st)"
  shows "CustomHeader_Deserialize c h (link_bytes proto pad @ Ipv4_base ip ck
      @ UdpHeader_Serialize n u @ SeqTsHeader_Serialize c st @ payload)
    = Some ((seen_ip proto ip h)\<lparr>udp_sp := udp_sport u, udp_dp := udp_dport u,
        udp_seq := sts_seq st, udp_pg := sts_pg st, ch_ih := sts_ih st\<rparr>,
        34 + unat (GetUdpHeaderSize c))"
proof -
  have b: "ch_brief h" "ch_getInt h" "ch_ih h = IntHeader_init"
    using assms(1) by (simp_all add: full_brief_def)
  have u: "l4_udp c (seen_ip proto ip h) (UdpHeader_Serialize n u @ SeqTsHeader_Serialize c st @ payload)
    = Some ((seen_ip proto ip h)\<lparr>udp_sp := udp_sport u, udp_dp := udp_dport u,
        udp_seq := sts_seq st, udp_pg := sts_pg st, ch_ih := sts_ih st\<rparr>, payload)"
    using b int_round_trip [OF assms(4)]
    by (simp add: l4_udp_def UdpHeader_Serialize_def SeqTsHeader_Serialize_def)
  show ?thesis
    unfolding CustomHeader_Deserialize_packet [OF assms(1,2)] ch_read_l4_def
    using assms(3) by (simp add: Next_34 [OF assms(2)] u)
qed

text \<open>An ACK or NACK is read back by the sender as the receiver wrote it: ports, flags, priority,
  sequence number and the telemetry it echoes.\<close>

lemma ack_packet_parsed:
  assumes "full_brief h" and "length pad = 12" and "ip_protocol ip \<in> {0xFC, 0xFD}"
    and "int_wf c (qbb_ih q)"
  shows "CustomHeader_Deserialize c h (link_bytes proto pad @ Ipv4_base ip ck @ qbbHeader_Serialize c q @ s)
    = Some ((seen_ip proto ip h)\<lparr>ack_sport := qbb_sport q, ack_dport := qbb_dport q,
        ack_flags := qbb_flags q, ack_pg := qbb_pg q, ack_seq := qbb_seq q, ch_ih := qbb_ih q\<rparr>,
        34 + unat (GetAckSerializedSize c))"
proof -
  have b: "ch_getInt h" "ch_ih h = IntHeader_init"
    using assms(1) by (simp_all add: full_brief_def)
  have u: "l4_ack c (seen_ip proto ip h) (qbbHeader_Serialize c q @ s)
    = Some ((seen_ip proto ip h)\<lparr>ack_sport := qbb_sport q, ack_dport := qbb_dport q,
        ack_flags := qbb_flags q, ack_pg := qbb_pg q, ack_seq := qbb_seq q, ch_ih := qbb_ih q\<rparr>, s)"
    using b int_round_trip [OF assms(4)]
    by (simp add: l4_ack_def qbbHeader_Serialize_def)
  show ?thesis
    unfolding CustomHeader_Deserialize_packet [OF assms(1,2)] ch_read_l4_def
    using assms(3) by (auto simp: u)
qed

lemma pfc_packet_parsed:
  assumes "full_brief h" and "length pad = 12" and "ip_protocol ip = 0xFE"
  shows "CustomHeader_Deserialize c h (link_bytes proto pad @ Ipv4_base ip ck @ PauseHeader_Serialize p @ s)
    = Some ((seen_ip proto ip h)\<lparr>ch_pfc := p\<rparr>, 43)"
  unfolding CustomHeader_Deserialize_packet [OF assms(1,2)] ch_read_l4_def
  using assms(3) pause_header.round_trip [of p s] by simp

subsection \<open>Witnesses\<close>

definition demo_ch :: CustomHeader where
  "demo_ch = CustomHeader_init 7 \<lparr>ch_brief = True, ch_type = 7, ch_getInt = True, pppProto = 0,
     ch_payloadSize = 0, ch_ipid = 0, ch_tos = 0, ch_ttl = 0, l3Prot = 0, ch_flags = 0,
     ch_fragmentOffset = 0, ch_sip = 0, ch_dip = 0, ch_checksum = 0, ch_headerSize = 20,
     ch_tcp = \<lparr>tcp_sport = 0, tcp_dport = 0, tcp_seq = 0, tcp_ack = 0, tcp_length = 5, tcp_flags = 0,
       tcp_windowSize = 0, tcp_urgent = 0, tcp_options = []\<rparr>,
     udp_sp = 0, udp_dp = 0, udp_len = 0, udp_pg = 0, udp_seq = 0,
     ch_cnp = \<lparr>cn_fid = 0, cn_qIndex = 0, cn_qfb = 0, cn_ecnBits = 0, cn_total = 0\<rparr>,
     ack_sport = 0, ack_dport = 0, ack_flags = 0, ack_pg = 0, ack_seq = 0, ch_ih = IntHeader_init,
     ch_pfc = \<lparr>pause_time = 0, pause_qlen = 0, pause_qindex = 0\<rparr>\<rparr>"

lemma demo_ch_full: "full_brief demo_ch"
  by (simp add: full_brief_def demo_ch_def CustomHeader_init_def L2_Header_def L3_Header_def L4_Header_def)

lemma data_packet_parsed_witness:
  "\<exists>r n. CustomHeader_Deserialize int_demo demo_ch (link_bytes 0x21 (replicate 12 0)
      @ Ipv4_base (Ipv4Header_init\<lparr>ip_protocol := 0x11\<rparr>) 0
      @ UdpHeader_Serialize 1056 \<lparr>udp_sport = 10000, udp_dport = 100, udp_checksum = 0, udp_forced = 0\<rparr>
      @ SeqTsHeader_Serialize int_demo \<lparr>sts_seq = 5000, sts_pg = 3, sts_ih = IntHeader_init\<rparr>
      @ replicate 1000 0) = Some (r, n) \<and> udp_seq r = 5000 \<and> udp_sp r = 10000 \<and> n = 90"
  by (subst data_packet_parsed [OF demo_ch_full])
    (simp_all add: int_wf_init GetUdpHeaderSize_def GetStaticSize_def int_demo_def)

lemma ack_packet_parsed_witness:
  "\<exists>r n. CustomHeader_Deserialize int_demo demo_ch (link_bytes 0x21 (replicate 12 0)
      @ Ipv4_base (Ipv4Header_init\<lparr>ip_protocol := 0xFC\<rparr>) 0
      @ qbbHeader_Serialize int_demo ((qbbHeader_init 3)\<lparr>qbb_seq := 6000\<rparr>) @ [])
    = Some (r, n) \<and> ack_seq r = 6000 \<and> ack_pg r = 3"
  by (subst ack_packet_parsed [OF demo_ch_full]) (simp_all add: int_wf_init qbbHeader_init_def)

end
