(* ===== verification/Packet_Model.thy ===== *)
theory Packet_Model
  imports Custom_Header
begin

text \<open>
  A packet as the switches and the network cards handle it: the IPv4 header, what follows it, the
  bytes of the whole packet and the tag a switch attaches (\<^verbatim>\<open>FlowIdTag\<close>, the port the packet came
  in). \<open>Custom_Header\<close> shows that the bytes of a packet are read back as these fields.
\<close>

datatype payload =
    Udp_Data (pd_sport: u16) (pd_dport: u16) (pd_seq: u32) (pd_pg: u16) (pd_ih: IntHeader)
  | Qbb_Ack (pa_hdr: qbbHeader)
  | Pfc (pf_hdr: PauseHeader)
  | Cnp (pc_hdr: CnHeader)
  | Tcp_Seg (pt_sport: u16) (pt_dport: u16)
  | Other_Payload

record packet =
  pkt_ip :: Ipv4Header
  pkt_load :: payload
  pkt_size :: u32
  pkt_tag :: "u32 option"

definition pkt_proto :: "packet \<Rightarrow> u8" where
  "pkt_proto p = ip_protocol (pkt_ip p)"

text \<open>The protocol numbers of the packets the code sends.\<close>

definition well_formed_packet :: "packet \<Rightarrow> bool" where
  "well_formed_packet p \<longleftrightarrow> (case pkt_load p of
       Udp_Data _ _ _ _ _ \<Rightarrow> pkt_proto p = 0x11
     | Qbb_Ack _ \<Rightarrow> pkt_proto p = 0xFC \<or> pkt_proto p = 0xFD
     | Pfc _ \<Rightarrow> pkt_proto p = 0xFE
     | Cnp _ \<Rightarrow> pkt_proto p = 0xFF
     | Tcp_Seg _ _ \<Rightarrow> pkt_proto p = 0x06
     | Other_Payload \<Rightarrow> pkt_proto p \<notin> {0x06, 0x11, 0xFC, 0xFD, 0xFE, 0xFF})"

end
