(* ===== verification/Egress_Queue.thy ===== *)
theory Egress_Queue
  imports Packet_Model Cpp_Double
begin

text \<open>
  The queues of a port. \<^verbatim>\<open>OldQueue\<close> and \<^verbatim>\<open>OldDropTailQueue\<close> (src/network/utils/old-queue.cc,
  old-drop-tail-queue.cc) are a FIFO with a limit and counters; \<^verbatim>\<open>BEgressQueue\<close>
  (broadcom-egress-queue.cc) holds \<open>fCnt\<close> of them, serves queue 0 first and the queues 1 to 7
  round robin or by deficit round robin, skipping paused ones.
\<close>

subsection \<open>Drop-tail queue\<close>

datatype QueueMode = QUEUE_MODE_PACKETS | QUEUE_MODE_BYTES

record OldQueue =
  m_packets :: "packet list"
  m_bytesInDropTail :: u32
  m_mode :: QueueMode
  m_maxPackets :: u32
  m_maxBytes32 :: u32
  m_nBytes :: u32
  m_nTotalReceivedBytes :: u32
  m_nPackets :: u32
  m_nTotalReceivedPackets :: u32
  m_nTotalDroppedBytes :: u32
  m_nTotalDroppedPackets :: u32

definition OldQueue_init :: OldQueue where
  "OldQueue_init = \<lparr>m_packets = [], m_bytesInDropTail = 0, m_mode = QUEUE_MODE_BYTES,
     m_maxPackets = 100, m_maxBytes32 = 30000 * 65535, m_nBytes = 0, m_nTotalReceivedBytes = 0,
     m_nPackets = 0, m_nTotalReceivedPackets = 0, m_nTotalDroppedBytes = 0,
     m_nTotalDroppedPackets = 0\<rparr>"

definition Drop :: "packet \<Rightarrow> OldQueue \<Rightarrow> OldQueue" where
  "Drop p q = q\<lparr>m_nTotalDroppedPackets := m_nTotalDroppedPackets q + 1,
     m_nTotalDroppedBytes := m_nTotalDroppedBytes q + pkt_size p\<rparr>"

definition DoEnqueue :: "packet \<Rightarrow> OldQueue \<Rightarrow> bool \<times> OldQueue" where
  "DoEnqueue p q =
     (if m_mode q = QUEUE_MODE_PACKETS \<and> length (m_packets q) \<ge> unat (m_maxPackets q)
      then (False, Drop p q)
      else if m_mode q = QUEUE_MODE_BYTES \<and> m_bytesInDropTail q + pkt_size p \<ge> m_maxBytes32 q
      then (False, Drop p q)
      else (True, q\<lparr>m_bytesInDropTail := m_bytesInDropTail q + pkt_size p,
                    m_packets := m_packets q @ [p]\<rparr>))"

definition Enqueue :: "packet \<Rightarrow> OldQueue \<Rightarrow> bool \<times> OldQueue" where
  "Enqueue p q = (let (retval, q) = DoEnqueue p q in
     if retval then (True, q\<lparr>m_nBytes := m_nBytes q + pkt_size p,
       m_nTotalReceivedBytes := m_nTotalReceivedBytes q + pkt_size p,
       m_nPackets := m_nPackets q + 1, m_nTotalReceivedPackets := m_nTotalReceivedPackets q + 1\<rparr>)
     else (False, q))"

definition DoDequeue :: "OldQueue \<Rightarrow> packet option \<times> OldQueue" where
  "DoDequeue q = (case m_packets q of [] \<Rightarrow> (None, q)
     | p # ps \<Rightarrow> (Some p, q\<lparr>m_packets := ps, m_bytesInDropTail := m_bytesInDropTail q - pkt_size p\<rparr>))"

definition Dequeue :: "OldQueue \<Rightarrow> (packet option \<times> OldQueue) option" where
  "Dequeue q = (let (r, q) = DoDequeue q in
     case r of None \<Rightarrow> Some (None, q)
     | Some p \<Rightarrow> do { guard (m_nBytes q \<ge> pkt_size p); guard (m_nPackets q > 0);
                     Some (Some p, q\<lparr>m_nBytes := m_nBytes q - pkt_size p,
                                    m_nPackets := m_nPackets q - 1\<rparr>) })"

definition Peek :: "OldQueue \<Rightarrow> packet option" where
  "Peek q = (case m_packets q of [] \<Rightarrow> None | p # ps \<Rightarrow> Some p)"

definition IsEmpty :: "OldQueue \<Rightarrow> bool" where
  "IsEmpty q = (m_nPackets q = 0)"

text \<open>\<open>DequeueAll\<close> dequeues until the counter is zero; the fuel is the number of packets.\<close>

fun dequeue_all :: "nat \<Rightarrow> OldQueue \<Rightarrow> OldQueue option" where
  "dequeue_all 0 q = (if IsEmpty q then Some q else None)"
| "dequeue_all (Suc n) q = (if IsEmpty q then Some q else do { (r, q) \<leftarrow> Dequeue q; dequeue_all n q })"

definition ResetStatistics :: "OldQueue \<Rightarrow> OldQueue" where
  "ResetStatistics q = q\<lparr>m_nTotalReceivedBytes := 0, m_nTotalReceivedPackets := 0,
     m_nTotalDroppedBytes := 0, m_nTotalDroppedPackets := 0\<rparr>"

subsection \<open>The queues of a port\<close>

definition fCnt :: nat where "fCnt = 128"
definition beq_qCnt :: nat where "beq_qCnt = 8"

record BEgressQueue =
  m_maxBytes :: double
  m_bytesInQueue :: "nat \<Rightarrow> u32"
  m_bytesInQueueTotal :: u32
  m_rrlast :: nat
  m_dwrrEnable :: bool
  m_dwrrW :: "nat \<Rightarrow> double"
  m_dwrrDeficit :: "nat \<Rightarrow> int"
  m_dwrrCur :: nat
  m_qlast :: nat
  m_queues :: "nat \<Rightarrow> OldQueue"
  beq_nBytes :: u32
  beq_nPackets :: u32
  beq_totalBytes :: u32
  beq_totalPackets :: u32

definition BEgressQueue_init :: "nat \<Rightarrow> BEgressQueue" where
  "BEgressQueue_init qlast0 = \<lparr>m_maxBytes = Fin (1000 * 1024 * 1024), m_bytesInQueue = (\<lambda>_. 0),
     m_bytesInQueueTotal = 0, m_rrlast = 0, m_dwrrEnable = False, m_dwrrW = (\<lambda>_. Fin 1),
     m_dwrrDeficit = (\<lambda>_. 0), m_dwrrCur = 1, m_qlast = qlast0, m_queues = (\<lambda>_. OldQueue_init),
     beq_nBytes = 0, beq_nPackets = 0, beq_totalBytes = 0, beq_totalPackets = 0\<rparr>"

definition EnableDwrr :: "(nat \<Rightarrow> double) \<Rightarrow> BEgressQueue \<Rightarrow> BEgressQueue" where
  "EnableDwrr w b = b\<lparr>m_dwrrEnable := True, m_dwrrW := w, m_dwrrDeficit := (\<lambda>_. 0)\<rparr>"

text \<open>The value the inner \<^verbatim>\<open>Enqueue\<close> returns is not looked at.\<close>

definition beq_DoEnqueue :: "packet \<Rightarrow> nat \<Rightarrow> BEgressQueue \<Rightarrow> (bool \<times> BEgressQueue) option" where
  "beq_DoEnqueue p q b =
     (if dless (of_u32_d (m_bytesInQueueTotal b + pkt_size p)) (m_maxBytes b) then do {
        guard (q < fCnt);
        Some (True, b\<lparr>m_queues := (m_queues b)(q := snd (Enqueue p (m_queues b q))),
          m_bytesInQueueTotal := m_bytesInQueueTotal b + pkt_size p,
          m_bytesInQueue := (m_bytesInQueue b)(q := m_bytesInQueue b q + pkt_size p)\<rparr>) }
      else Some (False, b))"

definition beq_Enqueue :: "packet \<Rightarrow> nat \<Rightarrow> BEgressQueue \<Rightarrow> (bool \<times> BEgressQueue) option" where
  "beq_Enqueue p q b = do {
     (retval, b) \<leftarrow> beq_DoEnqueue p q b;
     Some (retval, if retval then b\<lparr>beq_nBytes := beq_nBytes b + pkt_size p,
       beq_totalBytes := beq_totalBytes b + pkt_size p, beq_nPackets := beq_nPackets b + 1,
       beq_totalPackets := beq_totalPackets b + 1\<rparr> else b) }"

definition QUANTUM :: int where "QUANTUM = 2048"

definition add_int64 :: "int \<Rightarrow> int \<Rightarrow> int option" where
  "add_int64 a b = (if - (2 ^ 63) \<le> a + b \<and> a + b < 2 ^ 63 then Some (a + b) else None)"

text \<open>One packet of deficit round robin: \<open>tries\<close> counts down from \<open>16 * qCnt\<close>.\<close>

definition dwrr_advance :: "BEgressQueue \<Rightarrow> BEgressQueue option" where
  "dwrr_advance b =
     (let cur = (if m_dwrrCur b + 1 \<ge> beq_qCnt then 1 else m_dwrrCur b + 1) in do {
        credit \<leftarrow> to_i64 (dmul (of_int_d QUANTUM) (m_dwrrW b cur));
        d \<leftarrow> add_int64 (m_dwrrDeficit b cur) credit;
        Some (b\<lparr>m_dwrrCur := cur, m_dwrrDeficit := (m_dwrrDeficit b)(cur := d)\<rparr>) })"

fun dwrr_loop :: "nat \<Rightarrow> (nat \<Rightarrow> bool) \<Rightarrow> BEgressQueue \<Rightarrow> (nat option \<times> BEgressQueue) option" where
  "dwrr_loop 0 paused b = Some (None, b)"
| "dwrr_loop (Suc tries) paused b =
     (let q = m_dwrrCur b in
      if \<not> paused q \<and> m_nPackets (m_queues b q) > 0 then do {
        h \<leftarrow> Peek (m_queues b q);
        let psize = uint (pkt_size h);
        if m_dwrrDeficit b q \<ge> psize
        then Some (Some q, b\<lparr>m_dwrrDeficit := (m_dwrrDeficit b)(q := m_dwrrDeficit b q - psize)\<rparr>)
        else do { b \<leftarrow> dwrr_advance b; dwrr_loop tries paused b } }
      else do {
        b \<leftarrow> dwrr_advance (b\<lparr>m_dwrrDeficit := (m_dwrrDeficit b)(q := 0)\<rparr>);
        dwrr_loop tries paused b })"

text \<open>Round robin: the offsets \<open>k, k + 1, \<dots>\<close> up to \<open>qCnt\<close> from the queue served last.\<close>

definition rr_eligible :: "(nat \<Rightarrow> bool) \<Rightarrow> BEgressQueue \<Rightarrow> nat \<Rightarrow> bool" where
  "rr_eligible paused b q = (\<not> paused q \<and> m_nPackets (m_queues b q) > 0)"

fun rr_loop :: "nat list \<Rightarrow> (nat \<Rightarrow> bool) \<Rightarrow> BEgressQueue \<Rightarrow> nat option" where
  "rr_loop [] paused b = None"
| "rr_loop (k # ks) paused b =
     (if rr_eligible paused b ((k + m_rrlast b) mod beq_qCnt)
      then Some ((k + m_rrlast b) mod beq_qCnt) else rr_loop ks paused b)"

definition select_queue :: "(nat \<Rightarrow> bool) \<Rightarrow> BEgressQueue \<Rightarrow> (nat option \<times> BEgressQueue) option" where
  "select_queue paused b =
     (if m_nPackets (m_queues b 0) > 0 then Some (Some 0, b)
      else if m_dwrrEnable b then dwrr_loop (16 * beq_qCnt) paused b
      else Some (rr_loop [1..<beq_qCnt + 1] paused b, b))"

definition DoDequeueRR :: "(nat \<Rightarrow> bool) \<Rightarrow> BEgressQueue \<Rightarrow> (packet option \<times> BEgressQueue) option" where
  "DoDequeueRR paused b =
     (if m_bytesInQueueTotal b = 0 then Some (None, b)
      else do {
        (r, b) \<leftarrow> select_queue paused b;
        (case r of None \<Rightarrow> Some (None, b)
         | Some q \<Rightarrow> do {
             (r, inner) \<leftarrow> Dequeue (m_queues b q);
             p \<leftarrow> r;
             let b = b\<lparr>m_queues := (m_queues b)(q := inner),
                      m_bytesInQueueTotal := m_bytesInQueueTotal b - pkt_size p,
                      m_bytesInQueue := (m_bytesInQueue b)(q := m_bytesInQueue b q - pkt_size p)\<rparr>;
             Some (Some p, b\<lparr>m_rrlast := (if q \<noteq> 0 then q else m_rrlast b), m_qlast := q\<rparr>) }) })"

definition DequeueRR :: "(nat \<Rightarrow> bool) \<Rightarrow> BEgressQueue \<Rightarrow> (packet option \<times> BEgressQueue) option" where
  "DequeueRR paused b = do {
     (r, b) \<leftarrow> DoDequeueRR paused b;
     (case r of None \<Rightarrow> Some (None, b)
      | Some p \<Rightarrow> do {
          guard (beq_nBytes b \<ge> pkt_size p); guard (beq_nPackets b > 0);
          Some (Some p, b\<lparr>beq_nBytes := beq_nBytes b - pkt_size p,
                         beq_nPackets := beq_nPackets b - 1\<rparr>) }) }"

definition GetNBytes :: "BEgressQueue \<Rightarrow> nat \<Rightarrow> u32 option" where
  "GetNBytes b q = do { guard (q < fCnt); Some (m_bytesInQueue b q) }"

definition GetNBytesTotal :: "BEgressQueue \<Rightarrow> u32" where
  "GetNBytesTotal b = m_bytesInQueueTotal b"

definition GetLastQueue :: "BEgressQueue \<Rightarrow> nat" where
  "GetLastQueue b = m_qlast b"

subsection \<open>A FIFO\<close>

text \<open>
  The contract of a FIFO with rejection: what is accepted leaves in the order it came. The
  operations return \<open>None\<close> only where they are not defined, which \<open>inv\<close> excludes.
\<close>

locale fifo =
  fixes enq :: "'p \<Rightarrow> 'q \<Rightarrow> bool \<times> 'q" and deq :: "'q \<Rightarrow> ('p option \<times> 'q) option"
    and contents :: "'q \<Rightarrow> 'p list" and inv :: "'q \<Rightarrow> bool" and fits :: "'p \<Rightarrow> bool"
  assumes enq_contents: "inv q \<Longrightarrow> fits p \<Longrightarrow> enq p q = (ok, q') \<Longrightarrow>
      contents q' = (if ok then contents q @ [p] else contents q)"
    and enq_inv: "inv q \<Longrightarrow> fits p \<Longrightarrow> enq p q = (ok, q') \<Longrightarrow> inv q'"
    and deq_contents: "inv q \<Longrightarrow> \<exists>r q'. deq q = Some (r, q') \<and> inv q'
      \<and> (case contents q of [] \<Rightarrow> r = None \<and> contents q' = [] | p # ps \<Rightarrow> r = Some p \<and> contents q' = ps)"
begin

text \<open>A run of offers and removals: the packets accepted and the packets taken out.\<close>

fun run :: "'p option list \<Rightarrow> 'q \<Rightarrow> ('p list \<times> 'p list \<times> 'q) option" where
  "run [] q = Some ([], [], q)"
| "run (Some p # ops) q = (let (ok, q) = enq p q in
     map_option (\<lambda>(ins, outs, q). (if ok then p # ins else ins, outs, q)) (run ops q))"
| "run (None # ops) q = (case deq q of None \<Rightarrow> None | Some (r, q) \<Rightarrow>
     map_option (\<lambda>(ins, outs, q). (ins, (case r of None \<Rightarrow> outs | Some p \<Rightarrow> p # outs), q)) (run ops q))"

lemma run_order:
  "inv q \<Longrightarrow> (\<And>p. Some p \<in> set ops \<Longrightarrow> fits p) \<Longrightarrow>
    \<exists>ins outs q'. run ops q = Some (ins, outs, q') \<and> inv q' \<and> contents q @ ins = outs @ contents q'"
proof (induction ops arbitrary: q)
  case (Cons op ops)
  show ?case
  proof (cases op)
    case (Some p)
    obtain ok q1 where e: "enq p q = (ok, q1)" by fastforce
    have f: "fits p" using Cons.prems(2) [of p] Some by simp
    have i1: "inv q1" by (rule enq_inv [OF Cons.prems(1) f e])
    have c1: "contents q1 = (if ok then contents q @ [p] else contents q)"
      by (rule enq_contents [OF Cons.prems(1) f e])
    obtain ins outs q' where "run ops q1 = Some (ins, outs, q')" "inv q'"
      "contents q1 @ ins = outs @ contents q'"
      using Cons.IH [OF i1] Cons.prems(2) by fastforce
    then show ?thesis using c1 e Some by (cases ok) simp_all
  next
    case None
    obtain r q1 where d: "deq q = Some (r, q1)" "inv q1"
      "case contents q of [] \<Rightarrow> r = None \<and> contents q1 = [] | p # ps \<Rightarrow> r = Some p \<and> contents q1 = ps"
      using deq_contents [OF Cons.prems(1)] by blast
    obtain ins outs q' where "run ops q1 = Some (ins, outs, q')" "inv q'"
      "contents q1 @ ins = outs @ contents q'"
      using Cons.IH [OF d(2)] Cons.prems(2) by fastforce
    then show ?thesis using d(1,3) None by (cases "contents q") simp_all
  qed
qed simp

end

subsection \<open>The drop-tail queue is a FIFO\<close>

definition bytes_of :: "packet list \<Rightarrow> nat" where
  "bytes_of ps = (\<Sum>p\<leftarrow>ps. unat (pkt_size p))"

definition sized :: "packet \<Rightarrow> bool" where
  "sized p \<longleftrightarrow> 0 < unat (pkt_size p) \<and> unat (pkt_size p) < 65536"

definition q_inv :: "OldQueue \<Rightarrow> bool" where
  "q_inv q \<longleftrightarrow> m_mode q = QUEUE_MODE_BYTES \<and> unat (m_maxBytes32 q) + 65536 \<le> 2 ^ 32
     \<and> unat (m_bytesInDropTail q) = bytes_of (m_packets q) \<and> unat (m_nBytes q) = bytes_of (m_packets q)
     \<and> unat (m_nPackets q) = length (m_packets q) \<and> bytes_of (m_packets q) < 2 ^ 32 - 65536
     \<and> list_all sized (m_packets q)"

lemma bytes_of_simps [simp]:
  "bytes_of [] = 0" "bytes_of (p # ps) = unat (pkt_size p) + bytes_of ps"
  "bytes_of (xs @ ys) = bytes_of xs + bytes_of ys"
  by (simp_all add: bytes_of_def)

lemma length_le_bytes: "list_all sized ps \<Longrightarrow> length ps \<le> bytes_of ps"
  by (induction ps) (auto simp: sized_def)

lemma Enqueue_result:
  assumes "q_inv q" and "sized p"
  shows "Enqueue p q = (let ok = unat (pkt_size p) + bytes_of (m_packets q) < unat (m_maxBytes32 q) in
    (ok, snd (Enqueue p q)))"
    and "m_packets (snd (Enqueue p q)) = m_packets q @
      (if unat (pkt_size p) + bytes_of (m_packets q) < unat (m_maxBytes32 q) then [p] else [])"
    and "q_inv (snd (Enqueue p q))"
    and "m_maxBytes32 (snd (Enqueue p q)) = m_maxBytes32 q"
proof -
  let ?s = "unat (pkt_size p)" and ?b = "bytes_of (m_packets q)"
  have i: "m_mode q = QUEUE_MODE_BYTES" "unat (m_maxBytes32 q) + 65536 \<le> 2 ^ 32"
    "unat (m_bytesInDropTail q) = ?b" "unat (m_nBytes q) = ?b"
    "unat (m_nPackets q) = length (m_packets q)" "?b < 2 ^ 32 - 65536" "list_all sized (m_packets q)"
    using assms(1) by (simp_all add: q_inv_def)
  have s: "?s < 65536" using assms(2) by (simp add: sized_def)
  have l: "length (m_packets q) < 2 ^ 32 - 65536" using length_le_bytes [OF i(7)] i(6) by linarith
  have add: "unat (m_bytesInDropTail q + pkt_size p) = ?b + ?s" "unat (m_nBytes q + pkt_size p) = ?b + ?s"
    "unat (m_nPackets q + 1) = Suc (length (m_packets q))"
    using i s l by (subst unat_add_nowrap; simp)+
  have full: "m_maxBytes32 q \<le> m_bytesInDropTail q + pkt_size p \<longleftrightarrow> \<not> ?s + ?b < unat (m_maxBytes32 q)"
    by (simp add: word_le_nat_alt add not_less add.commute)
  show "Enqueue p q = (let ok = ?s + ?b < unat (m_maxBytes32 q) in (ok, snd (Enqueue p q)))"
    "m_packets (snd (Enqueue p q)) = m_packets q @ (if ?s + ?b < unat (m_maxBytes32 q) then [p] else [])"
    "m_maxBytes32 (snd (Enqueue p q)) = m_maxBytes32 q"
    by (simp_all add: Enqueue_def DoEnqueue_def i(1) full Drop_def)
  show "q_inv (snd (Enqueue p q))"
    using i assms(2) s by (auto simp: Enqueue_def DoEnqueue_def full Drop_def q_inv_def add)
qed

lemma Dequeue_result:
  assumes "q_inv q"
  shows "\<exists>r q'. Dequeue q = Some (r, q') \<and> q_inv q' \<and> m_maxBytes32 q' = m_maxBytes32 q
    \<and> (case m_packets q of [] \<Rightarrow> r = None \<and> m_packets q' = [] | p # ps \<Rightarrow> r = Some p \<and> m_packets q' = ps)"
proof (cases "m_packets q")
  case Nil
  then show ?thesis using assms by (simp add: Dequeue_def DoDequeue_def)
next
  case (Cons p ps)
  have i: "unat (m_bytesInDropTail q) = unat (pkt_size p) + bytes_of ps"
    "unat (m_nBytes q) = unat (pkt_size p) + bytes_of ps" "unat (m_nPackets q) = Suc (length ps)"
    using assms Cons by (simp_all add: q_inv_def)
  have g: "pkt_size p \<le> m_nBytes q" "0 < m_nPackets q" "pkt_size p \<le> m_bytesInDropTail q"
    by (simp_all add: word_le_nat_alt word_less_nat_alt i)
  then have "1 \<le> m_nPackets q" by (simp add: word_le_nat_alt word_less_nat_alt)
  then show ?thesis
    using g i assms Cons by (simp add: Dequeue_def DoDequeue_def q_inv_def unat_sub_nowrap)
qed

interpretation drop_tail: fifo Enqueue Dequeue m_packets q_inv sized
proof
  fix p q ok q' assume a: "q_inv q" "sized p" "Enqueue p q = (ok, q')"
  show "m_packets q' = (if ok then m_packets q @ [p] else m_packets q)" "q_inv q'"
    using Enqueue_result [OF a(1,2)] a(3) by (simp_all add: Let_def)
next
  fix q assume "q_inv q"
  then show "\<exists>r q'. Dequeue q = Some (r, q') \<and> q_inv q'
      \<and> (case m_packets q of [] \<Rightarrow> r = None \<and> m_packets q' = [] | p # ps \<Rightarrow> r = Some p \<and> m_packets q' = ps)"
    using Dequeue_result by blast
qed

subsection \<open>The accounting of a port\<close>

definition contents :: "BEgressQueue \<Rightarrow> nat \<Rightarrow> packet list" where
  "contents b q = m_packets (m_queues b q)"

definition total_bytes :: "BEgressQueue \<Rightarrow> nat" where
  "total_bytes b = (\<Sum>q<fCnt. bytes_of (contents b q))"

definition total_packets :: "BEgressQueue \<Rightarrow> nat" where
  "total_packets b = (\<Sum>q<fCnt. length (contents b q))"

definition beq_inv :: "nat \<Rightarrow> BEgressQueue \<Rightarrow> bool" where
  "beq_inv L b \<longleftrightarrow> m_maxBytes b = Fin (of_nat L) \<and> L + 131072 \<le> 2 ^ 32
     \<and> (\<forall>q < fCnt. q_inv (m_queues b q) \<and> L \<le> unat (m_maxBytes32 (m_queues b q))
           \<and> unat (m_bytesInQueue b q) = bytes_of (contents b q))
     \<and> unat (m_bytesInQueueTotal b) = total_bytes b \<and> total_bytes b \<le> L
     \<and> unat (beq_nBytes b) = total_bytes b \<and> unat (beq_nPackets b) = total_packets b
     \<and> m_dwrrCur b < beq_qCnt"

lemma bytes_le_total: "q < fCnt \<Longrightarrow> bytes_of (contents b q) \<le> total_bytes b"
  unfolding total_bytes_def by (rule member_le_sum) simp_all

lemma packets_le_bytes:
  assumes "beq_inv L b"
  shows "total_packets b \<le> total_bytes b"
  unfolding total_packets_def total_bytes_def
  by (rule sum_mono) (use assms in \<open>auto simp: beq_inv_def q_inv_def contents_def intro: length_le_bytes\<close>)

lemma totals_upd:
  assumes "q < fCnt" and "m_queues b' = (m_queues b)(q := inner)"
  shows "total_bytes b' + bytes_of (contents b q) = total_bytes b + bytes_of (m_packets inner)"
    and "total_packets b' + length (contents b q) = total_packets b + length (m_packets inner)"
  using sum_fun_upd [OF assms(1), of "\<lambda>x. bytes_of (m_packets x)" "m_queues b" inner]
    sum_fun_upd [OF assms(1), of "\<lambda>x. length (m_packets x)" "m_queues b" inner]
  by (simp_all add: total_bytes_def total_packets_def contents_def assms(2))

lemma admission_test:
  assumes "beq_inv L b" and "sized p"
  shows "dless (of_u32_d (m_bytesInQueueTotal b + pkt_size p)) (m_maxBytes b)
    \<longleftrightarrow> total_bytes b + unat (pkt_size p) < L"
proof -
  have "unat (m_bytesInQueueTotal b + pkt_size p) = total_bytes b + unat (pkt_size p)"
    using assms by (subst unat_add_nowrap) (simp_all add: beq_inv_def sized_def)
  then have "u2r (m_bytesInQueueTotal b + pkt_size p) = of_nat (total_bytes b + unat (pkt_size p))"
    unfolding u2r_def by (simp add: uint_nat del: of_nat_add)
  then show ?thesis using assms(1) by (simp add: beq_inv_def del: of_nat_add)
qed

lemma beq_enqueue_accounting:
  assumes "beq_inv L b" and "sized p" and "q < fCnt"
  shows "\<exists>b'. beq_Enqueue p q b = Some (total_bytes b + unat (pkt_size p) < L, b') \<and> beq_inv L b'
    \<and> contents b' = (if total_bytes b + unat (pkt_size p) < L
        then (contents b)(q := contents b q @ [p]) else contents b)"
proof (cases "total_bytes b + unat (pkt_size p) < L")
  case False
  then show ?thesis
    using assms(1) admission_test [OF assms(1,2)] by (simp add: beq_Enqueue_def beq_DoEnqueue_def)
next
  case True
  let ?i = "snd (Enqueue p (m_queues b q))"
  let ?b' = "b\<lparr>m_queues := (m_queues b)(q := ?i), m_bytesInQueueTotal := m_bytesInQueueTotal b + pkt_size p,
    m_bytesInQueue := (m_bytesInQueue b)(q := m_bytesInQueue b q + pkt_size p),
    beq_nBytes := beq_nBytes b + pkt_size p, beq_totalBytes := beq_totalBytes b + pkt_size p,
    beq_nPackets := beq_nPackets b + 1, beq_totalPackets := beq_totalPackets b + 1\<rparr>"
  have inv: "q_inv (m_queues b q)" "L \<le> unat (m_maxBytes32 (m_queues b q))"
    "unat (m_bytesInQueue b q) = bytes_of (contents b q)"
    using assms(1,3) by (simp_all add: beq_inv_def)
  have s: "unat (pkt_size p) < 65536" "0 < unat (pkt_size p)" using assms(2) by (simp_all add: sized_def)
  have L: "L + 131072 \<le> 2 ^ 32" using assms(1) by (simp add: beq_inv_def)
  have "unat (pkt_size p) + bytes_of (m_packets (m_queues b q)) < unat (m_maxBytes32 (m_queues b q))"
    using bytes_le_total [OF assms(3), of b] True inv(2) by (simp add: contents_def)
  then have i: "m_packets ?i = contents b q @ [p]" "q_inv ?i"
    "m_maxBytes32 ?i = m_maxBytes32 (m_queues b q)"
    using Enqueue_result [OF inv(1) assms(2)] by (simp_all add: contents_def)
  have c: "contents ?b' = (contents b)(q := contents b q @ [p])"
    using i(1) by (auto simp: contents_def fun_eq_iff)
  have t: "total_bytes ?b' = total_bytes b + unat (pkt_size p)" "total_packets ?b' = Suc (total_packets b)"
    using totals_upd [OF assms(3), of ?b' b ?i] i(1) by simp_all
  have n: "unat (m_bytesInQueueTotal b + pkt_size p) = total_bytes b + unat (pkt_size p)"
    "unat (beq_nBytes b + pkt_size p) = total_bytes b + unat (pkt_size p)"
    "unat (m_bytesInQueue b q + pkt_size p) = bytes_of (contents b q) + unat (pkt_size p)"
    "unat (beq_nPackets b + 1) = Suc (total_packets b)"
    using assms(1) True L s inv(3) bytes_le_total [OF assms(3), of b] packets_le_bytes [OF assms(1)]
    by (subst unat_add_nowrap; simp add: beq_inv_def)+
  have "beq_inv L ?b'"
    using assms(1) True i inv n t
    by (auto simp: beq_inv_def contents_def)
  moreover have "beq_Enqueue p q b = Some (True, ?b')"
    using True assms(3) admission_test [OF assms(1,2)] by (simp add: beq_Enqueue_def beq_DoEnqueue_def)
  ultimately show ?thesis using True c by auto
qed

text \<open>C27: A packet is accepted into its queue exactly when the bytes of all the queues stay below the
  limit; then it is the last of its queue, the other queues keep theirs, and the byte and packet
  counters are again the sums over the queues.\<close>

theorem beq_enqueue:
  assumes "beq_inv L b" and "sized p" and "q < fCnt"
  shows "\<exists>b'. beq_Enqueue p q b = Some (total_bytes b + unat (pkt_size p) < L, b') \<and> beq_inv L b'
    \<and> contents b' = (if total_bytes b + unat (pkt_size p) < L
        then (contents b)(q := contents b q @ [p]) else contents b)"
  by (rule beq_enqueue_accounting [OF assms])

subsection \<open>Which queue is served\<close>

text \<open>Choosing a queue changes only the state of the deficit round robin.\<close>

definition same_queues :: "BEgressQueue \<Rightarrow> BEgressQueue \<Rightarrow> bool" where
  "same_queues b b1 \<longleftrightarrow> b1 = b\<lparr>m_dwrrCur := m_dwrrCur b1, m_dwrrDeficit := m_dwrrDeficit b1\<rparr>"

lemma same_queuesD:
  assumes "same_queues b b1"
  shows "m_queues b1 = m_queues b" "m_bytesInQueueTotal b1 = m_bytesInQueueTotal b"
    "m_bytesInQueue b1 = m_bytesInQueue b" "m_maxBytes b1 = m_maxBytes b" "beq_nBytes b1 = beq_nBytes b"
    "beq_nPackets b1 = beq_nPackets b" "m_rrlast b1 = m_rrlast b" "contents b1 = contents b"
    "total_bytes b1 = total_bytes b" "total_packets b1 = total_packets b"
    "rr_eligible paused b1 = rr_eligible paused b" "m_dwrrEnable b1 = m_dwrrEnable b"
    "m_dwrrW b1 = m_dwrrW b"
proof -
  obtain c d where "b1 = b\<lparr>m_dwrrCur := c, m_dwrrDeficit := d\<rparr>"
    using assms by (auto simp: same_queues_def)
  then show "m_queues b1 = m_queues b" "m_bytesInQueueTotal b1 = m_bytesInQueueTotal b"
    "m_bytesInQueue b1 = m_bytesInQueue b" "m_maxBytes b1 = m_maxBytes b" "beq_nBytes b1 = beq_nBytes b"
    "beq_nPackets b1 = beq_nPackets b" "m_rrlast b1 = m_rrlast b" "contents b1 = contents b"
    "total_bytes b1 = total_bytes b" "total_packets b1 = total_packets b"
    "rr_eligible paused b1 = rr_eligible paused b" "m_dwrrEnable b1 = m_dwrrEnable b"
    "m_dwrrW b1 = m_dwrrW b"
    by (simp_all add: contents_def fun_eq_iff total_bytes_def total_packets_def rr_eligible_def)
qed

lemma same_queues_refl [simp]: "same_queues b b"
  by (simp add: same_queues_def)

lemma same_queues_trans:
  assumes "same_queues a b" and "same_queues b c"
  shows "same_queues a c"
proof -
  from assms obtain x y z w where "b = a\<lparr>m_dwrrCur := x, m_dwrrDeficit := y\<rparr>"
    "c = b\<lparr>m_dwrrCur := z, m_dwrrDeficit := w\<rparr>" unfolding same_queues_def by blast
  then have "c = a\<lparr>m_dwrrCur := z, m_dwrrDeficit := w\<rparr>" by simp
  then show ?thesis unfolding same_queues_def by simp
qed

lemma same_queues_upd [simp]: "same_queues b (b\<lparr>m_dwrrDeficit := d\<rparr>)"
  by (simp add: same_queues_def)

lemma dwrr_advance_frame:
  assumes "dwrr_advance b = Some b1"
  shows "same_queues b b1" and "m_dwrrCur b1 < beq_qCnt"
  using assms by (auto simp: dwrr_advance_def Let_def same_queues_def beq_qCnt_def elim!: bind_eq_SomeE)

lemma dwrr_loop_frame:
  assumes "dwrr_loop n paused b = Some (r, b1)" and "m_dwrrCur b < beq_qCnt"
  shows "same_queues b b1 \<and> m_dwrrCur b1 < beq_qCnt
    \<and> (\<forall>q. r = Some q \<longrightarrow> q < beq_qCnt \<and> rr_eligible paused b q)"
  using assms
proof (induction n arbitrary: b)
  case (Suc tries)
  let ?q = "m_dwrrCur b"
  have rest: ?case
    if b2: "same_queues b b2" "m_dwrrCur b2 < beq_qCnt" "dwrr_loop tries paused b2 = Some (r, b1)" for b2
  proof -
    note IH = Suc.IH [OF b2(3,2)]
    then show ?thesis using same_queues_trans [OF b2(1)] by (simp add: same_queuesD(11) [OF b2(1)])
  qed
  show ?case
  proof (cases "\<not> paused ?q \<and> m_nPackets (m_queues b ?q) > 0")
    case True
    then obtain h where h: "Peek (m_queues b ?q) = Some h"
      using Suc.prems(1) by (auto simp: Let_def elim: bind_eq_SomeE)
    show ?thesis
    proof (cases "m_dwrrDeficit b ?q \<ge> uint (pkt_size h)")
      case t: True
      then have "r = Some ?q" "same_queues b b1" "m_dwrrCur b1 = ?q"
        using Suc.prems(1) h True by (auto simp: Let_def)
      then show ?thesis using Suc.prems(2) True by (simp add: rr_eligible_def)
    next
      case False
      then obtain b2 where b2: "dwrr_advance b = Some b2" "dwrr_loop tries paused b2 = Some (r, b1)"
        using Suc.prems(1) h True by (auto simp: Let_def elim: bind_eq_SomeE)
      then show ?thesis using rest dwrr_advance_frame by blast
    qed
  next
    case False
    then obtain b2 where b2: "dwrr_advance (b\<lparr>m_dwrrDeficit := (m_dwrrDeficit b)(?q := 0)\<rparr>) = Some b2"
      "dwrr_loop tries paused b2 = Some (r, b1)"
      using Suc.prems(1) by (auto simp: Let_def elim: bind_eq_SomeE split: if_splits)
    have s: "same_queues b b2"
      using same_queues_trans [OF same_queues_upd dwrr_advance_frame(1) [OF b2(1)]] .
    show ?thesis by (rule rest [OF s dwrr_advance_frame(2) [OF b2(1)] b2(2)])
  qed
qed simp

lemma rr_loop_Some:
  "rr_loop ks paused b = Some q \<Longrightarrow> rr_eligible paused b q \<and> q < beq_qCnt
    \<and> (\<exists>k \<in> set ks. q = (k + m_rrlast b) mod beq_qCnt
        \<and> (\<forall>j \<in> set ks. sorted ks \<longrightarrow> j < k \<longrightarrow> \<not> rr_eligible paused b ((j + m_rrlast b) mod beq_qCnt)))"
  by (induction ks) (auto simp: beq_qCnt_def split: if_splits)

lemma rr_loop_None:
  "rr_loop ks paused b = None \<longleftrightarrow> (\<forall>k \<in> set ks. \<not> rr_eligible paused b ((k + m_rrlast b) mod beq_qCnt))"
  by (induction ks) auto

lemma select_queue_frame:
  assumes "select_queue paused b = Some (r, b1)" and "m_dwrrCur b < beq_qCnt"
  shows "same_queues b b1" and "m_dwrrCur b1 < beq_qCnt"
    and "r = Some q \<Longrightarrow> q < beq_qCnt \<and> m_nPackets (m_queues b q) > 0
      \<and> (q \<noteq> 0 \<longrightarrow> \<not> paused q \<and> \<not> m_nPackets (m_queues b 0) > 0)"
  using assms dwrr_loop_frame [of "16 * beq_qCnt" paused b r b1] rr_loop_Some [of _ paused b q]
  by (auto simp: select_queue_def rr_eligible_def beq_qCnt_def split: if_splits)

lemma beq_inv_same:
  "same_queues b b1 \<Longrightarrow> m_dwrrCur b1 < beq_qCnt \<Longrightarrow> beq_inv L b \<Longrightarrow> beq_inv L b1"
  by (simp add: beq_inv_def same_queuesD)

lemma has_packets:
  assumes "beq_inv L b" and "q < fCnt"
  shows "m_nPackets (m_queues b q) > 0 \<longleftrightarrow> contents b q \<noteq> []"
proof -
  have "unat (m_nPackets (m_queues b q)) = length (contents b q)"
    using assms by (simp add: beq_inv_def q_inv_def contents_def)
  then show ?thesis by (simp add: word_less_nat_alt)
qed

text \<open>The state after queue \<open>q\<close> has been served.\<close>

definition served :: "nat \<Rightarrow> packet \<Rightarrow> OldQueue \<Rightarrow> BEgressQueue \<Rightarrow> BEgressQueue" where
  "served q p inner b = b\<lparr>m_queues := (m_queues b)(q := inner),
     m_bytesInQueueTotal := m_bytesInQueueTotal b - pkt_size p,
     m_bytesInQueue := (m_bytesInQueue b)(q := m_bytesInQueue b q - pkt_size p),
     m_rrlast := (if q \<noteq> 0 then q else m_rrlast b), m_qlast := q,
     beq_nBytes := beq_nBytes b - pkt_size p, beq_nPackets := beq_nPackets b - 1\<rparr>"

lemma serve_queue:
  assumes "beq_inv L b" and "q < fCnt" and "contents b q = p # ps"
  shows "\<exists>inner. Dequeue (m_queues b q) = Some (Some p, inner) \<and> m_packets inner = ps
    \<and> beq_inv L (served q p inner b) \<and> contents (served q p inner b) = (contents b)(q := ps)
    \<and> beq_nBytes b \<ge> pkt_size p \<and> beq_nPackets b > 0"
proof -
  have inv: "q_inv (m_queues b q)" "L \<le> unat (m_maxBytes32 (m_queues b q))"
    "unat (m_bytesInQueue b q) = bytes_of (contents b q)"
    using assms(1,2) by (simp_all add: beq_inv_def)
  obtain inner where i: "Dequeue (m_queues b q) = Some (Some p, inner)" "q_inv inner"
    "m_maxBytes32 inner = m_maxBytes32 (m_queues b q)" "m_packets inner = ps"
    using Dequeue_result [OF inv(1)] assms(3) by (auto simp: contents_def)
  let ?b' = "served q p inner b"
  have q: "m_queues ?b' = (m_queues b)(q := inner)" by (simp add: served_def)
  have c: "contents ?b' = (contents b)(q := ps)" by (auto simp: contents_def fun_eq_iff q i(4))
  have t: "total_bytes ?b' + unat (pkt_size p) = total_bytes b" "Suc (total_packets ?b') = total_packets b"
    using totals_upd [OF assms(2) q] assms(3) i(4) by simp_all
  have n: "unat (m_bytesInQueueTotal b) = total_bytes b" "unat (beq_nBytes b) = total_bytes b"
    "unat (beq_nPackets b) = total_packets b"
    using assms(1) by (simp_all add: beq_inv_def)
  have g: "pkt_size p \<le> m_bytesInQueueTotal b" "pkt_size p \<le> beq_nBytes b"
    "pkt_size p \<le> m_bytesInQueue b q" "1 \<le> beq_nPackets b"
    using t n inv(3) assms(3) by (simp_all add: word_le_nat_alt)
  have "beq_inv L ?b'"
    using assms(1) i(2-4) inv(2,3) n t g c
    by (auto simp: beq_inv_def served_def contents_def unat_sub_nowrap assms(3) [unfolded contents_def])
  moreover have "beq_nPackets b > 0" using t(2) n(3) by (simp add: word_less_nat_alt)
  ultimately show ?thesis using i(1,4) c g(2) by blast
qed

lemma DequeueRR_served:
  assumes "beq_inv L b" and "m_bytesInQueueTotal b \<noteq> 0" and "select_queue paused b = Some (Some q, b1)"
    and "q < fCnt" and "contents b q = p # ps"
  shows "\<exists>inner. DequeueRR paused b = Some (Some p, served q p inner b1) \<and> m_packets inner = ps
    \<and> beq_inv L (served q p inner b1) \<and> contents (served q p inner b1) = (contents b)(q := ps)"
proof -
  have cur: "m_dwrrCur b < beq_qCnt" using assms(1) by (simp add: beq_inv_def)
  note f = select_queue_frame(1,2) [OF assms(3) cur]
  have inv: "beq_inv L b1" by (rule beq_inv_same [OF f assms(1)])
  have c: "contents b1 q = p # ps" using assms(5) by (simp add: same_queuesD(8) [OF f(1)])
  obtain inner where i: "Dequeue (m_queues b1 q) = Some (Some p, inner)" "m_packets inner = ps"
    "beq_inv L (served q p inner b1)" "contents (served q p inner b1) = (contents b1)(q := ps)"
    "beq_nBytes b1 \<ge> pkt_size p" "beq_nPackets b1 > 0"
    using serve_queue [OF inv assms(4) c] by blast
  have "DequeueRR paused b = Some (Some p, served q p inner b1)"
    using assms(2,3) i by (simp add: DequeueRR_def DoDequeueRR_def served_def Let_def)
  then show ?thesis
    using i same_queuesD(8) [OF f(1)] by (intro exI [of _ inner] conjI) simp_all
qed

text \<open>C28: Dequeuing takes the oldest packet of the queue it reports as the last one, leaves the other
  queues alone and keeps the counters exact; the queue is queue 0, or a queue that is not paused
  while queue 0 is empty. When nothing is returned, no queue has changed.\<close>

theorem beq_dequeue:
  assumes "beq_inv L b" and "DequeueRR paused b = Some (r, b')"
  shows "beq_inv L b' \<and> (case r of None \<Rightarrow> contents b' = contents b
    | Some p \<Rightarrow> m_qlast b' < beq_qCnt \<and> contents b (m_qlast b') = p # contents b' (m_qlast b')
        \<and> (\<forall>q. q \<noteq> m_qlast b' \<longrightarrow> contents b' q = contents b q)
        \<and> (m_qlast b' \<noteq> 0 \<longrightarrow> \<not> paused (m_qlast b') \<and> contents b 0 = []))"
proof (cases "m_bytesInQueueTotal b = 0")
  case True
  then show ?thesis using assms by (auto simp: DequeueRR_def DoDequeueRR_def)
next
  case False
  then obtain s b1 where s: "select_queue paused b = Some (s, b1)"
    using assms(2) by (auto simp: DequeueRR_def DoDequeueRR_def elim!: bind_eq_SomeE)
  have cur: "m_dwrrCur b < beq_qCnt" using assms(1) by (simp add: beq_inv_def)
  note f = select_queue_frame [OF s cur]
  show ?thesis
  proof (cases s)
    case None
    then have "r = None" "b' = b1"
      using assms(2) s False by (auto simp: DequeueRR_def DoDequeueRR_def)
    then show ?thesis using beq_inv_same [OF f(1,2) assms(1)] same_queuesD(8) [OF f(1)] by simp
  next
    case (Some q)
    have q: "q < beq_qCnt" "m_nPackets (m_queues b q) > 0"
      "q \<noteq> 0 \<Longrightarrow> \<not> paused q \<and> \<not> m_nPackets (m_queues b 0) > 0"
      using f(3) [OF Some] by auto
    have lt: "q < fCnt" "0 < fCnt" using q(1) by (simp_all add: beq_qCnt_def fCnt_def)
    obtain p ps where c: "contents b q = p # ps"
      using has_packets [OF assms(1) lt(1)] q(2) by (cases "contents b q") auto
    obtain inner where i: "DequeueRR paused b = Some (Some p, served q p inner b1)"
      "beq_inv L (served q p inner b1)" "contents (served q p inner b1) = (contents b)(q := ps)"
      using DequeueRR_served [OF assms(1) False s [unfolded Some] lt(1) c] by blast
    then have e: "r = Some p" "b' = served q p inner b1" using assms(2) by simp_all
    have l: "m_qlast b' = q" by (simp add: e(2) served_def)
    show ?thesis
      using i(2,3) q(1,3) c l has_packets [OF assms(1) lt(2)] by (auto simp: e)
  qed
qed

subsection \<open>Round robin\<close>

lemma total_zero:
  assumes "beq_inv L b" and "m_bytesInQueueTotal b = 0" and "q < fCnt"
  shows "contents b q = []"
proof -
  have "total_bytes b = 0" using assms(1,2) by (simp add: beq_inv_def)
  then have "bytes_of (contents b q) = 0" using bytes_le_total [OF assms(3), of b] by simp
  moreover have "list_all sized (contents b q)"
    using assms(1,3) by (simp add: beq_inv_def q_inv_def contents_def)
  ultimately show ?thesis using length_le_bytes by fastforce
qed

text \<open>How many queues round robin looks at before queue \<open>q\<close> when queue \<open>r\<close> was served last.\<close>

definition rr_dist :: "nat \<Rightarrow> nat \<Rightarrow> nat" where
  "rr_dist q r = (q + 7 * r + 7) mod 8"

lemma rr_dist_offset:
  assumes "q < 8"
  shows "(rr_dist q r + 1 + r) mod 8 = q" and "rr_dist q r + 1 \<in> {1..8}"
proof -
  let ?x = "q + 7 * r + 7"
  have "(?x mod 8 + 1 + r) mod 8 = (?x + (1 + r)) mod 8" by (simp only: mod_add_left_eq add.assoc)
  also have "?x + (1 + r) = q + 8 * (r + 1)" by simp
  also have "(q + 8 * (r + 1)) mod 8 = q" using assms by (simp only: mod_mult_self2 mod_less)
  finally show "(rr_dist q r + 1 + r) mod 8 = q" unfolding rr_dist_def .
  have "?x mod 8 < 8" by simp
  then show "rr_dist q r + 1 \<in> {1..8}" unfolding rr_dist_def atLeastAtMost_iff by linarith
qed

lemma rr_dist_step:
  assumes "k \<in> {1..8}" and "k \<le> rr_dist q r"
  shows "rr_dist q ((k + r) mod 8) < rr_dist q r"
proof -
  let ?x = "q + 7 * r + 7" and ?D = "rr_dist q r"
  have "(q + 7 * ((k + r) mod 8) + 7) mod 8 = (q + 7 * (k + r) + 7) mod 8"
    by (intro mod_add_cong refl mod_mult_right_eq)
  also have "q + 7 * (k + r) + 7 = ?x + 7 * k" by simp
  also have "(?x + 7 * k) mod 8 = (?x mod 8 + 7 * k) mod 8" by (simp only: mod_add_left_eq)
  also have "?x mod 8 + 7 * k = (?D - k) + 8 * k" using assms(2) unfolding rr_dist_def by linarith
  also have "((?D - k) + 8 * k) mod 8 = ?D - k"
    unfolding mod_mult_self2 by (rule mod_less) (simp add: rr_dist_def less_imp_diff_less)
  finally have "rr_dist q ((k + r) mod 8) = ?D - k" by (simp only: rr_dist_def [of q "(k + r) mod 8"])
  moreover have "1 \<le> k" using assms(1) by simp
  ultimately show ?thesis using assms(2) by linarith
qed

lemma offsets_cover: "q < 8 \<Longrightarrow> \<exists>k \<in> {1..8 :: nat}. (k + r) mod 8 = q"
  using rr_dist_offset [of q r] by blast

lemma rr_loop_offsets: "set [1..<beq_qCnt + 1] = {1..8}"
  by (auto simp: beq_qCnt_def)

text \<open>C29: Round robin never idles: without deficit round robin, dequeuing returns a packet unless
  queue 0 and all the queues 1 to 7 that are not paused are empty.\<close>

theorem rr_work_conserving:
  assumes "beq_inv L b" and "\<not> m_dwrrEnable b"
  shows "\<exists>r b'. DequeueRR paused b = Some (r, b')
    \<and> (r = None \<longleftrightarrow> contents b 0 = [] \<and> (\<forall>q \<in> {1..<beq_qCnt}. paused q \<or> contents b q = []))"
proof (cases "m_bytesInQueueTotal b = 0")
  case True
  have "contents b q = []" if "q < fCnt" for q using total_zero [OF assms(1) True that] .
  then show ?thesis using True by (auto simp: DequeueRR_def DoDequeueRR_def fCnt_def beq_qCnt_def)
next
  case False
  have elig: "rr_eligible paused b q \<longleftrightarrow> \<not> paused q \<and> contents b q \<noteq> []" if "q < 8" for q
    using has_packets [OF assms(1), of q] that by (simp add: rr_eligible_def fCnt_def)
  have zero: "m_nPackets (m_queues b 0) > 0 \<longleftrightarrow> contents b 0 \<noteq> []"
    using has_packets [OF assms(1), of 0] by (simp add: fCnt_def)
  obtain s where s: "select_queue paused b = Some (s, b)"
    "s = (if contents b 0 \<noteq> [] then Some 0 else rr_loop [1..<beq_qCnt + 1] paused b)"
    using assms(2) zero by (simp add: select_queue_def)
  show ?thesis
  proof (cases s)
    case None
    then have e: "contents b 0 = []" "rr_loop [1..<beq_qCnt + 1] paused b = None"
      using s(2) by (auto split: if_splits)
    have "paused q \<or> contents b q = []" if q: "q \<in> {1..<beq_qCnt}" for q
    proof -
      have lt: "q < 8" using q by (simp add: beq_qCnt_def)
      obtain k where k: "k \<in> {1..8 :: nat}" "(k + m_rrlast b) mod 8 = q"
        using offsets_cover [OF lt] by blast
      have "\<not> rr_eligible paused b ((k + m_rrlast b) mod beq_qCnt)"
        using e(2) k(1) unfolding rr_loop_None rr_loop_offsets by blast
      then show ?thesis using k(2) elig [OF lt] by (simp add: beq_qCnt_def)
    qed
    then show ?thesis using None False s(1) e(1) by (auto simp: DequeueRR_def DoDequeueRR_def)
  next
    case (Some q)
    have cur: "m_dwrrCur b < beq_qCnt" using assms(1) by (simp add: beq_inv_def)
    have q: "q < beq_qCnt" "m_nPackets (m_queues b q) > 0" "q \<noteq> 0 \<Longrightarrow> \<not> paused q"
      using select_queue_frame(3) [OF s(1) cur Some] by auto
    have lt: "q < fCnt" using q(1) by (simp add: beq_qCnt_def fCnt_def)
    obtain p ps where c: "contents b q = p # ps"
      using has_packets [OF assms(1) lt] q(2) by (cases "contents b q") auto
    have "\<not> (contents b 0 = [] \<and> (\<forall>q \<in> {1..<beq_qCnt}. paused q \<or> contents b q = []))"
      using q(1,3) c by (cases "q = 0") auto
    then show ?thesis
      using DequeueRR_served [OF assms(1) False s(1) [unfolded Some] lt c] by auto
  qed
qed

text \<open>A queue that waits is served, or comes strictly nearer to being served.\<close>

lemma rr_nearer:
  assumes "beq_inv L b" and "\<not> m_dwrrEnable b" and "contents b 0 = []"
    and "q \<in> {1..<beq_qCnt}" and "\<not> paused q" and "contents b q \<noteq> []"
    and "DequeueRR paused b = Some (r, b')"
  shows "m_qlast b' = q \<or> rr_dist q (m_rrlast b') < rr_dist q (m_rrlast b)"
    and "m_rrlast b' = m_qlast b' \<and> m_qlast b' \<in> {1..<beq_qCnt} \<and> \<not> m_dwrrEnable b' \<and> beq_inv L b'
      \<and> (\<exists>ps. contents b' = (contents b)(m_qlast b' := ps))"
proof -
  have lt: "q < fCnt" "q < 8" using assms(4) by (simp_all add: beq_qCnt_def fCnt_def)
  have nz: "m_bytesInQueueTotal b \<noteq> 0" using total_zero [OF assms(1) _ lt(1)] assms(6) by blast
  have zero: "\<not> m_nPackets (m_queues b 0) > 0"
    using has_packets [OF assms(1), of 0] assms(3) by (simp add: fCnt_def)
  have elig: "rr_eligible paused b q"
    using has_packets [OF assms(1) lt(1)] assms(5,6) by (simp add: rr_eligible_def)
  let ?ks = "[1..<beq_qCnt + 1]" and ?D = "rr_dist q (m_rrlast b)"
  have D: "?D + 1 \<in> {1..8}" "(?D + 1 + m_rrlast b) mod 8 = q"
    using rr_dist_offset [OF lt(2)] by blast+
  have s: "select_queue paused b = Some (rr_loop ?ks paused b, b)"
    using assms(2) zero by (simp add: select_queue_def)
  have "rr_loop ?ks paused b \<noteq> None"
  proof
    assume "rr_loop ?ks paused b = None"
    then have "\<not> rr_eligible paused b ((?D + 1 + m_rrlast b) mod beq_qCnt)"
      using D(1) unfolding rr_loop_None rr_loop_offsets by blast
    then show False using elig D(2) by (simp add: beq_qCnt_def)
  qed
  then obtain t where t: "rr_loop ?ks paused b = Some t" by blast
  then obtain k where k: "k \<in> {1..8}" "t = (k + m_rrlast b) mod 8" "rr_eligible paused b t" "t < 8"
    "\<forall>j \<in> {1..8}. j < k \<longrightarrow> \<not> rr_eligible paused b ((j + m_rrlast b) mod 8)"
    using rr_loop_Some [OF t] unfolding rr_loop_offsets by (auto simp: beq_qCnt_def)
  have kD: "k \<le> ?D + 1" using k(5) D elig by (metis not_le)
  have t0: "t \<noteq> 0" using k(3) zero unfolding rr_eligible_def by metis
  have tf: "t < fCnt" using k(4) by (simp add: fCnt_def)
  obtain p ps where c: "contents b t = p # ps"
    using has_packets [OF assms(1) tf] k(3) by (cases "contents b t") (auto simp: rr_eligible_def)
  obtain inner where i: "DequeueRR paused b = Some (Some p, served t p inner b)" "beq_inv L (served t p inner b)"
    "contents (served t p inner b) = (contents b)(t := ps)"
    using DequeueRR_served [OF assms(1) nz s [unfolded t] tf c] by blast
  then have e: "b' = served t p inner b" using assms(7) by simp
  then have b': "m_qlast b' = t" "m_rrlast b' = t" using t0 by (simp_all add: served_def)
  have "\<not> m_dwrrEnable b'" using assms(2) by (simp add: e served_def)
  then show "m_rrlast b' = m_qlast b' \<and> m_qlast b' \<in> {1..<beq_qCnt} \<and> \<not> m_dwrrEnable b' \<and> beq_inv L b'
      \<and> (\<exists>ps. contents b' = (contents b)(m_qlast b' := ps))"
    using b' i(2,3) t0 k(4) by (auto simp: e beq_qCnt_def)
  show "m_qlast b' = q \<or> rr_dist q (m_rrlast b') < rr_dist q (m_rrlast b)"
  proof (cases "k = ?D + 1")
    case True
    then show ?thesis using b'(1) k(2) D(2) by simp
  next
    case False
    then have "rr_dist q t < ?D" using rr_dist_step [OF k(1)] kD k(2) by simp
    then show ?thesis using b'(2) by simp
  qed
qed

text \<open>What happens to a port while the queue \<open>q\<close> waits: packets arrive in any queue but 0, and packets are served at
  moments when \<open>q\<close> is not paused; the list is the queues that were served, the last one at the end.\<close>

inductive rr_run :: "nat \<Rightarrow> BEgressQueue \<Rightarrow> nat list \<Rightarrow> BEgressQueue \<Rightarrow> bool" for q b0 where
  Start: "rr_run q b0 [] b0"
| Arrive: "rr_run q b0 ss b \<Longrightarrow> sized p \<Longrightarrow> k \<in> {1..<fCnt} \<Longrightarrow> beq_Enqueue p k b = Some (ok, b') \<Longrightarrow> rr_run q b0 ss b'"
| Serve: "rr_run q b0 ss b \<Longrightarrow> \<not> paused q \<Longrightarrow> DequeueRR paused b = Some (Some p, b') \<Longrightarrow> rr_run q b0 (ss @ [m_qlast b']) b'"

definition rr_waits :: "nat \<Rightarrow> nat \<Rightarrow> BEgressQueue \<Rightarrow> bool" where
  "rr_waits L q b \<longleftrightarrow> beq_inv L b \<and> \<not> m_dwrrEnable b \<and> contents b 0 = [] \<and> contents b q \<noteq> []"

lemma rr_waits_enqueue:
  assumes "rr_waits L q b" and "sized p" and "k \<in> {1..<fCnt}" and "beq_Enqueue p k b = Some (ok, b')"
  shows "rr_waits L q b'" and "m_rrlast b' = m_rrlast b"
proof -
  have k: "k < fCnt" "k \<noteq> 0" using assms(3) by auto
  have "beq_inv L b" using assms(1) by (simp add: rr_waits_def)
  from beq_enqueue_accounting [OF this assms(2) k(1)] assms(4)
  have "beq_inv L b'" "contents b' = contents b \<or> contents b' = (contents b)(k := contents b k @ [p])" by auto
  moreover have "m_dwrrEnable b' = m_dwrrEnable b" and rr: "m_rrlast b' = m_rrlast b"
    using assms(4) by (auto simp: beq_Enqueue_def beq_DoEnqueue_def Let_def elim!: bind_eq_SomeE split: if_splits)
  ultimately show "rr_waits L q b'" using assms(1) k(2) by (auto simp: rr_waits_def split: if_splits)
  show "m_rrlast b' = m_rrlast b" by (rule rr)
qed

lemma last_nearest: "sorted_wrt (\<lambda>s t. f t < (f s :: nat)) ss \<Longrightarrow> s \<in> set ss \<Longrightarrow> f (last ss) \<le> f s"
  by (induction ss rule: rev_induct) (auto simp: sorted_wrt_append)

text \<open>As long as \<open>q\<close> is not served, the queues that are served come nearer and nearer to it.\<close>

lemma rr_run_nearer:
  assumes "rr_run q b0 ss b" and "rr_waits L q b0" and "q \<in> {1..<beq_qCnt}" and "q \<notin> set ss"
  shows "rr_waits L q b \<and> set ss \<subseteq> {1..<beq_qCnt} \<and> sorted_wrt (\<lambda>s t. rr_dist q t < rr_dist q s) ss
    \<and> (ss \<noteq> [] \<longrightarrow> m_rrlast b = last ss)"
  using assms(1,4)
proof (induction rule: rr_run.induct)
  case (Arrive ss b p k ok b')
  then show ?case using rr_waits_enqueue [of L q b p k ok b'] by simp
next
  case (Serve ss b paused p b')
  let ?t = "m_qlast b'"
  have IH: "rr_waits L q b" "set ss \<subseteq> {1..<beq_qCnt}" "sorted_wrt (\<lambda>s t. rr_dist q t < rr_dist q s) ss" "ss \<noteq> [] \<Longrightarrow> m_rrlast b = last ss"
    using Serve by auto
  have t: "?t \<noteq> q" using Serve.prems by simp
  note w = IH(1) [unfolded rr_waits_def]
  note n = rr_nearer [OF w [THEN conjunct1] _ _ assms(3) Serve.hyps(2) _ Serve.hyps(3)]
  have d: "rr_dist q ?t < rr_dist q (m_rrlast b)" and e: "m_rrlast b' = ?t" "?t \<in> {1..<beq_qCnt}" "\<not> m_dwrrEnable b'" "beq_inv L b'"
    and c: "\<exists>ps. contents b' = (contents b)(?t := ps)" using n w t by auto
  have "rr_waits L q b'" using c e t w by (auto simp: rr_waits_def)
  moreover have "rr_dist q ?t < rr_dist q s" if s: "s \<in> set ss" for s
  proof -
    have ss: "ss \<noteq> []" using s by auto
    have "rr_dist q (last ss) \<le> rr_dist q s" by (rule last_nearest [OF IH(3) s])
    then show ?thesis using d IH(4) [OF ss] by simp
  qed
  ultimately show ?case using IH(2,3) e by (simp add: sorted_wrt_append)
qed (use assms(2) in simp)

lemma nearer_distinct: "sorted_wrt (\<lambda>s t. f t < (f s :: nat)) ss \<Longrightarrow> distinct ss"
  by (induction ss) auto

text \<open>C30: Round robin is fair: while queue 0 is empty and deficit round robin is off, a queue that waits is
  among any seven that are served one after the other at moments when it is not paused, whatever arrives in between.\<close>

theorem rr_bounded_wait:
  assumes "beq_inv L b" and "\<not> m_dwrrEnable b" and "contents b 0 = []"
    and "q \<in> {1..<beq_qCnt}" and "contents b q \<noteq> []" and "rr_run q b ss b'" and "7 \<le> length ss"
  shows "q \<in> set ss"
proof (rule ccontr)
  assume n: "q \<notin> set ss"
  have "rr_waits L q b" using assms(1-3,5) by (simp add: rr_waits_def)
  from rr_run_nearer [OF assms(6) this assms(4) n] nearer_distinct
  have "distinct ss" "set ss \<subseteq> {1..<beq_qCnt}" by blast+
  then have "length ss \<le> card ({1..<beq_qCnt} - {q})" using n by (metis Diff_insert_absorb card_mono distinct_card finite_Diff finite_atLeastLessThan insert_Diff1 subset_Diff_insert Diff_empty)
  then show False using assms(4,7) by (simp add: beq_qCnt_def)
qed

subsection \<open>Witnesses\<close>

definition demo_pkt :: packet where
  "demo_pkt = \<lparr>pkt_ip = Ipv4Header_init, pkt_load = Other_Payload, pkt_size = 1048, pkt_tag = None\<rparr>"

lemma demo_sized: "sized demo_pkt"
  by (simp add: sized_def demo_pkt_def)

lemma demo_beq_inv: "beq_inv 1048576000 (BEgressQueue_init 0)"
  by (simp add: beq_inv_def BEgressQueue_init_def q_inv_def OldQueue_init_def contents_def
      total_bytes_def total_packets_def beq_qCnt_def)

lemma demo_beq_contents: "contents (BEgressQueue_init 0) q = []"
  by (simp add: contents_def BEgressQueue_init_def OldQueue_init_def)

lemma demo_beq_one:
  "\<exists>b. beq_Enqueue demo_pkt 3 (BEgressQueue_init 0) = Some (True, b) \<and> beq_inv 1048576000 b
     \<and> contents b 3 = [demo_pkt] \<and> contents b 0 = [] \<and> \<not> m_dwrrEnable b"
proof -
  have t: "total_bytes (BEgressQueue_init 0) = 0" by (simp add: total_bytes_def demo_beq_contents)
  obtain b where b: "beq_Enqueue demo_pkt 3 (BEgressQueue_init 0) = Some (True, b)"
    "beq_inv 1048576000 b" "contents b = (contents (BEgressQueue_init 0))(3 := [demo_pkt])"
    using beq_enqueue_accounting [OF demo_beq_inv demo_sized, of 3] t
    by (auto simp: fCnt_def demo_pkt_def demo_beq_contents)
  have "\<not> m_dwrrEnable b"
    using b(1) by (auto simp: beq_Enqueue_def beq_DoEnqueue_def BEgressQueue_init_def split: if_splits
        elim!: bind_eq_SomeE)
  then show ?thesis using b by (simp add: demo_beq_contents)
qed

lemma beq_enqueue_witness:
  "\<exists>b. beq_Enqueue demo_pkt 3 (BEgressQueue_init 0) = Some (True, b) \<and> contents b 3 = [demo_pkt]"
  using beq_enqueue [OF demo_beq_inv demo_sized, of 3]
  by (auto simp: fCnt_def total_bytes_def demo_beq_contents demo_pkt_def)

lemma rr_work_conserving_witness:
  "\<exists>b r b'. beq_Enqueue demo_pkt 3 (BEgressQueue_init 0) = Some (True, b)
     \<and> DequeueRR (\<lambda>_. False) b = Some (r, b') \<and> r \<noteq> None"
proof -
  obtain b where b: "beq_Enqueue demo_pkt 3 (BEgressQueue_init 0) = Some (True, b)"
    "beq_inv 1048576000 b" "contents b 3 = [demo_pkt]" "\<not> m_dwrrEnable b"
    using demo_beq_one by blast
  have "3 \<in> {1..<beq_qCnt}" by (simp add: beq_qCnt_def)
  then show ?thesis using rr_work_conserving [OF b(2,4), of "\<lambda>_. False"] b(1,3) by fastforce
qed

lemma demo_beq_dequeued:
  "\<exists>b b'. beq_Enqueue demo_pkt 3 (BEgressQueue_init 0) = Some (True, b) \<and> beq_inv 1048576000 b
     \<and> contents b 3 = [demo_pkt] \<and> contents b 0 = [] \<and> \<not> m_dwrrEnable b
     \<and> DequeueRR (\<lambda>_. False) b = Some (Some demo_pkt, b') \<and> m_qlast b' = 3"
proof -
  obtain b where b: "beq_Enqueue demo_pkt 3 (BEgressQueue_init 0) = Some (True, b)"
    "beq_inv 1048576000 b" "contents b 3 = [demo_pkt]" "contents b 0 = []" "\<not> m_dwrrEnable b"
    using demo_beq_one by blast
  have nz: "m_bytesInQueueTotal b \<noteq> 0" using total_zero [OF b(2), of 3] b(3) by (auto simp: fCnt_def)
  have rr: "m_rrlast b = 0"
    using b(1) by (auto simp: beq_Enqueue_def beq_DoEnqueue_def BEgressQueue_init_def split: if_splits
        elim!: bind_eq_SomeE)
  have others: "contents b q = []" if "q \<noteq> 3" for q
    using beq_enqueue_accounting [OF demo_beq_inv demo_sized, of 3] b(1) that
    by (auto simp: fCnt_def demo_beq_contents split: if_splits)
  have e: "rr_eligible (\<lambda>_. False) b q \<longleftrightarrow> q = 3" if "q < 8" for q
    using has_packets [OF b(2), of q] that others b(3) by (auto simp: rr_eligible_def fCnt_def)
  have "rr_loop [1..<beq_qCnt + 1] (\<lambda>_. False) b = Some 3"
    by (simp add: beq_qCnt_def upt_rec rr e)
  then have s: "select_queue (\<lambda>_. False) b = Some (Some 3, b)"
    using b(4,5) has_packets [OF b(2), of 0] by (simp add: select_queue_def fCnt_def)
  have "\<exists>b'. DequeueRR (\<lambda>_. False) b = Some (Some demo_pkt, b') \<and> m_qlast b' = 3"
    using DequeueRR_served [OF b(2) nz s _ b(3)] by (auto simp: fCnt_def served_def)
  then show ?thesis using b by blast
qed

lemma beq_dequeue_witness:
  "\<exists>b b'. beq_Enqueue demo_pkt 3 (BEgressQueue_init 0) = Some (True, b)
     \<and> DequeueRR (\<lambda>_. False) b = Some (Some demo_pkt, b') \<and> contents b' 3 = []"
proof -
  obtain b b' where b: "beq_Enqueue demo_pkt 3 (BEgressQueue_init 0) = Some (True, b)"
    "beq_inv 1048576000 b" "contents b 3 = [demo_pkt]"
    "DequeueRR (\<lambda>_. False) b = Some (Some demo_pkt, b')" "m_qlast b' = 3"
    using demo_beq_dequeued by blast
  then show ?thesis using beq_dequeue [OF b(2,4)] by auto
qed

text \<open>Seven packets wait in queue 3 and are served one after the other.\<close>

definition only_in :: "nat \<Rightarrow> packet list \<Rightarrow> nat \<Rightarrow> packet list" where
  "only_in q ps r = (if r = q then ps else [])"

lemma only_in_upd [simp]: "(only_in q ps)(q := ps') = only_in q ps'"
  by (auto simp: only_in_def fun_eq_iff)

lemma only_in_simps [simp]: "only_in q ps q = ps" "r \<noteq> q \<Longrightarrow> only_in q ps r = []"
  by (simp_all add: only_in_def)

lemma demo_backlog:
  "n \<le> 7 \<Longrightarrow> \<exists>b. beq_inv 1048576000 b \<and> \<not> m_dwrrEnable b \<and> contents b = only_in 3 (replicate n demo_pkt)"
proof (induction n)
  case 0
  have "contents (BEgressQueue_init 0) = only_in 3 (replicate 0 demo_pkt)" by (simp add: demo_beq_contents only_in_def fun_eq_iff)
  then show ?case using demo_beq_inv by (intro exI [of _ "BEgressQueue_init 0"]) (simp add: BEgressQueue_init_def)
next
  case (Suc n)
  then obtain b where b: "beq_inv 1048576000 b" "\<not> m_dwrrEnable b" "contents b = only_in 3 (replicate n demo_pkt)" by auto
  have "total_bytes b = (\<Sum>q<fCnt. if q = 3 then n * 1048 else 0)"
    unfolding total_bytes_def b(3) by (intro sum.cong) (auto simp: only_in_def bytes_of_def sum_list_replicate demo_pkt_def)
  then have t: "total_bytes b + unat (pkt_size demo_pkt) < 1048576000" using Suc.prems by (simp add: fCnt_def demo_pkt_def)
  have q: "(3 :: nat) < fCnt" by (simp add: fCnt_def)
  from beq_enqueue_accounting [OF b(1) demo_sized q] t obtain b' where b': "beq_Enqueue demo_pkt 3 b = Some (True, b')" "beq_inv 1048576000 b'"
    "contents b' = (contents b)(3 := contents b 3 @ [demo_pkt])" by auto
  moreover have "m_dwrrEnable b' = m_dwrrEnable b"
    using b'(1) by (auto simp: beq_Enqueue_def beq_DoEnqueue_def Let_def elim!: bind_eq_SomeE split: if_splits)
  ultimately show ?case using b(2,3) by (auto simp: replicate_append_same)
qed

lemma served_alone:
  assumes "beq_inv L b" and "\<not> m_dwrrEnable b" and "q \<in> {1..<beq_qCnt}" and "contents b = only_in q (p # ps)"
  shows "\<exists>b'. DequeueRR (\<lambda>_. False) b = Some (Some p, b') \<and> m_qlast b' = q \<and> beq_inv L b' \<and> \<not> m_dwrrEnable b'
    \<and> contents b' = only_in q ps"
proof -
  have q: "q < fCnt" "q < 8" "q \<noteq> 0" using assms(3) by (simp_all add: beq_qCnt_def fCnt_def)
  have c: "contents b q = p # ps" "contents b 0 = []" using assms(4) q(3) by simp_all
  have nz: "m_bytesInQueueTotal b \<noteq> 0" using total_zero [OF assms(1) _ q(1)] c(1) by auto
  have e: "rr_eligible (\<lambda>_. False) b r \<longleftrightarrow> r = q" if "r < 8" for r
    using has_packets [OF assms(1), of r] that assms(4) by (auto simp: only_in_def rr_eligible_def fCnt_def)
  have "rr_loop [1..<beq_qCnt + 1] (\<lambda>_. False) b \<noteq> None"
    using offsets_cover [OF q(2), of "m_rrlast b"] e [OF q(2)] unfolding rr_loop_None rr_loop_offsets by (auto simp: beq_qCnt_def)
  then obtain r where r: "rr_loop [1..<beq_qCnt + 1] (\<lambda>_. False) b = Some r" by blast
  then have "r = q" using rr_loop_Some [OF r] e [of r] by (auto simp: beq_qCnt_def)
  then have s: "select_queue (\<lambda>_. False) b = Some (Some q, b)"
    using assms(2) c(2) r has_packets [OF assms(1), of 0] by (simp add: select_queue_def fCnt_def)
  obtain inner where "DequeueRR (\<lambda>_. False) b = Some (Some p, served q p inner b)" "beq_inv L (served q p inner b)"
    "contents (served q p inner b) = (contents b)(q := ps)"
    using DequeueRR_served [OF assms(1) nz s q(1) c(1)] by blast
  then show ?thesis using assms(2,4) by (intro exI [of _ "served q p inner b"]) (simp add: served_def)
qed

lemma served_out:
  assumes "rr_run q b0 ss b" and "beq_inv L b" and "\<not> m_dwrrEnable b" and "q \<in> {1..<beq_qCnt}" and "contents b = only_in q (replicate n p)"
  shows "\<exists>b'. rr_run q b0 (ss @ replicate n q) b'"
  using assms(1,2,3,5)
proof (induction n arbitrary: ss b)
  case (Suc n)
  then have c: "contents b = only_in q (p # replicate n p)" by simp
  obtain b' where b': "DequeueRR (\<lambda>_. False) b = Some (Some p, b')" "m_qlast b' = q" "beq_inv L b'" "\<not> m_dwrrEnable b'"
    "contents b' = only_in q (replicate n p)" using served_alone [OF Suc.prems(2,3) assms(4) c] by blast
  have "rr_run q b0 (ss @ [q]) b'" using rr_run.Serve [OF Suc.prems(1) _ b'(1)] b'(2) by simp
  from Suc.IH [OF this b'(3-5)] show ?case by (simp add: replicate_app_Cons_same)
qed auto

lemma rr_bounded_wait_witness:
  "\<exists>b b'. contents b 3 \<noteq> [] \<and> rr_run 3 b (replicate 7 3) b' \<and> (3 :: nat) \<in> set (replicate 7 3)"
proof -
  obtain b where b: "beq_inv 1048576000 b" "\<not> m_dwrrEnable b" "contents b = only_in 3 (replicate 7 demo_pkt)"
    using demo_backlog [of 7] by auto
  have q: "3 \<in> {1..<beq_qCnt}" by (simp add: beq_qCnt_def)
  obtain b' where r: "rr_run 3 b (replicate 7 3) b'" using served_out [OF rr_run.Start b(1,2) q b(3)] by auto
  have c: "contents b 0 = []" "contents b 3 \<noteq> []" "7 \<le> length (replicate 7 (3 :: nat))" by (simp_all add: b(3) eval_nat_numeral)
  from rr_bounded_wait [OF b(1,2) c(1) q c(2) r c(3)] show ?thesis using c(2) r by blast
qed

end
