(* ===== verification/Switch_Mmu.thy ===== *)
theory Switch_Mmu
  imports Cpp_Double "HOL-Library.Multiset"
begin

text \<open>
  \<^verbatim>\<open>SwitchMmu\<close> (src/point-to-point/model/switch-mmu.h and .cc): the buffer accounting of a shared
  memory switch, its PFC pause and resume decisions and its ECN marking. The arrays of the code are
  indexed by port (\<open>pCnt\<close> ports) and by queue (\<open>qCnt\<close> queues); an access is defined within these
  bounds, and the shift of the threshold for an amount below 32 (\<open>mmu_defined\<close>), which the switch
  checks before it calls the operations below.
\<close>

definition pCnt :: nat where "pCnt = 257"
definition qCnt :: nat where "qCnt = 8"

record SwitchMmu =
  buffer_size :: u32
  pfc_a_shift :: "nat \<Rightarrow> u32"
  reserve :: u32
  headroom :: "nat \<Rightarrow> u32"
  resume_offset :: u32
  kmin :: "nat \<Rightarrow> u32"
  kmax :: "nat \<Rightarrow> u32"
  pmax :: "nat \<Rightarrow> double"
  total_hdrm :: u32
  total_rsrv :: u32
  shared_used_bytes :: u32
  hdrm_bytes :: "nat \<Rightarrow> nat \<Rightarrow> u32"
  ingress_bytes :: "nat \<Rightarrow> nat \<Rightarrow> u32"
  mmu_paused :: "nat \<Rightarrow> nat \<Rightarrow> bool"
  egress_bytes :: "nat \<Rightarrow> nat \<Rightarrow> u32"

definition mmu_defined :: "SwitchMmu \<Rightarrow> nat \<Rightarrow> nat \<Rightarrow> bool" where
  "mmu_defined m port q = (port < pCnt \<and> q < qCnt \<and> unat (pfc_a_shift m port) < 32)"

subsection \<open>Operations\<close>

text \<open>The constructor; the other members keep what the memory held (\<open>m\<close>).\<close>

definition SwitchMmu_init :: "SwitchMmu \<Rightarrow> SwitchMmu" where
  "SwitchMmu_init m = m\<lparr>buffer_size := 12 * 1024 * 1024, reserve := 4 * 1024,
     resume_offset := 3 * 1024, shared_used_bytes := 0, hdrm_bytes := (\<lambda>_ _. 0),
     ingress_bytes := (\<lambda>_ _. 0), mmu_paused := (\<lambda>_ _. False), egress_bytes := (\<lambda>_ _. 0)\<rparr>"

definition GetPfcThreshold :: "SwitchMmu \<Rightarrow> nat \<Rightarrow> u32" where
  "GetPfcThreshold m port =
     drop_bit (unat (pfc_a_shift m port))
       (buffer_size m - total_hdrm m - total_rsrv m - shared_used_bytes m)"

definition GetSharedUsed :: "SwitchMmu \<Rightarrow> nat \<Rightarrow> nat \<Rightarrow> u32" where
  "GetSharedUsed m port q =
     (let used = ingress_bytes m port q in if used > reserve m then used - reserve m else 0)"

definition CheckIngressAdmission :: "SwitchMmu \<Rightarrow> nat \<Rightarrow> nat \<Rightarrow> u32 \<Rightarrow> bool" where
  "CheckIngressAdmission m port q psize =
     (\<not> (psize + hdrm_bytes m port q > headroom m port
         \<and> psize + GetSharedUsed m port q > GetPfcThreshold m port))"

definition CheckEgressAdmission :: "SwitchMmu \<Rightarrow> nat \<Rightarrow> nat \<Rightarrow> u32 \<Rightarrow> bool" where
  "CheckEgressAdmission m port q psize = True"

definition UpdateIngressAdmission :: "SwitchMmu \<Rightarrow> nat \<Rightarrow> nat \<Rightarrow> u32 \<Rightarrow> SwitchMmu" where
  "UpdateIngressAdmission m port q psize =
     (let new_bytes = ingress_bytes m port q + psize in
      if new_bytes \<le> reserve m then
        m\<lparr>ingress_bytes := upd2 (ingress_bytes m) port q (ingress_bytes m port q + psize)\<rparr>
      else
        let thresh = GetPfcThreshold m port in
        if new_bytes - reserve m > thresh then
          m\<lparr>hdrm_bytes := upd2 (hdrm_bytes m) port q (hdrm_bytes m port q + psize)\<rparr>
        else
          m\<lparr>ingress_bytes := upd2 (ingress_bytes m) port q (ingress_bytes m port q + psize),
            shared_used_bytes := shared_used_bytes m + min psize (new_bytes - reserve m)\<rparr>)"

definition UpdateEgressAdmission :: "SwitchMmu \<Rightarrow> nat \<Rightarrow> nat \<Rightarrow> u32 \<Rightarrow> SwitchMmu" where
  "UpdateEgressAdmission m port q psize =
     m\<lparr>egress_bytes := upd2 (egress_bytes m) port q (egress_bytes m port q + psize)\<rparr>"

definition RemoveFromIngressAdmission :: "SwitchMmu \<Rightarrow> nat \<Rightarrow> nat \<Rightarrow> u32 \<Rightarrow> SwitchMmu" where
  "RemoveFromIngressAdmission m port q psize =
     (let from_hdrm = min (hdrm_bytes m port q) psize;
          from_shared = min (psize - from_hdrm)
            (if ingress_bytes m port q > reserve m then ingress_bytes m port q - reserve m else 0)
      in m\<lparr>hdrm_bytes := upd2 (hdrm_bytes m) port q (hdrm_bytes m port q - from_hdrm),
           ingress_bytes := upd2 (ingress_bytes m) port q
             (ingress_bytes m port q - (psize - from_hdrm)),
           shared_used_bytes := shared_used_bytes m - from_shared\<rparr>)"

definition RemoveFromEgressAdmission :: "SwitchMmu \<Rightarrow> nat \<Rightarrow> nat \<Rightarrow> u32 \<Rightarrow> SwitchMmu" where
  "RemoveFromEgressAdmission m port q psize =
     m\<lparr>egress_bytes := upd2 (egress_bytes m) port q (egress_bytes m port q - psize)\<rparr>"

definition CheckShouldPause :: "SwitchMmu \<Rightarrow> nat \<Rightarrow> nat \<Rightarrow> bool" where
  "CheckShouldPause m port q =
     (\<not> mmu_paused m port q
      \<and> (hdrm_bytes m port q > 0 \<or> GetSharedUsed m port q \<ge> GetPfcThreshold m port))"

definition CheckShouldResume :: "SwitchMmu \<Rightarrow> nat \<Rightarrow> nat \<Rightarrow> bool" where
  "CheckShouldResume m port q =
     (if \<not> mmu_paused m port q then False
      else let shared_used = GetSharedUsed m port q in
           hdrm_bytes m port q = 0
           \<and> (shared_used = 0 \<or> shared_used + resume_offset m \<le> GetPfcThreshold m port))"

definition SetPause :: "SwitchMmu \<Rightarrow> nat \<Rightarrow> nat \<Rightarrow> SwitchMmu" where
  "SetPause m port q = m\<lparr>mmu_paused := upd2 (mmu_paused m) port q True\<rparr>"

definition SetResume :: "SwitchMmu \<Rightarrow> nat \<Rightarrow> nat \<Rightarrow> SwitchMmu" where
  "SetResume m port q = m\<lparr>mmu_paused := upd2 (mmu_paused m) port q False\<rparr>"

text \<open>\<open>u\<close> is the value the uniform random variable draws in [0, 1] when the code asks for one.\<close>

definition ShouldSendCN :: "SwitchMmu \<Rightarrow> nat \<Rightarrow> nat \<Rightarrow> double \<Rightarrow> bool" where
  "ShouldSendCN m ifindex q u =
     (if q = 0 then False
      else if egress_bytes m ifindex q > kmax m ifindex then True
      else if egress_bytes m ifindex q > kmin m ifindex then
        (let p = ddiv (dmul (pmax m ifindex) (of_u32_d (egress_bytes m ifindex q - kmin m ifindex)))
                      (of_u32_d (kmax m ifindex - kmin m ifindex))
         in dless u p)
      else False)"

definition ConfigEcn :: "SwitchMmu \<Rightarrow> nat \<Rightarrow> u32 \<Rightarrow> u32 \<Rightarrow> double \<Rightarrow> SwitchMmu" where
  "ConfigEcn m port a b p = m\<lparr>kmin := (kmin m)(port := a * 1000),
     kmax := (kmax m)(port := b * 1000), pmax := (pmax m)(port := p)\<rparr>"

definition ConfigHdrm :: "SwitchMmu \<Rightarrow> nat \<Rightarrow> u32 \<Rightarrow> SwitchMmu" where
  "ConfigHdrm m port sz = m\<lparr>headroom := (headroom m)(port := sz)\<rparr>"

definition ConfigNPort :: "SwitchMmu \<Rightarrow> nat \<Rightarrow> SwitchMmu" where
  "ConfigNPort m n_port =
     fold (\<lambda>i m. m\<lparr>total_hdrm := total_hdrm m + headroom m i, total_rsrv := total_rsrv m + reserve m\<rparr>)
       [1..<n_port + 1] (m\<lparr>total_hdrm := 0, total_rsrv := 0\<rparr>)"

definition ConfigBufferSize :: "SwitchMmu \<Rightarrow> u32 \<Rightarrow> SwitchMmu" where
  "ConfigBufferSize m sz = m\<lparr>buffer_size := sz\<rparr>"

subsection \<open>The shared pool\<close>

text \<open>The cells of the accounting arrays, and the bytes a cell takes from the shared pool.\<close>

definition cells :: "(nat \<times> nat) set" where
  "cells = {..<pCnt} \<times> {..<qCnt}"

definition over :: "SwitchMmu \<Rightarrow> nat \<times> nat \<Rightarrow> nat" where
  "over m c = unat (ingress_bytes m (fst c) (snd c)) - unat (reserve m)"

definition pool :: "SwitchMmu \<Rightarrow> nat" where
  "pool m = unat (buffer_size m) - unat (total_hdrm m) - unat (total_rsrv m)"

definition held :: "SwitchMmu \<Rightarrow> nat \<Rightarrow> nat \<Rightarrow> nat" where
  "held m p q = unat (ingress_bytes m p q) + unat (hdrm_bytes m p q)"

definition mmu_conf :: "SwitchMmu \<Rightarrow> bool" where
  "mmu_conf m \<longleftrightarrow> unat (total_hdrm m) + unat (total_rsrv m) \<le> unat (buffer_size m)
     \<and> unat (reserve m) + unat (buffer_size m) + 65536 \<le> 2 ^ 32
     \<and> (\<forall>p < pCnt. unat (headroom m p) + 65536 \<le> 2 ^ 32)"

definition mmu_inv :: "SwitchMmu \<Rightarrow> bool" where
  "mmu_inv m \<longleftrightarrow> mmu_conf m
     \<and> unat (shared_used_bytes m) = (\<Sum>c\<in>cells. over m c)
     \<and> unat (shared_used_bytes m) \<le> pool m
     \<and> (\<forall>p < pCnt. \<forall>q < qCnt. unat (hdrm_bytes m p q) \<le> unat (headroom m p))"

lemma finite_cells [simp]: "finite cells"
  by (simp add: cells_def)

lemma in_cells: "p < pCnt \<Longrightarrow> q < qCnt \<Longrightarrow> (p, q) \<in> cells"
  by (simp add: cells_def)

lemma over_apply: "over m (p, q) = unat (ingress_bytes m p q) - unat (reserve m)"
  by (simp add: over_def)

lemma GetSharedUsed_over: "unat (GetSharedUsed m p q) = over m (p, q)"
  by (auto simp: GetSharedUsed_def over_def Let_def unat_sub_nowrap word_less_nat_alt word_le_nat_alt)

lemma sum_over_change:
  assumes "c \<in> cells" and "\<And>d. d \<noteq> c \<Longrightarrow> over m' d = over m d"
  shows "(\<Sum>d\<in>cells. over m' d) + over m c = (\<Sum>d\<in>cells. over m d) + over m' c"
proof -
  have "(\<Sum>d\<in>cells - {c}. over m' d) = (\<Sum>d\<in>cells - {c}. over m d)"
    using assms(2) by (intro sum.cong) auto
  then show ?thesis using assms(1) by (simp add: sum.remove [of cells c])
qed

lemma over_le_sum: "c \<in> cells \<Longrightarrow> over m c \<le> (\<Sum>d\<in>cells. over m d)"
  by (simp add: member_le_sum)

lemma threshold_bound:
  assumes "mmu_inv m"
  shows "unat (shared_used_bytes m) + unat (GetPfcThreshold m p) \<le> pool m"
proof -
  have c: "unat (total_hdrm m) + unat (total_rsrv m) \<le> unat (buffer_size m)"
    "unat (shared_used_bytes m) \<le> pool m"
    using assms by (simp_all add: mmu_inv_def mmu_conf_def)
  have "unat (buffer_size m - total_hdrm m) = unat (buffer_size m) - unat (total_hdrm m)"
    using c by (intro unat_sub_nowrap) (simp add: word_le_nat_alt)
  moreover from this have
    "unat (buffer_size m - total_hdrm m - total_rsrv m) = pool m"
    using c by (subst unat_sub_nowrap) (auto simp: word_le_nat_alt pool_def)
  moreover from this have
    "unat (buffer_size m - total_hdrm m - total_rsrv m - shared_used_bytes m)
      = pool m - unat (shared_used_bytes m)"
    using c by (subst unat_sub_nowrap) (auto simp: word_le_nat_alt)
  ultimately have "unat (GetPfcThreshold m p) \<le> pool m - unat (shared_used_bytes m)"
    unfolding GetPfcThreshold_def by (metis unat_drop_bit_le)
  with c show ?thesis by linarith
qed

lemma ingress_bound:
  assumes "mmu_inv m" and "p < pCnt" and "q < qCnt"
  shows "unat (ingress_bytes m p q) \<le> unat (reserve m) + pool m"
  using assms over_le_sum [OF in_cells [OF assms(2,3)], of m]
  unfolding mmu_inv_def over_apply by linarith

text \<open>What an accepted packet does, in the three cases of \<^verbatim>\<open>UpdateIngressAdmission\<close>.\<close>

lemma UpdateIngress_fields [simp]:
  "reserve (UpdateIngressAdmission m p q s) = reserve m"
  "headroom (UpdateIngressAdmission m p q s) = headroom m"
  "buffer_size (UpdateIngressAdmission m p q s) = buffer_size m"
  "total_hdrm (UpdateIngressAdmission m p q s) = total_hdrm m"
  "total_rsrv (UpdateIngressAdmission m p q s) = total_rsrv m"
  "egress_bytes (UpdateIngressAdmission m p q s) = egress_bytes m"
  "mmu_paused (UpdateIngressAdmission m p q s) = mmu_paused m"
  by (simp_all add: UpdateIngressAdmission_def Let_def)

lemma RemoveIngress_fields [simp]:
  "reserve (RemoveFromIngressAdmission m p q s) = reserve m"
  "headroom (RemoveFromIngressAdmission m p q s) = headroom m"
  "buffer_size (RemoveFromIngressAdmission m p q s) = buffer_size m"
  "total_hdrm (RemoveFromIngressAdmission m p q s) = total_hdrm m"
  "total_rsrv (RemoveFromIngressAdmission m p q s) = total_rsrv m"
  "egress_bytes (RemoveFromIngressAdmission m p q s) = egress_bytes m"
  "mmu_paused (RemoveFromIngressAdmission m p q s) = mmu_paused m"
  by (simp_all add: RemoveFromIngressAdmission_def Let_def)

lemma new_bytes_nat:
  assumes "mmu_inv m" and "p < pCnt" and "q < qCnt" and "unat s < 65536"
  shows "unat (ingress_bytes m p q + s) = unat (ingress_bytes m p q) + unat s"
    and "unat (hdrm_bytes m p q + s) = unat (hdrm_bytes m p q) + unat s"
    and "unat (s + GetSharedUsed m p q) = unat s + over m (p, q)"
proof -
  have c: "unat (reserve m) + unat (buffer_size m) + 65536 \<le> 2 ^ 32" "pool m \<le> unat (buffer_size m)"
    "unat (headroom m p) + 65536 \<le> 2 ^ 32" "unat (hdrm_bytes m p q) \<le> unat (headroom m p)"
    using assms by (simp_all add: mmu_inv_def mmu_conf_def pool_def)
  show "unat (ingress_bytes m p q + s) = unat (ingress_bytes m p q) + unat s"
    using ingress_bound [OF assms(1-3)] c assms(4) by (intro unat_add_nowrap) simp
  show "unat (hdrm_bytes m p q + s) = unat (hdrm_bytes m p q) + unat s"
    using c assms(4) by (intro unat_add_nowrap) simp
  have "over m (p, q) \<le> unat (ingress_bytes m p q)" by (simp add: over_apply)
  then show "unat (s + GetSharedUsed m p q) = unat s + over m (p, q)"
    using ingress_bound [OF assms(1-3)] c assms(4)
    by (subst unat_add_nowrap) (simp_all add: GetSharedUsed_over)
qed

lemma UpdateIngress_cases:
  assumes "mmu_inv m" and "p < pCnt" and "q < qCnt" and "unat s < 65536"
  defines "m' \<equiv> UpdateIngressAdmission m p q s"
  obtains (hdrm) "unat (ingress_bytes m p q) + unat s > unat (reserve m)"
      "unat (GetPfcThreshold m p) < unat (ingress_bytes m p q) + unat s - unat (reserve m)"
      "ingress_bytes m' = ingress_bytes m" "shared_used_bytes m' = shared_used_bytes m"
      "hdrm_bytes m' = upd2 (hdrm_bytes m) p q (hdrm_bytes m p q + s)"
  | (ingress) "hdrm_bytes m' = hdrm_bytes m"
      "ingress_bytes m' = upd2 (ingress_bytes m) p q (ingress_bytes m p q + s)"
      "unat (shared_used_bytes m') + over m (p, q) = unat (shared_used_bytes m) + over m' (p, q)"
      "unat (shared_used_bytes m') \<le> pool m"
proof -
  note nb = new_bytes_nat [OF assms(1-4)]
  let ?n = "ingress_bytes m p q + s"
  have sh: "unat (shared_used_bytes m) \<le> pool m" using assms(1) by (simp add: mmu_inv_def)
  have le: "pool m < 4294967296" using u32_lt [of "buffer_size m"] unfolding pool_def by linarith
  consider "?n \<le> reserve m"
    | "\<not> ?n \<le> reserve m" "?n - reserve m > GetPfcThreshold m p"
    | "\<not> ?n \<le> reserve m" "\<not> ?n - reserve m > GetPfcThreshold m p" by blast
  then show ?thesis
  proof cases
    case 1
    then have "over m (p, q) = 0" "over m' (p, q) = 0"
      using nb(1) by (simp_all add: over_apply m'_def UpdateIngressAdmission_def word_le_nat_alt)
    with 1 sh show ?thesis
      by (intro ingress) (simp_all add: m'_def UpdateIngressAdmission_def)
  next
    case 2
    then have "unat (?n - reserve m) = unat (ingress_bytes m p q) + unat s - unat (reserve m)"
      using nb(1) by (subst unat_sub_nowrap) simp_all
    with 2 nb(1) show ?thesis
      by (intro hdrm)
        (simp_all add: m'_def UpdateIngressAdmission_def Let_def word_less_nat_alt word_le_nat_alt)
  next
    case 3
    let ?d = "min s (?n - reserve m)"
    have sub: "unat (?n - reserve m) = unat (ingress_bytes m p q) + unat s - unat (reserve m)"
      using 3 nb(1) by (subst unat_sub_nowrap) simp_all
    have gt: "unat (reserve m) < unat (ingress_bytes m p q) + unat s"
      using 3(1) nb(1) by (simp add: word_le_nat_alt)
    have "unat ?d \<le> unat (GetPfcThreshold m p)"
      using 3(2) by (simp add: unat_min word_less_nat_alt)
    then have b: "unat (shared_used_bytes m) + unat ?d \<le> pool m"
      using threshold_bound [OF assms(1), of p] by linarith
    then have u: "unat (shared_used_bytes m + ?d) = unat (shared_used_bytes m) + unat ?d"
      using le by (intro unat_add_nowrap) simp
    have m': "ingress_bytes m' = upd2 (ingress_bytes m) p q ?n"
      "shared_used_bytes m' = shared_used_bytes m + ?d" "hdrm_bytes m' = hdrm_bytes m"
      using 3 by (simp_all add: m'_def UpdateIngressAdmission_def Let_def)
    have "over m' (p, q) = over m (p, q) + unat ?d"
      using gt nb(1) by (simp add: over_apply m' unat_min sub) (simp add: m'_def)
    with b u m' show ?thesis by (intro ingress) simp_all
  qed
qed

lemma mmu_conf_cong:
  "reserve m' = reserve m \<Longrightarrow> headroom m' = headroom m \<Longrightarrow> buffer_size m' = buffer_size m
    \<Longrightarrow> total_hdrm m' = total_hdrm m \<Longrightarrow> total_rsrv m' = total_rsrv m
    \<Longrightarrow> mmu_conf m' = mmu_conf m \<and> pool m' = pool m"
  by (simp add: mmu_conf_def pool_def)

lemma admission_headroom:
  assumes "mmu_inv m" and "p < pCnt" and "q < qCnt" and "unat s < 65536"
    and "CheckIngressAdmission m p q s"
    and "unat (GetPfcThreshold m p) < unat (ingress_bytes m p q) + unat s - unat (reserve m)"
  shows "unat (hdrm_bytes m p q + s) \<le> unat (headroom m p)"
proof -
  note nb = new_bytes_nat [OF assms(1-4)]
  have "unat (GetPfcThreshold m p) < unat s + over m (p, q)"
    using assms(6) by (simp add: over_apply)
  then have "GetPfcThreshold m p < s + GetSharedUsed m p q" by (simp add: word_less_nat_alt nb)
  then have "\<not> s + hdrm_bytes m p q > headroom m p"
    using assms(5) by (simp add: CheckIngressAdmission_def)
  then show ?thesis by (simp add: word_le_nat_alt not_less add.commute)
qed

lemma UpdateIngress_inv:
  assumes "mmu_inv m" and "p < pCnt" and "q < qCnt" and "unat s < 65536"
    and "CheckIngressAdmission m p q s"
  shows "mmu_inv (UpdateIngressAdmission m p q s)"
proof -
  let ?m = "UpdateIngressAdmission m p q s"
  have conf: "mmu_conf ?m" "pool ?m = pool m"
    using assms(1) mmu_conf_cong [of ?m m] by (simp_all add: mmu_inv_def)
  have hd: "unat (hdrm_bytes m a b) \<le> unat (headroom m a)" if "a < pCnt" "b < qCnt" for a b
    using assms(1) that by (simp add: mmu_inv_def)
  have inv: "unat (shared_used_bytes m) = (\<Sum>c\<in>cells. over m c)"
    "unat (shared_used_bytes m) \<le> pool m" using assms(1) by (simp_all add: mmu_inv_def)
  from assms(1-4) show ?thesis
  proof (cases rule: UpdateIngress_cases)
    case hdrm
    then have "over ?m = over m" by (simp add: over_def fun_eq_iff)
    then show ?thesis
      using hdrm inv conf hd admission_headroom [OF assms hdrm(2)]
      by (simp add: mmu_inv_def upd2_apply)
  next
    case ingress
    have "over ?m d = over m d" if "d \<noteq> (p, q)" for d
      using that ingress(2) by (cases d) (auto simp: over_def upd2_apply)
    then have "(\<Sum>c\<in>cells. over ?m c) + over m (p, q) = (\<Sum>c\<in>cells. over m c) + over ?m (p, q)"
      by (rule sum_over_change [OF in_cells [OF assms(2,3)]])
    then show ?thesis
      using ingress inv conf hd by (simp add: mmu_inv_def)
  qed
qed

lemma UpdateIngress_held:
  assumes "mmu_inv m" and "p < pCnt" and "q < qCnt" and "unat s < 65536"
  shows "held (UpdateIngressAdmission m p q s) a b = held m a b + (if a = p \<and> b = q then unat s else 0)"
  using new_bytes_nat [OF assms]
  by (cases rule: UpdateIngress_cases [OF assms]) (auto simp: held_def upd2_apply)

lemma RemoveIngress_nat:
  assumes "mmu_inv m" and "p < pCnt" and "q < qCnt" and "unat s \<le> held m p q"
  defines "m' \<equiv> RemoveFromIngressAdmission m p q s"
    and "h \<equiv> min (unat (hdrm_bytes m p q)) (unat s)"
  shows "unat (hdrm_bytes m' p q) = unat (hdrm_bytes m p q) - h"
    and "unat (ingress_bytes m' p q) = unat (ingress_bytes m p q) - (unat s - h)"
    and "unat (shared_used_bytes m') + min (unat s - h) (over m (p, q)) = unat (shared_used_bytes m)"
proof -
  let ?h = "min (hdrm_bytes m p q) s"
  let ?o = "if ingress_bytes m p q > reserve m then ingress_bytes m p q - reserve m else 0"
  have h: "unat ?h = h" by (simp add: h_def unat_min)
  have o: "unat ?o = over m (p, q)"
    using GetSharedUsed_over [of m p q] by (simp only: GetSharedUsed_def Let_def)
  have sh: "unat (s - ?h) = unat s - h" by (subst unat_sub_nowrap) (simp_all add: h)
  show "unat (hdrm_bytes m' p q) = unat (hdrm_bytes m p q) - h"
    unfolding m'_def RemoveFromIngressAdmission_def Let_def
    by (simp add: unat_sub_nowrap h)
  have "unat s - h \<le> unat (ingress_bytes m p q)"
    using assms(4) by (auto simp: h_def held_def min_def)
  then show "unat (ingress_bytes m' p q) = unat (ingress_bytes m p q) - (unat s - h)"
    unfolding m'_def RemoveFromIngressAdmission_def Let_def
    by (simp add: unat_sub_nowrap sh word_le_nat_alt)
  have f: "unat (min (s - ?h) ?o) = min (unat s - h) (over m (p, q))"
    by (simp only: unat_min sh o)
  have "over m (p, q) \<le> unat (shared_used_bytes m)"
    using assms(1) over_le_sum [OF in_cells [OF assms(2,3)], of m] by (simp add: mmu_inv_def)
  then have "min (s - ?h) ?o \<le> shared_used_bytes m" by (simp only: word_le_nat_alt f min.coboundedI2)
  then have "unat (shared_used_bytes m - min (s - ?h) ?o) + unat (min (s - ?h) ?o)
      = unat (shared_used_bytes m)"
    by (simp only: unat_sub_nowrap word_le_nat_alt le_add_diff_inverse2)
  moreover have "shared_used_bytes m' = shared_used_bytes m - min (s - ?h) ?o"
    by (simp add: m'_def RemoveFromIngressAdmission_def Let_def)
  ultimately show "unat (shared_used_bytes m') + min (unat s - h) (over m (p, q))
      = unat (shared_used_bytes m)" by (simp only: f)
qed

lemma RemoveIngress_other:
  assumes "(a, b) \<noteq> (p, q)"
  shows "hdrm_bytes (RemoveFromIngressAdmission m p q s) a b = hdrm_bytes m a b"
    and "ingress_bytes (RemoveFromIngressAdmission m p q s) a b = ingress_bytes m a b"
  using assms by (auto simp: RemoveFromIngressAdmission_def Let_def upd2_apply)

lemma RemoveIngress_inv:
  assumes "mmu_inv m" and "p < pCnt" and "q < qCnt" and "unat s \<le> held m p q"
  shows "mmu_inv (RemoveFromIngressAdmission m p q s)"
proof -
  let ?m = "RemoveFromIngressAdmission m p q s"
  note nat = RemoveIngress_nat [OF assms]
  have conf: "mmu_conf ?m" "pool ?m = pool m"
    using assms(1) mmu_conf_cong [of ?m m] by (simp_all add: mmu_inv_def)
  have inv: "unat (shared_used_bytes m) = (\<Sum>c\<in>cells. over m c)"
    "unat (shared_used_bytes m) \<le> pool m" using assms(1) by (simp_all add: mmu_inv_def)
  have hd: "unat (hdrm_bytes ?m a b) \<le> unat (headroom m a)" if "a < pCnt" "b < qCnt" for a b
  proof -
    have "unat (hdrm_bytes ?m a b) \<le> unat (hdrm_bytes m a b)"
      using nat(1) RemoveIngress_other(1) [of a b p q m s] by (cases "(a, b) = (p, q)") auto
    moreover have "unat (hdrm_bytes m a b) \<le> unat (headroom m a)"
      using assms(1) that by (simp add: mmu_inv_def)
    ultimately show ?thesis by simp
  qed
  have "over ?m d = over m d" if "d \<noteq> (p, q)" for d
    using that RemoveIngress_other(2) by (cases d) (auto simp: over_def)
  then have s: "(\<Sum>c\<in>cells. over ?m c) + over m (p, q) = (\<Sum>c\<in>cells. over m c) + over ?m (p, q)"
    by (rule sum_over_change [OF in_cells [OF assms(2,3)]])
  let ?h = "min (unat (hdrm_bytes m p q)) (unat s)"
  have "over ?m (p, q) = over m (p, q) - min (unat s - ?h) (over m (p, q))"
    unfolding over_apply nat(2) RemoveIngress_fields by linarith
  with s nat(3) inv have "unat (shared_used_bytes ?m) = (\<Sum>c\<in>cells. over ?m c)" by linarith
  moreover have "unat (shared_used_bytes ?m) \<le> pool m" using nat(3) inv(2) by linarith
  ultimately show ?thesis using conf hd by (simp add: mmu_inv_def)
qed

lemma RemoveIngress_held:
  assumes "mmu_inv m" and "p < pCnt" and "q < qCnt" and "unat s \<le> held m p q"
  shows "held (RemoveFromIngressAdmission m p q s) a b
    = held m a b - (if a = p \<and> b = q then unat s else 0)"
proof (cases "(a, b) = (p, q)")
  case True
  then show ?thesis
    using RemoveIngress_nat(1,2) [OF assms] assms(4) by (simp add: held_def min_def)
next
  case False
  then show ?thesis using RemoveIngress_other [OF False] by (auto simp: held_def)
qed

text \<open>Removing right after adding gives the same accounting, unless the packet went to the ingress
  bytes while the headroom held others.\<close>

lemma upd2_triv [simp]: "upd2 f i j (f i j) = f"
  by (simp add: upd2_def)

lemma upd2_upd2 [simp]: "upd2 (upd2 f i j v) i j w = upd2 f i j w"
  by (simp add: upd2_def)

lemma remove_after_update:
  assumes "mmu_inv m" and "p < pCnt" and "q < qCnt" and "unat s < 65536"
    and "hdrm_bytes m p q = 0"
  shows "RemoveFromIngressAdmission (UpdateIngressAdmission m p q s) p q s = m"
proof -
  let ?n = "ingress_bytes m p q + s"
  have hd: "upd2 (hdrm_bytes m) p q 0 = hdrm_bytes m"
    using upd2_triv [of "hdrm_bytes m" p q] assms(5) by (simp only:)
  consider "?n \<le> reserve m"
    | "\<not> ?n \<le> reserve m" "?n - reserve m > GetPfcThreshold m p"
    | "\<not> ?n \<le> reserve m" "\<not> ?n - reserve m > GetPfcThreshold m p" by blast
  then show ?thesis
  proof cases
    case 1
    then have "UpdateIngressAdmission m p q s = m\<lparr>ingress_bytes := upd2 (ingress_bytes m) p q ?n\<rparr>"
      by (simp only: UpdateIngressAdmission_def Let_def if_True)
    moreover have "\<not> ?n > reserve m" using 1 by (simp only: not_less)
    ultimately show ?thesis
      by (simp add: RemoveFromIngressAdmission_def Let_def assms(5) hd del: not_less)
  next
    case 2
    then have "UpdateIngressAdmission m p q s = m\<lparr>hdrm_bytes := upd2 (hdrm_bytes m) p q s\<rparr>"
      by (simp only: UpdateIngressAdmission_def Let_def if_True if_False assms(5) add_0)
    then show ?thesis
      by (simp add: RemoveFromIngressAdmission_def Let_def hd)
  next
    case 3
    then have "UpdateIngressAdmission m p q s = m\<lparr>ingress_bytes := upd2 (ingress_bytes m) p q ?n,
        shared_used_bytes := shared_used_bytes m + min s (?n - reserve m)\<rparr>"
      by (simp only: UpdateIngressAdmission_def Let_def if_False)
    moreover have "?n > reserve m" using 3 by (simp only: not_le)
    ultimately show ?thesis
      by (simp add: RemoveFromIngressAdmission_def Let_def assms(5) hd del: not_less)
  qed
qed

subsection \<open>The switch as a step relation\<close>

text \<open>
  The calls the switch makes, in its order: a packet is checked and accounted for at its ingress
  and its egress port (\<^verbatim>\<open>SendToDev\<close>), leaves both when it is dequeued (\<^verbatim>\<open>SwitchNotifyDequeue\<close>), and
  the ingress queue is paused and resumed (\<^verbatim>\<open>CheckAndSendPfc\<close>, \<^verbatim>\<open>CheckAndSendResume\<close>). The frame these
  send can start other transmissions before \<^verbatim>\<open>SetPause\<close> or \<^verbatim>\<open>SetResume\<close> runs, so that these steps do
  not depend on the check that came before. The second
  component is the multiset of the packets in the switch: ingress port, egress port, queue, size.
\<close>

type_synonym resident = "nat \<times> nat \<times> nat \<times> u32"

definition in_of :: "nat \<Rightarrow> nat \<Rightarrow> resident \<Rightarrow> nat" where
  "in_of p q = (\<lambda>(i, e, k, s). if i = p \<and> k = q then unat s else 0)"

definition out_of :: "nat \<Rightarrow> nat \<Rightarrow> resident \<Rightarrow> nat" where
  "out_of p q = (\<lambda>(i, e, k, s). if e = p \<and> k = q then unat s else 0)"

inductive mmu_step :: "SwitchMmu \<times> resident multiset \<Rightarrow> SwitchMmu \<times> resident multiset \<Rightarrow> bool" where
  arrive: "\<lbrakk> i < pCnt; e < pCnt; q < qCnt; unat s < 65536; CheckIngressAdmission m i q s;
      CheckEgressAdmission m e q s \<rbrakk>
    \<Longrightarrow> mmu_step (m, R) (UpdateEgressAdmission (UpdateIngressAdmission m i q s) e q s,
          add_mset (i, e, q, s) R)"
| leave: "mmu_step (m, add_mset (i, e, q, s) R)
          (RemoveFromEgressAdmission (RemoveFromIngressAdmission m i q s) e q s, R)"
| pause: "mmu_step (m, R) (SetPause m p q, R)"
| resume: "mmu_step (m, R) (SetResume m p q, R)"

text \<open>The state after the constructor and the configuration calls, and what can follow.\<close>

definition mmu_start :: "SwitchMmu \<Rightarrow> bool" where
  "mmu_start m \<longleftrightarrow> mmu_conf m \<and> shared_used_bytes m = 0 \<and> hdrm_bytes m = (\<lambda>_ _. 0)
     \<and> ingress_bytes m = (\<lambda>_ _. 0) \<and> egress_bytes m = (\<lambda>_ _. 0)"

inductive mmu_reach :: "SwitchMmu \<Rightarrow> SwitchMmu \<Rightarrow> resident multiset \<Rightarrow> bool" for m0 where
  init: "mmu_reach m0 m0 {#}"
| step: "mmu_reach m0 m R \<Longrightarrow> mmu_step (m, R) (m', R') \<Longrightarrow> mmu_reach m0 m' R'"

definition accounts :: "SwitchMmu \<Rightarrow> resident multiset \<Rightarrow> bool" where
  "accounts m R \<longleftrightarrow> (\<forall>p < pCnt. \<forall>q < qCnt. held m p q = (\<Sum>x\<in>#R. in_of p q x)
       \<and> egress_bytes m p q = of_nat (\<Sum>x\<in>#R. out_of p q x))
     \<and> (\<forall>(i, e, q, s) \<in># R. i < pCnt \<and> e < pCnt \<and> q < qCnt)"

definition mmu_ok :: "SwitchMmu \<Rightarrow> resident multiset \<Rightarrow> bool" where
  "mmu_ok m R \<longleftrightarrow> mmu_inv m \<and> accounts m R"

lemma mmu_inv_cong:
  "reserve m' = reserve m \<Longrightarrow> headroom m' = headroom m \<Longrightarrow> buffer_size m' = buffer_size m
    \<Longrightarrow> total_hdrm m' = total_hdrm m \<Longrightarrow> total_rsrv m' = total_rsrv m
    \<Longrightarrow> shared_used_bytes m' = shared_used_bytes m \<Longrightarrow> hdrm_bytes m' = hdrm_bytes m
    \<Longrightarrow> ingress_bytes m' = ingress_bytes m \<Longrightarrow> mmu_inv m' = mmu_inv m"
  by (simp add: mmu_inv_def mmu_conf_def pool_def over_def)

lemma inv_other_ops [simp]:
  "mmu_inv (UpdateEgressAdmission m p q s) = mmu_inv m"
  "mmu_inv (RemoveFromEgressAdmission m p q s) = mmu_inv m"
  "mmu_inv (SetPause m p q) = mmu_inv m" "mmu_inv (SetResume m p q) = mmu_inv m"
  by (rule mmu_inv_cong;
      simp add: UpdateEgressAdmission_def RemoveFromEgressAdmission_def SetPause_def SetResume_def)+

lemma held_other_ops [simp]:
  "held (UpdateEgressAdmission m p q s) = held m" "held (RemoveFromEgressAdmission m p q s) = held m"
  "held (SetPause m p q) = held m" "held (SetResume m p q) = held m"
  by (simp_all add: held_def fun_eq_iff UpdateEgressAdmission_def RemoveFromEgressAdmission_def
      SetPause_def SetResume_def)

lemma egress_ops [simp]:
  "egress_bytes (UpdateEgressAdmission m p q s) a b
    = egress_bytes m a b + (if a = p \<and> b = q then s else 0)"
  "egress_bytes (RemoveFromEgressAdmission m p q s) a b
    = egress_bytes m a b - (if a = p \<and> b = q then s else 0)"
  "egress_bytes (SetPause m p q) = egress_bytes m" "egress_bytes (SetResume m p q) = egress_bytes m"
  by (simp_all add: UpdateEgressAdmission_def RemoveFromEgressAdmission_def upd2_apply
      SetPause_def SetResume_def)

lemma mmu_step_ok:
  assumes "mmu_step (m, R) (m', R')" and "mmu_ok m R"
  shows "mmu_ok m' R'"
  using assms(1)
proof cases
  case (arrive i e q s)
  with assms(2) show ?thesis
    using UpdateIngress_inv [of m i q s] UpdateIngress_held [of m i q s]
    by (auto simp: mmu_ok_def accounts_def in_of_def out_of_def)
next
  case (leave i e q s)
  then have r: "i < pCnt" "e < pCnt" "q < qCnt"
    and h: "held m i q = unat s + (\<Sum>x\<in>#R'. in_of i q x)"
    using assms(2) by (auto simp: mmu_ok_def accounts_def in_of_def)
  with leave assms(2) show ?thesis
    using RemoveIngress_inv [of m i q s] RemoveIngress_held [of m i q s]
    by (auto simp: mmu_ok_def accounts_def in_of_def out_of_def)
next
  case (pause p q)
  then show ?thesis using assms(2) by (auto simp: mmu_ok_def accounts_def)
next
  case (resume p q)
  then show ?thesis using assms(2) by (auto simp: mmu_ok_def accounts_def)
qed

lemma mmu_start_ok: "mmu_start m \<Longrightarrow> mmu_ok m {#}"
  by (simp add: mmu_ok_def mmu_start_def mmu_inv_def accounts_def held_def over_def)

lemma mmu_reach_ok:
  assumes "mmu_reach m0 m R" and "mmu_start m0"
  shows "mmu_ok m R"
  using assms(1) by induction (use assms(2) mmu_start_ok mmu_step_ok in blast)+

text \<open>C14: In every state the switch reaches by admitting, dequeuing, pausing and resuming, the
  shared counter is the sum of what the queues use above their reserve, it stays within the pool
  left by the headroom and the reserve, so that the subtraction in \<^verbatim>\<open>GetPfcThreshold\<close> never
  wraps around, and no queue uses more than the headroom of its port.\<close>

theorem mmu_accounting:
  assumes "mmu_reach m0 m R" and "mmu_start m0"
  shows "unat (shared_used_bytes m) = (\<Sum>c\<in>cells. over m c)
    \<and> unat (shared_used_bytes m) + unat (GetPfcThreshold m p) \<le> pool m
    \<and> (\<forall>a < pCnt. \<forall>q < qCnt. unat (hdrm_bytes m a q) \<le> unat (headroom m a))"
proof -
  have "mmu_inv m" using mmu_reach_ok [OF assms] by (simp add: mmu_ok_def)
  then show ?thesis using threshold_bound [of m p] by (simp add: mmu_inv_def)
qed

text \<open>The ingress and headroom bytes of a queue are exactly the sizes of the packets of the
  switch that came in through it, and the egress bytes (modulo the width of the counter) those of
  the packets that leave through it: the counters of an empty switch are zero.\<close>

lemma mmu_accounts:
  assumes "mmu_reach m0 m R" and "mmu_start m0" and "p < pCnt" and "q < qCnt"
  shows "unat (ingress_bytes m p q) + unat (hdrm_bytes m p q) = (\<Sum>x\<in>#R. in_of p q x)
    \<and> egress_bytes m p q = of_nat (\<Sum>x\<in>#R. out_of p q x)"
  using mmu_reach_ok [OF assms(1,2)] assms(3,4) by (simp add: mmu_ok_def accounts_def held_def)

lemma mmu_reach_conf:
  assumes "mmu_reach m0 m R"
  shows "reserve m = reserve m0 \<and> headroom m = headroom m0 \<and> buffer_size m = buffer_size m0
    \<and> total_hdrm m = total_hdrm m0 \<and> total_rsrv m = total_rsrv m0
    \<and> pfc_a_shift m = pfc_a_shift m0 \<and> resume_offset m = resume_offset m0"
  using assms
proof induction
  case (step m R m' R')
  from step(2,3) show ?case
    by cases (auto simp: UpdateEgressAdmission_def RemoveFromEgressAdmission_def SetPause_def
        SetResume_def UpdateIngressAdmission_def RemoveFromIngressAdmission_def Let_def)
qed simp

text \<open>The bytes in the switch, when the packets of a port use one queue.\<close>

lemma in_of_one_queue:
  assumes "i \<in> P" and "finite P"
  shows "(\<Sum>p\<in>P. in_of p (Q p) (i, e, Q i, s)) = unat s"
proof -
  have "(\<Sum>p\<in>P. in_of p (Q p) (i, e, Q i, s)) = (\<Sum>p\<in>P. if i = p then unat s else 0)"
    by (intro sum.cong) (auto simp: in_of_def)
  then show ?thesis using assms by simp
qed

lemma resident_bytes:
  assumes "\<forall>(i, e, q, s) \<in># R. i \<in> P \<and> q = Q i" and "finite P"
  shows "(\<Sum>(i, e, q, s)\<in>#R. unat s) = (\<Sum>p\<in>P. \<Sum>x\<in>#R. in_of p (Q p) x)"
  using assms(1)
proof (induction R)
  case (add x R)
  then show ?case
    using in_of_one_queue [OF _ assms(2)] by (cases x) (auto simp: sum.distrib)
qed simp

lemma sum_over_row:
  assumes "P \<subseteq> {..<pCnt}" and "\<And>p. Q p < qCnt"
  shows "(\<Sum>p\<in>P. over m (p, Q p)) \<le> (\<Sum>c\<in>cells. over m c)"
proof -
  have "(\<Sum>p\<in>P. over m (p, Q p)) = (\<Sum>c\<in>(\<lambda>p. (p, Q p)) ` P. over m c)"
    by (subst sum.reindex) (auto simp: inj_on_def)
  also have "\<dots> \<le> (\<Sum>c\<in>cells. over m c)"
    using assms by (intro sum_mono2) (auto simp: cells_def)
  finally show ?thesis .
qed

text \<open>C15: When the packets of each of the ports 1..n use one queue, and the totals are those
  \<^verbatim>\<open>ConfigNPort\<close> computes without wrap-around, the bytes of all the packets in the switch never
  exceed its buffer.\<close>

theorem mmu_buffer_bound:
  assumes "mmu_reach m0 m R" and "mmu_start m0" and "n < pCnt" and "\<And>p. Q p < qCnt"
    and "\<forall>(i, e, q, s) \<in># R. i \<in> {1..n} \<and> q = Q i"
    and "unat (total_hdrm m0) = (\<Sum>p\<in>{1..n}. unat (headroom m0 p))"
    and "unat (total_rsrv m0) = n * unat (reserve m0)"
  shows "(\<Sum>(i, e, q, s)\<in>#R. unat s) \<le> unat (buffer_size m0)"
proof -
  have ok: "mmu_inv m" "accounts m R" using mmu_reach_ok [OF assms(1,2)] by (simp_all add: mmu_ok_def)
  note conf = mmu_reach_conf [OF assms(1)]
  have "(\<Sum>(i, e, q, s)\<in>#R. unat s) = (\<Sum>p\<in>{1..n}. held m p (Q p))"
    using resident_bytes [OF assms(5)] ok(2) assms(3,4) by (auto simp: accounts_def intro!: sum.cong)
  also have "\<dots> \<le> (\<Sum>p\<in>{1..n}. unat (reserve m0) + over m (p, Q p) + unat (headroom m0 p))"
  proof (rule sum_mono)
    fix p assume "p \<in> {1..n}"
    then have "unat (hdrm_bytes m p (Q p)) \<le> unat (headroom m0 p)"
      using ok(1) assms(3,4) conf by (auto simp: mmu_inv_def)
    then show "held m p (Q p) \<le> unat (reserve m0) + over m (p, Q p) + unat (headroom m0 p)"
      using conf by (simp add: held_def over_apply)
  qed
  also have "\<dots> = n * unat (reserve m0) + (\<Sum>p\<in>{1..n}. over m (p, Q p)) + unat (total_hdrm m0)"
    by (simp add: sum.distrib assms(6))
  also have "\<dots> \<le> unat (total_rsrv m0) + pool m + unat (total_hdrm m0)"
  proof -
    have "{1..n} \<subseteq> {..<pCnt}" using assms(3) by auto
    then have "(\<Sum>p\<in>{1..n}. over m (p, Q p)) \<le> pool m"
      using sum_over_row [of "{1..n}" Q m] assms(4) ok(1) by (simp add: mmu_inv_def)
    then show ?thesis using assms(7) by simp
  qed
  also have "\<dots> \<le> unat (buffer_size m0)"
    using ok(1) conf by (simp add: mmu_inv_def mmu_conf_def pool_def)
  finally show ?thesis .
qed

subsection \<open>Pause and resume\<close>

lemma SetPause_simps [simp]:
  "GetPfcThreshold (SetPause m p q) = GetPfcThreshold m"
  "GetSharedUsed (SetPause m p q) = GetSharedUsed m"
  "hdrm_bytes (SetPause m p q) = hdrm_bytes m" "resume_offset (SetPause m p q) = resume_offset m"
  "mmu_paused (SetPause m p q) p q"
  by (simp_all add: SetPause_def GetPfcThreshold_def GetSharedUsed_def Let_def fun_eq_iff)

text \<open>A queue that has just been paused is not resumed at once, if the resume offset and the
  threshold are positive (or the headroom is in use): pausing and resuming have a hysteresis.\<close>

lemma pause_hysteresis:
  assumes "CheckShouldPause m p q" and "unat (resume_offset m) > 0"
    and "unat (GetPfcThreshold m p) > 0 \<or> unat (hdrm_bytes m p q) > 0"
    and "unat (GetSharedUsed m p q) + unat (resume_offset m) < 2 ^ 32"
  shows "\<not> CheckShouldResume (SetPause m p q) p q"
proof
  assume "CheckShouldResume (SetPause m p q) p q"
  then have r: "hdrm_bytes m p q = 0"
    "GetSharedUsed m p q = 0 \<or> GetSharedUsed m p q + resume_offset m \<le> GetPfcThreshold m p"
    by (simp_all add: CheckShouldResume_def Let_def)
  then have "GetPfcThreshold m p \<le> GetSharedUsed m p q"
    using assms(1) by (simp add: CheckShouldPause_def)
  moreover have "unat (GetSharedUsed m p q + resume_offset m)
      = unat (GetSharedUsed m p q) + unat (resume_offset m)"
    using assms(4) by (intro unat_add_nowrap) simp
  ultimately show False using r assms(2,3) by (auto simp: word_le_nat_alt)
qed

text \<open>A class that is paused and holds nothing meets the condition for being resumed.\<close>

lemma drained_should_resume:
  assumes "mmu_paused m p q" and "held m p q = 0"
  shows "CheckShouldResume m p q"
proof -
  have "unat (ingress_bytes m p q) = 0" "unat (hdrm_bytes m p q) = 0"
    using assms(2) by (simp_all only: held_def add_is_0)
  then have "ingress_bytes m p q = 0" "hdrm_bytes m p q = 0" by (simp_all only: unat_eq_zero)
  then show ?thesis
    using assms(1) by (simp add: CheckShouldResume_def GetSharedUsed_def)
qed

text \<open>A lossless port drops nothing before it has been paused: in a reachable state, when the
  headroom of a port holds at least one packet, a packet that is refused finds its queue paused, or
  due to be paused.\<close>

lemma refused_only_when_paused:
  assumes "mmu_reach m0 m R" and "mmu_start m0" and "p < pCnt" and "q < qCnt"
    and "unat s < 65536" and "unat s \<le> unat (headroom m0 p)"
    and "\<not> CheckIngressAdmission m p q s"
  shows "mmu_paused m p q \<or> CheckShouldPause m p q"
proof -
  have inv: "mmu_inv m" using mmu_reach_ok [OF assms(1,2)] by (simp add: mmu_ok_def)
  have "s + hdrm_bytes m p q > headroom m p" using assms(7) by (simp add: CheckIngressAdmission_def)
  then have "unat (headroom m p) < unat s + unat (hdrm_bytes m p q)"
    using new_bytes_nat(2) [OF inv assms(3-5)] by (simp add: word_less_nat_alt add.commute)
  then have "0 < hdrm_bytes m p q"
    using assms(6) mmu_reach_conf [OF assms(1)] by (simp add: word_less_nat_alt)
  then show ?thesis by (auto simp: CheckShouldPause_def)
qed

subsection \<open>Marking\<close>

lemma marking_probability:
  assumes "0 \<le> r" and "r \<le> 1" and "x \<noteq> 0"
  shows "ddiv (dmul (Fin r) (of_u32_d w)) (of_u32_d x) = fl (rnd (r * u2r w) / u2r x)"
proof -
  have "u2r w \<le> 2 ^ 32" using u2r_le [of w "2 ^ 32 - 1"] uint_lt2p [of w] by simp
  then have "\<bar>r * u2r w\<bar> \<le> 2 ^ 32"
    using assms(1,2) mult_mono [OF assms(2), of "u2r w" "2 ^ 32"] by (simp add: abs_mult)
  then have "fl (r * u2r w) = Fin (rnd (r * u2r w))" by (rule fl_finite) simp
  moreover have "u2r x \<noteq> 0" using assms(3) u2r_eq_iff [of x 0] by (simp del: u2r_eq_iff)
  ultimately show ?thesis by simp
qed

text \<open>ECN marking is monotone: with the same draw of the random variable, a longer egress queue
  is marked whenever a shorter one is.\<close>

lemma marking_monotone:
  assumes "ShouldSendCN m p q u" and "pmax m p = Fin r" and "0 \<le> r" and "r \<le> 1"
    and "egress_bytes m p q \<le> e"
  shows "ShouldSendCN (m\<lparr>egress_bytes := upd2 (egress_bytes m) p q e\<rparr>) p q u"
proof -
  let ?g = "egress_bytes m p q"
  have q: "q \<noteq> 0" using assms(1) by (simp add: ShouldSendCN_def split: if_splits)
  show ?thesis
  proof (cases "kmax m p < e")
    case True
    then show ?thesis using q by (simp add: ShouldSendCN_def)
  next
    case False
    then have g: "\<not> kmax m p < ?g" using assms(5) by simp
    then have k: "kmin m p < ?g" using assms(1) q by (auto simp: ShouldSendCN_def split: if_splits)
    then have ke: "kmin m p < e" using assms(5) by simp
    let ?d = "kmax m p - kmin m p"
    have d: "?d \<noteq> 0" using k g by (metis eq_iff_diff_eq_0)
    have "u2r (?g - kmin m p) \<le> u2r (e - kmin m p)"
      using k ke assms(5) by (simp add: word_le_nat_alt unat_sub_nowrap less_imp_le word_less_nat_alt)
    then have "rnd (r * u2r (?g - kmin m p)) / u2r ?d \<le> rnd (r * u2r (e - kmin m p)) / u2r ?d"
      using assms(3) by (intro divide_right_mono rnd_mono mult_left_mono) simp_all
    moreover have "dless u (fl (rnd (r * u2r (?g - kmin m p)) / u2r ?d))"
      using assms(1-4) q g k d by (simp add: ShouldSendCN_def marking_probability [OF assms(3,4) d] Let_def del: of_u32_d_eq)
    ultimately have "dless u (fl (rnd (r * u2r (e - kmin m p)) / u2r ?d))"
      by (rule dless_fl_mono [rotated])
    then show ?thesis
      using q False ke by (simp add: ShouldSendCN_def assms(2) marking_probability [OF assms(3,4) d] Let_def del: of_u32_d_eq)
  qed
qed

subsection \<open>A switch of two ports\<close>

definition blank_mmu :: SwitchMmu where
  "blank_mmu = \<lparr>buffer_size = 0, pfc_a_shift = (\<lambda>_. 3), reserve = 0, headroom = (\<lambda>_. 0),
     resume_offset = 0, kmin = (\<lambda>_. 0), kmax = (\<lambda>_. 0), pmax = (\<lambda>_. Fin 0), total_hdrm = 0,
     total_rsrv = 0, shared_used_bytes = 0, hdrm_bytes = (\<lambda>_ _. 0), ingress_bytes = (\<lambda>_ _. 0),
     mmu_paused = (\<lambda>_ _. False), egress_bytes = (\<lambda>_ _. 0)\<rparr>"

definition demo_mmu :: "u32 \<Rightarrow> SwitchMmu" where
  "demo_mmu size_bytes = ConfigBufferSize (ConfigNPort (ConfigHdrm (ConfigHdrm (ConfigEcn
     (SwitchMmu_init blank_mmu) 2 10 20 (Fin (1 / 2))) 1 5000) 2 5000) 2) size_bytes"

definition admit :: "nat \<Rightarrow> nat \<Rightarrow> nat \<Rightarrow> u32 \<Rightarrow> SwitchMmu \<Rightarrow> SwitchMmu" where
  "admit i e q s m = UpdateEgressAdmission (UpdateIngressAdmission m i q s) e q s"

lemma demo_mmu_eq:
  "demo_mmu b = blank_mmu\<lparr>buffer_size := b, reserve := 4096, resume_offset := 3072,
     headroom := (headroom blank_mmu)(1 := 5000, 2 := 5000), kmin := (kmin blank_mmu)(2 := 10000),
     kmax := (kmax blank_mmu)(2 := 20000), pmax := (pmax blank_mmu)(2 := Fin (1 / 2)),
     total_hdrm := 10000, total_rsrv := 8192\<rparr>"
  by (simp add: demo_mmu_def ConfigBufferSize_def ConfigNPort_def ConfigHdrm_def ConfigEcn_def
      SwitchMmu_init_def blank_mmu_def upt_rec numeral_nat)

lemma demo_start:
  assumes "18192 \<le> unat b" and "unat b \<le> 1000000"
  shows "mmu_start (demo_mmu b)"
  using assms by (auto simp: mmu_start_def mmu_conf_def demo_mmu_eq blank_mmu_def)

lemma admit_step:
  assumes "mmu_reach m0 m R" and "i < pCnt" and "e < pCnt" and "q < qCnt" and "unat s < 65536"
    and "CheckIngressAdmission m i q s"
  shows "mmu_reach m0 (admit i e q s m) (add_mset (i, e, q, s) R)"
  using mmu_reach.step [OF assms(1) arrive [OF assms(2-6)]]
  by (simp add: CheckEgressAdmission_def admit_def)

lemma demo_admit1: "mmu_reach (demo_mmu 20000) (admit 1 2 3 1000 (demo_mmu 20000)) {#(1, 2, 3, 1000)#}"
  by (rule admit_step [OF mmu_reach.init])
    (simp_all add: pCnt_def qCnt_def CheckIngressAdmission_def demo_mmu_eq blank_mmu_def)

text \<open>Five packets of one port in five queues.\<close>

definition demo_five :: SwitchMmu where
  "demo_five = admit 1 2 5 4096 (admit 1 2 4 4096 (admit 1 2 3 4096 (admit 1 2 2 4096
     (admit 1 2 1 4096 (demo_mmu 18192)))))"

lemma demo_admit5:
  "mmu_reach (demo_mmu 18192) demo_five
     {#(1, 2, 5, 4096), (1, 2, 4, 4096), (1, 2, 3, 4096), (1, 2, 2, 4096), (1, 2, 1, 4096)#}"
  unfolding demo_five_def
  by (intro admit_step mmu_reach.init)
    (simp_all add: pCnt_def qCnt_def CheckIngressAdmission_def demo_mmu_eq blank_mmu_def admit_def
      UpdateIngressAdmission_def UpdateEgressAdmission_def upd2_apply)

text \<open>C21: The totals of \<^verbatim>\<open>ConfigNPort\<close> count the reserve once per port while the admission grants
  it to each queue, so a port that uses several queues can overcommit the buffer: a switch of two
  ports admits five packets of 4096 bytes in five queues of a port into a buffer of 18192 bytes.\<close>

theorem reserve_overcommit:
  "\<exists>m R. mmu_start (demo_mmu 18192) \<and> mmu_reach (demo_mmu 18192) m R
     \<and> (\<Sum>(i, e, q, s)\<in>#R. unat s) > unat (buffer_size (demo_mmu 18192))"
proof -
  have "(\<Sum>(i :: nat, e :: nat, q :: nat, s :: u32)\<in>#{#(1, 2, 5, 4096), (1, 2, 4, 4096), (1, 2, 3, 4096),
      (1, 2, 2, 4096), (1, 2, 1, 4096)#}. unat s) > unat (buffer_size (demo_mmu 18192))"
    by (simp add: demo_mmu_eq)
  moreover have "mmu_start (demo_mmu 18192)" by (rule demo_start) simp_all
  ultimately show ?thesis using demo_admit5 by (intro exI conjI)
qed

subsection \<open>Witnesses\<close>

lemma mmu_accounting_witness:
  "unat (shared_used_bytes (admit 1 2 3 1000 (demo_mmu 20000)))
     + unat (GetPfcThreshold (admit 1 2 3 1000 (demo_mmu 20000)) 1)
     \<le> pool (admit 1 2 3 1000 (demo_mmu 20000))"
  using mmu_accounting [OF demo_admit1 demo_start, of 1] by simp

lemma mmu_accounts_witness:
  "unat (ingress_bytes (admit 1 2 3 1000 (demo_mmu 20000)) 1 3)
     + unat (hdrm_bytes (admit 1 2 3 1000 (demo_mmu 20000)) 1 3) = 1000"
  using mmu_accounts [OF demo_admit1 demo_start, of 1 3]
  by (simp add: pCnt_def qCnt_def in_of_def)

lemma mmu_buffer_bound_witness:
  "(\<Sum>(i, e, q, s)\<in>#{#(1 :: nat, 2 :: nat, 3 :: nat, 1000 :: u32)#}. unat s)
     \<le> unat (buffer_size (demo_mmu 20000))"
proof (rule mmu_buffer_bound [OF demo_admit1, of 2 "\<lambda>_. 3"])
  show "mmu_start (demo_mmu 20000)" by (rule demo_start) simp_all
  show "unat (total_hdrm (demo_mmu 20000)) = (\<Sum>p\<in>{1..2}. unat (headroom (demo_mmu 20000) p))"
  proof -
    have "{1..2 :: nat} = {1, 2}" by auto
    then show ?thesis by (simp add: demo_mmu_eq)
  qed
qed (simp_all add: pCnt_def qCnt_def demo_mmu_eq)

lemma pause_hysteresis_witness:
  "\<not> CheckShouldResume (SetPause ((demo_mmu 20000)\<lparr>hdrm_bytes := (\<lambda>_ _. 1)\<rparr>) 1 3) 1 3"
  by (rule pause_hysteresis)
    (simp_all add: demo_mmu_eq blank_mmu_def CheckShouldPause_def GetSharedUsed_def)

lemma refused_only_when_paused_witness:
  "\<exists>m R. mmu_reach (demo_mmu 18192) m R \<and> \<not> CheckIngressAdmission m 1 3 4096
     \<and> (mmu_paused m 1 3 \<or> CheckShouldPause m 1 3)"
proof -
  let ?m = "admit 1 2 3 4096 (admit 1 2 3 4096 (demo_mmu 18192))"
  have r: "mmu_reach (demo_mmu 18192) ?m {#(1, 2, 3, 4096), (1, 2, 3, 4096)#}"
    by (intro admit_step mmu_reach.init)
      (simp_all add: pCnt_def qCnt_def CheckIngressAdmission_def demo_mmu_eq blank_mmu_def admit_def
        UpdateIngressAdmission_def UpdateEgressAdmission_def upd2_apply)
  have c: "\<not> CheckIngressAdmission ?m 1 3 4096"
    by (simp add: CheckIngressAdmission_def demo_mmu_eq blank_mmu_def admit_def
        UpdateIngressAdmission_def UpdateEgressAdmission_def upd2_apply GetSharedUsed_def
        GetPfcThreshold_def)
  have "mmu_paused ?m 1 3 \<or> CheckShouldPause ?m 1 3"
    by (rule refused_only_when_paused [OF r demo_start])
      (use c in \<open>simp_all add: pCnt_def qCnt_def demo_mmu_eq blank_mmu_def\<close>)
  with r c show ?thesis by blast
qed

lemma marking_monotone_witness:
  "ShouldSendCN (demo_mmu 20000\<lparr>egress_bytes := upd2 (\<lambda>_ _. 15000) 2 3 25000\<rparr>) 2 3 (Fin 0)"
proof -
  let ?m = "demo_mmu 20000\<lparr>egress_bytes := (\<lambda>_ _. 15000)\<rparr>"
  have "fl 2500 = Fin 2500" using fl_of_int [of 2500] by simp
  moreover have "fl (1 / 4) = Fin (1 / 4)"
    using fl_exact [of "1 / 4" 1 "- 2" 0] by (simp add: power_int_def power_one_over)
  ultimately have "ShouldSendCN ?m 2 3 (Fin 0)"
    by (simp add: ShouldSendCN_def demo_mmu_eq blank_mmu_def u2r_def)
  then show ?thesis
    using marking_monotone [of ?m 2 3 "Fin 0" "1 / 2" 25000] by (simp add: demo_mmu_eq blank_mmu_def)
qed

end
