(* ===== verification/Sim_Events.thy ===== *)
theory Sim_Events
  imports Hpcc_Prelude
begin

text \<open>
  The event queue of the simulator (\<^verbatim>\<open>default-simulator-impl.cc\<close> with \<^verbatim>\<open>map-scheduler.cc\<close>), over
  any type of events: scheduling, cancelling, removing and executing the next event. The lemmas
  show that events run in the order of their times and, at one time, in the order they were
  scheduled, and that a cancelled event does not run. Calls from another thread are left out.
\<close>

text \<open>An event is found by its time and its number; the flag says that it was cancelled.\<close>

type_synonym event_key = "int \<times> u32"
type_synonym event_id = "event_key option"

record 'e sim =
  m_currentTs :: int
  m_currentUid :: u32
  m_uid :: u32
  m_unscheduledEvents :: int
  m_eventCount :: u64
  m_events :: "(event_key \<times> 'e \<times> bool) list"

definition key_less :: "event_key \<Rightarrow> event_key \<Rightarrow> bool" where
  "key_less a b \<longleftrightarrow> fst a < fst b \<or> fst a = fst b \<and> snd a < snd b"

definition uid_INVALID :: u32 where "uid_INVALID = 0"
definition uid_VALID :: u32 where "uid_VALID = 4"

definition sim_init :: "'e sim" where
  "sim_init = \<lparr>m_currentTs = 0, m_currentUid = uid_INVALID, m_uid = uid_VALID, m_unscheduledEvents = 0,
     m_eventCount = 0, m_events = []\<rparr>"

text \<open>\<^verbatim>\<open>MapScheduler\<close>: a map ordered by \<open>key_less\<close>. Inserting a key twice fails the assertion.\<close>

fun sched_Insert :: "event_key \<Rightarrow> 'a \<Rightarrow> (event_key \<times> 'a) list \<Rightarrow> (event_key \<times> 'a) list option" where
  "sched_Insert k v [] = Some [(k, v)]"
| "sched_Insert k v ((k', v') # xs) =
     (if key_less k k' then Some ((k, v) # (k', v') # xs)
      else if key_less k' k then map_option ((#) (k', v')) (sched_Insert k v xs)
      else None)"

definition Now :: "'e sim \<Rightarrow> int" where
  "Now s = m_currentTs s"

definition max_time :: int where "max_time = 2 ^ 63 - 1"

definition GetMaximumSimulationTime :: int where
  "GetMaximumSimulationTime = max_time"

definition Schedule :: "int \<Rightarrow> 'e \<Rightarrow> 'e sim \<Rightarrow> (event_id \<times> 'e sim) option" where
  "Schedule delay e s = do {
     guard (0 \<le> delay);
     guard (delay + m_currentTs s \<le> max_time);
     let key = (delay + m_currentTs s, m_uid s);
     es \<leftarrow> sched_Insert key (e, False) (m_events s);
     Some (Some key, s\<lparr>m_uid := m_uid s + 1, m_unscheduledEvents := m_unscheduledEvents s + 1,
       m_events := es\<rparr>) }"

definition IsExpired :: "event_id \<Rightarrow> 'e sim \<Rightarrow> bool" where
  "IsExpired ev s \<longleftrightarrow> (case ev of None \<Rightarrow> True | Some (ts, uid) \<Rightarrow>
     ts < m_currentTs s \<or> ts = m_currentTs s \<and> uid \<le> m_currentUid s
     \<or> (case map_of (m_events s) (ts, uid) of None \<Rightarrow> True | Some (_, cancelled) \<Rightarrow> cancelled))"

definition Cancel :: "event_id \<Rightarrow> 'e sim \<Rightarrow> 'e sim" where
  "Cancel ev s = (if IsExpired ev s then s else
     s\<lparr>m_events := map (\<lambda>(k, e, c). (k, e, c \<or> Some k = ev)) (m_events s)\<rparr>)"

definition Remove :: "event_id \<Rightarrow> 'e sim \<Rightarrow> 'e sim" where
  "Remove ev s = (if IsExpired ev s then s else
     s\<lparr>m_events := filter (\<lambda>(k, _). Some k \<noteq> ev) (m_events s),
       m_unscheduledEvents := m_unscheduledEvents s - 1\<rparr>)"

text \<open>\<^verbatim>\<open>ScheduleDestroy\<close>: an event for the end of the simulation takes a number of the queue.\<close>

definition ScheduleDestroy :: "'e sim \<Rightarrow> 'e sim" where
  "ScheduleDestroy s = s\<lparr>m_uid := m_uid s + 1\<rparr>"

text \<open>The next event and the state in which its body runs: the body is \<open>None\<close> for a cancelled event,
  whose \<^verbatim>\<open>Invoke\<close> does nothing.\<close>

definition ProcessOneEvent :: "'e sim \<Rightarrow> ('e option \<times> 'e sim) option" where
  "ProcessOneEvent s = (case m_events s of [] \<Rightarrow> None
     | (key, e, cancelled) # es \<Rightarrow> do {
         guard (fst key \<ge> m_currentTs s);
         Some (if cancelled then None else Some e,
           s\<lparr>m_events := es, m_unscheduledEvents := m_unscheduledEvents s - 1,
             m_eventCount := m_eventCount s + 1, m_currentTs := fst key, m_currentUid := snd key\<rparr>) })"

text \<open>The code has one simulator, and one clock, for all nodes. In a model of one node with its own events, an event of
  another node is time that passes: the clock moves on, at most to the next event of the node.\<close>

definition wait_until :: "int \<Rightarrow> 'e sim \<Rightarrow> 'e sim option" where
  "wait_until t s = do {
     guard (m_currentTs s \<le> t \<and> t \<le> max_time \<and> list_all (\<lambda>(key, _). t \<le> fst key) (m_events s));
     Some (if t = m_currentTs s then s else s\<lparr>m_currentTs := t, m_currentUid := uid_INVALID\<rparr>) }"

text \<open>\<^verbatim>\<open>Run\<close> with at most \<open>n\<close> events; the body of an event works on its own state and schedules.\<close>

fun Run :: "nat \<Rightarrow> ('e \<Rightarrow> 'e sim \<times> 's \<Rightarrow> ('e sim \<times> 's) option) \<Rightarrow> 'e sim \<times> 's \<Rightarrow> ('e sim \<times> 's) option" where
  "Run 0 body st = Some st"
| "Run (Suc n) body (s, x) = (if m_events s = [] then Some (s, x) else do {
     (e, s) \<leftarrow> ProcessOneEvent s;
     st \<leftarrow> (case e of None \<Rightarrow> Some (s, x) | Some e \<Rightarrow> body e (s, x));
     Run n body st })"

subsection \<open>The order of the queue\<close>

lemma key_less_trans: "key_less a b \<Longrightarrow> key_less b c \<Longrightarrow> key_less a c"
  by (auto simp: key_less_def)

lemma key_less_irrefl [simp]: "\<not> key_less a a"
  by (simp add: key_less_def)

lemma key_less_linear: "key_less a b \<or> a = b \<or> key_less b a"
  by (cases a; cases b) (auto simp: key_less_def)

definition event_keys :: "'e sim \<Rightarrow> event_key list" where
  "event_keys s = map fst (m_events s)"

definition sim_wf :: "'e sim \<Rightarrow> bool" where
  "sim_wf s \<longleftrightarrow> sorted_wrt key_less (event_keys s)
     \<and> (\<forall>k \<in> set (event_keys s). key_less (m_currentTs s, m_currentUid s) k \<and> snd k < m_uid s)
     \<and> m_currentUid s < m_uid s \<and> m_unscheduledEvents s = int (length (event_keys s)) \<and> 0 \<le> m_currentTs s"

lemma sim_wf_init: "sim_wf sim_init"
  by (simp add: sim_wf_def event_keys_def sim_init_def uid_VALID_def uid_INVALID_def)

lemma sched_Insert_set:
  "sched_Insert k v xs = Some ys \<Longrightarrow> set ys = insert (k, v) (set xs) \<and> length ys = Suc (length xs)"
proof (induction xs arbitrary: ys)
  case (Cons x xs)
  then show ?case by (cases x) (auto split: if_splits)
qed simp

lemma sched_Insert_sorted:
  assumes "sched_Insert k v xs = Some ys" and "sorted_wrt key_less (map fst xs)"
  shows "sorted_wrt key_less (map fst ys)"
  using assms
proof (induction xs arbitrary: ys)
  case (Cons x xs)
  obtain k' v' where x: "x = (k', v')" by (cases x)
  show ?case
  proof (cases "key_less k k'")
    case True
    then show ?thesis using Cons.prems x key_less_trans [OF True] by fastforce
  next
    case False
    then obtain zs where zs: "sched_Insert k v xs = Some zs" "ys = (k', v') # zs" "key_less k' k"
      using Cons.prems x by (auto split: if_splits)
    have "sorted_wrt key_less (map fst zs)" using Cons.IH [OF zs(1)] Cons.prems(2) by simp
    then show ?thesis using zs x Cons.prems(2) sched_Insert_set [OF zs(1)] by auto
  qed
qed simp

lemma sched_Insert_fresh: "k \<notin> fst ` set xs \<Longrightarrow> \<exists>ys. sched_Insert k v xs = Some ys"
proof (induction xs)
  case (Cons x xs)
  obtain k' v' where x: "x = (k', v')" by (cases x)
  then show ?case using Cons key_less_linear [of k k'] by auto
qed simp

lemma Schedule_Some:
  assumes "Schedule d e s = Some (ev, s')"
  obtains es where "0 \<le> d" and "ev = Some (d + m_currentTs s, m_uid s)"
    and "sched_Insert (d + m_currentTs s, m_uid s) (e, False) (m_events s) = Some es"
    and "s' = s\<lparr>m_uid := m_uid s + 1, m_unscheduledEvents := m_unscheduledEvents s + 1, m_events := es\<rparr>"
  using assms by (auto simp: Schedule_def guard_bind_eq_Some Let_def elim!: bind_eq_SomeE)

lemma uid_less_Suc: "unat (u :: u32) + 1 < 2 ^ 32 \<Longrightarrow> v \<le> u \<Longrightarrow> v < u + 1"
  by (simp add: word_less_nat_alt word_le_nat_alt unat_add_nowrap)

lemma Schedule_wf:
  assumes "Schedule d e s = Some (ev, s')" and "sim_wf s" and "unat (m_uid s) + 1 < 2 ^ 32"
  shows "sim_wf s'"
proof -
  from assms(1) obtain es where es: "0 \<le> d"
    "sched_Insert (d + m_currentTs s, m_uid s) (e, False) (m_events s) = Some es"
    "s' = s\<lparr>m_uid := m_uid s + 1, m_unscheduledEvents := m_unscheduledEvents s + 1, m_events := es\<rparr>"
    by (rule Schedule_Some)
  have lt: "v < m_uid s + 1" if "v \<le> m_uid s" for v using uid_less_Suc [OF assms(3) that] .
  have new: "key_less (m_currentTs s, m_currentUid s) (d + m_currentTs s, m_uid s)"
    using assms(2) es(1) by (auto simp: sim_wf_def key_less_def)
  show ?thesis
    using assms(2) sched_Insert_set [OF es(2)] sched_Insert_sorted [OF es(2)] new
    by (auto simp: sim_wf_def event_keys_def es(3) intro: lt less_imp_le)
qed

lemma event_keys_Cancel [simp]: "event_keys (Cancel ev s) = event_keys s"
  by (auto simp: Cancel_def event_keys_def)

lemma Cancel_frame [simp]: "m_currentTs (Cancel ev s) = m_currentTs s" "m_currentUid (Cancel ev s) = m_currentUid s"
  "m_uid (Cancel ev s) = m_uid s" "m_unscheduledEvents (Cancel ev s) = m_unscheduledEvents s"
  by (simp_all add: Cancel_def)

lemma Cancel_wf: "sim_wf s \<Longrightarrow> sim_wf (Cancel ev s)"
  by (simp add: sim_wf_def)

lemma distinct_keys: "sorted_wrt key_less ks \<Longrightarrow> distinct ks"
  by (induction ks) auto

lemma remove_key:
  assumes "distinct (map fst xs)" and "k \<in> fst ` set xs"
  shows "length (filter (\<lambda>(k', _). Some k' \<noteq> Some k) xs) + 1 = length xs"
proof -
  have one: "length (filter (\<lambda>(k', _). k' = k) xs) = 1"
  using assms
  proof (induction xs)
    case (Cons x xs)
    have none: "filter (\<lambda>(k', _). k' = fst x) xs = []"
      using Cons.prems(1) by (simp add: filter_empty_conv case_prod_unfold) (metis image_eqI)
    then show ?case using Cons by (cases x) (auto simp: case_prod_unfold)
  qed simp
  show ?thesis
    using sum_length_filter_compl [of "\<lambda>(k', _). k' = k" xs] one by (simp add: case_prod_unfold)
qed

lemma Remove_wf:
  assumes "sim_wf s"
  shows "sim_wf (Remove ev s)"
proof (cases "IsExpired ev s")
  case False
  then obtain k where ev: "ev = Some k" and k: "k \<in> fst ` set (m_events s)"
    by (force simp: IsExpired_def split: option.splits dest: map_of_SomeD)
  have "sorted_wrt key_less (map fst (filter P xs))" if "sorted_wrt key_less (map fst xs)" for P xs
    using that by (induction xs) auto
  moreover have "distinct (map fst (m_events s))"
    using assms distinct_keys by (simp add: sim_wf_def event_keys_def)
  ultimately show ?thesis
    using assms False remove_key [of "m_events s" k] k
    by (auto simp: Remove_def sim_wf_def event_keys_def ev)
qed (simp add: Remove_def assms)

subsection \<open>What runs, and when\<close>

lemma ProcessOneEvent_Some:
  assumes "ProcessOneEvent s = Some (e, s')"
  obtains k e' c es where "m_events s = (k, e', c) # es" and "e = (if c then None else Some e')"
    and "s' = s\<lparr>m_events := es, m_unscheduledEvents := m_unscheduledEvents s - 1,
       m_eventCount := m_eventCount s + 1, m_currentTs := fst k, m_currentUid := snd k\<rparr>"
  using assms by (auto simp: ProcessOneEvent_def guard_bind_eq_Some split: list.splits)

lemma ProcessOneEvent_wf:
  assumes "ProcessOneEvent s = Some (e, s')" and "sim_wf s"
  shows "sim_wf s'"
proof -
  from assms(1) obtain k e' c es where "m_events s = (k, e', c) # es" and
    "s' = s\<lparr>m_events := es, m_unscheduledEvents := m_unscheduledEvents s - 1,
       m_eventCount := m_eventCount s + 1, m_currentTs := fst k, m_currentUid := snd k\<rparr>"
    by (rule ProcessOneEvent_Some)
  then show ?thesis using assms(2) by (cases k) (auto simp: sim_wf_def event_keys_def key_less_def)
qed

text \<open>A step of a simulation, and the runs, with what was executed, latest first: the key of the event
  and its body, \<open>None\<close> when it was cancelled. The counter of events has 32 bits; the relation stops
  before it wraps.\<close>

inductive sim_step :: "'e sim \<Rightarrow> (event_key \<times> 'e option) list \<Rightarrow> 'e sim \<Rightarrow> bool" where
  Sched: "Schedule d e s = Some (ev, s') \<Longrightarrow> unat (m_uid s) + 1 < 2 ^ 32 \<Longrightarrow> sim_step s [] s'"
| Canc: "sim_step s [] (Cancel ev s)"
| Rem: "sim_step s [] (Remove ev s)"
| Dest: "unat (m_uid s) + 1 < 2 ^ 32 \<Longrightarrow> sim_step s [] (ScheduleDestroy s)"
| Exec: "ProcessOneEvent s = Some (e, s') \<Longrightarrow> sim_step s [((m_currentTs s', m_currentUid s'), e)] s'"

inductive sim_run :: "'e sim \<Rightarrow> (event_key \<times> 'e option) list \<Rightarrow> 'e sim \<Rightarrow> bool" where
  Start: "sim_run s [] s"
| Step: "sim_run s t s' \<Longrightarrow> sim_step s' l s'' \<Longrightarrow> sim_run s (l @ t) s''"

lemma Schedule_frame: "Schedule d e s = Some (ev, s') \<Longrightarrow> m_currentTs s' = m_currentTs s \<and> m_currentUid s' = m_currentUid s"
  by (elim Schedule_Some) simp

lemma Remove_frame [simp]: "m_currentTs (Remove ev s) = m_currentTs s" "m_currentUid (Remove ev s) = m_currentUid s"
  "m_uid (Remove ev s) = m_uid s"
  by (simp_all add: Remove_def)

lemma executed_next:
  assumes "sim_wf s" and "ProcessOneEvent s = Some (e, s')"
  shows "key_less (m_currentTs s, m_currentUid s) (m_currentTs s', m_currentUid s')"
  by (rule ProcessOneEvent_Some [OF assms(2)]) (use assms(1) in \<open>simp add: sim_wf_def event_keys_def\<close>)

lemma ScheduleDestroy_wf: "unat (m_uid s) + 1 < 2 ^ 32 \<Longrightarrow> sim_wf s \<Longrightarrow> sim_wf (ScheduleDestroy s)"
  using uid_less_Suc [of "m_uid s"]
  by (auto simp: sim_wf_def event_keys_def ScheduleDestroy_def intro: less_imp_le)

lemma wait_until_wf:
  assumes "wait_until t s = Some s'" and "sim_wf s" and "0 < m_uid s" and "\<forall>k \<in> set (event_keys s). 0 < snd k"
  shows "sim_wf s'"
proof (cases "t = m_currentTs s")
  case False
  have "\<forall>k \<in> set (event_keys s). t \<le> fst k" and "m_currentTs s \<le> t"
    using assms(1) by (auto simp: wait_until_def guard_bind_eq_Some event_keys_def list_all_iff)
  moreover have "s' = s\<lparr>m_currentTs := t, m_currentUid := 0\<rparr>"
    using assms(1) False by (auto simp: wait_until_def guard_bind_eq_Some uid_INVALID_def)
  ultimately show ?thesis using assms(2-4) by (auto simp: sim_wf_def event_keys_def key_less_def)
qed (use assms(1,2) in \<open>auto simp: wait_until_def guard_bind_eq_Some\<close>)

lemma sim_step_wf: "sim_step s l s' \<Longrightarrow> sim_wf s \<Longrightarrow> sim_wf s'"
proof (induction rule: sim_step.induct)
  case (Sched d e s ev s')
  then show ?case by (simp add: Schedule_wf)
next
  case (Exec s e s')
  then show ?case by (simp add: ProcessOneEvent_wf)
qed (simp_all add: Cancel_wf Remove_wf ScheduleDestroy_wf)

lemma sim_run_wf: "sim_run s t s' \<Longrightarrow> sim_wf s \<Longrightarrow> sim_wf s'"
  by (induction rule: sim_run.induct) (auto intro: sim_step_wf)

abbreviation current_key :: "'e sim \<Rightarrow> event_key" where
  "current_key s \<equiv> (m_currentTs s, m_currentUid s)"

lemma executed_history:
  "sim_run s t s' \<Longrightarrow> sim_wf s \<Longrightarrow> sorted_wrt (\<lambda>a b. key_less b a) (map fst t)
     \<and> (\<forall>k \<in> fst ` set t. k = current_key s' \<or> key_less k (current_key s'))"
proof (induction rule: sim_run.induct)
  case (Step s t s' l s'')
  have wf: "sim_wf s'" using sim_run_wf [OF Step.hyps(1)] Step.prems by simp
  from Step.hyps(2) show ?case
  proof cases
    case (Sched d e ev)
    then show ?thesis using Step.IH Step.prems Schedule_frame [OF Sched(2)] by simp
  next
    case (Exec e)
    then have "key_less k (current_key s'')" if "k \<in> fst ` set t" for k
      using executed_next [OF wf Exec(2)] Step.IH Step.prems that by (auto intro: key_less_trans)
    then show ?thesis using Exec Step.IH Step.prems by auto
  qed (use Step.IH Step.prems in \<open>simp_all add: ScheduleDestroy_def\<close>)
qed simp

text \<open>C34: in every simulation the events run in the order of their times, events of the same time in
  the order they were scheduled, the clock never goes back, and the next event is the earliest
  pending one.\<close>

theorem events_in_order:
  assumes "sim_run sim_init t s"
  shows "sorted_wrt (\<lambda>a b. key_less b a) (map fst t)
    \<and> (\<forall>e s'. ProcessOneEvent s = Some (e, s') \<longrightarrow> m_currentTs s \<le> m_currentTs s'
      \<and> (\<forall>k \<in> set (event_keys s'). key_less (current_key s') k))"
proof (intro conjI allI impI)
  have wf: "sim_wf s" by (rule sim_run_wf [OF assms sim_wf_init])
  show "sorted_wrt (\<lambda>a b. key_less b a) (map fst t)" using executed_history [OF assms sim_wf_init] by simp
  fix e s' assume p: "ProcessOneEvent s = Some (e, s')"
  show "m_currentTs s \<le> m_currentTs s'" using executed_next [OF wf p] by (auto simp: key_less_def)
  show "\<forall>k \<in> set (event_keys s'). key_less (current_key s') k"
    using ProcessOneEvent_wf [OF p wf] by (simp add: sim_wf_def)
qed

lemma expired_current: "\<not> key_less (current_key s) k \<Longrightarrow> IsExpired (Some k) s"
  by (cases k) (auto simp: IsExpired_def key_less_def not_less)

lemma IsExpired_alt: "IsExpired (Some k) s \<longleftrightarrow> \<not> key_less (current_key s) k
    \<or> (case map_of (m_events s) k of None \<Rightarrow> True | Some (_, c) \<Rightarrow> c)"
  by (cases k) (auto simp: IsExpired_def key_less_def not_less)

lemma sched_Insert_map_of:
  "sched_Insert k v xs = Some ys \<Longrightarrow> sorted_wrt key_less (map fst xs) \<Longrightarrow> k' \<noteq> k \<Longrightarrow> map_of ys k' = map_of xs k'"
proof (induction xs arbitrary: ys)
  case (Cons x xs)
  then show ?case by (cases x) (auto split: if_splits)
qed auto

lemma map_of_cancel: "map_of (map (\<lambda>(k, e, c). (k, e, c \<or> Some k = ev)) xs) k
    = map_option (\<lambda>(e, c). (e, c \<or> Some k = ev)) (map_of xs k)"
  by (induction xs) auto

lemma map_of_filter_key: "map_of (filter (\<lambda>(k', _). Some k' \<noteq> ev) xs) k = (if Some k = ev then None else map_of xs k)"
  by (induction xs) auto

lemma expired_step:
  assumes "sim_step s l s'" and "sim_wf s" and "IsExpired (Some k) s" and "snd k < m_uid s"
  shows "IsExpired (Some k) s' \<and> snd k < m_uid s' \<and> (\<forall>e. (k, Some e) \<notin> set l)"
  using assms(1)
proof cases
  case (Sched d e ev)
  from Sched(2) obtain es where es: "sched_Insert (d + m_currentTs s, m_uid s) (e, False) (m_events s) = Some es"
    "s' = s\<lparr>m_uid := m_uid s + 1, m_unscheduledEvents := m_unscheduledEvents s + 1, m_events := es\<rparr>"
    by (rule Schedule_Some)
  have "k \<noteq> (d + m_currentTs s, m_uid s)" using assms(4) by auto
  then have "map_of es k = map_of (m_events s) k"
    using sched_Insert_map_of [OF es(1)] assms(2) by (simp add: sim_wf_def event_keys_def)
  then show ?thesis
    using assms(3,4) Sched(1) uid_less_Suc [OF Sched(3), of "snd k"] by (simp add: IsExpired_alt es(2))
next
  case (Canc ev)
  then show ?thesis
    using assms(3,4) by (auto simp: IsExpired_alt Cancel_def map_of_cancel split: option.splits)
next
  case (Rem ev)
  then show ?thesis
    using assms(3,4) by (auto simp: IsExpired_alt Remove_def map_of_filter_key split: option.splits)
next
  case Dest
  then show ?thesis
    using assms(3,4) uid_less_Suc [of "m_uid s" "snd k"] by (simp add: IsExpired_alt ScheduleDestroy_def)
next
  case (Exec e)
  from Exec(2) obtain k0 e' c es where p: "m_events s = (k0, e', c) # es" "e = (if c then None else Some e')"
    "s' = s\<lparr>m_events := es, m_unscheduledEvents := m_unscheduledEvents s - 1,
       m_eventCount := m_eventCount s + 1, m_currentTs := fst k0, m_currentUid := snd k0\<rparr>"
    by (rule ProcessOneEvent_Some)
  have cur: "key_less (current_key s) k0" using executed_next [OF assms(2) Exec(2)] by (simp add: p(3))
  show ?thesis
  proof (cases "key_less (current_key s) k")
    case True
    then show ?thesis
      using assms(3,4) Exec(1) p by (auto simp: IsExpired_alt split: if_splits option.splits)
  next
    case False
    then have "\<not> key_less k0 k" and "k \<noteq> k0" using cur key_less_trans by blast+
    then show ?thesis using assms(4) Exec(1) p(3) by (auto simp: IsExpired_alt)
  qed
qed

text \<open>C35: an event that was cancelled, or that has run, never runs afterwards, whatever is scheduled,
  cancelled or removed in the meantime.\<close>

theorem expired_never_runs:
  assumes "sim_run sim_init t s" and "snd k < m_uid s" and "IsExpired (Some k) s" and "sim_run s t' s'"
  shows "(k, Some e) \<notin> set t'"
proof -
  have "sim_wf s'' \<and> IsExpired (Some k) s'' \<and> snd k < m_uid s'' \<and> (\<forall>e. (k, Some e) \<notin> set t'')"
    if "sim_run s1 t'' s''" "sim_wf s1" "IsExpired (Some k) s1" "snd k < m_uid s1" for s1 t'' s''
    using that
  proof (induction rule: sim_run.induct)
    case (Step s1 t1 s2 l s3)
    then show ?case using expired_step [OF Step.hyps(2)] sim_step_wf [OF Step.hyps(2)] by auto
  qed simp
  then show ?thesis using assms sim_run_wf [OF assms(1) sim_wf_init] by blast
qed

lemma Cancel_expires: "IsExpired ev (Cancel ev s)"
proof (cases ev)
  case (Some k)
  show ?thesis
  proof (cases "IsExpired ev s")
    case False
    then show ?thesis
      using map_of_cancel [of "Some k" "m_events s" k]
      by (auto simp: Some IsExpired_alt Cancel_def split: option.splits)
  qed (simp add: Cancel_def)
qed (simp add: IsExpired_def)

lemma Schedule_pending:
  assumes "Schedule d e s = Some (ev, s')" and "sim_wf s"
  shows "\<not> IsExpired ev s'"
proof -
  from assms(1) obtain es where es: "0 \<le> d" "ev = Some (d + m_currentTs s, m_uid s)"
    "sched_Insert (d + m_currentTs s, m_uid s) (e, False) (m_events s) = Some es"
    "s' = s\<lparr>m_uid := m_uid s + 1, m_unscheduledEvents := m_unscheduledEvents s + 1, m_events := es\<rparr>"
    by (rule Schedule_Some)
  have "sorted_wrt key_less (map fst es)"
    using sched_Insert_sorted [OF es(3)] assms(2) by (simp add: sim_wf_def event_keys_def)
  then have "map_of es (d + m_currentTs s, m_uid s) = Some (e, False)"
    using sched_Insert_set [OF es(3)] by (intro map_of_is_SomeI distinct_keys) auto
  then show ?thesis using assms(2) es(1) by (auto simp: IsExpired_alt es(2,4) sim_wf_def key_less_def)
qed

text \<open>A simulation of two events, the first of which is cancelled.\<close>

definition demo_sim :: "nat sim" where
  "demo_sim = \<lparr>m_currentTs = 0, m_currentUid = 0, m_uid = 6, m_unscheduledEvents = 2, m_eventCount = 0,
     m_events = [((5, 4), 7, True), ((5, 5), 8, False)]\<rparr>"

definition demo_done :: "nat sim" where
  "demo_done = \<lparr>m_currentTs = 5, m_currentUid = 5, m_uid = 6, m_unscheduledEvents = 0, m_eventCount = 2,
     m_events = []\<rparr>"

lemmas demo_defs = demo_sim_def demo_done_def sim_init_def uid_VALID_def uid_INVALID_def max_time_def

lemma demo_run: "sim_run sim_init [] demo_sim"
proof -
  let ?s1 = "sim_init\<lparr>m_uid := 5, m_unscheduledEvents := 1, m_events := [((5, 4), 7, False)]\<rparr>"
  let ?s2 = "?s1\<lparr>m_uid := 6, m_unscheduledEvents := 2, m_events := [((5, 4), 7, False), ((5, 5), 8, False)]\<rparr>"
  have "sim_step sim_init [] ?s1"
    by (rule sim_step.Sched [of 5 7 _ "Some (5, 4)"]) (simp_all add: Schedule_def Let_def demo_defs)
  then have 1: "sim_run sim_init ([] @ []) ?s1" by (rule sim_run.Step [OF sim_run.Start])
  have "sim_step ?s1 [] ?s2"
    by (rule sim_step.Sched [of 5 8 _ "Some (5, 5)"]) (simp_all add: Schedule_def Let_def demo_defs key_less_def)
  then have 2: "sim_run sim_init ([] @ ([] @ [])) ?s2" by (rule sim_run.Step [OF 1])
  have "Cancel (Some (5, 4)) ?s2 = demo_sim" by (simp add: Cancel_def IsExpired_def demo_defs)
  then have "sim_step ?s2 [] demo_sim" by (metis sim_step.Canc)
  then show ?thesis using sim_run.Step [OF 2] by simp
qed

lemma demo_rest: "sim_run demo_sim [((5, 5), Some 8), ((5, 4), None)] demo_done"
proof -
  let ?s1 = "demo_sim\<lparr>m_currentTs := 5, m_currentUid := 4, m_unscheduledEvents := 1, m_eventCount := 1,
     m_events := [((5, 5), 8, False)]\<rparr>"
  have "sim_step demo_sim [((5, 4), None)] ?s1"
    using sim_step.Exec [of demo_sim None ?s1] by (simp add: ProcessOneEvent_def demo_defs)
  then have 1: "sim_run demo_sim ([((5, 4), None)] @ []) ?s1" by (rule sim_run.Step [OF sim_run.Start])
  have "sim_step ?s1 [((5, 5), Some 8)] demo_done"
    using sim_step.Exec [of ?s1 "Some 8" demo_done] by (simp add: ProcessOneEvent_def demo_defs)
  then have "sim_run demo_sim ([((5, 5), Some 8)] @ [((5, 4), None)] @ []) demo_done"
    by (rule sim_run.Step [OF 1])
  then show ?thesis by simp
qed

lemma sim_run_trans: "sim_run s' t' s'' \<Longrightarrow> sim_run s t s' \<Longrightarrow> sim_run s (t' @ t) s''"
  by (induction rule: sim_run.induct) (auto intro: sim_run.Step)

lemma events_in_order_witness:
  "sorted_wrt (\<lambda>a b. key_less b a) (map fst [((5, 5), Some 8), ((5, 4), None :: nat option)])"
  using events_in_order [OF sim_run_trans [OF demo_rest demo_run]] by simp

lemma expired_never_runs_witness: "((5 :: int, 4 :: u32), Some 7) \<notin> set [((5, 5), Some 8), ((5, 4), None :: nat option)]"
  by (rule expired_never_runs [OF demo_run _ _ demo_rest]) (simp_all add: IsExpired_def demo_defs)

end
