(* ===== verification/Queue_Pair.thy ===== *)
theory Queue_Pair
  imports Data_Rate Int_Header Sim_Events
begin

text \<open>
  The queue pairs of a host (\<^verbatim>\<open>rdma-queue-pair.h\<close>, \<^verbatim>\<open>rdma-queue-pair.cc\<close>): the state of a flow at its
  sender and at its receiver, the window, the acknowledgements and the flow hash
  (\<^verbatim>\<open>hash-murmur3.cc\<close>). The lemmas show that the sequence numbers of a sender stay in order, that
  the window of a flow that has one is never empty and what the hash separates.
\<close>

subsection \<open>The flow hash\<close>

definition rotl32 :: "u32 \<Rightarrow> nat \<Rightarrow> u32" where
  "rotl32 x r = push_bit r x OR drop_bit (32 - r) x"

definition fmix :: "u32 \<Rightarrow> u32" where
  "fmix h = (let h = h XOR drop_bit 16 h; h = h * 0x85ebca6b; h = h XOR drop_bit 13 h;
     h = h * 0xc2b2ae35 in h XOR drop_bit 16 h)"

definition mix_k1 :: "u32 \<Rightarrow> u32" where
  "mix_k1 k1 = rotl32 (k1 * 0xcc9e2d51) 15 * 0x1b873593"

definition mix_h1 :: "u32 \<Rightarrow> u32 \<Rightarrow> u32" where
  "mix_h1 h1 k1 = rotl32 (h1 XOR mix_k1 k1) 13 * 5 + 0xe6546b64"

definition block4 :: "u8 \<Rightarrow> u8 \<Rightarrow> u8 \<Rightarrow> u8 \<Rightarrow> u32" where
  "block4 a b c d = ucast a OR push_bit 8 (ucast b) OR push_bit 16 (ucast c) OR push_bit 24 (ucast d)"

text \<open>The blocks of four bytes, then the tail of at most three.\<close>

fun MurmurHash3_x86_32_incr :: "u8 list \<Rightarrow> u32 \<Rightarrow> u32" where
  "MurmurHash3_x86_32_incr (a # b # c # d # key) h1 = MurmurHash3_x86_32_incr key (mix_h1 h1 (block4 a b c d))"
| "MurmurHash3_x86_32_incr [a, b, c] h1 = h1 XOR mix_k1 (push_bit 16 (ucast c) XOR push_bit 8 (ucast b) XOR ucast a)"
| "MurmurHash3_x86_32_incr [a, b] h1 = h1 XOR mix_k1 (push_bit 8 (ucast b) XOR ucast a)"
| "MurmurHash3_x86_32_incr [a] h1 = h1 XOR mix_k1 (ucast a)"
| "MurmurHash3_x86_32_incr [] h1 = h1"

definition MurmurHash3_x86_32_fin :: "u32 \<Rightarrow> u32 \<Rightarrow> u32" where
  "MurmurHash3_x86_32_fin len h1 = fmix (h1 XOR len)"

definition Hash32 :: "u8 list \<Rightarrow> u32" where
  "Hash32 buffer = MurmurHash3_x86_32_fin (of_nat (length buffer)) (MurmurHash3_x86_32_incr buffer 0x8BADF00D)"

text \<open>The two \<^verbatim>\<open>GetHash\<close> functions overlay the same twelve bytes.\<close>

definition tuple_bytes :: "u32 \<Rightarrow> u32 \<Rightarrow> u16 \<Rightarrow> u16 \<Rightarrow> bytes" where
  "tuple_bytes sip dip sport dport = WriteU32 sip @ WriteU32 dip @ WriteU16 sport @ WriteU16 dport"

definition tuple_hash :: "u32 \<Rightarrow> u32 \<Rightarrow> u16 \<Rightarrow> u16 \<Rightarrow> u32" where
  "tuple_hash sip dip sport dport = Hash32 (tuple_bytes sip dip sport dport)"

subsection \<open>State of a flow at its sender\<close>

record mlx_state =
  m_targetRate :: rate
  m_eventUpdateAlpha :: event_id
  mlx_alpha :: double
  m_alpha_cnp_arrived :: bool
  m_first_cnp :: bool
  m_eventDecreaseRate :: event_id
  m_decrease_cnp_arrived :: bool
  m_rpTimeStage :: u32
  m_rpTimer :: event_id

record hop_state =
  hs_u :: double
  hs_Rc :: rate
  hs_incStage :: u32

record hp_state =
  hp_lastUpdateSeq :: u32
  hp_curRate :: rate
  hp_hop :: "nat \<Rightarrow> IntHop"
  hp_incStage :: u32
  hp_u :: double
  hp_hopState :: "nat \<Rightarrow> hop_state"
  hp_vR :: "nat \<Rightarrow> double"
  hp_vLastTs :: "nat \<Rightarrow> u64"
  hp_vSnap :: "nat \<Rightarrow> IntHop"

record tmly_state =
  tmly_lastUpdateSeq :: u32
  tmly_curRate :: rate
  tmly_incStage :: u32
  tmly_lastRtt :: u64
  tmly_rttDiff :: double

record dctcp_state =
  dctcp_lastUpdateSeq :: u32
  dctcp_caState :: u32
  dctcp_highSeq :: u32
  dctcp_alpha :: double
  dctcp_ecnCnt :: u32
  dctcp_batchSizeOfAlpha :: u32

record hpccPint_state =
  pint_lastUpdateSeq :: u32
  pint_curRate :: rate
  pint_incStage :: u32

record RdmaQueuePair =
  qp_startTime :: int
  qp_sip :: u32
  qp_dip :: u32
  qp_sport :: u16
  qp_dport :: u16
  m_size :: u64
  snd_nxt :: u64
  snd_una :: u64
  m_pg :: u16
  m_ipid :: u16
  m_win :: u32
  m_baseRtt :: u64
  m_max_rate :: rate
  m_var_win :: bool
  m_nextAvail :: int
  lastPktSize :: u32
  m_rate :: rate
  mlx :: mlx_state
  hp :: hp_state
  tmly :: tmly_state
  dctcp :: dctcp_state
  hpccPint :: hpccPint_state

text \<open>What the constructor leaves uninitialised (the INT snapshots and the size of the last packet)
  is an argument; rates start at 0, the value of a fresh \<^verbatim>\<open>DataRate\<close>.\<close>

definition RdmaQueuePair_init ::
  "(nat \<Rightarrow> IntHop) \<Rightarrow> u32 \<Rightarrow> int \<Rightarrow> u16 \<Rightarrow> u32 \<Rightarrow> u32 \<Rightarrow> u16 \<Rightarrow> u16 \<Rightarrow> RdmaQueuePair" where
  "RdmaQueuePair_init junk_hop junk_size now pg sip dip sport dport = \<lparr>
     qp_startTime = now, qp_sip = sip, qp_dip = dip, qp_sport = sport, qp_dport = dport,
     m_size = 0, snd_nxt = 0, snd_una = 0, m_pg = pg, m_ipid = 0, m_win = 0, m_baseRtt = 0,
     m_max_rate = 0, m_var_win = False, m_nextAvail = 0, lastPktSize = junk_size, m_rate = 0,
     mlx = \<lparr>m_targetRate = 0, m_eventUpdateAlpha = None, mlx_alpha = Fin 1, m_alpha_cnp_arrived = False,
       m_first_cnp = True, m_eventDecreaseRate = None, m_decrease_cnp_arrived = False, m_rpTimeStage = 0,
       m_rpTimer = None\<rparr>,
     hp = \<lparr>hp_lastUpdateSeq = 0, hp_curRate = 0, hp_hop = junk_hop, hp_incStage = 0, hp_u = Fin 1,
       hp_hopState = (\<lambda>_. \<lparr>hs_u = Fin 1, hs_Rc = 0, hs_incStage = 0\<rparr>),
       hp_vR = (\<lambda>_. Fin 0), hp_vLastTs = (\<lambda>_. 0), hp_vSnap = (\<lambda>_. 0)\<rparr>,
     tmly = \<lparr>tmly_lastUpdateSeq = 0, tmly_curRate = 0, tmly_incStage = 0, tmly_lastRtt = 0, tmly_rttDiff = Fin 0\<rparr>,
     dctcp = \<lparr>dctcp_lastUpdateSeq = 0, dctcp_caState = 0, dctcp_highSeq = 0, dctcp_alpha = Fin 1,
       dctcp_ecnCnt = 0, dctcp_batchSizeOfAlpha = 0\<rparr>,
     hpccPint = \<lparr>pint_lastUpdateSeq = 0, pint_curRate = 0, pint_incStage = 0\<rparr>\<rparr>"

definition GetBytesLeft :: "RdmaQueuePair \<Rightarrow> u64" where
  "GetBytesLeft q = (if m_size q \<ge> snd_nxt q then m_size q - snd_nxt q else 0)"

definition GetHash :: "RdmaQueuePair \<Rightarrow> u32" where
  "GetHash q = tuple_hash (qp_sip q) (qp_dip q) (qp_sport q) (qp_dport q)"

definition Acknowledge :: "u64 \<Rightarrow> RdmaQueuePair \<Rightarrow> RdmaQueuePair" where
  "Acknowledge ack q =
     (if ack > snd_una q then
        let q = q\<lparr>snd_una := ack\<rparr> in
        if snd_nxt q < snd_una q then q\<lparr>snd_nxt := snd_una q\<rparr> else q
      else q)"

definition GetOnTheFly :: "RdmaQueuePair \<Rightarrow> u64" where
  "GetOnTheFly q = (if snd_nxt q \<ge> snd_una q then snd_nxt q - snd_una q else 0)"

text \<open>The window for a given current rate: a division by a zero line rate is undefined.\<close>

definition win_of :: "rate \<Rightarrow> RdmaQueuePair \<Rightarrow> u64 option" where
  "win_of cur q =
     (if m_win q = 0 then Some 0
      else if m_var_win q then do {
        guard (m_max_rate q \<noteq> 0);
        let w = ucast (m_win q) * cur div m_max_rate q;
        Some (if w = 0 then 1 else w) }
      else Some (ucast (m_win q)))"

definition GetWin :: "RdmaQueuePair \<Rightarrow> u64 option" where
  "GetWin q = win_of (m_rate q) q"

definition HpGetCurWin :: "RdmaQueuePair \<Rightarrow> u64 option" where
  "HpGetCurWin q = win_of (hp_curRate (hp q)) q"

definition IsWinBound :: "RdmaQueuePair \<Rightarrow> bool option" where
  "IsWinBound q = do { w \<leftarrow> GetWin q; Some (w \<noteq> 0 \<and> GetOnTheFly q \<ge> w) }"

definition IsFinished :: "RdmaQueuePair \<Rightarrow> bool" where
  "IsFinished q \<longleftrightarrow> snd_una q \<ge> m_size q"

subsection \<open>State of a flow at its receiver\<close>

record ECNAccount =
  ea_qIndex :: u16
  ea_ecnbits :: u8
  ea_qfb :: u16
  ea_total :: u16

record RdmaRxQueuePair =
  m_ecn_source :: ECNAccount
  rx_sip :: u32
  rx_dip :: u32
  rx_sport :: u16
  rx_dport :: u16
  rx_ipid :: u16
  ReceiverNextExpectedSeq :: u32
  m_nackTimer :: int
  m_milestone_rx :: "32 word"
  m_lastNACK :: u32

definition RdmaRxQueuePair_init :: RdmaRxQueuePair where
  "RdmaRxQueuePair_init = \<lparr>m_ecn_source = \<lparr>ea_qIndex = 0, ea_ecnbits = 0, ea_qfb = 0, ea_total = 0\<rparr>,
     rx_sip = 0, rx_dip = 0, rx_sport = 0, rx_dport = 0, rx_ipid = 0, ReceiverNextExpectedSeq = 0,
     m_nackTimer = 0, m_milestone_rx = 0, m_lastNACK = 0\<rparr>"

definition rx_GetHash :: "RdmaRxQueuePair \<Rightarrow> u32" where
  "rx_GetHash q = tuple_hash (rx_sip q) (rx_dip q) (rx_sport q) (rx_dport q)"

subsection \<open>What the flow hash separates\<close>

lemma mult_odd_inj:
  assumes "c * d = (1 :: u32)" and "x * c = y * c"
  shows "x = y"
proof -
  have "x * (c * d) = y * (c * d)" unfolding mult.assoc [symmetric] by (simp only: assms(2))
  then show ?thesis by (simp add: assms(1))
qed

lemma bit_rotl32_low: "n < r \<Longrightarrow> r < 32 \<Longrightarrow> bit (rotl32 x r) n \<longleftrightarrow> bit x (n + 32 - r)"
  unfolding rotl32_def bit_or_iff bit_push_bit_iff bit_drop_bit_eq o_apply by (simp add: add.commute)

lemma bit_rotl32_high: "r \<le> n \<Longrightarrow> n < 32 \<Longrightarrow> bit (rotl32 x r) n \<longleftrightarrow> bit x (n - r)"
  unfolding rotl32_def bit_or_iff bit_push_bit_iff bit_drop_bit_eq o_apply
  by (auto dest: bit_imp_le_length)

lemma rotl32_inj:
  assumes "rotl32 x r = rotl32 y r" and "0 < r" and "r < 32"
  shows "x = y"
proof (rule bit_word_eqI)
  fix n assume "n < LENGTH(32)"
  then have n: "n < 32" by simp
  show "bit x n = bit y n"
  proof (cases "n < 32 - r")
    case True
    then show ?thesis
      using bit_rotl32_high [of r "n + r" x] bit_rotl32_high [of r "n + r" y] assms by simp
  next
    case False
    then show ?thesis
      using bit_rotl32_low [of "n + r - 32" r x] bit_rotl32_low [of "n + r - 32" r y] assms n by simp
  qed
qed

lemma xor_shift_inj:
  assumes "x XOR drop_bit r x = y XOR drop_bit r (y :: u32)" and "0 < r"
  shows "x = y"
proof -
  have "bit x n = bit y n" if "32 - n = k" for k n
    using that
  proof (induction k arbitrary: n rule: less_induct)
    case (less k)
    show ?case
    proof (cases "n < 32")
      case True
      then have "bit x (r + n) = bit y (r + n)"
        using less.IH [of "32 - (r + n)" "r + n"] less.prems assms(2) by simp
      moreover have "bit (x XOR drop_bit r x) n = bit (y XOR drop_bit r y) n" using assms(1) by simp
      ultimately show ?thesis unfolding bit_xor_iff bit_drop_bit_eq o_apply by blast
    next
      case False
      then show ?thesis by (auto dest: bit_imp_le_length)
    qed
  qed
  then show ?thesis by (intro bit_word_eqI) simp
qed

lemma odd_factors:
  "(x :: u32) * 0x85ebca6b = y * 0x85ebca6b \<longleftrightarrow> x = y" "x * 0xc2b2ae35 = y * 0xc2b2ae35 \<longleftrightarrow> x = y"
  "x * 0xcc9e2d51 = y * 0xcc9e2d51 \<longleftrightarrow> x = y" "x * 0x1b873593 = y * 0x1b873593 \<longleftrightarrow> x = y"
  "x * 5 = y * 5 \<longleftrightarrow> x = y"
  by (auto intro: mult_odd_inj [of "0x85ebca6b" "0xa5cb9243"] mult_odd_inj [of "0xc2b2ae35" "0x7ed1b41d"]
      mult_odd_inj [of "0xcc9e2d51" "0xdee13bb1"] mult_odd_inj [of "0x1b873593" "0x56ed309b"] mult_odd_inj [of 5 "0xcccccccd"])

lemma xor_shift_cancel:
  "x XOR drop_bit 16 x = y XOR drop_bit 16 y \<longleftrightarrow> x = y" "x XOR drop_bit 13 x = y XOR drop_bit 13 y \<longleftrightarrow> x = (y :: u32)"
  using xor_shift_inj [of x 16 y] xor_shift_inj [of x 13 y] by auto

lemma fmix_inj: "fmix x = fmix y \<longleftrightarrow> x = y"
  unfolding fmix_def Let_def xor_shift_cancel odd_factors by (rule refl)

lemma rotl_cancel: "rotl32 x 13 = rotl32 y 13 \<longleftrightarrow> x = y" "rotl32 x 15 = rotl32 y 15 \<longleftrightarrow> x = y"
  by (auto dest: rotl32_inj)

lemma mix_k1_inj: "mix_k1 x = mix_k1 y \<longleftrightarrow> x = y"
  unfolding mix_k1_def odd_factors rotl_cancel by (rule refl)

lemma xor_cancel_left: "(a :: u32) XOR b = a XOR c \<longleftrightarrow> b = c"
  by (metis xor.left_commute xor_self_eq xor.right_neutral)

lemma xor_cancel_right: "(b :: u32) XOR a = c XOR a \<longleftrightarrow> b = c"
  by (metis xor_cancel_left xor.commute)

lemma mix_h1_inj: "mix_h1 h j = mix_h1 h k \<longleftrightarrow> j = k" "mix_h1 h j = mix_h1 g j \<longleftrightarrow> h = g"
  unfolding mix_h1_def add_right_cancel odd_factors rotl_cancel xor_cancel_left xor_cancel_right mix_k1_inj
  by (rule refl)+

lemma bit_byte: "bit (ucast (byte_of k w) :: u32) n \<longleftrightarrow> n < 8 \<and> bit w (8 * k + n)"
  by (auto simp: bit_ucast_iff bit_byte_of)

lemma bit_block4: "bit (block4 a b c d) n \<longleftrightarrow>
   (if n < 8 then bit a n else if n < 16 then bit b (n - 8) else if n < 24 then bit c (n - 16)
    else n < 32 \<and> bit d (n - 24))"
  unfolding block4_def bit_or_iff bit_push_bit_iff bit_ucast_iff
  by (auto dest: bit_imp_le_length)

lemma block4_word: "block4 (byte_of 0 w) (byte_of 1 w) (byte_of 2 w) (byte_of 3 w) = (w :: u32)"
  by (rule bit_word_eqI) (auto simp: bit_block4 bit_byte_of)

lemma block4_eq: "block4 a b c d = block4 a' b' c' d' \<longleftrightarrow> a = a' \<and> b = b' \<and> c = c' \<and> d = d'"
proof
  assume "block4 a b c d = block4 a' b' c' d'"
  then have e: "bit (block4 a b c d) n = bit (block4 a' b' c' d') n" for n by simp
  have "bit a n = bit a' n" "bit b n = bit b' n" "bit c n = bit c' n" "bit d n = bit d' n" if "n < 8" for n
    using e [of n] e [of "n + 8"] e [of "n + 16"] e [of "n + 24"] that by (simp_all add: bit_block4)
  then show "a = a' \<and> b = b' \<and> c = c' \<and> d = d'" by (auto intro!: bit_word_eqI)
qed simp

lemma u16_bytes_eq: "byte_of 0 w = byte_of 0 v \<and> byte_of 1 w = byte_of 1 v \<longleftrightarrow> w = (v :: u16)"
  by (metis bytes_u16)

lemma tuple_hash_blocks:
  "tuple_hash sip dip sport dport = fmix (mix_h1 (mix_h1 (mix_h1 0x8BADF00D sip) dip)
     (block4 (byte_of 0 sport) (byte_of 1 sport) (byte_of 0 dport) (byte_of 1 dport)) XOR 12)"
  by (simp add: tuple_hash_def tuple_bytes_def Hash32_def WriteU32_def WriteU16_def WriteU8_def
      MurmurHash3_x86_32_fin_def block4_word [unfolded One_nat_def])

text \<open>Two flows between the same hosts with different ports have different hashes, and so have
  two flows that differ in one address only: the hash loses nothing of a single block.\<close>

theorem hash_separates:
  "(tuple_hash sip dip sport dport = tuple_hash sip dip sport' dport' \<longleftrightarrow> sport = sport' \<and> dport = dport')
   \<and> (tuple_hash sip dip sport dport = tuple_hash sip' dip sport dport \<longleftrightarrow> sip = sip')
   \<and> (tuple_hash sip dip sport dport = tuple_hash sip dip' sport dport \<longleftrightarrow> dip = dip')"
  unfolding tuple_hash_blocks fmix_inj xor_cancel_right mix_h1_inj block4_eq
  using u16_bytes_eq [of sport sport'] u16_bytes_eq [of dport dport'] by auto

subsection \<open>Acknowledgements\<close>

lemma Acknowledge_una [simp]: "snd_una (Acknowledge ack q) = max (snd_una q) ack"
  by (auto simp: Acknowledge_def Let_def max_def)

lemma Acknowledge_nxt:
  "snd_nxt (Acknowledge ack q) = (if ack > snd_una q then max (snd_nxt q) ack else snd_nxt q)"
  by (auto simp: Acknowledge_def Let_def max_def)

lemma Acknowledge_frame [simp, frame]:
  "m_size (Acknowledge ack q) = m_size q" "m_rate (Acknowledge ack q) = m_rate q"
  "m_max_rate (Acknowledge ack q) = m_max_rate q" "m_win (Acknowledge ack q) = m_win q"
  "m_pg (Acknowledge ack q) = m_pg q" "m_nextAvail (Acknowledge ack q) = m_nextAvail q"
  "m_var_win (Acknowledge ack q) = m_var_win q" "qp_sip (Acknowledge ack q) = qp_sip q"
  "qp_dip (Acknowledge ack q) = qp_dip q" "qp_sport (Acknowledge ack q) = qp_sport q"
  "qp_dport (Acknowledge ack q) = qp_dport q" "hp (Acknowledge ack q) = hp q"
  "mlx (Acknowledge ack q) = mlx q" "dctcp (Acknowledge ack q) = dctcp q"
  by (auto simp: Acknowledge_def Let_def)

definition seq_ok :: "RdmaQueuePair \<Rightarrow> bool" where
  "seq_ok q \<longleftrightarrow> snd_una q \<le> snd_nxt q"

lemma Acknowledge_seq_ok: "seq_ok q \<Longrightarrow> seq_ok (Acknowledge ack q)"
  by (auto simp: seq_ok_def Acknowledge_nxt max_def)

lemma on_the_fly: "seq_ok q \<Longrightarrow> unat (GetOnTheFly q) = unat (snd_nxt q) - unat (snd_una q)"
  by (simp add: seq_ok_def GetOnTheFly_def unat_sub_nowrap)

lemma finished_nothing_left: "seq_ok q \<Longrightarrow> IsFinished q \<Longrightarrow> GetBytesLeft q = 0"
  by (auto simp: seq_ok_def IsFinished_def GetBytesLeft_def)

subsection \<open>The window\<close>

lemma win_of_frame: "m_win p = m_win q \<Longrightarrow> m_var_win p = m_var_win q \<Longrightarrow> m_max_rate p = m_max_rate q
    \<Longrightarrow> win_of r p = win_of r q"
  by (simp add: win_of_def)

lemma win_of_pos: "win_of r q = Some w \<Longrightarrow> m_win q \<noteq> 0 \<Longrightarrow> w \<noteq> 0"
  by (auto simp: win_of_def Let_def guard_bind_eq_Some ucast_eq_0_up split: if_splits)

lemma win_product:
  assumes "unat (m_win q) * unat r < 2 ^ 64"
  shows "unat (ucast (m_win q) * r div m_max_rate q :: u64) = unat (m_win q) * unat r div unat (m_max_rate q)"
  using assms by (simp add: unat_div unat_mult_nowrap unat_ucast_up)

lemma win_of_le:
  assumes "win_of r q = Some w" and "r \<le> m_max_rate q" and "unat (m_win q) * unat r < 2 ^ 64"
    and "m_win q \<noteq> 0"
  shows "unat w \<le> unat (m_win q)"
proof -
  have pos: "0 < unat (m_win q)" using assms(4) by (simp add: unat_gt_0)
  have "unat (m_win q) * unat r div unat (m_max_rate q) \<le> unat (m_win q)"
  proof -
    have "unat (m_win q) * unat r \<le> unat (m_win q) * unat (m_max_rate q)"
      using assms(2) by (simp add: word_le_nat_alt)
    then have "unat (m_win q) * unat r div unat (m_max_rate q)
        \<le> unat (m_win q) * unat (m_max_rate q) div unat (m_max_rate q)"
      by (rule div_le_mono)
    also have "\<dots> \<le> unat (m_win q)" by (cases "unat (m_max_rate q) = 0") simp_all
    finally show ?thesis .
  qed
  then show ?thesis
    using assms(1,4) pos win_product [OF assms(3)]
    by (auto simp: win_of_def Let_def guard_bind_eq_Some unat_ucast_up split: if_splits)
qed

lemma win_of_mono:
  assumes "win_of r q = Some w" and "win_of s q = Some v" and "r \<le> s"
    and "unat (m_win q) * unat s < 2 ^ 64"
  shows "w \<le> v"
proof -
  have rs: "unat (m_win q) * unat r \<le> unat (m_win q) * unat s" using assms(3) by (simp add: word_le_nat_alt)
  then have r: "unat (m_win q) * unat r < 2 ^ 64" using assms(4) by linarith
  have "ucast (m_win q) * r div m_max_rate q \<le> (ucast (m_win q) * s div m_max_rate q :: u64)"
    unfolding word_le_nat_alt win_product [OF r] win_product [OF assms(4)] using rs by (rule div_le_mono)
  moreover have "1 \<le> v" if "v \<noteq> 0" using that by (metis word_gt_0 inc_le add_0)
  ultimately show ?thesis
    using assms(1,2)
    by (auto simp: win_of_def Let_def guard_bind_eq_Some word_less_1 linorder_not_less split: if_splits)
qed

text \<open>Below the line rate, a flow with a window always has a positive window that is at most the
  configured one, it grows with the rate, and a flow with nothing in flight is never held back by
  it.\<close>

lemma window_bounds:
  assumes "m_win q \<noteq> 0" and "m_max_rate q \<noteq> 0" and "m_rate q \<le> m_max_rate q"
    and "unat (m_win q) * unat (m_max_rate q) < 2 ^ 64"
  shows "\<exists>w. GetWin q = Some w \<and> 0 < w \<and> unat w \<le> unat (m_win q)
    \<and> (\<forall>r v. win_of r q = Some v \<longrightarrow> r \<le> m_rate q \<longrightarrow> v \<le> w)
    \<and> (GetOnTheFly q = 0 \<longrightarrow> IsWinBound q = Some False)"
proof -
  have "GetWin q \<noteq> None" using assms(2) by (simp add: GetWin_def win_of_def Let_def)
  then obtain w where w: "GetWin q = Some w" by blast
  have le: "unat (m_win q) * unat (m_rate q) < 2 ^ 64"
    using assms(3,4) by (meson le_less_trans mult_le_mono2 word_le_nat_alt)
  have "w \<noteq> 0" using win_of_pos assms(1) w by (metis GetWin_def)
  moreover have "unat w \<le> unat (m_win q)"
    using win_of_le [OF w [unfolded GetWin_def] assms(3) le assms(1)] .
  moreover have "v \<le> w" if "win_of r q = Some v" "r \<le> m_rate q" for r v
    using win_of_mono [OF that(1) w [unfolded GetWin_def] that(2) le] .
  ultimately show ?thesis using w by (auto simp: IsWinBound_def word_gt_0)
qed

definition demo_qp :: RdmaQueuePair where
  "demo_qp = (RdmaQueuePair_init (\<lambda>_. 0) 0 0 3 0x0b000001 0x0b000101 10000 100)
     \<lparr>m_size := 5000000000, m_win := 100000, m_var_win := True, m_max_rate := 100000000000,
      m_rate := 50000000000, m_baseRtt := 8000\<rparr>"

lemma window_bounds_witness: "\<exists>w. GetWin demo_qp = Some w \<and> 0 < w \<and> unat w \<le> 100000"
  using window_bounds [of demo_qp] by (auto simp: demo_qp_def RdmaQueuePair_init_def)

text \<open>Acknowledging a list of ACKs, as \<^verbatim>\<open>ReceiveAck\<close> does one by one (\<^verbatim>\<open>qp->Acknowledge(ch.ack.seq)\<close>). The list has
  words of 32 bits because \<^verbatim>\<open>ch.ack.seq\<close> is the 32-bit field of the header on the wire, which the
  call widens to the 64 bits of \<^verbatim>\<open>snd_una\<close>.\<close>

definition acknowledge_all :: "u32 list \<Rightarrow> RdmaQueuePair \<Rightarrow> RdmaQueuePair" where
  "acknowledge_all seqs q = fold (\<lambda>seq. Acknowledge (ucast seq)) seqs q"

text \<open>C37: a flow of 4 GiB or more never finishes: whatever ACKs it receives, the highest
  acknowledged byte stays below its size, because sequence numbers have 32 bits and sizes 64.\<close>

theorem large_flow_never_finishes:
  assumes "2 ^ 32 \<le> unat (m_size q)" and "unat (snd_una q) < 2 ^ 32"
  shows "\<not> IsFinished (acknowledge_all seqs q)"
proof -
  have "m_size (acknowledge_all seqs q) = m_size q \<and> unat (snd_una (acknowledge_all seqs q)) < 2 ^ 32"
    using assms(2)
  proof (induction seqs arbitrary: q)
    case (Cons s seqs)
    have "unat (snd_una (Acknowledge (ucast s) q)) < 2 ^ 32"
      using Cons.prems unat_lt_exp [of s] by (simp add: unat_max unat_ucast_up)
    then show ?case using Cons.IH [of "Acknowledge (ucast s) q"] by (simp add: acknowledge_all_def)
  qed (simp add: acknowledge_all_def)
  then show ?thesis using assms(1) by (auto simp: IsFinished_def word_le_nat_alt)
qed

lemma large_flow_never_finishes_witness:
  "\<not> IsFinished (acknowledge_all [0, 1000, 4294967295] demo_qp)"
  by (rule large_flow_never_finishes) (simp_all add: demo_qp_def RdmaQueuePair_init_def)

end
