(* ===== verification/Rdma_Host.thy ===== *)
theory Rdma_Host
  imports Queue_Pair Egress_Queue
begin

text \<open>
  A host: the RDMA engine (\<^verbatim>\<open>RdmaHw\<close> of \<^verbatim>\<open>rdma-hw.cc\<close>) and its network cards (\<^verbatim>\<open>QbbNetDevice\<close>
  and \<^verbatim>\<open>RdmaEgressQueue\<close> of \<^verbatim>\<open>qbb-net-device.cc\<close>) on the sending side. A pointer to a queue pair is a
  number; callbacks between the engine and a card are calls. Events go to the queue of
  \<open>Sim_Events\<close>; what a card puts on its link is recorded in \<open>h_wire\<close>. The lemmas show which queue
  pair a card serves, that clearing finished ones loses nothing, and when a card wakes up.
\<close>

subsection \<open>State\<close>

text \<open>The attributes of \<^verbatim>\<open>RdmaHw\<close>, the format of the telemetry and the queue of the ACKs.\<close>

record RdmaHw_conf =
  m_minRate :: rate
  m_mtu :: u32
  m_cc_mode :: u32
  m_nack_interval :: double
  m_chunk :: u32
  m_ack_interval :: u32
  m_backto0 :: bool
  hw_var_win :: bool
  m_fast_react :: bool
  m_rateBound :: bool
  m_g :: double
  m_rateOnFirstCNP :: double
  m_EcnClampTgtRate :: bool
  m_rpgTimeReset :: double
  m_rateDecreaseInterval :: double
  m_rpgThreshold :: u32
  m_alpha_resume_interval :: double
  m_rai :: rate
  m_rhai :: rate
  m_targetUtil :: double
  m_miThresh :: u32
  m_multipleRate :: bool
  m_sampleFeedback :: bool
  m_mbMode :: u32
  m_mbGamma :: double
  m_tmly_alpha :: double
  m_tmly_beta :: double
  m_tmly_TLow :: u64
  m_tmly_THigh :: u64
  m_tmly_minRtt :: u64
  m_dctcp_rai :: rate
  pint_smpl_thresh :: u32
  m_mixFsDport :: u16
  m_fsRcpWindow :: bool
  m_fsMinRate :: rate
  hw_int :: int_conf
  ack_q_idx :: nat

record QbbNic =
  nd_bps :: rate
  nd_tInterframeGap :: int
  nd_linkUp :: bool
  nd_busy :: bool
  nd_currentPkt :: "packet option"
  nd_qbbEnabled :: bool
  nd_paused :: "nat \<Rightarrow> bool"
  nd_nextSend :: event_id
  nd_ackQ :: OldQueue
  nd_qpGrp :: "nat list"
  nd_rrlast :: u32
  nd_qlast :: int

datatype host_event =
    Ev_TransmitComplete nat
  | Ev_DequeueAndTransmit nat
  | Ev_UpdateAlphaMlx nat
  | Ev_CheckRateDecreaseMlx nat
  | Ev_RateIncEventTimerMlx nat

record host =
  hw :: RdmaHw_conf
  h_sim :: "host_event sim"
  h_qp :: "nat \<Rightarrow> RdmaQueuePair"
  h_nqp :: nat
  h_rxqp :: "nat \<Rightarrow> RdmaRxQueuePair"
  h_nrxqp :: nat
  m_qpMap :: "u64 \<rightharpoonup> nat"
  m_rxQpMap :: "u64 \<rightharpoonup> nat"
  m_rtTable :: "u32 \<Rightarrow> nat list"
  m_nic :: "nat \<rightharpoonup> QbbNic"
  h_wire :: "(nat \<times> packet \<times> int \<times> int) list"
  h_completed :: "nat list"

definition set_qp :: "nat \<Rightarrow> RdmaQueuePair \<Rightarrow> host \<Rightarrow> host" where
  "set_qp i q h = h\<lparr>h_qp := (h_qp h)(i := q)\<rparr>"

definition set_nic :: "nat \<Rightarrow> QbbNic \<Rightarrow> host \<Rightarrow> host" where
  "set_nic i d h = h\<lparr>m_nic := (m_nic h)(i \<mapsto> d)\<rparr>"

definition h_now :: "host \<Rightarrow> int" where
  "h_now h = Now (h_sim h)"

definition h_Schedule :: "int \<Rightarrow> host_event \<Rightarrow> host \<Rightarrow> (event_id \<times> host) option" where
  "h_Schedule delay e h = do { (ev, s) \<leftarrow> Schedule delay e (h_sim h); Some (ev, h\<lparr>h_sim := s\<rparr>) }"

definition h_Cancel :: "event_id \<Rightarrow> host \<Rightarrow> host" where
  "h_Cancel ev h = h\<lparr>h_sim := Cancel ev (h_sim h)\<rparr>"

subsection \<open>Look-up\<close>

definition GetNicIdxOfQp :: "nat \<Rightarrow> host \<Rightarrow> nat option" where
  "GetNicIdxOfQp q h = (let v = m_rtTable h (qp_dip (h_qp h q)) in
     if length v > 0 then Some (v ! (unat (GetHash (h_qp h q)) mod length v)) else None)"

definition GetQpKey :: "u32 \<Rightarrow> u16 \<Rightarrow> u16 \<Rightarrow> u64" where
  "GetQpKey dip sport pg = push_bit 32 (ucast dip) OR push_bit 16 (ucast sport) OR ucast pg"

definition GetQp :: "u32 \<Rightarrow> u16 \<Rightarrow> u16 \<Rightarrow> host \<Rightarrow> nat option" where
  "GetQp dip sport pg h = m_qpMap h (GetQpKey dip sport pg)"

definition DeleteQueuePair :: "nat \<Rightarrow> host \<Rightarrow> host" where
  "DeleteQueuePair q h = (let qp = h_qp h q in
     h\<lparr>m_qpMap := (m_qpMap h)(GetQpKey (qp_dip qp) (qp_sport qp) (m_pg qp) := None)\<rparr>)"

definition AddTableEntry :: "u32 \<Rightarrow> nat \<Rightarrow> host \<Rightarrow> host" where
  "AddTableEntry dip intf_idx h = h\<lparr>m_rtTable := (m_rtTable h)(dip := m_rtTable h dip @ [intf_idx])\<rparr>"

definition ClearTable :: "host \<Rightarrow> host" where
  "ClearTable h = h\<lparr>m_rtTable := (\<lambda>_. [])\<rparr>"

subsection \<open>The next queue of a card\<close>

definition nic_qCnt :: nat where "nic_qCnt = 8"

text \<open>The queue pairs in the order of the scan; the result is the index found and the least index of
  a finished queue pair seen before it.\<close>

fun scan_qps :: "(nat \<Rightarrow> bool) \<Rightarrow> int \<Rightarrow> (nat \<Rightarrow> RdmaQueuePair) \<Rightarrow> nat list \<Rightarrow> nat list \<Rightarrow> nat option
    \<Rightarrow> (nat option \<times> nat option) option" where
  "scan_qps paused now Q grp [] min_finish_id = Some (None, min_finish_id)"
| "scan_qps paused now Q grp (idx # is) min_finish_id = (let qp = Q (grp ! idx) in do {
     guard (unat (m_pg qp) < nic_qCnt);
     bound \<leftarrow> (if \<not> paused (unat (m_pg qp)) \<and> GetBytesLeft qp > 0 then IsWinBound qp else Some True);
     if \<not> bound then
       (if m_nextAvail qp > now then scan_qps paused now Q grp is min_finish_id
        else Some (Some idx, min_finish_id))
     else if IsFinished qp then
       scan_qps paused now Q grp is (Some (case min_finish_id of None \<Rightarrow> idx | Some m \<Rightarrow> min idx m))
     else scan_qps paused now Q grp is min_finish_id })"

definition rr_order :: "u32 \<Rightarrow> u32 \<Rightarrow> nat list" where
  "rr_order rrlast fcount = map (\<lambda>k. unat ((of_nat k + rrlast) mod fcount)) [1..<Suc (unat fcount)]"

text \<open>Removing the finished queue pairs from \<open>m\<close> on, in place; the selected index moves along.\<close>

definition compact_step :: "(nat \<Rightarrow> RdmaQueuePair) \<Rightarrow> nat \<Rightarrow> nat option \<times> nat \<times> nat list
    \<Rightarrow> nat option \<times> nat \<times> nat list" where
  "compact_step Q i = (\<lambda>(res, nxt, qps).
     if \<not> IsFinished (Q (qps ! i))
     then (if Some i = res then Some nxt else res, nxt + 1, qps[nxt := qps ! i])
     else (res, nxt, qps))"

definition compact_qps :: "(nat \<Rightarrow> RdmaQueuePair) \<Rightarrow> nat \<Rightarrow> nat option \<Rightarrow> nat list \<Rightarrow> nat option \<times> nat list" where
  "compact_qps Q m res qps =
     (let (res, nxt, qps) = fold (compact_step Q) [Suc m..<length qps] (res, m, qps) in (res, take nxt qps))"

definition GetNextQindex :: "nat \<Rightarrow> (nat \<Rightarrow> RdmaQueuePair) \<Rightarrow> int \<Rightarrow> QbbNic \<Rightarrow> (int \<times> QbbNic) option" where
  "GetNextQindex ack_q Q now d = do {
     guard (ack_q < nic_qCnt);
     if \<not> nd_paused d ack_q \<and> m_nPackets (nd_ackQ d) > 0 then Some (-1, d)
     else do {
       (res, min_finish_id) \<leftarrow> scan_qps (nd_paused d) now Q (nd_qpGrp d)
          (rr_order (nd_rrlast d) (of_nat (length (nd_qpGrp d)))) None;
       let (res, grp) = (case min_finish_id of None \<Rightarrow> (res, nd_qpGrp d) | Some m \<Rightarrow> compact_qps Q m res (nd_qpGrp d));
       Some (case res of None \<Rightarrow> -1024 | Some i \<Rightarrow> int i, d\<lparr>nd_qpGrp := grp\<rparr>) } }"

subsection \<open>Sending\<close>

definition GetNxtPacket :: "nat \<Rightarrow> host \<Rightarrow> packet \<times> host" where
  "GetNxtPacket q h =
     (let c = hw_int (hw h); qp = h_qp h q;
          payload_size = (ucast (GetBytesLeft qp) :: u32);
          payload_size = (if m_mtu (hw h) < payload_size then m_mtu (hw h) else payload_size);
          seqTs = (SeqTsHeader_init c (of_int (h_now h)) 0)\<lparr>sts_seq := ucast (snd_nxt qp), sts_pg := m_pg qp\<rparr>;
          l4 = payload_size + SeqTsHeader_size c + 8;
          ip = Ipv4Header_init\<lparr>ip_source := qp_sip qp, ip_destination := qp_dip qp, ip_protocol := 0x11,
            ip_payloadSize := ucast l4, ip_ttl := 64, ip_tos := 0, ip_identification := m_ipid qp\<rparr>;
          p = \<lparr>pkt_ip = ip,
               pkt_load = Udp_Data (qp_sport qp) (qp_dport qp) (sts_seq seqTs) (sts_pg seqTs) (sts_ih seqTs),
               pkt_size = l4 + 20 + ppp_GetStaticSize, pkt_tag = None\<rparr>
      in (p, set_qp q (qp\<lparr>snd_nxt := snd_nxt qp + ucast payload_size, m_ipid := m_ipid qp + 1\<rparr>) h))"

definition UpdateNextAvail :: "nat \<Rightarrow> int \<Rightarrow> u32 \<Rightarrow> host \<Rightarrow> host option" where
  "UpdateNextAvail q interframeGap pkt_bytes h = do {
     let qp = h_qp h q;
     t \<leftarrow> CalculateBytesTxTime (if m_rateBound (hw h) then m_rate qp else m_max_rate qp) pkt_bytes;
     Some (set_qp q (qp\<lparr>m_nextAvail := h_now h + (interframeGap + t)\<rparr>) h) }"

definition PktSent :: "nat \<Rightarrow> packet \<Rightarrow> int \<Rightarrow> host \<Rightarrow> host option" where
  "PktSent q p interframeGap h =
     UpdateNextAvail q interframeGap (pkt_size p) (set_qp q ((h_qp h q)\<lparr>lastPktSize := pkt_size p\<rparr>) h)"

text \<open>Only \<open>-1\<close>, the ACK queue, and the indices of queue pairs are asked for.\<close>

definition DequeueQindex :: "nat \<Rightarrow> int \<Rightarrow> host \<Rightarrow> (packet option \<times> host) option" where
  "DequeueQindex i qIndex h = do {
     d \<leftarrow> m_nic h i;
     if qIndex = -1 then do {
       (p, q) \<leftarrow> Dequeue (nd_ackQ d);
       Some (p, set_nic i (d\<lparr>nd_ackQ := q, nd_qlast := -1\<rparr>) h) }
     else if qIndex \<ge> 0 then do {
       guard (nat qIndex < length (nd_qpGrp d));
       let (p, h) = GetNxtPacket (nd_qpGrp d ! nat qIndex) h;
       Some (Some p, set_nic i (d\<lparr>nd_rrlast := of_int qIndex, nd_qlast := qIndex\<rparr>) h) }
     else Some (None, h) }"

definition TransmitStart :: "nat \<Rightarrow> packet \<Rightarrow> host \<Rightarrow> host option" where
  "TransmitStart i p h = do {
     d \<leftarrow> m_nic h i;
     guard (\<not> nd_busy d);
     let h = set_nic i (d\<lparr>nd_busy := True, nd_currentPkt := Some p\<rparr>) h;
     txTime \<leftarrow> CalculateBytesTxTime (nd_bps d) (pkt_size p);
     (_, h) \<leftarrow> h_Schedule (txTime + nd_tInterframeGap d) (Ev_TransmitComplete i) h;
     Some (h\<lparr>h_wire := h_wire h @ [(i, p, h_now h, txTime)]\<rparr>) }"

text \<open>The soonest time of a queue pair with bytes left.\<close>

definition soon_step :: "(nat \<Rightarrow> RdmaQueuePair) \<Rightarrow> nat \<Rightarrow> int \<Rightarrow> int" where
  "soon_step Q q t = (if GetBytesLeft (Q q) = 0 then t else min (m_nextAvail (Q q)) t)"

definition soonest_avail :: "(nat \<Rightarrow> RdmaQueuePair) \<Rightarrow> nat list \<Rightarrow> int" where
  "soonest_avail Q grp = fold (soon_step Q) grp GetMaximumSimulationTime"

definition wake_up :: "nat \<Rightarrow> host \<Rightarrow> host option" where
  "wake_up i h = do {
     d \<leftarrow> m_nic h i;
     let t = soonest_avail (h_qp h) (nd_qpGrp d);
     if IsExpired (nd_nextSend d) (h_sim h) \<and> t < GetMaximumSimulationTime \<and> t > h_now h then do {
       (ev, h) \<leftarrow> h_Schedule (t - h_now h) (Ev_DequeueAndTransmit i) h;
       Some (set_nic i (d\<lparr>nd_nextSend := ev\<rparr>) h) }
     else Some h }"

definition DequeueAndTransmit :: "nat \<Rightarrow> host \<Rightarrow> host option" where
  "DequeueAndTransmit i h = do {
     d \<leftarrow> m_nic h i;
     if \<not> nd_linkUp d \<or> nd_busy d then Some h
     else do {
       (qIndex, d) \<leftarrow> GetNextQindex (ack_q_idx (hw h)) (h_qp h) (h_now h) d;
       let h = set_nic i d h;
       if qIndex = -1024 then wake_up i h
       else do {
         (p, h) \<leftarrow> DequeueQindex i qIndex h;
         p \<leftarrow> p;
         h \<leftarrow> TransmitStart i p h;
         if qIndex = -1 then Some h
         else PktSent (nd_qpGrp d ! nat qIndex) p (nd_tInterframeGap d) h } } }"

definition TransmitComplete :: "nat \<Rightarrow> host \<Rightarrow> host option" where
  "TransmitComplete i h = do {
     d \<leftarrow> m_nic h i;
     guard (nd_busy d);
     guard (nd_currentPkt d \<noteq> None);
     DequeueAndTransmit i (set_nic i (d\<lparr>nd_busy := False, nd_currentPkt := None\<rparr>) h) }"

definition NewQp :: "nat \<Rightarrow> nat \<Rightarrow> host \<Rightarrow> host option" where
  "NewQp i q h = DequeueAndTransmit i (set_qp q ((h_qp h q)\<lparr>m_nextAvail := h_now h\<rparr>) h)"

definition ReassignedQp :: "nat \<Rightarrow> nat \<Rightarrow> host \<Rightarrow> host option" where
  "ReassignedQp i q h = DequeueAndTransmit i h"

definition TriggerTransmit :: "nat \<Rightarrow> host \<Rightarrow> host option" where
  "TriggerTransmit i h = DequeueAndTransmit i h"

definition RdmaEnqueueHighPrioQ :: "nat \<Rightarrow> packet \<Rightarrow> host \<Rightarrow> host option" where
  "RdmaEnqueueHighPrioQ i p h = do {
     d \<leftarrow> m_nic h i;
     Some (set_nic i (d\<lparr>nd_ackQ := snd (Enqueue p (nd_ackQ d))\<rparr>) h) }"

definition nic_Resume :: "nat \<Rightarrow> nat \<Rightarrow> host \<Rightarrow> host option" where
  "nic_Resume i qIndex h = do {
     d \<leftarrow> m_nic h i;
     guard (qIndex < nic_qCnt);
     guard (nd_paused d qIndex);
     DequeueAndTransmit i (set_nic i (d\<lparr>nd_paused := (nd_paused d)(qIndex := False)\<rparr>) h) }"

text \<open>\<^verbatim>\<open>TakeDown\<close> of a card: the ACKs that wait are dropped and the link goes down.\<close>

definition nic_TakeDown :: "nat \<Rightarrow> host \<Rightarrow> host option" where
  "nic_TakeDown i h = do {
     d \<leftarrow> m_nic h i;
     q \<leftarrow> dequeue_all (length (m_packets (nd_ackQ d))) (nd_ackQ d);
     Some (set_nic i (d\<lparr>nd_ackQ := q, nd_linkUp := False\<rparr>) h) }"

definition nic_UpdateNextAvail :: "nat \<Rightarrow> int \<Rightarrow> host \<Rightarrow> host option" where
  "nic_UpdateNextAvail i t h = do {
     d \<leftarrow> m_nic h i;
     case nd_nextSend d of None \<Rightarrow> Some h
     | Some (ts, uid) \<Rightarrow>
         if \<not> IsExpired (nd_nextSend d) (h_sim h) \<and> t < ts then do {
           let h = h_Cancel (nd_nextSend d) h;
           (ev, h) \<leftarrow> h_Schedule (if t < h_now h then 0 else t - h_now h) (Ev_DequeueAndTransmit i) h;
           Some (set_nic i (d\<lparr>nd_nextSend := ev\<rparr>) h) }
         else Some h }"

definition ChangeRate :: "nat \<Rightarrow> rate \<Rightarrow> host \<Rightarrow> host option" where
  "ChangeRate q new_rate h = do {
     let qp = h_qp h q;
     sendingTime \<leftarrow> CalculateBytesTxTime (m_rate qp) (lastPktSize qp);
     new_sendingTime \<leftarrow> CalculateBytesTxTime new_rate (lastPktSize qp);
     let h = set_qp q (qp\<lparr>m_nextAvail := m_nextAvail qp + new_sendingTime - sendingTime\<rparr>) h;
     nic_idx \<leftarrow> GetNicIdxOfQp q h;
     h \<leftarrow> nic_UpdateNextAvail nic_idx (m_nextAvail (h_qp h q)) h;
     Some (set_qp q ((h_qp h q)\<lparr>m_rate := new_rate\<rparr>) h) }"

definition RecoverQueue :: "nat \<Rightarrow> host \<Rightarrow> host" where
  "RecoverQueue q h = set_qp q ((h_qp h q)\<lparr>snd_nxt := snd_una (h_qp h q)\<rparr>) h"

subsection \<open>Which queue pair is served\<close>

definition eligible :: "(nat \<Rightarrow> bool) \<Rightarrow> int \<Rightarrow> RdmaQueuePair \<Rightarrow> bool" where
  "eligible paused now q \<longleftrightarrow> \<not> paused (unat (m_pg q)) \<and> GetBytesLeft q > 0 \<and> IsWinBound q = Some False
     \<and> m_nextAvail q \<le> now"

subsection \<open>Clearing the finished queue pairs\<close>

lemma compact_fold:
  assumes "m < length grp" and "Suc m + k \<le> length grp"
    and "fold (compact_step Q) [Suc m..<Suc m + k] (res0, m, grp) = (res, nxt, qps)"
  shows "length qps = length grp \<and> m \<le> nxt \<and> nxt \<le> m + k
    \<and> take nxt qps = take m grp @ filter (\<lambda>q. \<not> IsFinished (Q q)) (take k (drop (Suc m) grp))
    \<and> drop (Suc m + k) qps = drop (Suc m + k) grp
    \<and> (res0 = None \<longrightarrow> res = None)
    \<and> (\<forall>r. res0 = Some r \<longrightarrow> r \<ge> Suc m + k \<longrightarrow> res = Some r)
    \<and> (\<forall>r. res0 = Some r \<longrightarrow> r < Suc m + k \<longrightarrow> r < length grp \<longrightarrow> r \<noteq> m \<longrightarrow> \<not> IsFinished (Q (grp ! r))
         \<longrightarrow> (\<exists>r' < nxt. res = Some r' \<and> qps ! r' = grp ! r))"
  using assms(2,3)
proof (induction k arbitrary: res nxt qps)
  case 0
  then show ?case using assms(1) by (auto simp: less_Suc_eq)
next
  case (Suc k)
  let ?i = "Suc m + k"
  obtain res1 nxt1 qps1 where f: "fold (compact_step Q) [Suc m..<Suc m + k] (res0, m, grp) = (res1, nxt1, qps1)"
    by (metis prod_cases3)
  have step: "compact_step Q ?i (res1, nxt1, qps1) = (res, nxt, qps)"
    using Suc.prems(2) f by simp
  note IH = Suc.IH [OF _ f]
  have len: "?i < length grp" using Suc.prems(1) by simp
  have qi: "qps1 ! ?i = grp ! ?i"
    using IH len by (metis Suc_leD Suc.prems(1) add_Suc_right hd_drop_conv_nth)
  have tk: "take (Suc k) (drop (Suc m) grp) = take k (drop (Suc m) grp) @ [grp ! ?i]"
    using len by (simp add: take_Suc_conv_app_nth)
  have dr: "drop (Suc ?i) qps1 = drop (Suc ?i) grp"
    using IH len by (metis Suc_leD Suc.prems(1) add_Suc_right drop_Suc tl_drop)
  show ?case
  proof (cases "IsFinished (Q (grp ! ?i))")
    case True
    then have e: "res = res1" "nxt = nxt1" "qps = qps1" using step qi by (simp_all add: compact_step_def)
    show ?thesis unfolding e using IH len True dr tk by (auto simp: less_Suc_eq)
  next
    case False
    then have e: "res = (if Some ?i = res1 then Some nxt1 else res1)" "nxt = Suc nxt1"
      "qps = qps1[nxt1 := grp ! ?i]" using step qi by (auto simp: compact_step_def)
    have n1: "nxt1 < ?i" using IH len by simp
    have t: "take (Suc nxt1) (qps1[nxt1 := grp ! ?i]) = take nxt1 qps1 @ [grp ! ?i]"
      using n1 len IH by (simp add: take_Suc_conv_app_nth)
    have d: "drop (Suc ?i) (qps1[nxt1 := grp ! ?i]) = drop (Suc ?i) grp" using dr n1 by simp
    have r1: "\<exists>r' < nxt. res = Some r' \<and> qps ! r' = grp ! r"
      if r: "res0 = Some r" "r < Suc ?i" "r < length grp" "r \<noteq> m" "\<not> IsFinished (Q (grp ! r))" for r
    proof (cases "r = ?i")
      case True
      then have "res1 = Some ?i" using IH r(1) len by simp
      then show ?thesis using e n1 len IH True by (intro exI [of _ nxt1]) simp
    next
      case False
      then obtain r' where r': "r' < nxt1" "res1 = Some r'" "qps1 ! r' = grp ! r" using IH r len by auto
      then show ?thesis using e n1 by (intro exI [of _ r']) auto
    qed
    have r2: "res = Some r" if "res0 = Some r" "r \<ge> Suc ?i" for r using IH that len e by auto
    have r0: "res = None" if "res0 = None" using IH that len e by auto
    show ?thesis
      using IH len False t d tk n1 r0 r1 r2 by (auto simp: e(2,3))
  qed
qed

lemma compact_spec:
  assumes "compact_qps Q m res0 grp = (res, grp')" and "m < length grp"
  shows "grp' = take m grp @ filter (\<lambda>q. \<not> IsFinished (Q q)) (drop (Suc m) grp)"
    and "res0 = None \<Longrightarrow> res = None"
    and "\<lbrakk>res0 = Some r; r < length grp; r \<noteq> m; \<not> IsFinished (Q (grp ! r))\<rbrakk>
      \<Longrightarrow> \<exists>r' < length grp'. res = Some r' \<and> grp' ! r' = grp ! r"
proof -
  obtain res1 nxt qps where f: "fold (compact_step Q) [Suc m..<Suc m + (length grp - Suc m)] (res0, m, grp) = (res1, nxt, qps)"
    by (metis prod_cases3)
  have le: "Suc m + (length grp - Suc m) \<le> length grp" and up: "Suc m + (length grp - Suc m) = length grp"
    using assms(2) by simp_all
  have e: "res = res1" "grp' = take nxt qps"
    using assms(1) f [unfolded up] by (simp_all add: compact_qps_def)
  note C = compact_fold [OF assms(2) _ f]
  show "grp' = take m grp @ filter (\<lambda>q. \<not> IsFinished (Q q)) (drop (Suc m) grp)"
    using C [OF le] e by simp
  show "res = None" if "res0 = None" using C [OF le] e that by simp
  show "\<exists>r' < length grp'. res = Some r' \<and> grp' ! r' = grp ! r"
    if "res0 = Some r" "r < length grp" "r \<noteq> m" "\<not> IsFinished (Q (grp ! r))"
  proof -
    have "\<exists>r' < nxt. res1 = Some r' \<and> qps ! r' = grp ! r" using C [OF le, unfolded up] that by blast
    then obtain r' where r': "r' < nxt" "res1 = Some r'" "qps ! r' = grp ! r" by blast
    moreover have "nxt \<le> length qps" using C [OF le, unfolded up] assms(2) by linarith
    ultimately show ?thesis by (intro exI [of _ r']) (simp add: e)
  qed
qed

text \<open>The positions the scan has looked at: all before the one it stops at; of the finished queue pairs among
  them it remembers the least position.\<close>

definition least_finished :: "(nat \<Rightarrow> RdmaQueuePair) \<Rightarrow> nat list \<Rightarrow> nat \<Rightarrow> nat option \<Rightarrow> nat option" where
  "least_finished Q grp j m = (if IsFinished (Q (grp ! j)) then Some (case m of None \<Rightarrow> j | Some k \<Rightarrow> min j k) else m)"

lemma scan_qps_looked:
  assumes "scan_qps paused now Q grp is m0 = Some (res, m)" and "\<forall>j \<in> set is. seq_ok (Q (grp ! j))"
  shows "\<exists>pre. m = fold (least_finished Q grp) pre m0 \<and> (\<forall>j \<in> set pre. \<not> eligible paused now (Q (grp ! j)))
    \<and> (case res of None \<Rightarrow> pre = is | Some i \<Rightarrow> (\<exists>post. is = pre @ i # post) \<and> eligible paused now (Q (grp ! i)))"
  using assms
proof (induction "is" arbitrary: m0)
  case (Cons idx "is")
  let ?qp = "Q (grp ! idx)"
  let ?open = "\<not> paused (unat (m_pg ?qp)) \<and> GetBytesLeft ?qp > 0"
  from Cons.prems(1) obtain b where b: "(if ?open then IsWinBound ?qp else Some True) = Some b"
    and rest: "(if \<not> b then if m_nextAvail ?qp > now then scan_qps paused now Q grp is m0 else Some (Some idx, m0)
       else if IsFinished ?qp then scan_qps paused now Q grp is (Some (case m0 of None \<Rightarrow> idx | Some m \<Rightarrow> min idx m))
       else scan_qps paused now Q grp is m0) = Some (res, m)"
    by (auto simp: Let_def guard_bind_eq_Some elim!: bind_eq_SomeE)
  show ?case
  proof (cases "\<not> b \<and> m_nextAvail ?qp \<le> now")
    case True
    then have "res = Some idx" "m = m0" "eligible paused now ?qp" using rest b by (auto simp: eligible_def split: if_splits)
    then show ?thesis by (intro exI [of _ "[]"]) simp
  next
    case False
    have ne: "\<not> eligible paused now ?qp" using b False by (auto simp: eligible_def split: if_splits)
    have "\<not> b \<Longrightarrow> \<not> IsFinished ?qp" using b Cons.prems(2) finished_nothing_left by (fastforce split: if_splits)
    then have "scan_qps paused now Q grp is (least_finished Q grp idx m0) = Some (res, m)"
      using rest False by (auto simp: least_finished_def split: if_splits)
    from Cons.IH [OF this] Cons.prems(2) obtain pre where pre: "m = fold (least_finished Q grp) pre (least_finished Q grp idx m0)"
      "\<forall>j \<in> set pre. \<not> eligible paused now (Q (grp ! j))"
      "case res of None \<Rightarrow> pre = is | Some i \<Rightarrow> (\<exists>post. is = pre @ i # post) \<and> eligible paused now (Q (grp ! i))" by auto
    then show ?thesis using ne by (intro exI [of _ "idx # pre"]) (auto split: option.splits)
  qed
qed simp

lemma least_finished_None:
  "fold (least_finished Q grp) pre m0 = None \<longleftrightarrow> m0 = None \<and> (\<forall>j \<in> set pre. \<not> IsFinished (Q (grp ! j)))"
  by (induction pre arbitrary: m0) (simp_all add: least_finished_def)

lemma least_finished_Some:
  assumes "fold (least_finished Q grp) pre m0 = Some k"
  shows "(m0 = Some k \<or> k \<in> set pre \<and> IsFinished (Q (grp ! k))) \<and> (\<forall>l. m0 = Some l \<longrightarrow> k \<le> l)
    \<and> (\<forall>j \<in> set pre. IsFinished (Q (grp ! j)) \<longrightarrow> k \<le> j)"
  using assms
proof (induction pre arbitrary: m0)
  case (Cons j pre)
  have ih: "fold (least_finished Q grp) pre (least_finished Q grp j m0) = Some k" using Cons.prems by simp
  show ?case
  proof (cases "IsFinished (Q (grp ! j))")
    case True
    show ?thesis
    proof (cases m0)
      case None
      then show ?thesis using Cons.IH [OF ih] True by (auto simp: least_finished_def)
    next
      case (Some l)
      then have m: "least_finished Q grp j m0 = Some (min j l)" using True by (simp add: least_finished_def)
      have "min j l = j \<or> min j l = l" and "min j l \<le> j" and "min j l \<le> l" by linarith+
      then show ?thesis using Cons.IH [OF ih] True Some unfolding m by auto
    qed
  next
    case False
    then show ?thesis using Cons.IH [OF ih] by (auto simp: least_finished_def)
  qed
qed simp

text \<open>What is left of the group when the scan has looked at the positions \<open>pre\<close>: from the first finished position
  it saw on, no finished queue pair.\<close>

definition swept :: "(nat \<Rightarrow> RdmaQueuePair) \<Rightarrow> nat list \<Rightarrow> nat list \<Rightarrow> nat list \<Rightarrow> bool" where
  "swept Q grp pre grp' \<longleftrightarrow> (\<exists>m \<le> length grp. grp' = take m grp @ filter (\<lambda>q. \<not> IsFinished (Q q)) (drop m grp)
     \<and> (\<forall>k \<in> set pre. IsFinished (Q (grp ! k)) \<longrightarrow> m \<le> k)
     \<and> (m < length grp \<longrightarrow> m \<in> set pre \<and> IsFinished (Q (grp ! m))))"

lemma swept_all:
  assumes "swept Q grp pre grp'" and "set pre = {0..<length grp}"
  shows "grp' = filter (\<lambda>q. \<not> IsFinished (Q q)) grp"
proof -
  obtain m where m: "m \<le> length grp" "grp' = take m grp @ filter (\<lambda>q. \<not> IsFinished (Q q)) (drop m grp)"
    "\<forall>k \<in> {0..<length grp}. IsFinished (Q (grp ! k)) \<longrightarrow> m \<le> k"
    using assms(1) unfolding swept_def assms(2) by blast
  have "filter (\<lambda>q. \<not> IsFinished (Q q)) (take m grp) = take m grp"
    using m(1,3) by (fastforce simp: in_set_conv_nth filter_id_conv)
  then show ?thesis using m(2) filter_append [of _ "take m grp" "drop m grp"] by simp
qed

text \<open>The positions of the scan are the indices of the group, each once.\<close>

lemma rr_order_set:
  assumes "0 < n" and "unat (r :: u32) + n < 2 ^ 32"
  shows "set (rr_order r (of_nat n)) = {0..<n}"
proof -
  have n: "unat (of_nat n :: u32) = n" using assms(2) by (intro unat_of_nat_small) simp
  have k: "unat ((of_nat k + r) mod of_nat n :: u32) = (k + unat r) mod n" if "k \<le> n" for k
  proof -
    have "unat (of_nat k + r) = k + unat r"
      using that assms(2) by (subst unat_add_nowrap) (simp_all add: unat_of_nat_small)
    then show ?thesis by (simp add: unat_mod n)
  qed
  have "set (rr_order r (of_nat n)) = (\<lambda>k. (k + unat r) mod n) ` {1..<Suc n}"
    unfolding rr_order_def n set_map set_upt by (intro image_cong) (auto simp: k)
  also have "\<dots> = {0..<n}"
  proof
    show "{0..<n} \<subseteq> (\<lambda>k. (k + unat r) mod n) ` {1..<Suc n}"
    proof
      fix i assume i: "i \<in> {0..<n}"
      let ?s = "unat r mod n"
      let ?k = "if i > ?s then i - ?s else i + n - ?s"
      have s: "?s < n" using assms(1) by simp
      have "(?k + unat r) mod n = (?k + ?s) mod n" by (simp add: mod_add_right_eq)
      also have "?k + ?s = (if i > ?s then i else i + n)" using s by auto
      also have "(if i > ?s then i else i + n) mod n = i" using i by simp
      finally have "i = (?k + unat r) mod n" by simp
      moreover have "?k \<in> {1..<Suc n}"
        using i s by (simp only: atLeastLessThan_iff split: if_split) linarith
      ultimately show "i \<in> (\<lambda>k. (k + unat r) mod n) ` {1..<Suc n}" by blast
    qed
  qed (use assms(1) in auto)
  finally show ?thesis .
qed

lemma filter_take_drop:
  assumes "m < length xs" and "\<not> P (xs ! m)"
  shows "filter P (take m xs @ filter P (drop (Suc m) xs)) = filter P xs"
proof -
  have "filter P xs = filter P (take m xs @ xs ! m # drop (Suc m) xs)"
    using id_take_nth_drop [OF assms(1)] by simp
  then show ?thesis using assms(2) by simp
qed

text \<open>The result of \<^verbatim>\<open>GetNextQindex\<close>: \<open>-1\<close> for the ACK queue, \<open>-1024\<close> for nothing, else a position.\<close>

lemma GetNextQindex_cases:
  assumes "GetNextQindex a Q now d = Some (r, d')"
  obtains (Ack) "\<not> nd_paused d a" "m_nPackets (nd_ackQ d) > 0" "r = -1" "d' = d"
  | (Scan) res m res' grp where "nd_paused d a \<or> m_nPackets (nd_ackQ d) = 0"
      "scan_qps (nd_paused d) now Q (nd_qpGrp d)
         (rr_order (nd_rrlast d) (of_nat (length (nd_qpGrp d)))) None = Some (res, m)"
      "(case m of None \<Rightarrow> (res, nd_qpGrp d) | Some k \<Rightarrow> compact_qps Q k res (nd_qpGrp d)) = (res', grp)"
      "r = (case res' of None \<Rightarrow> -1024 | Some i \<Rightarrow> int i)" "d' = d\<lparr>nd_qpGrp := grp\<rparr>"
  using assms
  by (auto simp: GetNextQindex_def guard_bind_eq_Some word_gt_0 Let_def split: if_splits prod.splits
      elim!: bind_eq_SomeE)

definition grp_seq_ok :: "(nat \<Rightarrow> RdmaQueuePair) \<Rightarrow> nat list \<Rightarrow> bool" where
  "grp_seq_ok Q grp \<longleftrightarrow> (\<forall>q \<in> set grp. seq_ok (Q q))"

lemma eligible_unfinished: "seq_ok q \<Longrightarrow> eligible p now q \<Longrightarrow> \<not> IsFinished q"
  using finished_nothing_left by (fastforce simp: eligible_def)

lemma next_queue_scan:
  assumes Q: "grp_seq_ok Q grp" and small: "unat rr + length grp < 2 ^ 32"
    and scan: "scan_qps paused now Q grp (rr_order rr (of_nat (length grp))) None = Some (res, m)"
    and comp: "(case m of None \<Rightarrow> (res, grp) | Some k \<Rightarrow> compact_qps Q k res grp) = (res', grp')"
  shows "res' = None \<Longrightarrow> (\<forall>q \<in> set grp. \<not> eligible paused now (Q q)) \<and> grp' = filter (\<lambda>q. \<not> IsFinished (Q q)) grp"
    and "res' = Some i \<Longrightarrow> i < length grp' \<and> eligible paused now (Q (grp' ! i))
      \<and> (\<exists>pre j post. rr_order rr (of_nat (length grp)) = pre @ j # post \<and> grp ! j = grp' ! i
         \<and> (\<forall>k \<in> set pre. \<not> eligible paused now (Q (grp ! k))) \<and> swept Q grp pre grp')"
proof -
  have idx: "set (rr_order rr (of_nat (length grp))) = {0..<length grp}"
  proof (cases "grp = []")
    case True
    then show ?thesis by (simp add: rr_order_def)
  next
    case False
    then show ?thesis using rr_order_set small by simp
  qed
  obtain pre where pre: "m = fold (least_finished Q grp) pre None" "\<forall>j \<in> set pre. \<not> eligible paused now (Q (grp ! j))"
    "case res of None \<Rightarrow> pre = rr_order rr (of_nat (length grp))
     | Some i \<Rightarrow> (\<exists>post. rr_order rr (of_nat (length grp)) = pre @ i # post) \<and> eligible paused now (Q (grp ! i))"
    using scan_qps_looked [OF scan] Q idx by (auto simp: grp_seq_ok_def)
  have sub: "set pre \<subseteq> {0..<length grp}"
  proof (cases res)
    case None
    then show ?thesis using pre(3) idx by simp
  next
    case (Some i)
    then obtain post where "rr_order rr (of_nat (length grp)) = pre @ i # post" using pre(3) by auto
    then show ?thesis unfolding idx [symmetric] by auto
  qed
  have fin: "k < length grp \<and> k \<in> set pre \<and> IsFinished (Q (grp ! k)) \<and> (\<forall>j \<in> set pre. IsFinished (Q (grp ! j)) \<longrightarrow> k \<le> j)" if "m = Some k" for k
    using least_finished_Some [OF pre(1) [symmetric, unfolded that]] sub by auto
  have sel: "j < length grp \<and> \<not> IsFinished (Q (grp ! j))" if "res = Some j" for j
  proof -
    from that obtain post where r: "rr_order rr (of_nat (length grp)) = pre @ j # post" and "eligible paused now (Q (grp ! j))"
      using pre(3) by auto
    moreover have "j \<in> {0..<length grp}" unfolding idx [symmetric] r by simp
    ultimately have "eligible paused now (Q (grp ! j))" "j \<in> {0..<length grp}" by simp_all
    then show ?thesis using Q eligible_unfinished by (auto simp: grp_seq_ok_def)
  qed
  have sweep: "swept Q grp pre grp'"
  proof (cases m)
    case None
    have "\<forall>j \<in> set pre. \<not> IsFinished (Q (grp ! j))" using pre(1) None least_finished_None by metis
    then show ?thesis using comp None by (auto simp: swept_def intro!: exI [of _ "length grp"])
  next
    case (Some k)
    then have c: "compact_qps Q k res grp = (res', grp')" using comp by simp
    have "filter (\<lambda>q. \<not> IsFinished (Q q)) (drop (Suc k) grp) = filter (\<lambda>q. \<not> IsFinished (Q q)) (drop k grp)"
      using fin [OF Some] Cons_nth_drop_Suc [of k grp] by (metis filter.simps(2))
    then have "grp' = take k grp @ filter (\<lambda>q. \<not> IsFinished (Q q)) (drop k grp)"
      using compact_spec(1) [OF c] fin [OF Some] by simp
    then show ?thesis using fin [OF Some] by (auto simp: swept_def intro!: exI [of _ k])
  qed
  have res_res': "(res = None \<longrightarrow> res' = None) \<and> (\<forall>j. res = Some j \<longrightarrow> (\<exists>i < length grp'. res' = Some i \<and> grp' ! i = grp ! j))"
  proof (cases m)
    case None
    then show ?thesis using comp sel by auto
  next
    case (Some k)
    then have c: "compact_qps Q k res grp = (res', grp')" using comp by simp
    show ?thesis
      using compact_spec(2,3) [OF c] fin [OF Some] sel by (metis (no_types, lifting))
  qed
  show "(\<forall>q \<in> set grp. \<not> eligible paused now (Q q)) \<and> grp' = filter (\<lambda>q. \<not> IsFinished (Q q)) grp" if "res' = None"
  proof -
    have "res = None" using res_res' that by (cases res) auto
    then have p: "set pre = {0..<length grp}" using pre(3) idx by simp
    then have "\<not> eligible paused now (Q q)" if "q \<in> set grp" for q using pre(2) that by (auto simp: in_set_conv_nth)
    then show ?thesis using swept_all [OF sweep p] by blast
  qed
  show "i < length grp' \<and> eligible paused now (Q (grp' ! i))
      \<and> (\<exists>pre j post. rr_order rr (of_nat (length grp)) = pre @ j # post \<and> grp ! j = grp' ! i
         \<and> (\<forall>k \<in> set pre. \<not> eligible paused now (Q (grp ! k))) \<and> swept Q grp pre grp')" if "res' = Some i"
  proof -
    from that res_res' obtain j where j: "res = Some j" "i < length grp'" "grp' ! i = grp ! j"
      by (cases res) auto
    then have "eligible paused now (Q (grp' ! i))" "\<exists>post. rr_order rr (of_nat (length grp)) = pre @ j # post" using pre(3) by auto
    then show ?thesis using j(2,3) pre(2) sweep by metis
  qed
qed

text \<open>C31: a network card serves its ACKs first, and then changes nothing; otherwise it picks the first queue pair
  after the last one served that has data, an open window, a priority that is not paused and whose
  time has come; it finds none only when there is none. It forgets the finished queue pairs: all of them when
  it finds none to serve, otherwise those from the first finished position on it has looked at; the others
  stay, in order.\<close>

theorem next_queue:
  assumes "GetNextQindex a Q now d = Some (r, d')" and "grp_seq_ok Q (nd_qpGrp d)"
    and "unat (nd_rrlast d) + length (nd_qpGrp d) < 2 ^ 32"
  shows "(r = -1 \<longleftrightarrow> \<not> nd_paused d a \<and> m_nPackets (nd_ackQ d) > 0) \<and> (r = -1 \<longrightarrow> d' = d)
    \<and> (r = -1024 \<longrightarrow> (\<forall>q \<in> set (nd_qpGrp d). \<not> eligible (nd_paused d) now (Q q))
       \<and> nd_qpGrp d' = filter (\<lambda>q. \<not> IsFinished (Q q)) (nd_qpGrp d))
    \<and> (r \<noteq> -1 \<longrightarrow> r \<noteq> -1024 \<longrightarrow> 0 \<le> r \<and> nat r < length (nd_qpGrp d')
       \<and> eligible (nd_paused d) now (Q (nd_qpGrp d' ! nat r))
       \<and> (\<exists>pre j post. rr_order (nd_rrlast d) (of_nat (length (nd_qpGrp d))) = pre @ j # post
            \<and> nd_qpGrp d ! j = nd_qpGrp d' ! nat r
            \<and> (\<forall>k \<in> set pre. \<not> eligible (nd_paused d) now (Q (nd_qpGrp d ! k)))
            \<and> swept Q (nd_qpGrp d) pre (nd_qpGrp d')))"
  using assms(1)
proof (cases rule: GetNextQindex_cases)
  case Ack
  then show ?thesis by simp
next
  case (Scan res m res' grp)
  note N = next_queue_scan [OF assms(2,3) Scan(2,3)]
  show ?thesis
  proof (cases res')
    case None
    then show ?thesis using Scan N(1) by auto
  next
    case (Some i)
    then show ?thesis using Scan N(2) [OF Some] by auto
  qed
qed

lemma soon_step_le: "soon_step Q q t \<le> t"
  by (simp add: soon_step_def)

lemma soon_fold_le: "fold (soon_step Q) grp t \<le> t"
proof (induction grp arbitrary: t)
  case (Cons a grp)
  show ?case using Cons.IH [of "soon_step Q a t"] soon_step_le [of Q a t] by simp
qed simp

lemma soon_fold_elem: "q \<in> set grp \<Longrightarrow> GetBytesLeft (Q q) \<noteq> 0 \<Longrightarrow> fold (soon_step Q) grp t \<le> m_nextAvail (Q q)"
proof (induction grp arbitrary: t)
  case (Cons a grp)
  show ?case
  proof (cases "q = a")
    case True
    have "soon_step Q a t \<le> m_nextAvail (Q q)" using Cons.prems(2) True by (simp add: soon_step_def)
    then show ?thesis using soon_fold_le [of Q grp "soon_step Q a t"] by simp
  next
    case False
    then show ?thesis using Cons by simp
  qed
qed simp

lemma soonest_avail_le:
  "q \<in> set grp \<Longrightarrow> GetBytesLeft (Q q) \<noteq> 0 \<Longrightarrow> soonest_avail Q grp \<le> m_nextAvail (Q q)"
  unfolding soonest_avail_def by (rule soon_fold_elem)

text \<open>It is the least of these times.\<close>

lemma soon_fold_Min: "fold (soon_step Q) grp t = Min (insert t (m_nextAvail ` Q ` {q \<in> set grp. GetBytesLeft (Q q) \<noteq> 0}))"
proof (induction grp arbitrary: t)
  case (Cons a grp)
  let ?A = "\<lambda>xs. m_nextAvail ` Q ` {q \<in> set xs. GetBytesLeft (Q q) \<noteq> 0}"
  show ?case
  proof (cases "GetBytesLeft (Q a) = 0")
    case True
    then have "?A (a # grp) = ?A grp" by (intro arg_cong [of _ _ "image m_nextAvail"] arg_cong [of _ _ "image Q"]) auto
    then show ?thesis using Cons.IH [of t] True by (simp add: soon_step_def)
  next
    case False
    then have "{q \<in> set (a # grp). GetBytesLeft (Q q) \<noteq> 0} = insert a {q \<in> set grp. GetBytesLeft (Q q) \<noteq> 0}" by auto
    then have e: "?A (a # grp) = insert (m_nextAvail (Q a)) (?A grp)" by simp
    have m: "Min (insert (min x t) A) = Min (insert t (insert x A))" if "finite A" for x and A :: "int set"
      using that by (cases "A = {}") (simp_all add: min.assoc min.left_commute)
    have "fold (soon_step Q) (a # grp) t = fold (soon_step Q) grp (min (m_nextAvail (Q a)) t)"
      using False by (simp add: soon_step_def)
    also have "\<dots> = Min (insert (min (m_nextAvail (Q a)) t) (?A grp))" by (rule Cons.IH)
    also have "\<dots> = Min (insert t (?A (a # grp)))" unfolding e by (rule m) simp
    finally show ?thesis .
  qed
qed simp

definition due_times :: "(nat \<Rightarrow> RdmaQueuePair) \<Rightarrow> nat list \<Rightarrow> int set" where
  "due_times Q grp = m_nextAvail ` Q ` {q \<in> set grp. GetBytesLeft (Q q) \<noteq> 0}"

lemma soonest_avail_Min:
  assumes "q \<in> set grp" and "GetBytesLeft (Q q) \<noteq> 0" and "m_nextAvail (Q q) < GetMaximumSimulationTime"
  shows "soonest_avail Q grp = Min (due_times Q grp)" and "Min (due_times Q grp) < GetMaximumSimulationTime"
    and "Min (due_times Q grp) \<in> due_times Q grp"
proof -
  have f: "finite (due_times Q grp)" "m_nextAvail (Q q) \<in> due_times Q grp" using assms(1,2) by (auto simp: due_times_def)
  then have "Min (due_times Q grp) \<le> m_nextAvail (Q q)" by simp
  then show l: "Min (due_times Q grp) < GetMaximumSimulationTime" using assms(3) by simp
  show "Min (due_times Q grp) \<in> due_times Q grp" using f Min_in by blast
  have "soonest_avail Q grp = Min (insert GetMaximumSimulationTime (due_times Q grp))"
    unfolding soonest_avail_def due_times_def by (rule soon_fold_Min)
  also have "\<dots> = min GetMaximumSimulationTime (Min (due_times Q grp))" using f by (intro Min_insert) auto
  finally show "soonest_avail Q grp = Min (due_times Q grp)" using l by simp
qed

lemma set_nic_simps [simp]:
  "m_nic (set_nic i d h) i = Some d" "h_sim (set_nic i d h) = h_sim h" "h_qp (set_nic i d h) = h_qp h"
  "h_wire (set_nic i d h) = h_wire h" "hw (set_nic i d h) = hw h" "h_now (set_nic i d h) = h_now h"
  by (simp_all add: set_nic_def h_now_def)

lemma DequeueAndTransmit_nothing:
  assumes "m_nic h i = Some d" and "nd_linkUp d" and "\<not> nd_busy d"
    and "GetNextQindex (ack_q_idx (hw h)) (h_qp h) (h_now h) d = Some (-1024, d')"
  shows "DequeueAndTransmit i h = wake_up i (set_nic i d' h)"
  using assms by (simp add: DequeueAndTransmit_def Let_def)

lemma GetNextQindex_frame:
  assumes "GetNextQindex a Q now d = Some (r, d')"
  shows "d' = d\<lparr>nd_qpGrp := nd_qpGrp d'\<rparr>"
  using assms by (cases rule: GetNextQindex_cases) simp_all

text \<open>C33: when a card finds nothing to send although one queue pair has data and its time has come (it
  is paused or its window is full), the card sets no timer at all, also when other queue pairs only
  wait for their time: they are not served before something else triggers the card.\<close>

theorem lost_wake_up:
  assumes "m_nic h i = Some d" and "nd_linkUp d" and "\<not> nd_busy d"
    and "GetNextQindex (ack_q_idx (hw h)) (h_qp h) (h_now h) d = Some (-1024, d')"
    and "q \<in> set (nd_qpGrp d')" and "GetBytesLeft (h_qp h q) \<noteq> 0" and "m_nextAvail (h_qp h q) \<le> h_now h"
  shows "\<exists>h'. DequeueAndTransmit i h = Some h' \<and> m_events (h_sim h') = m_events (h_sim h) \<and> h_wire h' = h_wire h"
proof -
  have "soonest_avail (h_qp h) (nd_qpGrp d') \<le> h_now h"
    using soonest_avail_le [of q "nd_qpGrp d'" "h_qp h"] assms(5,6,7) by simp
  then have "wake_up i (set_nic i d' h) = Some (set_nic i d' h)" by (simp add: wake_up_def Let_def)
  then show ?thesis unfolding DequeueAndTransmit_nothing [OF assms(1-4)] by simp
qed

lemma wake_up_sets:
  assumes "m_nic h i = Some d" and "IsExpired (nd_nextSend d) (h_sim h)" and "sim_wf (h_sim h)"
    and "soonest_avail (h_qp h) (nd_qpGrp d) = t" and "h_now h < t" and "t < GetMaximumSimulationTime"
  shows "\<exists>h' uid. wake_up i h = Some h' \<and> m_nic h' i = Some (d\<lparr>nd_nextSend := Some (t, uid)\<rparr>)
    \<and> ((t, uid), Ev_DequeueAndTransmit i, False) \<in> set (m_events (h_sim h'))"
proof -
  let ?s = "h_sim h" and ?e = "Ev_DequeueAndTransmit i"
  have "(t, m_uid ?s) \<notin> fst ` set (m_events ?s)"
    using assms(3) by (auto simp: sim_wf_def event_keys_def)
  from sched_Insert_fresh [OF this, of "(?e, False)"]
  obtain es where es: "sched_Insert (t, m_uid ?s) (?e, False) (m_events ?s) = Some es" ..
  let ?s' = "?s\<lparr>m_uid := m_uid ?s + 1, m_unscheduledEvents := m_unscheduledEvents ?s + 1, m_events := es\<rparr>"
  have S: "Schedule (t - h_now h) ?e ?s = Some (Some (t, m_uid ?s), ?s')"
    using es assms(5,6) by (simp add: Schedule_def h_now_def Now_def Let_def GetMaximumSimulationTime_def)
  have "wake_up i h = Some (set_nic i (d\<lparr>nd_nextSend := Some (t, m_uid ?s)\<rparr>) (h\<lparr>h_sim := ?s'\<rparr>))"
    using S assms(1,2,4-6) by (simp add: wake_up_def Let_def h_Schedule_def)
  then show ?thesis
    using sched_Insert_set [OF es]
    by (intro exI [of _ "set_nic i (d\<lparr>nd_nextSend := Some (t, m_uid ?s)\<rparr>) (h\<lparr>h_sim := ?s'\<rparr>)"] exI [of _ "m_uid ?s"]) simp
qed

text \<open>C32: when a card finds nothing to send and every queue pair with data waits for its time, the card
  sets its timer to the soonest of these times if no timer is pending; a pending timer stays where it is, also when
  it is later.\<close>

theorem wake_up_set:
  assumes "m_nic h i = Some d" and "nd_linkUp d" and "\<not> nd_busy d"
    and "GetNextQindex (ack_q_idx (hw h)) (h_qp h) (h_now h) d = Some (-1024, d')" and "sim_wf (h_sim h)"
    and "\<And>q. q \<in> set (nd_qpGrp d') \<Longrightarrow> GetBytesLeft (h_qp h q) \<noteq> 0 \<Longrightarrow> h_now h < m_nextAvail (h_qp h q)"
    and "q \<in> set (nd_qpGrp d')" and "GetBytesLeft (h_qp h q) \<noteq> 0" and "m_nextAvail (h_qp h q) < GetMaximumSimulationTime"
  shows "\<exists>h' d''. DequeueAndTransmit i h = Some h' \<and> m_nic h' i = Some d''
    \<and> (if IsExpired (nd_nextSend d) (h_sim h)
       then \<exists>uid. nd_nextSend d'' = Some (Min (due_times (h_qp h) (nd_qpGrp d')), uid)
         \<and> ((Min (due_times (h_qp h) (nd_qpGrp d')), uid), Ev_DequeueAndTransmit i, False) \<in> set (m_events (h_sim h'))
       else nd_nextSend d'' = nd_nextSend d \<and> h_sim h' = h_sim h)"
proof -
  have n: "nd_nextSend d' = nd_nextSend d" by (subst GetNextQindex_frame [OF assms(4)]) simp
  let ?h = "set_nic i d' h"
  note M = soonest_avail_Min [where q = q and Q = "h_qp h" and grp = "nd_qpGrp d'", OF assms(7-9)]
  have later: "h_now h < Min (due_times (h_qp h) (nd_qpGrp d'))" using M(3) assms(6) by (auto simp: due_times_def)
  show ?thesis
  proof (cases "IsExpired (nd_nextSend d) (h_sim h)")
    case True
    then show ?thesis
      using wake_up_sets [of ?h i d' "Min (due_times (h_qp h) (nd_qpGrp d'))"] M(1,2) later n assms(5)
      unfolding DequeueAndTransmit_nothing [OF assms(1-4)] by fastforce
  next
    case False
    then have "wake_up i ?h = Some ?h" using n by (simp add: wake_up_def Let_def)
    then show ?thesis unfolding DequeueAndTransmit_nothing [OF assms(1-4)] using False n by simp
  qed
qed

subsection \<open>Changing the rate\<close>

lemma h_Schedule_frame: "h_Schedule d e h = Some (ev, h') \<Longrightarrow> h' = h\<lparr>h_sim := h_sim h'\<rparr>"
  by (auto simp: h_Schedule_def elim!: bind_eq_SomeE)

lemma set_qp_simps [simp]:
  "h_qp (set_qp q x h) q = x" "hw (set_qp q x h) = hw h" "m_nic (set_qp q x h) = m_nic h"
  "h_sim (set_qp q x h) = h_sim h" "m_rtTable (set_qp q x h) = m_rtTable h" "h_wire (set_qp q x h) = h_wire h"
  "q' \<noteq> q \<Longrightarrow> h_qp (set_qp q x h) q' = h_qp h q'"
  by (simp_all add: set_qp_def)

lemma h_Cancel_simps [simp]: "h_qp (h_Cancel ev h) = h_qp h" "hw (h_Cancel ev h) = hw h" "m_nic (h_Cancel ev h) = m_nic h"
  by (simp_all add: h_Cancel_def)

definition host_frame :: "host \<Rightarrow> host \<Rightarrow> bool" where
  "host_frame h h' \<longleftrightarrow> hw h' = hw h \<and> m_rtTable h' = m_rtTable h \<and> h_wire h' = h_wire h
     \<and> m_qpMap h' = m_qpMap h \<and> m_rxQpMap h' = m_rxQpMap h \<and> h_rxqp h' = h_rxqp h \<and> h_completed h' = h_completed h"

lemma host_frame_refl [simp]: "host_frame h h"
  by (simp add: host_frame_def)

lemma host_frame_trans: "host_frame h h' \<Longrightarrow> host_frame h' h'' \<Longrightarrow> host_frame h h''"
  by (simp add: host_frame_def)

lemma host_frame_updates [simp]:
  "host_frame h (set_qp q x h')  \<longleftrightarrow> host_frame h h'" "host_frame h (set_nic i d h') \<longleftrightarrow> host_frame h h'"
  "host_frame h (h_Cancel ev h') \<longleftrightarrow> host_frame h h'" "host_frame h (h'\<lparr>h_sim := s\<rparr>) \<longleftrightarrow> host_frame h h'"
  "host_frame (set_qp q x h) h'  \<longleftrightarrow> host_frame h h'" "host_frame (h_Cancel ev h) h' \<longleftrightarrow> host_frame h h'"
  by (simp_all add: host_frame_def set_qp_def set_nic_def h_Cancel_def)

text \<open>The call to the card moves its timer only.\<close>

lemma nic_UpdateNextAvail_cases:
  assumes "nic_UpdateNextAvail i t h = Some h'"
  obtains "h' = h"
    | d ev sm where "m_nic h i = Some d" and "h' = set_nic i (d\<lparr>nd_nextSend := ev\<rparr>) (h\<lparr>h_sim := sm\<rparr>)"
proof -
  from assms obtain d where d: "m_nic h i = Some d" and r: "(case nd_nextSend d of None \<Rightarrow> Some h
     | Some (ts, uid) \<Rightarrow> if \<not> IsExpired (nd_nextSend d) (h_sim h) \<and> t < ts then do {
           let h = h_Cancel (nd_nextSend d) h;
           (ev, h) \<leftarrow> h_Schedule (if t < h_now h then 0 else t - h_now h) (Ev_DequeueAndTransmit i) h;
           Some (set_nic i (d\<lparr>nd_nextSend := ev\<rparr>) h) }
         else Some h) = Some h'"
    by (auto simp: nic_UpdateNextAvail_def elim!: bind_eq_SomeE)
  show ?thesis
  proof (cases "h' = h")
    case False
    then obtain dl ev h1 where s: "h_Schedule dl (Ev_DequeueAndTransmit i) (h_Cancel (nd_nextSend d) h) = Some (ev, h1)"
      and h': "h' = set_nic i (d\<lparr>nd_nextSend := ev\<rparr>) h1"
      using r by (auto simp: Let_def split: option.splits prod.splits if_splits elim!: bind_eq_SomeE)
    obtain sm where "h1 = (h_Cancel (nd_nextSend d) h)\<lparr>h_sim := sm\<rparr>" using h_Schedule_frame [OF s] by blast
    then show ?thesis using that(2) [OF d, of ev sm] h' by (simp add: h_Cancel_def)
  qed (use that in blast)
qed

lemma nic_UpdateNextAvail_frame:
  assumes "nic_UpdateNextAvail i t h = Some h'"
  shows "host_frame h h' \<and> h_qp h' = h_qp h"
  using assms by (rule nic_UpdateNextAvail_cases) simp_all

lemma ChangeRate_spec:
  assumes "ChangeRate q r h = Some h'"
  shows "host_frame h h' \<and> (\<exists>t. h_qp h' = (h_qp h)(q := (h_qp h q)\<lparr>m_nextAvail := t, m_rate := r\<rparr>))"
proof -
  from assms obtain t i h1 where
    n: "nic_UpdateNextAvail i t (set_qp q ((h_qp h q)\<lparr>m_nextAvail := t\<rparr>) h) = Some h1"
    and h': "h' = set_qp q ((h_qp h1 q)\<lparr>m_rate := r\<rparr>) h1"
    by (auto simp: ChangeRate_def Let_def elim!: bind_eq_SomeE)
  have f: "host_frame h h1" "h_qp h1 = (h_qp h)(q := (h_qp h q)\<lparr>m_nextAvail := t\<rparr>)"
    using nic_UpdateNextAvail_frame [OF n] by (simp_all add: set_qp_def [of q _ h, symmetric]) (simp add: set_qp_def)
  have "host_frame h h'" using f(1) by (simp add: h')
  moreover have "h_qp h' = (h_qp h)(q := (h_qp h q)\<lparr>m_nextAvail := t, m_rate := r\<rparr>)"
    using f(2) by (simp add: h' set_qp_def)
  ultimately show ?thesis by blast
qed

lemma ChangeRate_qp:
  assumes "ChangeRate q r h = Some h'"
  shows "m_rate (h_qp h' q) = r" "m_max_rate (h_qp h' q) = m_max_rate (h_qp h q)" "hp (h_qp h' q) = hp (h_qp h q)"
    "m_win (h_qp h' q) = m_win (h_qp h q)" "hpccPint (h_qp h' q) = hpccPint (h_qp h q)"
    "snd_nxt (h_qp h' q) = snd_nxt (h_qp h q)" "snd_una (h_qp h' q) = snd_una (h_qp h q)"
    "m_size (h_qp h' q) = m_size (h_qp h q)" "hw h' = hw h"
    "p \<noteq> q \<Longrightarrow> h_qp h' p = h_qp h p"
proof -
  from ChangeRate_spec [OF assms] obtain t where "host_frame h h'"
    "h_qp h' = (h_qp h)(q := (h_qp h q)\<lparr>m_nextAvail := t, m_rate := r\<rparr>)" by blast
  then show "m_rate (h_qp h' q) = r" "m_max_rate (h_qp h' q) = m_max_rate (h_qp h q)" "hp (h_qp h' q) = hp (h_qp h q)"
    "m_win (h_qp h' q) = m_win (h_qp h q)" "hpccPint (h_qp h' q) = hpccPint (h_qp h q)"
    "snd_nxt (h_qp h' q) = snd_nxt (h_qp h q)" "snd_una (h_qp h' q) = snd_una (h_qp h q)"
    "m_size (h_qp h' q) = m_size (h_qp h q)" "hw h' = hw h"
    "p \<noteq> q \<Longrightarrow> h_qp h' p = h_qp h p"
    by (simp_all add: host_frame_def)
qed

subsection \<open>Witnesses\<close>

text \<open>Queue pair 0 has filled its window; queue pair 1 waits for time 5000.\<close>

definition demo_hw :: RdmaHw_conf where
  "demo_hw = \<lparr>m_minRate = 100000000, m_mtu = 1000, m_cc_mode = 3, m_nack_interval = Fin 500, m_chunk = 4000,
     m_ack_interval = 1, m_backto0 = False, hw_var_win = True, m_fast_react = True, m_rateBound = True,
     m_g = Fin (1 / 16), m_rateOnFirstCNP = Fin 1, m_EcnClampTgtRate = False, m_rpgTimeReset = Fin 1500,
     m_rateDecreaseInterval = Fin 4, m_rpgThreshold = 5, m_alpha_resume_interval = Fin 55, m_rai = 5000000,
     m_rhai = 50000000, m_targetUtil = lit (95 / 100), m_miThresh = 5, m_multipleRate = False,
     m_sampleFeedback = False, m_mbMode = 0, m_mbGamma = Fin 1, m_tmly_alpha = Fin (7 / 8),
     m_tmly_beta = lit (8 / 10), m_tmly_TLow = 50000, m_tmly_THigh = 500000, m_tmly_minRtt = 20000,
     m_dctcp_rai = 1000000000, pint_smpl_thresh = 65536, m_mixFsDport = 0, m_fsRcpWindow = False,
     m_fsMinRate = 100000000, hw_int = int_demo, ack_q_idx = 3\<rparr>"

definition demo_qp0 :: RdmaQueuePair where
  "demo_qp0 = demo_qp\<lparr>m_var_win := False, snd_nxt := 100000, m_nextAvail := 0\<rparr>"

definition demo_qp1 :: RdmaQueuePair where
  "demo_qp1 = demo_qp\<lparr>m_win := 0, m_nextAvail := 5000\<rparr>"

definition demo_nic :: "nat list \<Rightarrow> QbbNic" where
  "demo_nic grp = \<lparr>nd_bps = 100000000000, nd_tInterframeGap = 0, nd_linkUp = True, nd_busy = False,
     nd_currentPkt = None, nd_qbbEnabled = True, nd_paused = (\<lambda>_. False), nd_nextSend = None,
     nd_ackQ = OldQueue_init, nd_qpGrp = grp, nd_rrlast = 0, nd_qlast = 0\<rparr>"

definition demo_host :: "nat list \<Rightarrow> host" where
  "demo_host grp = \<lparr>hw = demo_hw, h_sim = sim_init, h_qp = (\<lambda>i. if i = 0 then demo_qp0 else demo_qp1),
     h_nqp = 2, h_rxqp = (\<lambda>_. RdmaRxQueuePair_init), h_nrxqp = 0, m_qpMap = Map.empty,
     m_rxQpMap = Map.empty, m_rtTable = (\<lambda>_. [1]), m_nic = [1 \<mapsto> demo_nic grp], h_wire = [], h_completed = []\<rparr>"

lemmas demo_host_defs = demo_qp_def demo_qp0_def demo_qp1_def demo_nic_def demo_host_def RdmaQueuePair_init_def

lemma demo_qp_facts:
  "GetBytesLeft demo_qp0 = 4999900000" "IsWinBound demo_qp0 = Some True" "m_pg demo_qp0 = 3" "\<not> IsFinished demo_qp0"
  "GetBytesLeft demo_qp1 = 5000000000" "IsWinBound demo_qp1 = Some False" "m_pg demo_qp1 = 3" "\<not> IsFinished demo_qp1"
  "m_nextAvail demo_qp0 = 0" "m_nextAvail demo_qp1 = 5000" "seq_ok demo_qp0" "seq_ok demo_qp1"
  by (simp_all add: demo_host_defs GetBytesLeft_def IsWinBound_def GetWin_def win_of_def GetOnTheFly_def
      IsFinished_def seq_ok_def)

lemma demo_host_facts [simp]:
  "m_nic (demo_host grp) 1 = Some (demo_nic grp)" "nd_linkUp (demo_nic grp)" "\<not> nd_busy (demo_nic grp)"
  "nd_qpGrp (demo_nic grp) = grp" "h_now (demo_host grp) = 0" "nd_nextSend (demo_nic grp) = None"
  "h_qp (demo_host grp) 0 = demo_qp0" "h_qp (demo_host grp) 1 = demo_qp1" "h_sim (demo_host grp) = sim_init"
  "hw (demo_host grp) = demo_hw" "h_wire (demo_host grp) = []"
  "nd_rrlast (demo_nic grp) = 0" "nd_paused (demo_nic grp) = (\<lambda>_. False)" "nd_ackQ (demo_nic grp) = OldQueue_init"
  by (simp_all add: demo_host_def demo_nic_def h_now_def Now_def sim_init_def)

lemma demo_next:
  "GetNextQindex 3 (h_qp (demo_host grp)) 0 (demo_nic [0, 1]) = Some (-1024, demo_nic [0, 1])"
  "GetNextQindex 3 (h_qp (demo_host grp)) 0 (demo_nic [1]) = Some (-1024, demo_nic [1])"
  by (simp_all add: GetNextQindex_def nic_qCnt_def OldQueue_init_def rr_order_def Let_def demo_qp_facts
      demo_host_facts(8) [unfolded One_nat_def] demo_nic_def upt_rec)

lemma next_queue_witness:
  "\<not> eligible (\<lambda>_. False) 0 (h_qp (demo_host [0, 1]) 0) \<and> \<not> eligible (\<lambda>_. False) 0 (h_qp (demo_host [0, 1]) 1)"
  using next_queue [OF demo_next(1) [of "[0, 1]"]]
  by (simp add: grp_seq_ok_def demo_qp_facts demo_host_facts(8) [unfolded One_nat_def])

lemma lost_wake_up_witness:
  "\<exists>h'. DequeueAndTransmit 1 (demo_host [0, 1]) = Some h' \<and> m_events (h_sim h') = [] \<and> h_wire h' = []"
proof -
  have g: "GetNextQindex (ack_q_idx (hw (demo_host [0, 1]))) (h_qp (demo_host [0, 1])) (h_now (demo_host [0, 1]))
      (demo_nic [0, 1]) = Some (-1024, demo_nic [0, 1])"
    using demo_next(1) [of "[0, 1]"] by (simp add: demo_hw_def)
  show ?thesis
    using lost_wake_up [OF demo_host_facts(1-3) g, of 0] by (simp add: demo_qp_facts sim_init_def)
qed

lemma wake_up_set_witness:
  "\<exists>h' d'' uid. DequeueAndTransmit 1 (demo_host [1]) = Some h' \<and> m_nic h' 1 = Some d''
     \<and> nd_nextSend d'' = Some (5000, uid)"
proof -
  have g: "GetNextQindex (ack_q_idx (hw (demo_host [1]))) (h_qp (demo_host [1])) (h_now (demo_host [1]))
      (demo_nic [1]) = Some (-1024, demo_nic [1])"
    using demo_next(2) [of "[1]"] by (simp add: demo_hw_def)
  have due: "due_times (h_qp (demo_host [1])) [1] = {5000}"
proof -
    have "{q \<in> set [1 :: nat]. GetBytesLeft (h_qp (demo_host [1]) q) \<noteq> 0} = {1}"
      by (auto simp: demo_qp_facts demo_host_facts(8) [unfolded One_nat_def])
    then show ?thesis by (simp add: due_times_def demo_qp_facts demo_host_facts(8) [unfolded One_nat_def])
  qed
  have later: "h_now (demo_host [1]) < m_nextAvail (h_qp (demo_host [1]) q)" if "q \<in> set (nd_qpGrp (demo_nic [1]))" for q
    using that by (simp add: demo_qp_facts demo_host_facts(8) [unfolded One_nat_def])
  have left: "GetBytesLeft (h_qp (demo_host [1]) 1) \<noteq> 0"
    and soon: "m_nextAvail (h_qp (demo_host [1]) 1) < GetMaximumSimulationTime"
    by (simp_all add: demo_qp_facts demo_host_facts(8) [unfolded One_nat_def] GetMaximumSimulationTime_def max_time_def)
  have "sim_wf (h_sim (demo_host [1]))" "1 \<in> set (nd_qpGrp (demo_nic [1]))" by (simp_all add: sim_wf_init)
  note W = wake_up_set [OF demo_host_facts(1-3) g this(1) later this(2) left soon]
  have "IsExpired (nd_nextSend (demo_nic [1])) (h_sim (demo_host [1]))" by (simp add: IsExpired_def)
  then show ?thesis using W unfolding demo_host_facts(4) due by auto
qed

end
