(* ===== verification/Cc_Dcqcn.thy ===== *)
theory Cc_Dcqcn
  imports Rdma_Host
begin

text \<open>
  Mellanox's version of DCQCN (\<^verbatim>\<open>rdma-hw.cc\<close>, congestion control mode 1): the estimate of the
  congestion, the rate decrease after a congestion notification and the three phases of the rate
  increase, each driven by a timer. The lemmas show that the estimate stays between 0 and 1 in IEEE
  arithmetic and that the rates stay between the least rate and the rate of the link.
\<close>

definition set_mlx :: "nat \<Rightarrow> mlx_state \<Rightarrow> host \<Rightarrow> host" where
  "set_mlx q m h = set_qp q ((h_qp h q)\<lparr>mlx := m\<rparr>) h"

subsection \<open>The handlers\<close>

definition ScheduleUpdateAlphaMlx :: "nat \<Rightarrow> host \<Rightarrow> host option" where
  "ScheduleUpdateAlphaMlx q h = do {
     t \<leftarrow> micro_seconds_d (m_alpha_resume_interval (hw h));
     (ev, h) \<leftarrow> h_Schedule t (Ev_UpdateAlphaMlx q) h;
     Some (set_mlx q ((mlx (h_qp h q))\<lparr>m_eventUpdateAlpha := ev\<rparr>) h) }"

definition ScheduleDecreaseRateMlx :: "nat \<Rightarrow> u32 \<Rightarrow> host \<Rightarrow> host option" where
  "ScheduleDecreaseRateMlx q delta h = do {
     t \<leftarrow> micro_seconds_d (m_rateDecreaseInterval (hw h));
     (ev, h) \<leftarrow> h_Schedule (t + nano_seconds (ucast delta)) (Ev_CheckRateDecreaseMlx q) h;
     Some (set_mlx q ((mlx (h_qp h q))\<lparr>m_eventDecreaseRate := ev\<rparr>) h) }"

definition ScheduleRpTimerMlx :: "nat \<Rightarrow> host \<Rightarrow> host option" where
  "ScheduleRpTimerMlx q h = do {
     t \<leftarrow> micro_seconds_d (m_rpgTimeReset (hw h));
     (ev, h) \<leftarrow> h_Schedule t (Ev_RateIncEventTimerMlx q) h;
     Some (set_mlx q ((mlx (h_qp h q))\<lparr>m_rpTimer := ev\<rparr>) h) }"

definition alpha_mlx :: "double \<Rightarrow> bool \<Rightarrow> double \<Rightarrow> double" where
  "alpha_mlx g cnp_arrived alpha =
     (if cnp_arrived then dadd (dmul (dsub (Fin 1) g) alpha) g else dmul (dsub (Fin 1) g) alpha)"

definition UpdateAlphaMlx :: "nat \<Rightarrow> host \<Rightarrow> host option" where
  "UpdateAlphaMlx q h = (let m = mlx (h_qp h q) in
     ScheduleUpdateAlphaMlx q (set_mlx q (m\<lparr>mlx_alpha := alpha_mlx (m_g (hw h)) (m_alpha_cnp_arrived m) (mlx_alpha m),
       m_alpha_cnp_arrived := False\<rparr>) h))"

definition cnp_received_mlx :: "nat \<Rightarrow> host \<Rightarrow> host option" where
  "cnp_received_mlx q h = (let m = mlx (h_qp h q); first = m_first_cnp m;
       h = set_mlx q (m\<lparr>m_alpha_cnp_arrived := True, m_decrease_cnp_arrived := True\<rparr>) h in
     if first then do {
       let h = set_mlx q ((mlx (h_qp h q))\<lparr>mlx_alpha := Fin 1, m_alpha_cnp_arrived := False\<rparr>) h;
       h \<leftarrow> ScheduleUpdateAlphaMlx q h;
       h \<leftarrow> ScheduleDecreaseRateMlx q 1 h;
       let qp = h_qp h q;
       r \<leftarrow> dr_scale (m_rate qp) (m_rateOnFirstCNP (hw h));
       Some (set_qp q (qp\<lparr>m_rate := r, mlx := (mlx qp)\<lparr>m_targetRate := r, m_first_cnp := False\<rparr>\<rparr>) h) }
     else Some h)"

text \<open>The factor of the decrease: \<^verbatim>\<open>1 - alpha / 2\<close>.\<close>

definition decrease_factor :: "double \<Rightarrow> double" where
  "decrease_factor alpha = dsub (Fin 1) (ddiv alpha (Fin 2))"

definition CheckRateDecreaseMlx :: "nat \<Rightarrow> host \<Rightarrow> host option" where
  "CheckRateDecreaseMlx q h = do {
     h \<leftarrow> ScheduleDecreaseRateMlx q 0 h;
     if m_decrease_cnp_arrived (mlx (h_qp h q)) then do {
       let qp = h_qp h q;
       let m = mlx qp;
       let clamp = (m_EcnClampTgtRate (hw h) \<or> m_rpTimeStage m \<noteq> 0);
       let m = (if clamp then m\<lparr>m_targetRate := m_rate qp\<rparr> else m);
       r \<leftarrow> dr_scale (m_rate qp) (decrease_factor (mlx_alpha m));
       let h = set_qp q (qp\<lparr>m_rate := max (m_minRate (hw h)) r,
         mlx := m\<lparr>m_rpTimeStage := 0, m_decrease_cnp_arrived := False\<rparr>\<rparr>) h;
       ScheduleRpTimerMlx q (h_Cancel (m_rpTimer m) h) }
     else Some h }"

text \<open>Half of the current and half of the target rate.\<close>

definition average_rate :: "rate \<Rightarrow> rate \<Rightarrow> rate option" where
  "average_rate r t = do { a \<leftarrow> dr_scale r (Fin (1 / 2)); b \<leftarrow> dr_scale t (Fin (1 / 2)); Some (dr_add a b) }"

definition FastRecoveryMlx :: "nat \<Rightarrow> host \<Rightarrow> host option" where
  "FastRecoveryMlx q h = do {
     let qp = h_qp h q;
     r \<leftarrow> average_rate (m_rate qp) (m_targetRate (mlx qp));
     Some (set_qp q (qp\<lparr>m_rate := r\<rparr>) h) }"

definition increase_mlx :: "rate \<Rightarrow> nat \<Rightarrow> host \<Rightarrow> host option" where
  "increase_mlx step q h = do {
     nic_idx \<leftarrow> GetNicIdxOfQp q h;
     dev \<leftarrow> m_nic h nic_idx;
     let qp = h_qp h q;
     let t = dr_add (m_targetRate (mlx qp)) step;
     let t = (if t > nd_bps dev then nd_bps dev else t);
     r \<leftarrow> average_rate (m_rate qp) t;
     Some (set_qp q (qp\<lparr>m_rate := r, mlx := (mlx qp)\<lparr>m_targetRate := t\<rparr>\<rparr>) h) }"

definition ActiveIncreaseMlx :: "nat \<Rightarrow> host \<Rightarrow> host option" where
  "ActiveIncreaseMlx q h = increase_mlx (m_rai (hw h)) q h"

definition HyperIncreaseMlx :: "nat \<Rightarrow> host \<Rightarrow> host option" where
  "HyperIncreaseMlx q h = increase_mlx (m_rhai (hw h)) q h"

definition RateIncEventMlx :: "nat \<Rightarrow> host \<Rightarrow> host option" where
  "RateIncEventMlx q h = (let s = m_rpTimeStage (mlx (h_qp h q)); n = m_rpgThreshold (hw h) in
     if s < n then FastRecoveryMlx q h
     else if s = n then ActiveIncreaseMlx q h
     else HyperIncreaseMlx q h)"

definition RateIncEventTimerMlx :: "nat \<Rightarrow> host \<Rightarrow> host option" where
  "RateIncEventTimerMlx q h = do {
     h \<leftarrow> ScheduleRpTimerMlx q h;
     h \<leftarrow> RateIncEventMlx q h;
     let m = mlx (h_qp h q);
     Some (set_mlx q (m\<lparr>m_rpTimeStage := m_rpTimeStage m + 1\<rparr>) h) }"

subsection \<open>The estimate of the congestion\<close>

lemma alpha_mlx_unit:
  assumes "unit_double g" and "unit_double a"
  shows "unit_double (alpha_mlx g b a)"
proof -
  obtain x where x: "g = Fin x" "0 \<le> x" "x \<le> 1" "rnd x = x" by (rule unit_doubleE [OF assms(1)])
  have "dmul g (Fin 1) = g" using x fl_unit [of x] by simp
  then show ?thesis using average_unit [OF assms unit_double_1] by (simp add: alpha_mlx_def)
qed

lemma decrease_factor_unit:
  assumes "unit_double a"
  shows "\<exists>f. decrease_factor a = Fin f \<and> 0 \<le> f \<and> f \<le> 1"
proof -
  obtain y where y: "a = Fin y" "0 \<le> y" "y \<le> 1" by (rule unit_doubleE [OF assms])
  let ?h = "rnd (y / 2)"
  have h: "0 \<le> ?h" "?h \<le> 1" using b64.unit_interval [of "y / 2"] y by auto
  have e: "fl (y / 2) = Fin ?h" using y by (intro fl_unit) simp_all
  show ?thesis
    using b64.unit_interval [of "1 - ?h"] h e y(1) fl_unit [of "1 - ?h"]
    by (simp add: decrease_factor_def dsub_def)
qed

subsection \<open>The rates\<close>

lemma half_rate:
  assumes "uint r \<le> 2 ^ 53"
  shows "dr_scale r (Fin (1 / 2)) = Some (r div 2)"
proof -
  have "fl (u2r r * (1 / 2)) = Fin (u2r r * (1 / 2))"
  proof (rule fl_exact [of _ "uint r" "-1" 53])
    show "u2r r * (1 / 2) = of_int (uint r) * 2 powi - 1" by (simp add: u2r_def power_int_minus)
    show "\<bar>u2r r * (1 / 2)\<bar> \<le> 2 ^ 53" using u2r_le [OF assms] by simp
  qed (use assms in simp_all)
  moreover have "to_u64 (Fin (u2r r * (1 / 2))) = Some (r div 2)"
  proof -
    have f: "\<lfloor>u2r r * (1 / 2)\<rfloor> = uint r div 2"
      by (simp add: u2r_def floor_divide_of_int_eq [of "uint r" 2, simplified])
    have "0 \<le> u2r r * (1 / 2)" "u2r r * (1 / 2) \<le> u2r r" by simp_all
    then obtain v where v: "to_u64 (Fin (u2r r * (1 / 2))) = Some v" "uint v = uint r div 2"
      using to_u64_Fin f by metis
    have "uint (r div 2) = uint r div 2" by (simp add: uint_div)
    then show ?thesis using v by (metis word_uint_eq_iff)
  qed
  ultimately show ?thesis using assms by (simp add: dr_scale_def of_u64_d_exact)
qed

lemma average_rate_bounds:
  assumes "r \<le> c" and "t \<le> c" and "uint c \<le> 2 ^ 53"
  shows "\<exists>a. average_rate r t = Some a \<and> a \<le> c \<and> unat a = unat r div 2 + unat t div 2"
proof -
  have u: "uint r \<le> 2 ^ 53" "uint t \<le> 2 ^ 53" using assms by (simp_all add: word_le_def)
  have n: "unat r \<le> unat c" "unat t \<le> unat c" "unat c < 2 ^ 64"
    using assms(1,2) unat_lt_exp [of c] by (simp_all add: word_le_nat_alt)
  have "unat r div 2 + unat t div 2 < 18446744073709551616" using n(1,2) u64_lt [of c] by linarith
  then have "unat (r div 2 + t div 2) = unat r div 2 + unat t div 2"
    by (subst unat_add_nowrap) (simp_all add: unat_div)
  then show ?thesis
    using n by (auto simp: average_rate_def half_rate [OF u(1)] half_rate [OF u(2)] dr_add_def word_le_nat_alt)
qed

text \<open>What the decisions of DCQCN depend on: the rate, the target rate and the estimate.\<close>

definition mlx_view :: "nat \<Rightarrow> host \<Rightarrow> rate \<times> rate \<times> double" where
  "mlx_view q h = (m_rate (h_qp h q), m_targetRate (mlx (h_qp h q)), mlx_alpha (mlx (h_qp h q)))"

definition least_rate :: "host \<Rightarrow> nat" where
  "least_rate h = 2 * (unat (m_minRate (hw h)) div 2)"

definition mlx_bounds :: "rate \<Rightarrow> nat \<Rightarrow> rate \<times> rate \<times> double \<Rightarrow> bool" where
  "mlx_bounds C lo = (\<lambda>(r, t, a). unit_double a \<and> r \<le> C \<and> t \<le> C \<and> lo \<le> unat r \<and> lo \<le> unat t)"

definition mlx_inv :: "rate \<Rightarrow> nat \<Rightarrow> host \<Rightarrow> bool" where
  "mlx_inv C q h \<longleftrightarrow> mlx_bounds C (least_rate h) (mlx_view q h)"

text \<open>The configuration: the rate of the links is at most \<open>C\<close>, below \<open>2 ^ 53\<close>, and at least the least
  rate; the first notification keeps the rate (the default).\<close>

definition mlx_conf_ok :: "rate \<Rightarrow> host \<Rightarrow> bool" where
  "mlx_conf_ok C h \<longleftrightarrow> unit_double (m_g (hw h)) \<and> m_rateOnFirstCNP (hw h) = Fin 1 \<and> uint C \<le> 2 ^ 53
     \<and> m_minRate (hw h) \<le> C
     \<and> uint (m_rai (hw h)) \<le> 2 ^ 53 \<and> uint (m_rhai (hw h)) \<le> 2 ^ 53
     \<and> (\<forall>i d. m_nic h i = Some d \<longrightarrow> m_minRate (hw h) \<le> nd_bps d \<and> nd_bps d \<le> C)"

text \<open>Setting a timer changes neither the view nor the configuration.\<close>

definition same_mlx :: "nat \<Rightarrow> host \<Rightarrow> host \<Rightarrow> bool" where
  "same_mlx q h h' \<longleftrightarrow> mlx_view q h' = mlx_view q h \<and> hw h' = hw h \<and> m_nic h' = m_nic h"

lemma schedule_set_mlx:
  assumes "h_Schedule d e h = Some (ev, h1)" and "m_targetRate m = m_targetRate (mlx (h_qp h q))"
    and "mlx_alpha m = mlx_alpha (mlx (h_qp h q))"
  shows "same_mlx q h (set_mlx q m h1)"
  by (subst h_Schedule_frame [OF assms(1)]) (simp add: same_mlx_def mlx_view_def set_mlx_def assms(2,3))

lemma timers_same:
  "ScheduleUpdateAlphaMlx q h = Some h' \<Longrightarrow> same_mlx q h h'"
  "ScheduleDecreaseRateMlx q n h = Some h' \<Longrightarrow> same_mlx q h h'"
  "ScheduleRpTimerMlx q h = Some h' \<Longrightarrow> same_mlx q h h'"
proof -
  have mlx: "mlx (h_qp h1 q) = mlx (h_qp h q)" if "h_Schedule d e h = Some (ev, h1)" for d e ev h1
    by (subst h_Schedule_frame [OF that]) simp
  show "ScheduleUpdateAlphaMlx q h = Some h' \<Longrightarrow> same_mlx q h h'"
    "ScheduleDecreaseRateMlx q n h = Some h' \<Longrightarrow> same_mlx q h h'"
    "ScheduleRpTimerMlx q h = Some h' \<Longrightarrow> same_mlx q h h'"
    unfolding ScheduleUpdateAlphaMlx_def ScheduleDecreaseRateMlx_def ScheduleRpTimerMlx_def
    by (auto elim!: bind_eq_SomeE intro!: schedule_set_mlx simp: mlx)
qed

lemma same_mlx_inv: "same_mlx q h h' \<Longrightarrow> mlx_inv C q h \<Longrightarrow> mlx_inv C q h'"
  by (simp add: same_mlx_def mlx_inv_def least_rate_def)

lemma same_mlx_conf: "same_mlx q h h' \<Longrightarrow> mlx_conf_ok C h \<Longrightarrow> mlx_conf_ok C h'"
  by (simp add: same_mlx_def mlx_conf_ok_def)

lemma same_mlx_trans: "same_mlx q h h' \<Longrightarrow> same_mlx q h' h'' \<Longrightarrow> same_mlx q h h''"
  by (simp add: same_mlx_def)

subsection \<open>The handlers keep the bounds\<close>

lemma alpha_step:
  assumes "UpdateAlphaMlx q h = Some h'" and "mlx_conf_ok C h" and "mlx_inv C q h"
  shows "mlx_inv C q h' \<and> mlx_conf_ok C h'"
proof -
  let ?m = "mlx (h_qp h q)"
  let ?h1 = "set_mlx q (?m\<lparr>mlx_alpha := alpha_mlx (m_g (hw h)) (m_alpha_cnp_arrived ?m) (mlx_alpha ?m),
       m_alpha_cnp_arrived := False\<rparr>) h"
  have s: "same_mlx q ?h1 h'" using assms(1) timers_same(1) by (simp add: UpdateAlphaMlx_def Let_def)
  have "mlx_inv C q ?h1"
    using assms(2,3) alpha_mlx_unit
    by (simp add: mlx_inv_def mlx_bounds_def mlx_view_def least_rate_def mlx_conf_ok_def set_mlx_def)
  moreover have "mlx_conf_ok C ?h1" using assms(2) by (simp add: mlx_conf_ok_def set_mlx_def)
  ultimately show ?thesis using same_mlx_inv [OF s] same_mlx_conf [OF s] by blast
qed

lemma dr_scale_1: "uint r \<le> 2 ^ 53 \<Longrightarrow> dr_scale r (Fin 1) = Some r"
  using u2r_le [of r "2 ^ 53"] fl_finite [of "u2r r" 53] by (simp add: dr_scale_def of_u64_d_exact rnd_u2r)

lemma cnp_step:
  assumes "cnp_received_mlx q h = Some h'" and "mlx_conf_ok C h" and "mlx_inv C q h"
  shows "mlx_inv C q h' \<and> mlx_conf_ok C h'"
proof -
  let ?m = "mlx (h_qp h q)"
  let ?h0 = "set_mlx q (?m\<lparr>m_alpha_cnp_arrived := True, m_decrease_cnp_arrived := True\<rparr>) h"
  have i0: "mlx_inv C q ?h0" "mlx_conf_ok C ?h0"
    using assms(2,3) by (simp_all add: mlx_inv_def mlx_view_def least_rate_def mlx_conf_ok_def set_mlx_def)
  show ?thesis
  proof (cases "m_first_cnp ?m")
    case True
    let ?h1 = "set_mlx q ((mlx (h_qp ?h0 q))\<lparr>mlx_alpha := Fin 1, m_alpha_cnp_arrived := False\<rparr>) ?h0"
    from assms(1) True obtain h2 h3 r where
      h2: "ScheduleUpdateAlphaMlx q ?h1 = Some h2" and h3: "ScheduleDecreaseRateMlx q 1 h2 = Some h3"
      and r: "dr_scale (m_rate (h_qp h3 q)) (m_rateOnFirstCNP (hw h3)) = Some r"
      and h': "h' = set_qp q ((h_qp h3 q)\<lparr>m_rate := r,
           mlx := (mlx (h_qp h3 q))\<lparr>m_targetRate := r, m_first_cnp := False\<rparr>\<rparr>) h3"
      by (auto simp: cnp_received_mlx_def Let_def elim!: bind_eq_SomeE)
    have i1: "mlx_inv C q ?h1" "mlx_conf_ok C ?h1"
      using i0 unit_double_1
      by (simp_all add: mlx_inv_def mlx_bounds_def mlx_view_def least_rate_def mlx_conf_ok_def set_mlx_def)
    have s: "same_mlx q ?h1 h3" by (rule same_mlx_trans [OF timers_same(1) [OF h2] timers_same(2) [OF h3]])
    have i3: "mlx_inv C q h3" "mlx_conf_ok C h3" using same_mlx_inv [OF s] same_mlx_conf [OF s] i1 by blast+
    have "m_rate (h_qp h3 q) \<le> C" "uint C \<le> 2 ^ 53"
      using i3 by (auto simp: mlx_inv_def mlx_bounds_def mlx_view_def mlx_conf_ok_def)
    then have "uint (m_rate (h_qp h3 q)) \<le> 2 ^ 53" by (simp add: word_le_def)
    then have "r = m_rate (h_qp h3 q)" using r i3(2) dr_scale_1 by (simp add: mlx_conf_ok_def)
    then show ?thesis
      using i3 by (simp add: h' mlx_inv_def mlx_bounds_def mlx_view_def least_rate_def mlx_conf_ok_def)
  next
    case False
    then show ?thesis using assms(1) i0 by (simp add: cnp_received_mlx_def Let_def)
  qed
qed

lemma least_rate_le: "m_minRate (hw h) \<le> r \<Longrightarrow> least_rate h \<le> unat r"
  by (simp add: least_rate_def word_le_nat_alt)

lemma decrease_step:
  assumes "CheckRateDecreaseMlx q h = Some h'" and "mlx_conf_ok C h" and "mlx_inv C q h"
  shows "mlx_inv C q h' \<and> mlx_conf_ok C h'"
proof -
  from assms(1) obtain h1 where h1: "ScheduleDecreaseRateMlx q 0 h = Some h1"
    by (auto simp: CheckRateDecreaseMlx_def elim!: bind_eq_SomeE)
  note s1 = timers_same(2) [OF h1]
  have i1: "mlx_inv C q h1" "mlx_conf_ok C h1" using same_mlx_inv [OF s1] same_mlx_conf [OF s1] assms by blast+
  show ?thesis
  proof (cases "m_decrease_cnp_arrived (mlx (h_qp h1 q))")
    case True
    let ?qp = "h_qp h1 q" and ?m0 = "mlx (h_qp h1 q)"
    let ?m = "if m_EcnClampTgtRate (hw h1) \<or> m_rpTimeStage ?m0 \<noteq> 0 then ?m0\<lparr>m_targetRate := m_rate ?qp\<rparr> else ?m0"
    let ?h2 = "\<lambda>r. set_qp q (?qp\<lparr>m_rate := max (m_minRate (hw h1)) r,
         mlx := ?m\<lparr>m_rpTimeStage := 0, m_decrease_cnp_arrived := False\<rparr>\<rparr>) h1"
    from assms(1) True h1 obtain r where r: "dr_scale (m_rate ?qp) (decrease_factor (mlx_alpha ?m)) = Some r"
      and h': "ScheduleRpTimerMlx q (h_Cancel (m_rpTimer ?m) (?h2 r)) = Some h'"
      unfolding CheckRateDecreaseMlx_def Let_def by (auto elim!: bind_eq_SomeE)
    have a: "mlx_alpha ?m = mlx_alpha ?m0" by simp
    have b: "unit_double (mlx_alpha ?m0)" "m_rate ?qp \<le> C" "m_targetRate ?m0 \<le> C"
      "least_rate h1 \<le> unat (m_rate ?qp)" "least_rate h1 \<le> unat (m_targetRate ?m0)" "uint C \<le> 2 ^ 53"
      "m_minRate (hw h1) \<le> C"
      using i1 by (auto simp: mlx_inv_def mlx_bounds_def mlx_view_def mlx_conf_ok_def)
    obtain f where f: "decrease_factor (mlx_alpha ?m0) = Fin f" "0 \<le> f" "f \<le> 1"
      using decrease_factor_unit [OF b(1)] by blast
    have "uint (m_rate ?qp) \<le> 2 ^ 53" using b(2,6) by (simp add: word_le_def)
    then have "r \<le> m_rate ?qp" using to_u64_scale_down [OF _ f(2,3)] r f(1) a by (fastforce simp: dr_scale_def)
    then have rc: "r \<le> C" using b(2) by order
    have "mlx_inv C q (?h2 r)"
      using b rc least_rate_le [of h1 "max (m_minRate (hw h1)) r"]
      by (simp add: mlx_inv_def mlx_bounds_def mlx_view_def least_rate_def)
    then have "mlx_inv C q (h_Cancel (m_rpTimer ?m) (?h2 r))"
      by (simp add: mlx_inv_def mlx_view_def least_rate_def)
    moreover have "mlx_conf_ok C (h_Cancel (m_rpTimer ?m) (?h2 r))" using i1(2) by (simp add: mlx_conf_ok_def)
    ultimately show ?thesis using same_mlx_inv same_mlx_conf timers_same(3) [OF h'] by blast
  next
    case False
    then show ?thesis using assms(1) h1 i1 by (simp add: CheckRateDecreaseMlx_def)
  qed
qed

lemma average_inv:
  assumes "mlx_conf_ok C h" and "r \<le> C" and "t \<le> C" and "least_rate h \<le> unat r" and "least_rate h \<le> unat t"
    and "average_rate r t = Some a"
  shows "a \<le> C \<and> least_rate h \<le> unat a"
proof -
  have "uint C \<le> 2 ^ 53" using assms(1) by (simp add: mlx_conf_ok_def)
  from average_rate_bounds [OF assms(2,3) this] assms(6)
  have a: "a \<le> C" "unat a = unat r div 2 + unat t div 2" by auto
  have "unat (m_minRate (hw h)) div 2 \<le> unat r div 2" "unat (m_minRate (hw h)) div 2 \<le> unat t div 2"
    using assms(4,5) by (simp_all add: least_rate_def)
  then show ?thesis using a unfolding least_rate_def by linarith
qed

lemma increase_step:
  assumes "increase_mlx step q h = Some h'" and "mlx_conf_ok C h" and "mlx_inv C q h" and "uint step \<le> 2 ^ 53"
  shows "mlx_inv C q h' \<and> mlx_conf_ok C h'"
proof -
  let ?qp = "h_qp h q" and ?t0 = "dr_add (m_targetRate (mlx (h_qp h q))) step"
  from assms(1) obtain i dev where dev: "m_nic h i = Some dev"
    and "(let t = if ?t0 > nd_bps dev then nd_bps dev else ?t0 in do { r \<leftarrow> average_rate (m_rate ?qp) t;
        Some (set_qp q (?qp\<lparr>m_rate := r, mlx := (mlx ?qp)\<lparr>m_targetRate := t\<rparr>\<rparr>) h) }) = Some h'"
    by (auto simp: increase_mlx_def Let_def elim!: bind_eq_SomeE)
  then obtain t r where t: "t = (if ?t0 > nd_bps dev then nd_bps dev else ?t0)"
    and r: "average_rate (m_rate ?qp) t = Some r"
    and h': "h' = set_qp q (?qp\<lparr>m_rate := r, mlx := (mlx ?qp)\<lparr>m_targetRate := t\<rparr>\<rparr>) h"
    by (auto simp: Let_def elim!: bind_eq_SomeE)
  have b: "unit_double (mlx_alpha (mlx ?qp))" "m_rate ?qp \<le> C" "m_targetRate (mlx ?qp) \<le> C"
    "least_rate h \<le> unat (m_rate ?qp)" "least_rate h \<le> unat (m_targetRate (mlx ?qp))" "uint C \<le> 2 ^ 53"
    using assms(2,3) by (auto simp: mlx_inv_def mlx_bounds_def mlx_view_def mlx_conf_ok_def)
  have nd: "m_minRate (hw h) \<le> nd_bps dev" "nd_bps dev \<le> C" using assms(2) dev by (auto simp: mlx_conf_ok_def)
  have "unat C \<le> 9007199254740992" "unat step \<le> 9007199254740992"
    using b(6) assms(4) by (auto intro: unat_le_of_uint)
  moreover have "unat (m_targetRate (mlx ?qp)) \<le> unat C" using b(3) by (simp only: word_le_nat_alt)
  ultimately have "unat (m_targetRate (mlx ?qp)) + unat step < 2 ^ LENGTH(64)" by simp
  then have "unat ?t0 = unat (m_targetRate (mlx ?qp)) + unat step"
    unfolding dr_add_def by (rule unat_add_nowrap)
  then have tb: "t \<le> C" "least_rate h \<le> unat t"
    using t nd least_rate_le [OF nd(1)] b(5) by (auto simp: not_less)
  show ?thesis
    using average_inv [OF assms(2) b(2) tb(1) b(4) tb(2) r] b tb assms(2)
    by (simp add: h' mlx_inv_def mlx_bounds_def mlx_view_def least_rate_def mlx_conf_ok_def)
qed

lemma timer_step:
  assumes "RateIncEventTimerMlx q h = Some h'" and "mlx_conf_ok C h" and "mlx_inv C q h"
  shows "mlx_inv C q h' \<and> mlx_conf_ok C h'"
proof -
  from assms(1) obtain h1 h2 where h1: "ScheduleRpTimerMlx q h = Some h1" and h2: "RateIncEventMlx q h1 = Some h2"
    and h': "h' = set_mlx q ((mlx (h_qp h2 q))\<lparr>m_rpTimeStage := m_rpTimeStage (mlx (h_qp h2 q)) + 1\<rparr>) h2"
    by (auto simp: RateIncEventTimerMlx_def Let_def elim!: bind_eq_SomeE)
  note s = timers_same(3) [OF h1]
  have i: "mlx_inv C q h1" "mlx_conf_ok C h1" using same_mlx_inv [OF s] same_mlx_conf [OF s] assms by blast+
  have rai: "uint (m_rai (hw h1)) \<le> 2 ^ 53" "uint (m_rhai (hw h1)) \<le> 2 ^ 53"
    using i(2) by (auto simp: mlx_conf_ok_def)
  have "mlx_inv C q h2 \<and> mlx_conf_ok C h2"
  proof -
    consider (fast) "FastRecoveryMlx q h1 = Some h2" | (act) "increase_mlx (m_rai (hw h1)) q h1 = Some h2"
      | (hyp) "increase_mlx (m_rhai (hw h1)) q h1 = Some h2"
      using h2 by (auto simp: RateIncEventMlx_def ActiveIncreaseMlx_def HyperIncreaseMlx_def Let_def split: if_splits)
    then show ?thesis
    proof cases
      case fast
      then obtain r where r: "average_rate (m_rate (h_qp h1 q)) (m_targetRate (mlx (h_qp h1 q))) = Some r"
        and e: "h2 = set_qp q ((h_qp h1 q)\<lparr>m_rate := r\<rparr>) h1"
        by (auto simp: FastRecoveryMlx_def Let_def elim!: bind_eq_SomeE)
      have b: "m_rate (h_qp h1 q) \<le> C" "m_targetRate (mlx (h_qp h1 q)) \<le> C"
        "least_rate h1 \<le> unat (m_rate (h_qp h1 q))" "least_rate h1 \<le> unat (m_targetRate (mlx (h_qp h1 q)))"
        using i by (auto simp: mlx_inv_def mlx_bounds_def mlx_view_def)
      show ?thesis
        using average_inv [OF i(2) b r] i
        by (simp add: e mlx_inv_def mlx_bounds_def mlx_view_def least_rate_def mlx_conf_ok_def)
    next
      case act
      then show ?thesis using increase_step i rai by blast
    next
      case hyp
      then show ?thesis using increase_step i rai by blast
    qed
  qed
  then show ?thesis
    by (simp add: h' mlx_inv_def mlx_view_def least_rate_def mlx_conf_ok_def set_mlx_def)
qed

subsection \<open>All executions\<close>

text \<open>The life of a flow under DCQCN: its four handlers in any order, and anything else the host does
  that leaves its rate, its target rate and its estimate alone.\<close>

inductive mlx_run :: "nat \<Rightarrow> host \<Rightarrow> host \<Rightarrow> bool" for q where
  Begin: "mlx_run q h h"
| Cnp: "mlx_run q h h' \<Longrightarrow> cnp_received_mlx q h' = Some h'' \<Longrightarrow> mlx_run q h h''"
| Alpha: "mlx_run q h h' \<Longrightarrow> UpdateAlphaMlx q h' = Some h'' \<Longrightarrow> mlx_run q h h''"
| Decrease: "mlx_run q h h' \<Longrightarrow> CheckRateDecreaseMlx q h' = Some h'' \<Longrightarrow> mlx_run q h h''"
| Increase: "mlx_run q h h' \<Longrightarrow> RateIncEventTimerMlx q h' = Some h'' \<Longrightarrow> mlx_run q h h''"
| Other: "mlx_run q h h' \<Longrightarrow> mlx_view q h'' = mlx_view q h' \<Longrightarrow> hw h'' = hw h'
    \<Longrightarrow> (\<And>i d. m_nic h'' i = Some d \<Longrightarrow> \<exists>d'. m_nic h' i = Some d' \<and> nd_bps d' = nd_bps d) \<Longrightarrow> mlx_run q h h''"

lemma mlx_run_inv:
  "mlx_run q h h' \<Longrightarrow> mlx_conf_ok C h \<Longrightarrow> mlx_inv C q h \<Longrightarrow> mlx_inv C q h' \<and> mlx_conf_ok C h'"
proof (induction rule: mlx_run.induct)
  case (Other h h' h'')
  then have i: "mlx_inv C q h'" "mlx_conf_ok C h'" by blast+
  have "\<exists>d'. m_nic h' i = Some d' \<and> nd_bps d' = nd_bps d" if "m_nic h'' i = Some d" for i d
    using Other.hyps(4) [OF that] .
  then have "mlx_conf_ok C h''" using i(2) Other.hyps(3) unfolding mlx_conf_ok_def by metis
  then show ?case using i Other.hyps(2,3) by (simp add: mlx_inv_def least_rate_def)
qed (use cnp_step alpha_step decrease_step timer_step in blast)+

text \<open>C19: whatever the order of its notifications and timers, under DCQCN the estimate of the
  congestion stays between 0 and 1 in IEEE arithmetic, the rate and the target rate never exceed the
  rate of the link and never fall below the least rate, up to one bit per second that the halving of
  an odd rate loses.\<close>

theorem dcqcn_bounds:
  assumes "mlx_run q h h'" and "mlx_conf_ok C h" and "mlx_inv C q h"
  shows "unit_double (mlx_alpha (mlx (h_qp h' q))) \<and> m_rate (h_qp h' q) \<le> C
    \<and> m_targetRate (mlx (h_qp h' q)) \<le> C
    \<and> unat (m_minRate (hw h')) \<le> unat (m_rate (h_qp h' q)) + 1
    \<and> unat (m_minRate (hw h')) \<le> unat (m_targetRate (mlx (h_qp h' q))) + 1"
proof -
  have "mlx_inv C q h'" using mlx_run_inv [OF assms] by blast
  then have b: "unit_double (mlx_alpha (mlx (h_qp h' q)))" "m_rate (h_qp h' q) \<le> C"
    "m_targetRate (mlx (h_qp h' q)) \<le> C" "least_rate h' \<le> unat (m_rate (h_qp h' q))"
    "least_rate h' \<le> unat (m_targetRate (mlx (h_qp h' q)))"
    by (auto simp: mlx_inv_def mlx_bounds_def mlx_view_def)
  have "unat (m_minRate (hw h')) \<le> least_rate h' + 1" unfolding least_rate_def by linarith
  then show ?thesis using b by linarith
qed

subsection \<open>Witness\<close>

definition demo_mlx_host :: host where
  "demo_mlx_host = (demo_host [1])\<lparr>hw := demo_hw\<lparr>m_cc_mode := 1\<rparr>,
     h_qp := (\<lambda>_. demo_qp1\<lparr>mlx := (mlx demo_qp1)\<lparr>m_targetRate := 100000000000, m_first_cnp := False\<rparr>\<rparr>)\<rparr>"

lemma demo_mlx_ok: "mlx_conf_ok 100000000000 demo_mlx_host" "mlx_inv 100000000000 1 demo_mlx_host"
proof -
  have "rnd (1 / 16) = 1 / 16" using rnd_exact [of 1 "-4"] by (simp add: power_int_minus)
  then show "mlx_conf_ok 100000000000 demo_mlx_host"
    by (simp add: mlx_conf_ok_def demo_mlx_host_def demo_hw_def unit_double_def demo_host_def demo_nic_def)
  show "mlx_inv 100000000000 1 demo_mlx_host"
    by (simp add: mlx_inv_def mlx_bounds_def mlx_view_def least_rate_def demo_mlx_host_def demo_host_defs
        demo_hw_def unit_double_1)
qed

lemma dcqcn_bounds_witness:
  "\<exists>h'. cnp_received_mlx 1 demo_mlx_host = Some h' \<and> m_rate (h_qp h' 1) \<le> 100000000000"
proof -
  have "cnp_received_mlx 1 demo_mlx_host \<noteq> None"
    by (simp add: cnp_received_mlx_def demo_mlx_host_def demo_host_defs Let_def)
  then obtain h' where h': "cnp_received_mlx 1 demo_mlx_host = Some h'" by blast
  have "mlx_run 1 demo_mlx_host h'" by (rule mlx_run.Cnp [OF mlx_run.Begin h'])
  then show ?thesis using dcqcn_bounds [OF _ demo_mlx_ok] h' by blast
qed

end
