(* ===== verification/Cc_Hpcc.thy ===== *)
theory Cc_Hpcc
  imports Rdma_Host
begin

text \<open>
  HPCC and its variants (\<^verbatim>\<open>rdma-hw.cc\<close>, modes 3, 12 and 13): the estimate of the utilization from the
  telemetry of an ACK, the update of the rate in the single-rate mode with the multi-bottleneck
  corrections (\<^verbatim>\<open>m_mbMode\<close> 0 to 5), the virtual fair rate (\<^verbatim>\<open>m_mbMode\<close> 6), the multi-rate mode, and
  PowerTCP. \<^verbatim>\<open>pow\<close> is an argument. The contract of a rate controller is the locale
  \<open>bounded_control\<close>; the lemmas show that every update leaves a rate between the least rate and the
  rate of the link, and that a congested path never raises a rate by more than the increment.
\<close>

type_synonym pow_fun = "double \<Rightarrow> double \<Rightarrow> double"

definition ack_hop :: "qbbHeader \<Rightarrow> nat \<Rightarrow> IntHop" where
  "ack_hop ack i = hop (qbb_ih ack) ! i"

definition ack_nhop :: "qbbHeader \<Rightarrow> nat" where
  "ack_nhop ack = unat (nhop (qbb_ih ack))"

definition set_hp :: "nat \<Rightarrow> hp_state \<Rightarrow> host \<Rightarrow> host" where
  "set_hp q s h = set_qp q ((h_qp h q)\<lparr>hp := s\<rparr>) h"

text \<open>The clamping that every controller ends with.\<close>

definition clamp_rate :: "rate \<Rightarrow> rate \<Rightarrow> rate \<Rightarrow> rate" where
  "clamp_rate lo hi r = (let r = (if r < lo then lo else r) in if r > hi then hi else r)"

subsection \<open>The utilization of the hops\<close>

record hp_scan =
  sc_U :: double
  sc_dt :: u64
  sc_k :: u32
  sc_sum_u :: double
  sc_btl_txrate :: double
  sc_updated :: "nat \<Rightarrow> bool"
  sc_updated_any :: bool
  sc_hp :: hp_state

definition hop_txRate :: "int_conf \<Rightarrow> IntHop \<Rightarrow> IntHop \<Rightarrow> u64 \<Rightarrow> double" where
  "hop_txRate c new old tau = ddiv (of_u64_d (GetBytesDelta c new old * 8)) (dmul (of_u64_d tau) (lit (1 / 10 ^ 9)))"

definition hop_utilization :: "int_conf \<Rightarrow> RdmaQueuePair \<Rightarrow> IntHop \<Rightarrow> IntHop \<Rightarrow> double \<Rightarrow> double" where
  "hop_utilization c qp new old txRate =
     dadd (ddiv txRate (of_u64_d (GetLineRate new)))
       (ddiv (ddiv (dmul (of_u32_d (min (GetQlen c new) (GetQlen c old))) (of_u64_d (m_max_rate qp)))
         (of_u64_d (GetLineRate new))) (of_u32_d (m_win qp)))"

text \<open>The moving average over one base RTT.\<close>

definition ewma :: "u64 \<Rightarrow> u64 \<Rightarrow> double \<Rightarrow> double \<Rightarrow> double" where
  "ewma baseRtt dt old new =
     ddiv (dadd (dmul old (of_u64_d (baseRtt - dt))) (dmul new (of_u64_d dt))) (of_u64_d baseRtt)"

definition scan_hop :: "RdmaHw_conf \<Rightarrow> RdmaQueuePair \<Rightarrow> qbbHeader \<Rightarrow> bool \<Rightarrow> nat \<Rightarrow> hp_scan \<Rightarrow> hp_scan" where
  "scan_hop c qp ack fast_react i s =
     (let new = ack_hop ack i; old = hp_hop (sc_hp s) i; ic = hw_int c in
      if m_sampleFeedback c \<and> GetQlen ic new = 0 \<and> fast_react then s
      else
        let tau = GetTimeDelta new old;
            txRate = hop_txRate ic new old tau;
            u = hop_utilization ic qp new old txRate;
            s = s\<lparr>sc_updated := (sc_updated s)(i := True), sc_updated_any := True\<rparr>;
            s = (if dle (m_targetUtil c) u then s\<lparr>sc_k := sc_k s + 1, sc_sum_u := dadd (sc_sum_u s) u\<rparr> else s);
            s = (if \<not> m_multipleRate c
                 then (if dless (sc_U s) u then s\<lparr>sc_U := u, sc_dt := tau, sc_btl_txrate := txRate\<rparr> else s)
                 else let tau = (if tau > m_baseRtt qp then m_baseRtt qp else tau); hs = hp_hopState (sc_hp s) i
                      in s\<lparr>sc_hp := (sc_hp s)\<lparr>hp_hopState := (hp_hopState (sc_hp s))
                           (i := hs\<lparr>hs_u := ewma (m_baseRtt qp) tau (hs_u hs) u\<rparr>)\<rparr>\<rparr>)
        in s\<lparr>sc_hp := (sc_hp s)\<lparr>hp_hop := (hp_hop (sc_hp s))(i := new)\<rparr>\<rparr>)"

definition scan_hops :: "RdmaHw_conf \<Rightarrow> RdmaQueuePair \<Rightarrow> qbbHeader \<Rightarrow> bool \<Rightarrow> hp_scan" where
  "scan_hops c qp ack fast_react =
     fold (scan_hop c qp ack fast_react) [0..<ack_nhop ack]
       \<lparr>sc_U = Fin 0, sc_dt = 0, sc_k = 0, sc_sum_u = Fin 0, sc_btl_txrate = Fin 0, sc_updated = (\<lambda>_. False),
        sc_updated_any = False, sc_hp = hp qp\<rparr>"

subsection \<open>One rate for the path\<close>

text \<open>The share of the flow at its bottleneck, between 0 and 1.\<close>

definition flow_share :: "rate \<Rightarrow> double \<Rightarrow> double" where
  "flow_share cur txrate = (let share = ddiv (of_u64_d cur) txrate;
     share = (if dless (Fin 1) share then Fin 1 else share) in if dless share (Fin 0) then Fin 0 else share)"

definition ai_eff :: "RdmaHw_conf \<Rightarrow> rate \<Rightarrow> u32 \<Rightarrow> double \<Rightarrow> double \<Rightarrow> rate option" where
  "ai_eff c cur k max_c txrate =
     (if m_mbMode c = 1 \<and> k \<ge> 2 then
        to_u64 (dmul (dmul (m_mbGamma c) (of_u32_d k)) (of_u64_d (m_rai c)))
      else if m_mbMode c = 5 \<and> dle (Fin 1) max_c \<and> dless (Fin 0) txrate then
        let f5 = dmul (dmul (Fin 2) (dsub (Fin 1) (flow_share cur txrate))) (m_mbGamma c);
            f5 = (if dless f5 (Fin 0) then Fin 0 else f5)
        in to_u64 (dmul f5 (of_u64_d (m_rai c)))
      else Some (m_rai c))"

definition md_factor :: "pow_fun \<Rightarrow> RdmaHw_conf \<Rightarrow> rate \<Rightarrow> u32 \<Rightarrow> double \<Rightarrow> double \<Rightarrow> double" where
  "md_factor pow c cur k max_c txrate =
     (if m_mbMode c = 3 \<and> k \<ge> 2 \<and> dle (Fin 1) max_c \<and> dless (Fin 0) txrate then
        dsub (Fin 1) (dmul (flow_share cur txrate) (dsub (Fin 1) (ddiv (Fin 1) max_c)))
      else if m_mbMode c = 4 \<and> k \<ge> 2 \<and> dle (Fin 1) max_c then
        pow (ddiv (Fin 1) max_c) (ddiv (Fin 1) (of_u32_d k))
      else ddiv (Fin 1) max_c)"

text \<open>The rule: multiply and add when congested or after \<^verbatim>\<open>m_miThresh\<close> additive steps, else add.\<close>

definition hp_rule :: "RdmaHw_conf \<Rightarrow> rate \<Rightarrow> u32 \<Rightarrow> double \<Rightarrow> double \<Rightarrow> rate \<Rightarrow> rate \<Rightarrow> (rate \<times> u32) option" where
  "hp_rule c cur incStage max_c factor ai hi = do {
     (r, st) \<leftarrow> (if dle (Fin 1) max_c \<or> incStage \<ge> m_miThresh c
        then do { m \<leftarrow> dr_scale cur factor; Some (dr_add m ai, 0) }
        else Some (dr_add cur ai, incStage + 1));
     Some (clamp_rate (m_minRate c) hi r, st) }"

text \<open>The observation window is at most one base RTT; mode 2 blends the greatest utilization with the mean
  of the congested hops.\<close>

definition window_dt :: "RdmaQueuePair \<Rightarrow> u64 \<Rightarrow> u64" where
  "window_dt qp dt = (if dt > m_baseRtt qp then m_baseRtt qp else dt)"

definition sampled_U :: "RdmaHw_conf \<Rightarrow> hp_scan \<Rightarrow> double" where
  "sampled_U c s =
     (if m_mbMode c = 2 \<and> sc_k s \<ge> 2
      then dadd (dmul (dsub (Fin 1) (m_mbGamma c)) (sc_U s)) (dmul (m_mbGamma c) (ddiv (sc_sum_u s) (of_u32_d (sc_k s))))
      else sc_U s)"

definition hp_single :: "pow_fun \<Rightarrow> RdmaHw_conf \<Rightarrow> RdmaQueuePair \<Rightarrow> hp_scan \<Rightarrow> (rate \<times> u32 \<times> hp_state) option" where
  "hp_single pow c qp s = do {
     let st = (sc_hp s)\<lparr>hp_u := ewma (m_baseRtt qp) (window_dt qp (sc_dt s)) (hp_u (sc_hp s)) (sampled_U c s)\<rparr>;
     let max_c = ddiv (hp_u st) (m_targetUtil c);
     ai \<leftarrow> ai_eff c (hp_curRate st) (sc_k s) max_c (sc_btl_txrate s);
     let factor = md_factor pow c (hp_curRate st) (sc_k s) max_c (sc_btl_txrate s);
     (new_rate, new_incStage) \<leftarrow> hp_rule c (hp_curRate st) (hp_incStage st) max_c factor ai (m_max_rate qp);
     Some (new_rate, new_incStage, st) }"

subsection \<open>One rate per hop\<close>

text \<open>The new rate of a hop and its stage; the rate of the path is the least one.\<close>

definition hop_rule :: "RdmaHw_conf \<Rightarrow> RdmaQueuePair \<Rightarrow> hop_state \<Rightarrow> (rate \<times> u32) option" where
  "hop_rule c qp hs = (let cc = ddiv (hs_u hs) (m_targetUtil c) in
     hp_rule c (hs_Rc hs) (hs_incStage hs) cc (ddiv (Fin 1) cc) (m_rai c) (m_max_rate qp))"

fun hp_multi :: "RdmaHw_conf \<Rightarrow> RdmaQueuePair \<Rightarrow> hp_scan \<Rightarrow> nat list \<Rightarrow> rate \<Rightarrow> (nat \<Rightarrow> rate \<times> u32)
    \<Rightarrow> (rate \<times> (nat \<Rightarrow> rate \<times> u32)) option" where
  "hp_multi c qp s [] new_rate per_hop = Some (new_rate, per_hop)"
| "hp_multi c qp s (i # is) new_rate per_hop = (let hs = hp_hopState (sc_hp s) i in
     if sc_updated s i then do {
       (r, st) \<leftarrow> hop_rule c qp hs;
       hp_multi c qp s is (if r < new_rate then r else new_rate) (per_hop(i := (r, st))) }
     else hp_multi c qp s is (if hs_Rc hs < new_rate then hs_Rc hs else new_rate) per_hop)"

definition commit_hops :: "hp_scan \<Rightarrow> (nat \<Rightarrow> rate \<times> u32) \<Rightarrow> nat \<Rightarrow> (nat \<Rightarrow> hop_state) \<Rightarrow> nat \<Rightarrow> hop_state" where
  "commit_hops s per_hop n st i =
     (if i < n \<and> sc_updated s i then (st i)\<lparr>hs_Rc := fst (per_hop i), hs_incStage := snd (per_hop i)\<rparr> else st i)"

subsection \<open>The virtual fair rate\<close>

definition virtual_rcp :: "int_conf \<Rightarrow> u64 \<Rightarrow> IntHop \<Rightarrow> IntHop \<Rightarrow> double \<Rightarrow> double" where
  "virtual_rcp c baseRtt new snap R =
     (let C = of_u64_d (GetLineRate new); tau = GetTimeDelta new snap in
      if tau > 0 then
        let y = ddiv (dmul (of_u64_d (GetBytesDelta c new snap)) (Fin 8)) (dmul (of_u64_d tau) (lit (1 / 10 ^ 9)));
            q8 = dmul (of_u32_d (GetQlen c new)) (Fin 8);
            ds = dmul (of_u64_d baseRtt) (lit (1 / 10 ^ 9));
            ratio = ddiv (dsub (dmul (lit (4 / 10)) (dsub C y)) (ddiv (dmul (lit (226 / 1000)) q8) ds)) C;
            Rn = dmul R (dadd (Fin 1) ratio);
            Rn = (if dless Rn (Fin 1000000) then Fin 1000000 else Rn)
        in if dless C Rn then C else Rn
      else R)"

definition virtual_hop :: "int_conf \<Rightarrow> u64 \<Rightarrow> u64 \<Rightarrow> qbbHeader \<Rightarrow> nat \<Rightarrow> hp_state \<times> double \<Rightarrow> hp_state \<times> double" where
  "virtual_hop c now baseRtt ack i = (\<lambda>(s, minR).
     let new = ack_hop ack i;
         s = (if dle (hp_vR s i) (Fin 0) then
                s\<lparr>hp_vR := (hp_vR s)(i := dmul (of_u64_d (GetLineRate new)) (Fin (1 / 2))),
                  hp_vLastTs := (hp_vLastTs s)(i := now), hp_vSnap := (hp_vSnap s)(i := new)\<rparr>
              else if now - hp_vLastTs s i \<ge> baseRtt then
                s\<lparr>hp_vR := (hp_vR s)(i := virtual_rcp c baseRtt new (hp_vSnap s i) (hp_vR s i)),
                  hp_vLastTs := (hp_vLastTs s)(i := now), hp_vSnap := (hp_vSnap s)(i := new)\<rparr>
              else s);
         minR = (if dless minR (Fin 0) \<or> dless (hp_vR s i) minR then hp_vR s i else minR)
     in (s\<lparr>hp_hop := (hp_hop s)(i := new)\<rparr>, minR))"

definition UpdateRateHp_virtual :: "nat \<Rightarrow> qbbHeader \<Rightarrow> bool \<Rightarrow> host \<Rightarrow> host option" where
  "UpdateRateHp_virtual q ack fast_react h = do {
     let qp = h_qp h q;
     let next_seq = ucast (snd_nxt qp);
     guard (ack_nhop ack \<le> maxHop);
     let (s, minR) = fold (virtual_hop (hw_int (hw h)) (of_int (h_now h)) (m_baseRtt qp) ack) [0..<ack_nhop ack]
                       (hp qp, Fin (-1));
     let h = set_hp q s h;
     h \<leftarrow> (if dless (Fin 0) minR then do {
            r \<leftarrow> to_u64 minR;
            let r = clamp_rate (m_minRate (hw h)) (m_max_rate qp) r;
            ChangeRate q r (set_hp q (s\<lparr>hp_curRate := r\<rparr>) h) }
          else Some h);
     Some (if fast_react then h else set_hp q ((hp (h_qp h q))\<lparr>hp_lastUpdateSeq := next_seq\<rparr>) h) }"

subsection \<open>The update of the rate\<close>

text \<open>The first ACK only stores the telemetry.\<close>

definition UpdateRateHp_first :: "nat \<Rightarrow> qbbHeader \<Rightarrow> host \<Rightarrow> host option" where
  "UpdateRateHp_first q ack h = do {
     guard (ack_nhop ack \<le> maxHop);
     let qp = h_qp h q;
     let s = hp qp;
     Some (set_hp q (s\<lparr>hp_lastUpdateSeq := ucast (snd_nxt qp),
       hp_hop := (\<lambda>i. if i < ack_nhop ack then ack_hop ack i else hp_hop s i)\<rparr>) h) }"

text \<open>The new rate; the stage of the path, which the multi-rate mode leaves uninitialised (\<open>junk\<close>); the
  rates of the hops.\<close>

definition hp_new_rate :: "pow_fun \<Rightarrow> u32 \<Rightarrow> RdmaHw_conf \<Rightarrow> RdmaQueuePair \<Rightarrow> qbbHeader \<Rightarrow> hp_scan
    \<Rightarrow> (rate \<times> u32 \<times> hp_state \<times> (nat \<Rightarrow> rate \<times> u32)) option" where
  "hp_new_rate pow junk c qp ack s =
     (if \<not> m_multipleRate c then
        (if sc_updated_any s then do { (r, st, s') \<leftarrow> hp_single pow c qp s; Some (r, st, s', \<lambda>_. (0, junk)) }
         else Some (0, junk, sc_hp s, \<lambda>_. (0, junk)))
      else do {
        (r, per_hop) \<leftarrow> hp_multi c qp s [0..<ack_nhop ack] (m_max_rate qp) (\<lambda>_. (0, junk));
        Some (r, junk, sc_hp s, per_hop) })"

definition UpdateRateHp_deltas :: "pow_fun \<Rightarrow> u32 \<Rightarrow> nat \<Rightarrow> qbbHeader \<Rightarrow> bool \<Rightarrow> host \<Rightarrow> host option" where
  "UpdateRateHp_deltas pow junk q ack fast_react h = do {
     let c = hw h;
     let qp = h_qp h q;
     let s = scan_hops c qp ack fast_react;
     (new_rate, new_incStage, s', per_hop) \<leftarrow> hp_new_rate pow junk c qp ack s;
     let h = set_hp q s' h;
     h \<leftarrow> (if sc_updated_any s then ChangeRate q new_rate h else Some h);
     Some (if fast_react then h else
       (let s1 = hp (h_qp h q);
            s1 = (if sc_updated_any s then s1\<lparr>hp_curRate := new_rate, hp_incStage := new_incStage\<rparr> else s1);
            s1 = (if m_multipleRate c
                  then s1\<lparr>hp_hopState := commit_hops s per_hop (ack_nhop ack) (hp_hopState s1)\<rparr> else s1)
        in set_hp q s1 h)) }"

definition UpdateRateHp :: "pow_fun \<Rightarrow> u32 \<Rightarrow> nat \<Rightarrow> qbbHeader \<Rightarrow> bool \<Rightarrow> host \<Rightarrow> host option" where
  "UpdateRateHp pow junk q ack fast_react h = (let next_seq = ucast (snd_nxt (h_qp h q)) in
     if hp_lastUpdateSeq (hp (h_qp h q)) = 0 then UpdateRateHp_first q ack h
     else if m_mbMode (hw h) = 6 then UpdateRateHp_virtual q ack fast_react h
     else do {
       h \<leftarrow> (if ack_nhop ack \<le> maxHop then UpdateRateHp_deltas pow junk q ack fast_react h else Some h);
       let s = hp (h_qp h q);
       Some (if \<not> fast_react \<and> next_seq > hp_lastUpdateSeq s
             then set_hp q (s\<lparr>hp_lastUpdateSeq := next_seq\<rparr>) h else h) })"

definition FastReactHp :: "pow_fun \<Rightarrow> u32 \<Rightarrow> nat \<Rightarrow> qbbHeader \<Rightarrow> host \<Rightarrow> host option" where
  "FastReactHp pow junk q ack h = (if m_fast_react (hw h) then UpdateRateHp pow junk q ack True h else Some h)"

definition HandleAckHp :: "pow_fun \<Rightarrow> u32 \<Rightarrow> nat \<Rightarrow> qbbHeader \<Rightarrow> host \<Rightarrow> host option" where
  "HandleAckHp pow junk q ack h =
     (if qbb_seq ack > hp_lastUpdateSeq (hp (h_qp h q)) then UpdateRateHp pow junk q ack False h
      else FastReactHp pow junk q ack h)"

subsection \<open>PowerTCP\<close>

definition power_utilization :: "int_conf \<Rightarrow> u64 \<Rightarrow> IntHop \<Rightarrow> IntHop \<Rightarrow> u64 \<Rightarrow> double" where
  "power_utilization c baseRtt new old tau =
     (let ns = lit (1 / 10 ^ 9); C = of_u64_d (GetLineRate new);
          rxRate = ddiv (dmul (of_u64_d (GetBytesDelta c new old)) (Fin 8)) (dmul (of_u64_d tau) ns);
          half = dmul C (Fin (1 / 2));
          A = (if dless rxRate half then half else rxRate);
          pow = dmul A (dadd (dmul (of_u32_d (GetQlen c new)) (Fin 8)) (dmul C (dmul (of_u64_d baseRtt) ns)))
      in ddiv pow (dmul C (dmul (of_u64_d (GetLineRate new * baseRtt)) ns)))"

definition power_hop :: "RdmaHw_conf \<Rightarrow> RdmaQueuePair \<Rightarrow> qbbHeader \<Rightarrow> bool \<Rightarrow> nat
    \<Rightarrow> double \<times> u64 \<times> bool \<times> hp_state \<Rightarrow> double \<times> u64 \<times> bool \<times> hp_state" where
  "power_hop c qp ack fast_react i = (\<lambda>(U, dt, any, s).
     let new = ack_hop ack i in
     if m_sampleFeedback c \<and> GetQlen (hw_int c) new = 0 \<and> fast_react then (U, dt, any, s)
     else
       let tau = GetTimeDelta new (hp_hop s i);
           u = power_utilization (hw_int c) (m_baseRtt qp) new (hp_hop s i) tau;
           s = s\<lparr>hp_hop := (hp_hop s)(i := new)\<rparr>
       in if dless U u then (u, tau, True, s) else (U, dt, True, s))"

definition power_rate :: "RdmaHw_conf \<Rightarrow> RdmaQueuePair \<Rightarrow> double \<Rightarrow> u64 \<Rightarrow> hp_state \<Rightarrow> (rate \<times> hp_state) option" where
  "power_rate c qp U dt s = do {
     let dt = (if dt > m_baseRtt qp then m_baseRtt qp else dt);
     let U = (if dless U (Fin 0) then hp_u s else U);
     let B = dmul (Fin 1) (of_u64_d (m_baseRtt qp));
     let u = ddiv (dadd (dmul (hp_u s) (dsub B (of_u64_d dt))) (dmul U (of_u64_d dt))) B;
     let max_c = ddiv u (m_targetUtil c);
     m \<leftarrow> dr_scale (hp_curRate s) (ddiv (Fin 1) max_c);
     let mi = dr_add m 150000000;
     r \<leftarrow> to_u64 (dadd (dmul (lit (9 / 10)) (of_u64_d mi)) (dmul (lit (1 / 10)) (of_u64_d (hp_curRate s))));
     Some (clamp_rate (m_minRate c) (m_max_rate qp) r, s\<lparr>hp_u := u\<rparr>) }"

definition UpdateRatePower :: "nat \<Rightarrow> qbbHeader \<Rightarrow> bool \<Rightarrow> host \<Rightarrow> host option" where
  "UpdateRatePower q ack fast_react h = (let c = hw h; qp = h_qp h q; next_seq = ucast (snd_nxt qp) in
     if ack_nhop ack > maxHop then Some h
     else do {
       let (U, dt, any, s) = fold (power_hop c qp ack fast_react) [0..<ack_nhop ack] (Fin 0, 0, False, hp qp);
       h \<leftarrow> (if any then do {
              (r, s) \<leftarrow> power_rate c qp U dt s;
              h \<leftarrow> ChangeRate q r (set_hp q s h);
              Some (if fast_react then h else set_hp q ((hp (h_qp h q))\<lparr>hp_curRate := r\<rparr>) h) }
            else Some (set_hp q s h));
       let s = hp (h_qp h q);
       Some (if \<not> fast_react \<and> next_seq > hp_lastUpdateSeq s
             then set_hp q (s\<lparr>hp_lastUpdateSeq := next_seq\<rparr>) h else h) })"

definition HandleAckPower :: "nat \<Rightarrow> qbbHeader \<Rightarrow> host \<Rightarrow> host option" where
  "HandleAckPower q ack h =
     (if qbb_seq ack > hp_lastUpdateSeq (hp (h_qp h q)) then UpdateRatePower q ack False h
      else if m_fast_react (hw h) then UpdateRatePower q ack True h else Some h)"

subsection \<open>The contract of a rate controller\<close>

text \<open>What a controller works on: the rate, the rate of the link and the state of the algorithms.\<close>

definition ctl_view :: "RdmaQueuePair \<Rightarrow> rate \<times> rate \<times> hp_state \<times> tmly_state \<times> dctcp_state \<times> hpccPint_state" where
  "ctl_view p = (m_rate p, m_max_rate p, hp p, tmly p, dctcp p, hpccPint p)"

text \<open>The life of a flow: ACKs in any order and number, between them anything the host does that leaves
  the state of its controller alone.\<close>

inductive ctl_run :: "(qbbHeader \<Rightarrow> host \<Rightarrow> host option) \<Rightarrow> nat \<Rightarrow> host \<Rightarrow> host \<Rightarrow> bool" for handle q where
  Begin: "ctl_run handle q h h"
| Ack: "ctl_run handle q h h' \<Longrightarrow> handle ack h' = Some h'' \<Longrightarrow> ctl_run handle q h h''"
| Other: "ctl_run handle q h h' \<Longrightarrow> hw h'' = hw h' \<Longrightarrow> ctl_view (h_qp h'' q) = ctl_view (h_qp h' q)
    \<Longrightarrow> ctl_run handle q h h''"

text \<open>\<open>handle\<close> processes an ACK for the flow \<open>q\<close>; \<open>ok\<close> is what the controller keeps of its own state and
  \<open>lo\<close> the least rate it sets. The law: the configuration and the limits stay, \<open>ok\<close> stays, and the
  rate afterwards is the old one or one between the limits.\<close>

locale bounded_control =
  fixes handle :: "qbbHeader \<Rightarrow> host \<Rightarrow> host option"
    and ok :: "host \<Rightarrow> bool"
    and q :: nat
    and lo :: "RdmaHw_conf \<Rightarrow> rate"
  assumes handle_conf: "handle ack h = Some h' \<Longrightarrow> hw h' = hw h \<and> m_max_rate (h_qp h' q) = m_max_rate (h_qp h q)"
    and handle_ok: "handle ack h = Some h' \<Longrightarrow> ok h \<Longrightarrow> ok h'"
    and handle_rate: "handle ack h = Some h' \<Longrightarrow> ok h \<Longrightarrow>
      m_rate (h_qp h' q) = m_rate (h_qp h q)
      \<or> lo (hw h) \<le> m_rate (h_qp h' q) \<and> m_rate (h_qp h' q) \<le> m_max_rate (h_qp h q)"
    and ok_view: "hw h' = hw h \<Longrightarrow> ctl_view (h_qp h' q) = ctl_view (h_qp h q) \<Longrightarrow> ok h \<Longrightarrow> ok h'"
begin

definition in_band :: "host \<Rightarrow> bool" where
  "in_band h \<longleftrightarrow> ok h \<and> lo (hw h) \<le> m_rate (h_qp h q) \<and> m_rate (h_qp h q) \<le> m_max_rate (h_qp h q)"

lemma handle_in_band: "handle ack h = Some h' \<Longrightarrow> in_band h \<Longrightarrow> in_band h'"
  using handle_conf handle_ok handle_rate by (metis in_band_def)

lemma run_in_band: "ctl_run handle q h h' \<Longrightarrow> in_band h \<Longrightarrow> in_band h'"
proof (induction rule: ctl_run.induct)
  case (Ack h h' ack h'')
  then show ?case using handle_in_band by blast
next
  case (Other h h' h'')
  then show ?case using ok_view by (metis (no_types, lifting) in_band_def ctl_view_def prod.inject)
qed

lemma run_conf: "ctl_run handle q h h' \<Longrightarrow> hw h' = hw h \<and> m_max_rate (h_qp h' q) = m_max_rate (h_qp h q)"
proof (induction rule: ctl_run.induct)
  case (Ack h h' ack h'')
  then show ?case using handle_conf [OF Ack.hyps(2)] by simp
qed (auto simp: ctl_view_def)

lemma run_bounds:
  "ctl_run handle q h h' \<Longrightarrow> ok h \<Longrightarrow> lo (hw h) \<le> m_rate (h_qp h q) \<Longrightarrow> m_rate (h_qp h q) \<le> m_max_rate (h_qp h q)
    \<Longrightarrow> lo (hw h) \<le> m_rate (h_qp h' q) \<and> m_rate (h_qp h' q) \<le> m_max_rate (h_qp h q)"
  using run_in_band run_conf by (metis in_band_def)

end

subsection \<open>The rules keep the limits\<close>

lemma clamp_rate_bounds: "clamp_rate lo hi r \<le> hi" "lo \<le> hi \<Longrightarrow> lo \<le> clamp_rate lo hi r"
  by (auto simp: clamp_rate_def Let_def)

lemma hp_rule_bounds:
  assumes "hp_rule c cur st mc f ai hi = Some (r, st')" and "m_minRate c \<le> hi"
  shows "m_minRate c \<le> r \<and> r \<le> hi"
  using assms clamp_rate_bounds by (auto simp: hp_rule_def elim!: bind_eq_SomeE split: if_splits)

lemma hp_single_bounds:
  "hp_single pow c qp s = Some (r, st, s') \<Longrightarrow> m_minRate c \<le> m_max_rate qp \<Longrightarrow> m_minRate c \<le> r \<and> r \<le> m_max_rate qp"
  by (auto simp: hp_single_def Let_def elim!: bind_eq_SomeE dest: hp_rule_bounds)

lemma hp_multi_bounds:
  assumes "hp_multi c qp s is r0 ph = Some (r, ph')" and "m_minRate c \<le> m_max_rate qp"
    and "\<forall>i \<in> set is. m_minRate c \<le> hs_Rc (hp_hopState (sc_hp s) i)"
    and "m_minRate c \<le> r0" and "r0 \<le> m_max_rate qp"
  shows "m_minRate c \<le> r \<and> r \<le> m_max_rate qp
    \<and> (\<forall>i. (i \<in> set is \<and> sc_updated s i \<longrightarrow> m_minRate c \<le> fst (ph' i)) \<and> (i \<notin> set is \<longrightarrow> ph' i = ph i))"
  using assms(1,3,4,5)
proof (induction "is" arbitrary: r0 ph)
  case (Cons i "is")
  show ?case
  proof (cases "sc_updated s i")
    case True
    then obtain ri st where ri: "hop_rule c qp (hp_hopState (sc_hp s) i) = Some (ri, st)"
      and rest: "hp_multi c qp s is (if ri < r0 then ri else r0) (ph(i := (ri, st))) = Some (r, ph')"
      using Cons.prems(1) by (auto simp: Let_def elim!: bind_eq_SomeE)
    have b: "m_minRate c \<le> ri" "ri \<le> m_max_rate qp"
      using ri hp_rule_bounds assms(2) by (auto simp: hop_rule_def Let_def)
    have "m_minRate c \<le> (if ri < r0 then ri else r0)" "(if ri < r0 then ri else r0) \<le> m_max_rate qp"
      using b Cons.prems by auto
    from Cons.IH [OF rest _ this] Cons.prems(2) show ?thesis using b by fastforce
  next
    case False
    let ?Rc = "hs_Rc (hp_hopState (sc_hp s) i)"
    have rest: "hp_multi c qp s is (if ?Rc < r0 then ?Rc else r0) ph = Some (r, ph')"
      using Cons.prems(1) False by (simp add: Let_def)
    have "m_minRate c \<le> (if ?Rc < r0 then ?Rc else r0)" "(if ?Rc < r0 then ?Rc else r0) \<le> m_max_rate qp"
      using Cons.prems by auto
    from Cons.IH [OF rest _ this] Cons.prems(2) show ?thesis using False by auto
  qed
qed simp

text \<open>The scan of the hops changes neither the rates nor the stages.\<close>

lemma scan_hop_Rc: "hs_Rc (hp_hopState (sc_hp (scan_hop c qp ack f i s)) j) = hs_Rc (hp_hopState (sc_hp s) j)"
  by (simp add: scan_hop_def Let_def)

lemma scan_fold_Rc: "hs_Rc (hp_hopState (sc_hp (fold (scan_hop c qp ack f) is s)) j) = hs_Rc (hp_hopState (sc_hp s) j)"
  by (induction "is" arbitrary: s) (simp_all add: scan_hop_Rc)

lemma scan_hops_Rc: "hs_Rc (hp_hopState (sc_hp (scan_hops c qp ack f)) j) = hs_Rc (hp_hopState (hp qp) j)"
  by (simp add: scan_hops_def scan_fold_Rc)

lemma hp_new_rate_bounds:
  assumes "hp_new_rate pow junk c qp ack s = Some (r, st, s', ph)" and "m_minRate c \<le> m_max_rate qp"
    and "m_multipleRate c \<longrightarrow> (\<forall>i < ack_nhop ack. m_minRate c \<le> hs_Rc (hp_hopState (sc_hp s) i))" and "sc_updated_any s"
  shows "m_minRate c \<le> r \<and> r \<le> m_max_rate qp"
  using assms hp_single_bounds hp_multi_bounds
  by (auto simp: hp_new_rate_def elim!: bind_eq_SomeE split: if_splits)

lemma hp_new_rate_hops:
  assumes "hp_new_rate pow junk c qp ack s = Some (r, st, s', ph)" and "m_multipleRate c"
    and "m_minRate c \<le> m_max_rate qp" and "\<forall>i < ack_nhop ack. m_minRate c \<le> hs_Rc (hp_hopState (sc_hp s) i)"
  shows "s' = sc_hp s" and "i < ack_nhop ack \<Longrightarrow> sc_updated s i \<Longrightarrow> m_minRate c \<le> fst (ph i)"
  using assms hp_multi_bounds [of c qp s "[0..<ack_nhop ack]"]
  by (auto simp: hp_new_rate_def elim!: bind_eq_SomeE split: if_splits)

subsection \<open>Every update of HPCC obeys the contract\<close>

definition hp_ok :: "nat \<Rightarrow> host \<Rightarrow> bool" where
  "hp_ok q h \<longleftrightarrow> m_minRate (hw h) \<le> m_max_rate (h_qp h q)
     \<and> (m_multipleRate (hw h) \<longrightarrow> (\<forall>i < maxHop. m_minRate (hw h) \<le> hs_Rc (hp_hopState (hp (h_qp h q)) i)))"

definition controlled :: "(host \<Rightarrow> bool) \<Rightarrow> (RdmaHw_conf \<Rightarrow> rate) \<Rightarrow> nat \<Rightarrow> host \<Rightarrow> host \<Rightarrow> bool" where
  "controlled ok lo q h h' \<longleftrightarrow> hw h' = hw h \<and> m_max_rate (h_qp h' q) = m_max_rate (h_qp h q)
     \<and> (ok h \<longrightarrow> ok h' \<and> (m_rate (h_qp h' q) = m_rate (h_qp h q)
          \<or> lo (hw h) \<le> m_rate (h_qp h' q) \<and> m_rate (h_qp h' q) \<le> m_max_rate (h_qp h q)))"

lemma controlled_refl: "controlled ok lo q h h"
  by (simp add: controlled_def)

lemma set_hp_simps [simp]:
  "hw (set_hp q s h) = hw h" "hp (h_qp (set_hp q s h) q) = s" "m_rate (h_qp (set_hp q s h) q) = m_rate (h_qp h q)"
  "m_max_rate (h_qp (set_hp q s h) q) = m_max_rate (h_qp h q)" "snd_nxt (h_qp (set_hp q s h) q) = snd_nxt (h_qp h q)"
  by (simp_all add: set_hp_def)

abbreviation same_Rc :: "hp_state \<Rightarrow> hp_state \<Rightarrow> bool" where
  "same_Rc s t \<equiv> (\<forall>i. hs_Rc (hp_hopState s i) = hs_Rc (hp_hopState t i))"

text \<open>The state of the controller changes, the rate does not; and after a change of the rate.\<close>

lemma controlled_set_hp:
  assumes "controlled (hp_ok q) lo q h h'" and "same_Rc s (hp (h_qp h' q))"
  shows "controlled (hp_ok q) lo q h (set_hp q s h')"
  using assms by (auto simp: controlled_def hp_ok_def)

lemma controlled_ChangeRate:
  assumes "ChangeRate q r (set_hp q s h) = Some h'" and "same_Rc s (hp (h_qp h q))"
    and "hp_ok q h \<Longrightarrow> lo (hw h) \<le> r \<and> r \<le> m_max_rate (h_qp h q)"
  shows "controlled (hp_ok q) lo q h h'"
  using assms(2,3) ChangeRate_qp [OF assms(1)] by (auto simp: controlled_def hp_ok_def)

lemma virtual_hop_Rc: "same_Rc (fst (virtual_hop c now b ack i s)) (fst s)"
  by (cases s) (simp add: virtual_hop_def Let_def)

lemma virtual_fold_Rc: "same_Rc (fst (fold (virtual_hop c now b ack) is s)) (fst s)"
  by (induction "is" arbitrary: s) (simp_all add: virtual_hop_Rc)

lemma UpdateRateHp_virtual_controlled:
  assumes "UpdateRateHp_virtual q ack f h = Some h'"
  shows "controlled (hp_ok q) m_minRate q h h'"
proof -
  let ?qp = "h_qp h q"
  obtain s minR where F: "fold (virtual_hop (hw_int (hw h)) (of_int (h_now h)) (m_baseRtt ?qp) ack) [0..<ack_nhop ack]
      (hp ?qp, Fin (-1)) = (s, minR)" by (metis surj_pair)
  have Rc: "same_Rc s (hp ?qp)"
    using virtual_fold_Rc [of "hw_int (hw h)" "of_int (h_now h)" "m_baseRtt ?qp" ack "[0..<ack_nhop ack]" "(hp ?qp, Fin (-1))"]
    by (simp add: F)
  from assms obtain h1 where
    h1: "(if dless (Fin 0) minR then to_u64 minR \<bind> (\<lambda>r. ChangeRate q (clamp_rate (m_minRate (hw h)) (m_max_rate ?qp) r)
          (set_hp q (s\<lparr>hp_curRate := clamp_rate (m_minRate (hw h)) (m_max_rate ?qp) r\<rparr>) (set_hp q s h)))
        else Some (set_hp q s h)) = Some h1"
    and h': "h' = (if f then h1 else set_hp q ((hp (h_qp h1 q))\<lparr>hp_lastUpdateSeq := ucast (snd_nxt ?qp)\<rparr>) h1)"
    unfolding UpdateRateHp_virtual_def Let_def F prod.case set_hp_simps(1) by (auto simp: guard_bind_eq_Some elim!: bind_eq_SomeE)
  have "controlled (hp_ok q) m_minRate q h h1"
  proof (cases "dless (Fin 0) minR")
    case True
    have twice: "set_hp q x (set_hp q s h) = set_hp q x h" for x by (simp add: set_hp_def set_qp_def)
    from True h1 obtain r where cr: "ChangeRate q (clamp_rate (m_minRate (hw h)) (m_max_rate ?qp) r)
          (set_hp q (s\<lparr>hp_curRate := clamp_rate (m_minRate (hw h)) (m_max_rate ?qp) r\<rparr>) h) = Some h1"
      unfolding twice by (auto elim!: bind_eq_SomeE)
    show ?thesis
      by (rule controlled_ChangeRate [OF cr]) (use Rc clamp_rate_bounds in \<open>auto simp: hp_ok_def\<close>)
  next
    case False
    then show ?thesis using h1 Rc controlled_refl by (auto intro: controlled_set_hp)
  qed
  then show ?thesis unfolding h' by (auto intro: controlled_set_hp)
qed

lemma UpdateRateHp_first_controlled:
  "UpdateRateHp_first q ack h = Some h' \<Longrightarrow> controlled (hp_ok q) m_minRate q h h'"
  by (auto simp: UpdateRateHp_first_def Let_def guard_bind_eq_Some intro!: controlled_set_hp controlled_refl)

lemma single_Rc: "hp_single pow c qp s = Some (r, st, s') \<Longrightarrow> same_Rc s' (sc_hp s)"
  by (auto simp: hp_single_def Let_def elim!: bind_eq_SomeE)

lemma hp_new_rate_Rc: "hp_new_rate pow junk c qp ack s = Some (r, st, s', ph) \<Longrightarrow> same_Rc s' (sc_hp s)"
  by (auto simp: hp_new_rate_def dest: single_Rc elim!: bind_eq_SomeE split: if_splits)

lemma UpdateRateHp_deltas_controlled:
  assumes "UpdateRateHp_deltas pow junk q ack f h = Some h'" and n: "ack_nhop ack \<le> maxHop"
  shows "controlled (hp_ok q) m_minRate q h h'"
proof -
  let ?c = "hw h" and ?qp = "h_qp h q"
  let ?s = "scan_hops ?c ?qp ack f"
  from assms(1) obtain r st s' ph h1 where N: "hp_new_rate pow junk ?c ?qp ack ?s = Some (r, st, s', ph)"
    and h1: "(if sc_updated_any ?s then ChangeRate q r (set_hp q s' h) else Some (set_hp q s' h)) = Some h1"
    and h': "h' = (if f then h1 else
       (let s1 = hp (h_qp h1 q);
            s1 = (if sc_updated_any ?s then s1\<lparr>hp_curRate := r, hp_incStage := st\<rparr> else s1);
            s1 = (if m_multipleRate ?c
                  then s1\<lparr>hp_hopState := commit_hops ?s ph (ack_nhop ack) (hp_hopState s1)\<rparr> else s1)
        in set_hp q s1 h1))"
    unfolding UpdateRateHp_deltas_def Let_def by (auto elim!: bind_eq_SomeE)
  have Rc: "same_Rc s' (hp ?qp)" using hp_new_rate_Rc [OF N] by (simp add: scan_hops_Rc)
  have lim: "m_minRate ?c \<le> r \<and> r \<le> m_max_rate ?qp" if "hp_ok q h" "sc_updated_any ?s"
    using hp_new_rate_bounds [OF N] that n by (auto simp: hp_ok_def scan_hops_Rc)
  have c1: "controlled (hp_ok q) m_minRate q h h1"
  proof (cases "sc_updated_any ?s")
    case True
    then show ?thesis using h1 Rc lim by (intro controlled_ChangeRate) auto
  next
    case False
    then show ?thesis using h1 Rc controlled_refl by (auto intro: controlled_set_hp)
  qed
  have hp1: "hp (h_qp h1 q) = s'" using h1 ChangeRate_qp by (auto split: if_splits)
  show ?thesis
  proof (cases "f \<or> \<not> m_multipleRate ?c")
    case True
    then show ?thesis using c1 by (auto simp: h' Let_def intro: controlled_set_hp)
  next
    case False
    have per_hop: "m_minRate ?c \<le> fst (ph i)" if "hp_ok q h" "i < ack_nhop ack" "sc_updated ?s i" for i
      using hp_new_rate_hops(2) [OF N] that False n by (auto simp: hp_ok_def scan_hops_Rc)
    have "m_minRate ?c \<le> hs_Rc (commit_hops ?s ph (ack_nhop ack) (hp_hopState s') i)"
      if "hp_ok q h" "i < maxHop" for i using per_hop [OF that(1)] that Rc False by (auto simp: commit_hops_def hp_ok_def)
    then show ?thesis using c1 False by (auto simp: h' Let_def controlled_def hp_ok_def hp1)
  qed
qed

lemma UpdateRateHp_controlled:
  assumes "UpdateRateHp pow junk q ack f h = Some h'"
  shows "controlled (hp_ok q) m_minRate q h h'"
proof -
  consider (first) "hp_lastUpdateSeq (hp (h_qp h q)) = 0"
    | (virtual) "hp_lastUpdateSeq (hp (h_qp h q)) \<noteq> 0" "m_mbMode (hw h) = 6"
    | (deltas) "hp_lastUpdateSeq (hp (h_qp h q)) \<noteq> 0" "m_mbMode (hw h) \<noteq> 6" by blast
  then show ?thesis
  proof cases
    case first
    then show ?thesis using assms UpdateRateHp_first_controlled by (simp add: UpdateRateHp_def Let_def)
  next
    case virtual
    then show ?thesis using assms UpdateRateHp_virtual_controlled by (simp add: UpdateRateHp_def Let_def)
  next
    case deltas
    then obtain h1 where h1: "(if ack_nhop ack \<le> maxHop then UpdateRateHp_deltas pow junk q ack f h else Some h) = Some h1"
      and h': "h' = (let s = hp (h_qp h1 q) in if \<not> f \<and> ucast (snd_nxt (h_qp h q)) > hp_lastUpdateSeq s
             then set_hp q (s\<lparr>hp_lastUpdateSeq := ucast (snd_nxt (h_qp h q))\<rparr>) h1 else h1)"
      using assms by (auto simp: UpdateRateHp_def Let_def elim!: bind_eq_SomeE)
    have "controlled (hp_ok q) m_minRate q h h1"
      using h1 UpdateRateHp_deltas_controlled controlled_refl by (auto split: if_splits)
    then show ?thesis by (auto simp: h' Let_def intro: controlled_set_hp)
  qed
qed

lemma HandleAckHp_controlled:
  "HandleAckHp pow junk q ack h = Some h' \<Longrightarrow> controlled (hp_ok q) m_minRate q h h'"
  using UpdateRateHp_controlled controlled_refl
  by (fastforce simp: HandleAckHp_def FastReactHp_def split: if_splits)

lemma hp_ok_view: "hw h' = hw h \<Longrightarrow> ctl_view (h_qp h' q) = ctl_view (h_qp h q) \<Longrightarrow> hp_ok q h \<Longrightarrow> hp_ok q h'"
  by (simp add: hp_ok_def ctl_view_def)

interpretation hpcc: bounded_control "HandleAckHp pow junk q" "hp_ok q" q m_minRate
  by unfold_locales (use HandleAckHp_controlled [unfolded controlled_def] hp_ok_view in blast)+

text \<open>C16: under HPCC, in every mode, whatever telemetry the ACKs carry and however they are ordered, the
  rate of a flow stays between the least rate and the rate of the link.\<close>

theorem hpcc_rate_bounds:
  assumes "ctl_run (HandleAckHp pow junk q) q h h'" and "hp_ok q h"
    and "m_minRate (hw h) \<le> m_rate (h_qp h q)" and "m_rate (h_qp h q) \<le> m_max_rate (h_qp h q)"
  shows "m_minRate (hw h) \<le> m_rate (h_qp h' q) \<and> m_rate (h_qp h' q) \<le> m_max_rate (h_qp h q)"
  by (rule hpcc.run_bounds [OF assms])

subsection \<open>Congestion\<close>

lemma inverse_unit:
  assumes "dle (Fin 1) mc"
  shows "\<exists>f. ddiv (Fin 1) mc = Fin f \<and> 0 \<le> f \<and> f \<le> 1"
proof (cases mc)
  case (Fin x)
  then have x: "1 \<le> x" using assms by (auto simp: dle_def)
  then have "fl (1 / x) = Fin (rnd (1 / x))" by (intro fl_unit) simp_all
  moreover have "0 \<le> rnd (1 / x)" "rnd (1 / x) \<le> 1" using x b64.inverse_le_1 [OF x] by simp_all
  ultimately show ?thesis using Fin x by auto
qed (use assms in \<open>auto simp: dle_def\<close>)

lemma flow_share_unit:
  assumes "dless (Fin 0) t"
  shows "\<exists>x. flow_share cur t = Fin x \<and> 0 \<le> x \<and> x \<le> 1"
proof (cases t)
  case (Fin y)
  then have y: "0 < y" using assms by simp
  have "0 \<le> rnd (rnd (u2r cur) / y)" using y by simp
  then show ?thesis
    using Fin y fl_cases [of "rnd (u2r cur) / y"] by (auto simp: flow_share_def Let_def of_u64_d_eq)
next
  case (Infty s)
  then show ?thesis using assms by (auto simp: flow_share_def Let_def of_u64_d_eq)
qed (use assms in simp)

lemma unit_complement:
  assumes "0 \<le> x" and "x \<le> 1"
  shows "dsub (Fin 1) (Fin x) = Fin (rnd (1 - x)) \<and> 0 \<le> rnd (1 - x) \<and> rnd (1 - x) \<le> 1"
  using assms fl_unit [of "1 - x"] b64.unit_interval [of "1 - x"] by (simp add: dsub_def)

lemma md_factor_unit:
  assumes "dle (Fin 1) mc" and "m_mbMode c \<noteq> 4"
  shows "\<exists>f. md_factor pow c cur k mc t = Fin f \<and> 0 \<le> f \<and> f \<le> 1"
proof (cases "m_mbMode c = 3 \<and> k \<ge> 2 \<and> dless (Fin 0) t")
  case True
  obtain f where f: "ddiv (Fin 1) mc = Fin f" "0 \<le> f" "f \<le> 1" using inverse_unit [OF assms(1)] by blast
  obtain x where x: "flow_share cur t = Fin x" "0 \<le> x" "x \<le> 1" using flow_share_unit True by blast
  let ?g = "rnd (1 - f)"
  note g = unit_complement [OF f(2,3)]
  have xg: "0 \<le> x * ?g" "x * ?g \<le> 1" using x g by (simp_all add: mult_le_one)
  note w = unit_complement [of "rnd (x * ?g)"] b64.unit_interval [OF xg]
  show ?thesis using True assms(1) f x g w fl_unit [OF xg] by (simp add: md_factor_def)
next
  case False
  then show ?thesis using inverse_unit [OF assms(1)] assms(2) by (auto simp: md_factor_def)
qed

text \<open>The congestion ratio of a scan in the single-rate mode, and the increment of that update.\<close>

definition scan_max_c :: "RdmaHw_conf \<Rightarrow> RdmaQueuePair \<Rightarrow> hp_scan \<Rightarrow> double" where
  "scan_max_c c qp s = ddiv (ewma (m_baseRtt qp) (window_dt qp (sc_dt s)) (hp_u (sc_hp s)) (sampled_U c s)) (m_targetUtil c)"

lemma hp_single_eq:
  "hp_single pow c qp s = do {
     ai \<leftarrow> ai_eff c (hp_curRate (sc_hp s)) (sc_k s) (scan_max_c c qp s) (sc_btl_txrate s);
     (r, st) \<leftarrow> hp_rule c (hp_curRate (sc_hp s)) (hp_incStage (sc_hp s)) (scan_max_c c qp s)
        (md_factor pow c (hp_curRate (sc_hp s)) (sc_k s) (scan_max_c c qp s) (sc_btl_txrate s)) ai (m_max_rate qp);
     Some (r, st, (sc_hp s)\<lparr>hp_u := ewma (m_baseRtt qp) (window_dt qp (sc_dt s)) (hp_u (sc_hp s)) (sampled_U c s)\<rparr>) }"
  by (simp add: hp_single_def scan_max_c_def Let_def)

lemma hp_rule_congested:
  assumes "dle (Fin 1) mc" and "0 \<le> f" and "f \<le> 1" and "uint cur \<le> 2 ^ 53" and "uint ai \<le> 2 ^ 53"
  shows "\<exists>r. hp_rule c cur st mc (Fin f) ai hi = Some (r, 0) \<and> r \<le> max (m_minRate c) (cur + ai)"
proof -
  obtain m where m: "dr_scale cur (Fin f) = Some m" "m \<le> cur"
    using to_u64_scale_down [OF assms(4,2,3)] by (auto simp: dr_scale_def)
  have n: "unat cur \<le> 9007199254740992" "unat ai \<le> 9007199254740992" "unat m \<le> unat cur"
    using assms(4,5) m(2) by (auto intro: unat_le_of_uint simp: word_le_nat_alt)
  then have "unat m + unat ai < 2 ^ LENGTH(64)" "unat cur + unat ai < 2 ^ LENGTH(64)" by simp_all
  then have "m + ai \<le> cur + ai" using n(3) by (simp add: word_le_nat_alt unat_add_nowrap del: len_of_numeral_defs)
  moreover have "clamp_rate lo hi x \<le> max lo x" for lo x :: rate
    by (auto simp: clamp_rate_def Let_def max_def)
  ultimately have "clamp_rate (m_minRate c) hi (m + ai) \<le> max (m_minRate c) (cur + ai)"
    by (meson max.mono order_refl order_trans)
  then show ?thesis using assms(1) m(1) by (simp add: hp_rule_def dr_add_def)
qed

lemma hp_single_congested:
  assumes "dle (Fin 1) (scan_max_c c qp s)" and "m_mbMode c \<noteq> 4"
    and "ai_eff c (hp_curRate (sc_hp s)) (sc_k s) (scan_max_c c qp s) (sc_btl_txrate s) = Some ai"
    and "uint (hp_curRate (sc_hp s)) \<le> 2 ^ 53" and "uint ai \<le> 2 ^ 53"
  shows "\<exists>r s'. hp_single pow c qp s = Some (r, 0, s') \<and> r \<le> max (m_minRate c) (hp_curRate (sc_hp s) + ai)"
proof -
  obtain f where f: "md_factor pow c (hp_curRate (sc_hp s)) (sc_k s) (scan_max_c c qp s) (sc_btl_txrate s) = Fin f"
    "0 \<le> f" "f \<le> 1" using md_factor_unit [OF assms(1,2)] by blast
  obtain r where "hp_rule c (hp_curRate (sc_hp s)) (hp_incStage (sc_hp s)) (scan_max_c c qp s) (Fin f) ai (m_max_rate qp)
      = Some (r, 0)" "r \<le> max (m_minRate c) (hp_curRate (sc_hp s) + ai)"
    using hp_rule_congested [OF assms(1) f(2,3) assms(4,5), of c "hp_incStage (sc_hp s)" "m_max_rate qp"] by blast
  then show ?thesis using assms(3) f(1) by (simp add: hp_single_eq)
qed

text \<open>The scan does not change the committed rate of the path nor its stage, and the update takes it from there.\<close>

lemma scan_fold_cur: "hp_curRate (sc_hp (fold (scan_hop c qp ack f) is s)) = hp_curRate (sc_hp s)"
  by (induction "is" arbitrary: s) (simp_all add: scan_hop_def Let_def)

lemma scan_hops_cur: "hp_curRate (sc_hp (scan_hops c qp ack f)) = hp_curRate (hp qp)"
  by (simp add: scan_hops_def scan_fold_cur)

lemma UpdateRateHp_single:
  assumes "UpdateRateHp pow junk q ack f h = Some h'" and "hp_lastUpdateSeq (hp (h_qp h q)) \<noteq> 0" and "m_mbMode (hw h) \<noteq> 6"
    and "\<not> m_multipleRate (hw h)" and "ack_nhop ack \<le> maxHop" and "sc_updated_any (scan_hops (hw h) (h_qp h q) ack f)"
    and "hp_single pow (hw h) (h_qp h q) (scan_hops (hw h) (h_qp h q) ack f) = Some (r, st, s')"
  shows "m_rate (h_qp h' q) = r" and "\<not> f \<Longrightarrow> hp_curRate (hp (h_qp h' q)) = r \<and> hp_incStage (hp (h_qp h' q)) = st"
    and "f \<Longrightarrow> hp_curRate (hp (h_qp h' q)) = hp_curRate s'"
proof -
  obtain h1 where h1: "UpdateRateHp_deltas pow junk q ack f h = Some h1"
    and h': "h' = (let s = hp (h_qp h1 q) in if \<not> f \<and> ucast (snd_nxt (h_qp h q)) > hp_lastUpdateSeq s
             then set_hp q (s\<lparr>hp_lastUpdateSeq := ucast (snd_nxt (h_qp h q))\<rparr>) h1 else h1)"
    using assms(1-3,5) by (auto simp: UpdateRateHp_def Let_def elim!: bind_eq_SomeE)
  have N: "hp_new_rate pow junk (hw h) (h_qp h q) ack (scan_hops (hw h) (h_qp h q) ack f) = Some (r, st, s', \<lambda>_. (0, junk))"
    using assms(4,6,7) by (simp add: hp_new_rate_def)
  have "ChangeRate q r (set_hp q s' h)
      \<bind> (\<lambda>h2. Some (if f then h2 else set_hp q ((hp (h_qp h2 q))\<lparr>hp_curRate := r, hp_incStage := st\<rparr>) h2)) = Some h1"
    using h1 assms(4,6) by (simp add: UpdateRateHp_deltas_def Let_def N cong del: if_weak_cong)
  then obtain h2 where c: "ChangeRate q r (set_hp q s' h) = Some h2"
    and e: "h1 = (if f then h2 else set_hp q ((hp (h_qp h2 q))\<lparr>hp_curRate := r, hp_incStage := st\<rparr>) h2)"
    by (elim bind_eq_SomeE) simp
  note C = ChangeRate_qp(1,3) [OF c]
  show "m_rate (h_qp h' q) = r" using C by (simp add: h' e Let_def)
  show "hp_curRate (hp (h_qp h' q)) = r \<and> hp_incStage (hp (h_qp h' q)) = st" if "\<not> f" using that by (simp add: h' e Let_def)
  show "hp_curRate (hp (h_qp h' q)) = hp_curRate s'" if f using that C by (simp add: h' e Let_def)
qed

text \<open>C17: an HPCC update that finds the path congested yields at most the committed rate plus the increment (or the
  least rate). The path is congested when the utilization, averaged over one base RTT as the update averages it,
  reaches the target. A full update commits that rate and starts a new series of additive steps; a fast reaction
  leaves the committed rate as it was. This is the single-rate update of all modes but the k-th root of
  mode 4 and the virtual rate of mode 6, for rates and increments of at most \<open>2 ^ 53\<close> bits per second.\<close>

theorem congestion_never_raises:
  assumes "UpdateRateHp pow junk q ack f h = Some h'" and "hp_lastUpdateSeq (hp (h_qp h q)) \<noteq> 0"
    and "m_mbMode (hw h) \<noteq> 4" and "m_mbMode (hw h) \<noteq> 6" and "\<not> m_multipleRate (hw h)" and "ack_nhop ack \<le> maxHop"
    and "s = scan_hops (hw h) (h_qp h q) ack f" and "sc_updated_any s" and "dle (Fin 1) (scan_max_c (hw h) (h_qp h q) s)"
    and "ai_eff (hw h) (hp_curRate (hp (h_qp h q))) (sc_k s) (scan_max_c (hw h) (h_qp h q) s) (sc_btl_txrate s) = Some ai"
    and "uint (hp_curRate (hp (h_qp h q))) \<le> 2 ^ 53" and "uint ai \<le> 2 ^ 53"
  shows "m_rate (h_qp h' q) \<le> max (m_minRate (hw h)) (hp_curRate (hp (h_qp h q)) + ai)
    \<and> (if f then hp_curRate (hp (h_qp h' q)) = hp_curRate (hp (h_qp h q))
       else hp_curRate (hp (h_qp h' q)) = m_rate (h_qp h' q) \<and> hp_incStage (hp (h_qp h' q)) = 0)"
proof -
  have cur: "hp_curRate (sc_hp s) = hp_curRate (hp (h_qp h q))" by (simp add: assms(7) scan_hops_cur)
  obtain r s' where S: "hp_single pow (hw h) (h_qp h q) s = Some (r, 0, s')"
    and r: "r \<le> max (m_minRate (hw h)) (hp_curRate (hp (h_qp h q)) + ai)"
    using hp_single_congested [OF assms(9,3), of ai pow] assms(10-12) unfolding cur by blast
  have "hp_curRate s' = hp_curRate (hp (h_qp h q))"
    using S by (auto simp: hp_single_def Let_def cur elim!: bind_eq_SomeE)
  then show ?thesis
    using UpdateRateHp_single [OF assms(1,2,4-6) assms(8) [unfolded assms(7)] S [unfolded assms(7)]] r by simp
qed

lemma mode_irrelevant:
  "scan_hops (c\<lparr>m_mbMode := m\<rparr>) qp ack f = scan_hops c qp ack f"
  "hop_rule (c\<lparr>m_mbMode := m\<rparr>) qp hs = hop_rule c qp hs"
  "hp_rule (c\<lparr>m_mbMode := m\<rparr>) cur st mc fac ai hi = hp_rule c cur st mc fac ai hi"
proof -
  have "scan_hop (c\<lparr>m_mbMode := m\<rparr>) qp ack f = scan_hop c qp ack f"
    by (intro ext) (simp add: scan_hop_def cong del: let_weak_cong if_weak_cong)
  then show "scan_hops (c\<lparr>m_mbMode := m\<rparr>) qp ack f = scan_hops c qp ack f" by (simp add: scan_hops_def)
  show rule: "hp_rule (c\<lparr>m_mbMode := m\<rparr>) cur st mc fac ai hi = hp_rule c cur st mc fac ai hi" for cur st mc fac ai hi
    by (simp add: hp_rule_def cong: bind_option_cong)
  then show "hop_rule (c\<lparr>m_mbMode := m\<rparr>) qp hs = hop_rule c qp hs" by (simp add: hop_rule_def)
qed

lemma few_bottlenecks:
  assumes "sc_k s < 2" and "m \<noteq> 5"
  shows "sampled_U (c\<lparr>m_mbMode := m\<rparr>) s = sc_U s"
    and "ai_eff (c\<lparr>m_mbMode := m\<rparr>) cur (sc_k s) mc t = Some (m_rai c)"
    and "md_factor pow (c\<lparr>m_mbMode := m\<rparr>) cur (sc_k s) mc t = ddiv (Fin 1) mc"
proof -
  have k: "\<not> 2 \<le> sc_k s" using assms(1) by (simp add: not_le)
  show "sampled_U (c\<lparr>m_mbMode := m\<rparr>) s = sc_U s" by (simp add: sampled_U_def k)
  show "ai_eff (c\<lparr>m_mbMode := m\<rparr>) cur (sc_k s) mc t = Some (m_rai c)" using assms(2) by (simp add: ai_eff_def k)
  show "md_factor pow (c\<lparr>m_mbMode := m\<rparr>) cur (sc_k s) mc t = ddiv (Fin 1) mc" by (simp add: md_factor_def k)
qed

lemma hp_single_few:
  assumes "sc_k s < 2" and "m \<noteq> 5"
  shows "hp_single pow (c\<lparr>m_mbMode := m\<rparr>) qp s = hp_single pow (c\<lparr>m_mbMode := 0\<rparr>) qp s"
proof -
  have z: "(0 :: u32) \<noteq> 5" by simp
  show ?thesis
    by (simp add: hp_single_eq scan_max_c_def few_bottlenecks [OF assms] few_bottlenecks [OF assms(1) z] mode_irrelevant)
qed

text \<open>C18: with fewer than two congested hops on the path, the multi-bottleneck modes 1 to 4 compute
  exactly the rate, the stage and the state of stock HPCC.\<close>

theorem multi_bottleneck_is_stock:
  assumes "m \<in> {1, 2, 3, 4}" and "sc_k (scan_hops c qp ack f) < 2"
  shows "hp_new_rate pow junk (c\<lparr>m_mbMode := m\<rparr>) qp ack (scan_hops (c\<lparr>m_mbMode := m\<rparr>) qp ack f)
    = hp_new_rate pow junk (c\<lparr>m_mbMode := 0\<rparr>) qp ack (scan_hops (c\<lparr>m_mbMode := 0\<rparr>) qp ack f)"
proof -
  let ?s = "scan_hops c qp ack f"
  have "m \<noteq> 5" using assms(1) by auto
  note single = hp_single_few [OF assms(2) this]
  have "hp_multi (c\<lparr>m_mbMode := m\<rparr>) qp ?s is r ph = hp_multi (c\<lparr>m_mbMode := 0\<rparr>) qp ?s is r ph" for "is" r ph
    by (induction "is" arbitrary: r ph) (simp_all add: mode_irrelevant Let_def)
  then show ?thesis by (simp add: hp_new_rate_def mode_irrelevant single)
qed

subsection \<open>Witnesses\<close>

definition demo_ack :: qbbHeader where
  "demo_ack = (qbbHeader_init 3)\<lparr>qbb_seq := 1000, qbb_ih := IntHeader_init\<lparr>nhop := 1\<rparr>\<rparr>"

text \<open>A hop of 100 Gb/s whose queue of 80 000 bytes has not moved for one base RTT, twice the window of the flow:
  the path is used at twice the target.\<close>

definition demo_cell :: "u64 \<Rightarrow> IntHop" where
  "demo_cell time = 140737488355328002 + 8 * time"

definition demo_jam_ack :: qbbHeader where
  "demo_jam_ack = (qbbHeader_init 3)\<lparr>qbb_seq := 1000, qbb_ih := \<lparr>hop = [demo_cell 8000, 0, 0, 0, 0], nhop = 1\<rparr>\<rparr>"

definition demo_jam_qp :: RdmaQueuePair where
  "demo_jam_qp = demo_qp\<lparr>m_win := 40000, hp := (hp demo_qp)\<lparr>hp_lastUpdateSeq := 1, hp_curRate := 100000000000, hp_hop := \<lambda>_. demo_cell 0\<rparr>\<rparr>"

definition demo_jam_host :: host where
  "demo_jam_host = (demo_host [1])\<lparr>h_qp := \<lambda>_. demo_jam_qp, hw := demo_hw\<lparr>m_targetUtil := Fin 1\<rparr>\<rparr>"

lemma demo_cell_facts:
  "GetTimeDelta (demo_cell 8000) (demo_cell 0) = 8000" "GetBytesDelta int_demo (demo_cell 8000) (demo_cell 0) = 0"
  "GetQlen int_demo (demo_cell 8000) = 80000" "GetQlen int_demo (demo_cell 0) = 80000" "GetLineRate (demo_cell 8000) = 100000000000"
  by code_simp+

lemma demo_jam_facts:
  "hw demo_jam_host = demo_hw\<lparr>m_targetUtil := Fin 1\<rparr>" "h_qp demo_jam_host q = demo_jam_qp" "ack_nhop demo_jam_ack = 1"
  "hp_lastUpdateSeq (hp demo_jam_qp) = 1" "hp_curRate (hp demo_jam_qp) = 100000000000" "m_max_rate demo_jam_qp = 100000000000"
  "hw_int demo_hw = int_demo" "ack_hop demo_jam_ack 0 = demo_cell 8000" "hp_hop (hp demo_jam_qp) 0 = demo_cell 0"
  "m_win demo_jam_qp = 40000" "m_baseRtt demo_jam_qp = 8000" "hp_u (hp demo_jam_qp) = Fin 1"
  by (simp_all add: demo_jam_host_def demo_jam_ack_def demo_jam_qp_def ack_nhop_def ack_hop_def demo_hw_def demo_qp_def
      RdmaQueuePair_init_def)

lemma demo_jam_doubles:
  "of_u64_d 8000 = Fin 8000" "of_u64_d 0 = Fin 0" "of_u64_d 100000000000 = Fin 100000000000" "of_u32_d 80000 = Fin 80000"
  "of_u32_d 40000 = Fin 40000" "of_u64_d 16000 = Fin 16000"
  using rnd_of_int [of 8000] rnd_of_int [of 100000000000] rnd_of_int [of 80000] rnd_of_int [of 40000] rnd_of_int [of 16000]
  by (simp_all add: of_u64_d_eq of_u32_d_eq u2r_def)

lemma demo_jam_txRate: "hop_txRate int_demo (demo_cell 8000) (demo_cell 0) 8000 = Fin 0"
proof -
  have n: "2 powi (-30) \<le> rnd (1 / 10 ^ 9)"
    using rnd_mono [of "2 powi (-30)" "1 / 10 ^ 9"] rnd_exact [of 1 "-30"] by (simp add: power_int_minus)
  have "rnd (1 / 10 ^ 9) \<le> 1" using b64.unit_interval [of "1 / 10 ^ 9"] by simp
  then have le: "8000 * rnd (1 / 10 ^ 9) \<le> 2 ^ 13" by simp
  have ge: "2 powi (-30) \<le> 8000 * rnd (1 / 10 ^ 9)" using n powi_pos [of "-30"] by linarith
  then have "2 powi (-30) \<le> rnd (8000 * rnd (1 / 10 ^ 9))"
    using rnd_mono [OF ge] rnd_exact [of 1 "-30"] by simp
  then have "0 < rnd (8000 * rnd (1 / 10 ^ 9))" using powi_pos [of "-30"] by linarith
  moreover have "fl (8000 * rnd (1 / 10 ^ 9)) = Fin (rnd (8000 * rnd (1 / 10 ^ 9)))"
    using le ge powi_pos [of "-30"] by (intro fl_finite [of _ 13]) (simp_all add: abs_le_iff)
  ultimately show ?thesis
    using fl_unit [of "1 / 10 ^ 9"] by (simp add: hop_txRate_def demo_cell_facts demo_jam_doubles lit_def)
qed

lemma demo_jam_utilization:
  "hop_utilization int_demo demo_jam_qp (demo_cell 8000) (demo_cell 0) (Fin 0) = Fin 2"
proof -
  have "u2r (80000 :: u32) = 80000" "u2r (40000 :: u32) = 40000" by (simp_all add: u2r_def)
  then show ?thesis
    using fl_of_int [of 8000000000000000] fl_of_int [of 80000] fl_of_int [of 2]
    by (simp add: hop_utilization_def demo_cell_facts demo_jam_facts demo_jam_doubles)
qed

lemma demo_jam_scan:
  defines "s \<equiv> scan_hops (demo_hw\<lparr>m_targetUtil := Fin 1\<rparr>) demo_jam_qp demo_jam_ack False"
  shows "sc_updated_any s" and "scan_max_c (demo_hw\<lparr>m_targetUtil := Fin 1\<rparr>) demo_jam_qp s = Fin 2" and "m_mbMode demo_hw = 0"
proof -
  have "demo_hw = demo_hw\<lparr>m_multipleRate := False, m_sampleFeedback := False, m_mbMode := 0, hw_int := int_demo\<rparr>"
    by (simp add: demo_hw_def)
  then have c: "\<not> m_multipleRate demo_hw" "\<not> m_sampleFeedback demo_hw" "m_mbMode demo_hw = 0" "hw_int demo_hw = int_demo"
    by (simp_all add: demo_hw_def)
  have s: "sc_updated_any s \<and> sc_U s = Fin 2 \<and> sc_dt s = 8000 \<and> hp_u (sc_hp s) = Fin 1"
    by (simp add: s_def scan_hops_def demo_jam_facts scan_hop_def Let_def c demo_cell_facts demo_jam_txRate demo_jam_utilization)
  then show "sc_updated_any s" by simp
  show "m_mbMode demo_hw = 0" by (rule c(3))
  show "scan_max_c (demo_hw\<lparr>m_targetUtil := Fin 1\<rparr>) demo_jam_qp s = Fin 2"
    using s fl_of_int [of 16000] fl_of_int [of 2]
    by (simp add: scan_max_c_def ewma_def window_dt_def sampled_U_def c demo_jam_facts demo_jam_doubles)
qed

lemma demo_jam_ai:
  defines "s \<equiv> scan_hops (demo_hw\<lparr>m_targetUtil := Fin 1\<rparr>) demo_jam_qp demo_jam_ack False"
  shows "ai_eff (demo_hw\<lparr>m_targetUtil := Fin 1\<rparr>) 100000000000 (sc_k s) (Fin 2) (sc_btl_txrate s) = Some 5000000"
  using demo_jam_scan(3) by (simp add: ai_eff_def) (simp add: demo_hw_def)

lemma demo_jam_conf:
  "dle (Fin 1) (Fin 2)" "m_minRate demo_hw = 100000000" "\<not> m_multipleRate demo_hw" "(1::nat) \<le> maxHop"
  by (simp_all add: dle_def demo_hw_def maxHop_def)

lemma demo_jam_defined: "UpdateRateHp pow junk 1 demo_jam_ack False demo_jam_host \<noteq> None"
proof -
  let ?c = "demo_hw\<lparr>m_targetUtil := Fin 1\<rparr>" and ?qp = demo_jam_qp
  let ?s = "scan_hops ?c ?qp demo_jam_ack False"
  have cur: "hp_curRate (sc_hp ?s) = 100000000000" by (simp add: scan_hops_cur demo_jam_facts)
  obtain r s' where S: "hp_single pow ?c ?qp ?s = Some (r, 0, s')"
    using hp_single_congested [of ?c ?qp ?s 5000000 pow] demo_jam_scan demo_jam_ai demo_jam_conf cur by auto
  have "m_minRate ?c \<le> r" "r \<le> m_max_rate ?qp"
    using hp_single_bounds [OF S] demo_jam_conf demo_jam_facts by simp_all
  then have r: "0 < unat r" "unat r < 2 ^ 63"
    using demo_jam_conf demo_jam_facts by (simp_all add: word_le_nat_alt)
  have t: "\<exists>t. CalculateBytesTxTime r 0 = Some t" "\<exists>t. CalculateBytesTxTime 50000000000 0 = Some t"
    using CalculateBitsTxTime_eq [OF r] CalculateBitsTxTime_eq [of 50000000000 0] by (simp_all add: CalculateBytesTxTime_def)
  have "\<exists>h1. ChangeRate 1 r (set_hp 1 s' demo_jam_host) = Some h1"
    using t by (auto simp: ChangeRate_def set_hp_def set_qp_def demo_jam_host_def demo_jam_qp_def demo_host_defs
        nic_UpdateNextAvail_def GetNicIdxOfQp_def Let_def)
  then show ?thesis
    using S demo_jam_scan demo_jam_conf by (auto simp: UpdateRateHp_def UpdateRateHp_deltas_def hp_new_rate_def demo_jam_facts Let_def)
qed

lemma congestion_never_raises_witness:
  "\<forall>pow junk. \<exists>h'. UpdateRateHp pow junk 1 demo_jam_ack False demo_jam_host = Some h' \<and> m_rate (h_qp h' 1) \<le> 100005000000" (is "\<forall>pow junk. ?P pow junk")
proof (intro allI)
  fix pow junk
  obtain h' where h': "UpdateRateHp pow junk 1 demo_jam_ack False demo_jam_host = Some h'" using demo_jam_defined by blast
  let ?c = "demo_hw\<lparr>m_targetUtil := Fin 1\<rparr>"
  let ?s = "scan_hops ?c demo_jam_qp demo_jam_ack False"
  from congestion_never_raises [OF h', of ?s 5000000] demo_jam_ai demo_jam_scan demo_jam_conf
  show "?P pow junk" using h' by (simp add: demo_jam_facts)
qed

lemma hpcc_rate_bounds_witness:
  "\<forall>pow junk. \<exists>h'. HandleAckHp pow junk 1 demo_jam_ack demo_jam_host = Some h' \<and> m_rate (h_qp h' 1) \<le> 100000000000" (is "\<forall>pow junk. ?P pow junk")
proof (intro allI)
  fix pow junk
  have "qbb_seq demo_jam_ack = 1000" by (simp add: demo_jam_ack_def)
  then obtain h' where h': "HandleAckHp pow junk 1 demo_jam_ack demo_jam_host = Some h'"
    using demo_jam_defined [of pow junk] by (auto simp: HandleAckHp_def demo_jam_facts)
  have run: "ctl_run (HandleAckHp pow junk 1) 1 demo_jam_host h'"
    by (rule ctl_run.Ack [where handle = "HandleAckHp pow junk 1"], rule ctl_run.Begin, rule h')
  have "hp_ok 1 demo_jam_host" "m_minRate (hw demo_jam_host) \<le> m_rate (h_qp demo_jam_host 1)"
    "m_rate (h_qp demo_jam_host 1) \<le> m_max_rate (h_qp demo_jam_host 1)" "m_max_rate (h_qp demo_jam_host 1) = 100000000000"
    by (simp_all add: hp_ok_def demo_jam_facts demo_jam_conf) (simp_all add: demo_jam_qp_def demo_qp_def)
  then show "?P pow junk" using hpcc_rate_bounds [OF run] h' by metis
qed

lemma multi_bottleneck_is_stock_witness:
  "\<forall>pow. hp_new_rate pow 0 (demo_hw\<lparr>m_mbMode := 3\<rparr>) demo_qp demo_ack
      (scan_hops (demo_hw\<lparr>m_mbMode := 3\<rparr>) demo_qp demo_ack False)
    = hp_new_rate pow 0 (demo_hw\<lparr>m_mbMode := 0\<rparr>) demo_qp demo_ack
      (scan_hops (demo_hw\<lparr>m_mbMode := 0\<rparr>) demo_qp demo_ack False)" (is "\<forall>pow. ?P pow")
proof (intro allI)
  fix pow
  have "sc_k (scan_hops demo_hw demo_qp demo_ack False) \<in> {0, 1}"
    by (simp add: scan_hops_def demo_ack_def ack_nhop_def scan_hop_def Let_def demo_hw_def)
  then have "sc_k (scan_hops demo_hw demo_qp demo_ack False) < 2" by auto
  then show "?P pow" by (intro multi_bottleneck_is_stock) simp_all
qed

end
