(* ===== verification/Cc_Others.thy ===== *)
theory Cc_Others
  imports Cc_Hpcc
begin

text \<open>
  The other rate controllers of \<^verbatim>\<open>rdma-hw.cc\<close>: TIMELY (mode 7), DCTCP (mode 8), HPCC-PINT (mode 10)
  with the decoding of \<^verbatim>\<open>pint.cc\<close>, and the adoption of the fair rate that the switches stamp, HPCC-FS
  (mode 11).
\<close>

subsection \<open>TIMELY\<close>

definition i64_of_u64 :: "u64 \<Rightarrow> int" where
  "i64_of_u64 w = sint w"

text \<open>Whether the rate increases, else the factor of the decrease.\<close>

definition timely_decision :: "RdmaHw_conf \<Rightarrow> u64 \<Rightarrow> double \<Rightarrow> double option" where
  "timely_decision c rtt gradient =
     (if rtt < m_tmly_TLow c then None
      else if rtt > m_tmly_THigh c then
        Some (dsub (Fin 1) (dmul (m_tmly_beta c) (dsub (Fin 1) (ddiv (of_u64_d (m_tmly_THigh c)) (of_u64_d rtt)))))
      else if dle gradient (Fin 0) then None
      else let f = dsub (Fin 1) (dmul (m_tmly_beta c) gradient) in Some (if dless f (Fin 0) then Fin 0 else f))"

text \<open>The update after the first round trip; \<open>us\<close> leaves the state of the controller alone.\<close>

definition timely_adjust :: "RdmaHw_conf \<Rightarrow> bool \<Rightarrow> u64 \<Rightarrow> RdmaQueuePair \<Rightarrow> RdmaQueuePair option" where
  "timely_adjust c us rtt qp = (let t = tmly qp; new_rtt_diff = i64_of_u64 rtt - i64_of_u64 (tmly_lastRtt t) in do {
     guard (- (2 ^ 63) \<le> new_rtt_diff \<and> new_rtt_diff < 2 ^ 63);
     let rtt_diff = dadd (dmul (dsub (Fin 1) (m_tmly_alpha c)) (tmly_rttDiff t))
                         (dmul (m_tmly_alpha c) (of_int_d new_rtt_diff));
     (r, st) \<leftarrow> (case timely_decision c rtt (ddiv rtt_diff (of_u64_d (m_tmly_minRtt c))) of
         None \<Rightarrow>
           let r = dr_add (tmly_curRate t) (if tmly_incStage t < 5 then m_rai c else m_rhai c)
           in Some (if r > m_max_rate qp then m_max_rate qp else r, tmly_incStage t + 1)
       | Some f \<Rightarrow> do { d \<leftarrow> dr_scale (tmly_curRate t) f; Some (max (m_minRate c) d, 0) });
     Some (qp\<lparr>m_rate := r, tmly := (if us then t
       else t\<lparr>tmly_curRate := r, tmly_incStage := st, tmly_rttDiff := rtt_diff\<rparr>)\<rparr>) })"

definition UpdateRateTimely :: "nat \<Rightarrow> qbbHeader \<Rightarrow> bool \<Rightarrow> host \<Rightarrow> host option" where
  "UpdateRateTimely q ack us h = (let qp = h_qp h q; next_seq = ucast (snd_nxt qp);
       rtt = of_int (h_now h) - hop (qbb_ih ack) ! 0 in do {
     qp \<leftarrow> (if tmly_lastUpdateSeq (tmly qp) \<noteq> 0 then timely_adjust (hw h) us rtt qp else Some qp);
     let t = tmly qp;
     Some (set_qp q (if \<not> us \<and> next_seq > tmly_lastUpdateSeq t
       then qp\<lparr>tmly := t\<lparr>tmly_lastUpdateSeq := next_seq, tmly_lastRtt := rtt\<rparr>\<rparr> else qp) h) })"

definition HandleAckTimely :: "nat \<Rightarrow> qbbHeader \<Rightarrow> host \<Rightarrow> host option" where
  "HandleAckTimely q ack h =
     (if qbb_seq ack > tmly_lastUpdateSeq (tmly (h_qp h q)) then UpdateRateTimely q ack False h else Some h)"

subsection \<open>DCTCP\<close>

text \<open>The fraction of the ACKs of a batch that carry a mark, at most 1.\<close>

definition marked_fraction :: "u32 \<Rightarrow> u32 \<Rightarrow> double" where
  "marked_fraction cnt batch = (let q = ddiv (of_u32_d cnt) (of_u32_d batch) in if dless q (Fin 1) then q else Fin 1)"

text \<open>The estimate of the marked fraction, once per batch; a zero MTU divides by zero.\<close>

definition dctcp_batch :: "RdmaHw_conf \<Rightarrow> RdmaQueuePair \<Rightarrow> u32 \<Rightarrow> dctcp_state \<Rightarrow> dctcp_state option" where
  "dctcp_batch c qp sq d = do {
     guard (m_mtu c \<noteq> 0);
     Some (if dctcp_lastUpdateSeq d = 0 then
        d\<lparr>dctcp_lastUpdateSeq := ucast (snd_nxt qp),
          dctcp_batchSizeOfAlpha := ucast (snd_nxt qp div ucast (m_mtu c) + 1)\<rparr>
      else
        let frac = marked_fraction (dctcp_ecnCnt d) (dctcp_batchSizeOfAlpha d)
        in d\<lparr>dctcp_alpha := dadd (dmul (dsub (Fin 1) (m_g c)) (dctcp_alpha d)) (dmul (m_g c) frac),
          dctcp_lastUpdateSeq := ucast (snd_nxt qp), dctcp_ecnCnt := 0,
          dctcp_batchSizeOfAlpha := ucast ((snd_nxt qp - ucast sq) div ucast (m_mtu c) + 1)\<rparr>) }"

definition HandleAckDctcp :: "nat \<Rightarrow> qbbHeader \<Rightarrow> host \<Rightarrow> host option" where
  "HandleAckDctcp q ack h = do {
     let c = hw h;
     let qp = h_qp h q;
     let cnp = GetCnp ack;
     let d = (dctcp qp)\<lparr>dctcp_ecnCnt := dctcp_ecnCnt (dctcp qp) + (if cnp > 0 then 1 else 0)\<rparr>;
     let new_batch = (qbb_seq ack > dctcp_lastUpdateSeq d);
     d \<leftarrow> (if new_batch then dctcp_batch c qp (qbb_seq ack) d else Some d);
     let d = (if dctcp_caState d = 1 \<and> qbb_seq ack > dctcp_highSeq d then d\<lparr>dctcp_caState := 0\<rparr> else d);
     (r, d) \<leftarrow> (if cnp \<noteq> 0 \<and> dctcp_caState d = 0 then do {
          s \<leftarrow> dr_scale (m_rate qp) (dsub (Fin 1) (ddiv (dctcp_alpha d) (Fin 2)));
          Some (max (m_minRate c) s, d\<lparr>dctcp_caState := 1, dctcp_highSeq := ucast (snd_nxt qp)\<rparr>) }
        else Some (m_rate qp, d));
     let r = (if dctcp_caState d = 0 \<and> new_batch then min (m_max_rate qp) (dr_add r (m_dctcp_rai c)) else r);
     Some (set_qp q (qp\<lparr>m_rate := r, dctcp := d\<rparr>) h) }"

subsection \<open>HPCC-PINT\<close>

definition max_concurrent :: u32 where "max_concurrent = 512"

definition decode_u :: "pow_fun \<Rightarrow> double \<Rightarrow> u16 \<Rightarrow> double" where
  "decode_u pow log_base p = ddiv (pow log_base (Fin (u2r p))) (of_u32_d max_concurrent)"

definition SetPintSmplThresh :: "double \<Rightarrow> host \<Rightarrow> host option" where
  "SetPintSmplThresh p h = do {
     t \<leftarrow> to_u32 (dmul (Fin 65536) p);
     Some (h\<lparr>hw := (hw h)\<lparr>pint_smpl_thresh := t\<rparr>\<rparr>) }"

definition UpdateRateHpPint :: "pow_fun \<Rightarrow> double \<Rightarrow> nat \<Rightarrow> qbbHeader \<Rightarrow> bool \<Rightarrow> host \<Rightarrow> host option" where
  "UpdateRateHpPint pow log_base q ack fast_react h =
     (let c = hw h; qp = h_qp h q; s = hpccPint qp; next_seq = ucast (snd_nxt qp) in
      if pint_lastUpdateSeq s = 0 then Some (set_qp q (qp\<lparr>hpccPint := s\<lparr>pint_lastUpdateSeq := next_seq\<rparr>\<rparr>) h)
      else do {
        let max_c = ddiv (decode_u pow log_base (GetPower (hw_int c) (qbb_ih ack))) (m_targetUtil c);
        (r, st) \<leftarrow> hp_rule c (pint_curRate s) (pint_incStage s) max_c (ddiv (Fin 1) max_c) (m_rai c) (m_max_rate qp);
        h \<leftarrow> ChangeRate q r h;
        let s = s\<lparr>pint_curRate := r, pint_incStage := st,
          pint_lastUpdateSeq := max (pint_lastUpdateSeq s) next_seq\<rparr>;
        Some (if fast_react then h else set_qp q ((h_qp h q)\<lparr>hpccPint := s\<rparr>) h) })"

text \<open>The sample: \<open>rv\<close> is the value of \<^verbatim>\<open>rand ()\<close>, which is not negative.\<close>

definition HandleAckHpPint :: "pow_fun \<Rightarrow> double \<Rightarrow> u32 \<Rightarrow> nat \<Rightarrow> qbbHeader \<Rightarrow> host \<Rightarrow> host option" where
  "HandleAckHpPint pow log_base rv q ack h =
     (if rv mod 65536 \<ge> pint_smpl_thresh (hw h) then Some h
      else UpdateRateHpPint pow log_base q ack
             (\<not> qbb_seq ack > pint_lastUpdateSeq (hpccPint (h_qp h q))) h)"

subsection \<open>HPCC-FS\<close>

definition HandleAckFs :: "nat \<Rightarrow> qbbHeader \<Rightarrow> host \<Rightarrow> host option" where
  "HandleAckFs q ack h = (let c = hw h; qp = h_qp h q; fr = GetFairRate (hw_int c) (qbb_ih ack) in
     if fr = 0 then Some h
     else do {
       let r = clamp_rate (m_fsMinRate c) (m_max_rate qp) fr;
       let qp = qp\<lparr>hp := (hp qp)\<lparr>hp_curRate := r\<rparr>\<rparr>;
       qp \<leftarrow> (if m_fsRcpWindow c then do {
            w \<leftarrow> to_u64 (ddiv (dmul (dmul (of_u64_d r) (lit (1 / 10 ^ 9))) (of_u64_d (m_baseRtt qp))) (Fin 8));
            let w = (if w < ucast (m_mtu c) then ucast (m_mtu c) else w);
            Some (qp\<lparr>m_win := ucast w\<rparr>) }
          else Some qp);
       ChangeRate q r (set_qp q qp h) })"

text \<open>In mixed mode a flow belongs to the FS class by its destination port.\<close>

definition IsFsQp :: "nat \<Rightarrow> host \<Rightarrow> bool" where
  "IsFsQp q h \<longleftrightarrow> m_mixFsDport (hw h) \<noteq> 0 \<and> qp_dport (h_qp h q) \<ge> m_mixFsDport (hw h)"

subsection \<open>The controllers that clamp\<close>

text \<open>PowerTCP, HPCC-PINT and HPCC-FS end in the clamping: all they need is that the least rate does
  not exceed the rate of the link.\<close>

definition limits_ok :: "(RdmaHw_conf \<Rightarrow> rate) \<Rightarrow> nat \<Rightarrow> host \<Rightarrow> bool" where
  "limits_ok lo q h \<longleftrightarrow> lo (hw h) \<le> m_max_rate (h_qp h q)"

lemma controlled_limits_refl [simp]:
  "hw h' = hw h \<Longrightarrow> m_rate (h_qp h' q) = m_rate (h_qp h q) \<Longrightarrow> m_max_rate (h_qp h' q) = m_max_rate (h_qp h q)
    \<Longrightarrow> controlled (limits_ok lo q) lo q h h'"
  by (simp add: controlled_def limits_ok_def)

lemma controlled_limits_ChangeRate:
  assumes "ChangeRate q r h1 = Some h2" and "hw h1 = hw h" and "m_max_rate (h_qp h1 q) = m_max_rate (h_qp h q)"
    and "hw h' = hw h2" and "m_rate (h_qp h' q) = m_rate (h_qp h2 q)" and "m_max_rate (h_qp h' q) = m_max_rate (h_qp h2 q)"
    and "limits_ok lo q h \<Longrightarrow> lo (hw h) \<le> r \<and> r \<le> m_max_rate (h_qp h q)"
  shows "controlled (limits_ok lo q) lo q h h'"
  using assms(2-7) ChangeRate_qp [OF assms(1)] by (simp add: controlled_def limits_ok_def)

lemma limits_ok_view:
  "hw h' = hw h \<Longrightarrow> ctl_view (h_qp h' q) = ctl_view (h_qp h q) \<Longrightarrow> limits_ok lo q h \<Longrightarrow> limits_ok lo q h'"
  by (simp add: limits_ok_def ctl_view_def)

lemma UpdateRatePower_controlled:
  assumes "UpdateRatePower q ack f h = Some h'"
  shows "controlled (limits_ok m_minRate q) m_minRate q h h'"
proof (cases "ack_nhop ack > maxHop")
  case False
  obtain U dt any s where fold: "fold (power_hop (hw h) (h_qp h q) ack f) [0..<ack_nhop ack] (Fin 0, 0, False, hp (h_qp h q))
      = (U, dt, any, s)" using prod_cases4 by blast
  show ?thesis
  proof (cases "any")
    case True
    obtain r s1 h2 where r: "power_rate (hw h) (h_qp h q) U dt s = Some (r, s1)"
      and h2: "ChangeRate q r (set_hp q s1 h) = Some h2" and v: "hw h' = hw h2" "m_rate (h_qp h' q) = m_rate (h_qp h2 q)"
        "m_max_rate (h_qp h' q) = m_max_rate (h_qp h2 q)"
      using assms False fold True by (auto simp: UpdateRatePower_def Let_def elim!: bind_eq_SomeE split: if_splits)
    have "m_minRate (hw h) \<le> r \<and> r \<le> m_max_rate (h_qp h q)" if "limits_ok m_minRate q h"
      using r that clamp_rate_bounds by (auto simp: power_rate_def limits_ok_def Let_def elim!: bind_eq_SomeE)
    then show ?thesis using v by (intro controlled_limits_ChangeRate [OF h2]) simp_all
  next
    case no: False
    then show ?thesis using assms False fold by (auto simp: UpdateRatePower_def Let_def split: if_splits)
  qed
qed (use assms in \<open>simp add: UpdateRatePower_def Let_def\<close>)

lemma UpdateRateHpPint_controlled:
  assumes "UpdateRateHpPint pow lb q ack f h = Some h'"
  shows "controlled (limits_ok m_minRate q) m_minRate q h h'"
proof (cases "pint_lastUpdateSeq (hpccPint (h_qp h q)) = 0")
  case True
  then show ?thesis using assms by (auto simp: UpdateRateHpPint_def Let_def)
next
  case False
  obtain mc fac r st h2 where r: "hp_rule (hw h) (pint_curRate (hpccPint (h_qp h q))) (pint_incStage (hpccPint (h_qp h q)))
        mc fac (m_rai (hw h)) (m_max_rate (h_qp h q)) = Some (r, st)"
      and h2: "ChangeRate q r h = Some h2" and v: "hw h' = hw h2" "m_rate (h_qp h' q) = m_rate (h_qp h2 q)"
        "m_max_rate (h_qp h' q) = m_max_rate (h_qp h2 q)"
    using assms False by (auto simp: UpdateRateHpPint_def Let_def elim!: bind_eq_SomeE split: if_splits)
  have "m_minRate (hw h) \<le> r \<and> r \<le> m_max_rate (h_qp h q)" if "limits_ok m_minRate q h"
    using hp_rule_bounds [OF r] that by (simp add: limits_ok_def)
  then show ?thesis using v by (intro controlled_limits_ChangeRate [OF h2]) simp_all
qed

lemma HandleAckFs_spec:
  assumes "HandleAckFs q ack h = Some h'" and "GetFairRate (hw_int (hw h)) (qbb_ih ack) \<noteq> 0"
  obtains qp' where "ChangeRate q (clamp_rate (m_fsMinRate (hw h)) (m_max_rate (h_qp h q)) (GetFairRate (hw_int (hw h)) (qbb_ih ack)))
      (set_qp q qp' h) = Some h'" and "m_max_rate qp' = m_max_rate (h_qp h q)"
    and "hp_curRate (hp qp') = clamp_rate (m_fsMinRate (hw h)) (m_max_rate (h_qp h q)) (GetFairRate (hw_int (hw h)) (qbb_ih ack))"
  using assms by (auto simp: HandleAckFs_def Let_def elim!: bind_eq_SomeE split: if_splits)

lemma HandleAckFs_controlled:
  assumes "HandleAckFs q ack h = Some h'"
  shows "controlled (limits_ok m_fsMinRate q) m_fsMinRate q h h'"
proof (cases "GetFairRate (hw_int (hw h)) (qbb_ih ack) = 0")
  case True
  then show ?thesis using assms by (simp add: HandleAckFs_def Let_def)
next
  case False
  obtain qp' where c: "ChangeRate q (clamp_rate (m_fsMinRate (hw h)) (m_max_rate (h_qp h q)) (GetFairRate (hw_int (hw h)) (qbb_ih ack)))
      (set_qp q qp' h) = Some h'" and m: "m_max_rate qp' = m_max_rate (h_qp h q)"
    by (rule HandleAckFs_spec [OF assms False])
  show ?thesis using m clamp_rate_bounds by (intro controlled_limits_ChangeRate [OF c]) (simp_all add: limits_ok_def)
qed

lemma HandleAckPower_controlled:
  "HandleAckPower q ack h = Some h' \<Longrightarrow> controlled (limits_ok m_minRate q) m_minRate q h h'"
  using UpdateRatePower_controlled by (fastforce simp: HandleAckPower_def split: if_splits)

lemma HandleAckHpPint_controlled:
  "HandleAckHpPint pow lb rv q ack h = Some h' \<Longrightarrow> controlled (limits_ok m_minRate q) m_minRate q h h'"
  using UpdateRateHpPint_controlled by (fastforce simp: HandleAckHpPint_def split: if_splits)

interpretation power_tcp: bounded_control "HandleAckPower q" "limits_ok m_minRate q" q m_minRate
  by unfold_locales (use HandleAckPower_controlled [unfolded controlled_def] limits_ok_view in blast)+

interpretation pint: bounded_control "\<lambda>ack h. HandleAckHpPint pow lb (rv ack h) q ack h" "limits_ok m_minRate q" q m_minRate
  by unfold_locales (use HandleAckHpPint_controlled [unfolded controlled_def] limits_ok_view in blast)+

interpretation fair_share: bounded_control "HandleAckFs q" "limits_ok m_fsMinRate q" q m_fsMinRate
  by unfold_locales (use HandleAckFs_controlled [unfolded controlled_def] limits_ok_view in blast)+

subsection \<open>DCTCP and TIMELY\<close>

lemma unit_sub: "unit_double x \<Longrightarrow> unit_double (dsub (Fin 1) x)"
  by (erule unit_doubleE) (simp add: dsub_def unit_double_fl)

lemma unit_mul: "unit_double x \<Longrightarrow> unit_double y \<Longrightarrow> unit_double (dmul x y)"
  by (elim unit_doubleE) (simp add: unit_double_fl mult_le_one)

lemma unit_half: "unit_double x \<Longrightarrow> unit_double (ddiv x (Fin 2))"
  by (erule unit_doubleE) (simp add: unit_double_fl)

lemma unit_quotient:
  assumes "rnd x = x" and "0 \<le> x" and "x \<le> y"
  shows "0 < y \<Longrightarrow> unit_double (ddiv (Fin x) (Fin y))"
  using assms by (simp add: unit_double_fl)

lemma dr_scale_unit:
  assumes "dr_scale w f = Some m" and "unit_double f" and "uint w \<le> 2 ^ 53"
  shows "m \<le> w"
proof -
  obtain x where "f = Fin x" "0 \<le> x" "x \<le> 1" by (rule unit_doubleE [OF assms(2)])
  then show ?thesis using to_u64_scale_down [OF assms(3)] assms(1) by (fastforce simp: dr_scale_def)
qed

text \<open>Sums of rates below 2^53 do not wrap.\<close>

lemma dr_add_ge:
  assumes "uint a \<le> 2 ^ 53" and "uint b \<le> 2 ^ 53"
  shows "a \<le> dr_add a b"
proof -
  have "unat a \<le> 9007199254740992" "unat b \<le> 9007199254740992" using assms by (simp_all add: unat_le_of_uint)
  then have "unat a + unat b < 2 ^ LENGTH(64)" by simp
  then show ?thesis by (simp add: dr_add_def word_le_nat_alt unat_add_nowrap del: len_of_numeral_defs)
qed

definition dctcp_ok :: "nat \<Rightarrow> host \<Rightarrow> bool" where
  "dctcp_ok q h \<longleftrightarrow> unit_double (m_g (hw h)) \<and> unit_double (dctcp_alpha (dctcp (h_qp h q)))
     \<and> m_minRate (hw h) \<le> m_rate (h_qp h q) \<and> m_rate (h_qp h q) \<le> m_max_rate (h_qp h q)
     \<and> uint (m_max_rate (h_qp h q)) \<le> 2 ^ 53 \<and> uint (m_dctcp_rai (hw h)) \<le> 2 ^ 53"

lemma marked_fraction_unit: "unit_double (marked_fraction a b)"
proof (cases "u2r b = 0")
  case True
  then show ?thesis using u2r_nonneg [of a] by (simp add: marked_fraction_def unit_double_1 not_less [symmetric])
next
  case False
  have n: "0 \<le> u2r a / u2r b" by simp
  then have "fl (u2r a / u2r b) = Fin (rnd (u2r a / u2r b)) \<or> fl (u2r a / u2r b) = Infty False"
    using fl_cases [of "u2r a / u2r b"] leD [OF n] by metis
  then show ?thesis
    using False rnd_nonneg [OF n] by (auto simp: marked_fraction_def Let_def unit_double_1 unit_double_def)
qed

lemma dctcp_batch_alpha:
  assumes "dctcp_batch c qp sq d = Some d'" and "unit_double (m_g c)" and "unit_double (dctcp_alpha d)"
  shows "unit_double (dctcp_alpha d')"
  using assms average_unit(1) [OF assms(2,3) marked_fraction_unit]
  by (auto simp: dctcp_batch_def Let_def elim!: bind_eq_SomeE split: if_splits)

text \<open>What an ACK does to the rate: it is cut, and increased at most once.\<close>

lemma HandleAckDctcp_cases:
  assumes "HandleAckDctcp q ack h = Some h'" and "dctcp_ok q h"
  obtains r r' d where "h' = set_qp q ((h_qp h q)\<lparr>m_rate := r', dctcp := d\<rparr>) h" and "unit_double (dctcp_alpha d)"
    and "m_minRate (hw h) \<le> r" and "r \<le> m_max_rate (h_qp h q)"
    and "r' = r \<or> r' = min (m_max_rate (h_qp h q)) (dr_add r (m_dctcp_rai (hw h)))"
proof -
  note ok = assms(2) [unfolded dctcp_ok_def]
  let ?qp = "h_qp h q" and ?sq = "qbb_seq ack"
  let ?d0 = "(dctcp ?qp)\<lparr>dctcp_ecnCnt := dctcp_ecnCnt (dctcp ?qp) + (if GetCnp ack > 0 then 1 else 0)\<rparr>"
  obtain d1 r d2 where d1: "(if ?sq > dctcp_lastUpdateSeq ?d0 then dctcp_batch (hw h) ?qp ?sq ?d0 else Some ?d0) = Some d1"
    and r: "(let d = (if dctcp_caState d1 = 1 \<and> ?sq > dctcp_highSeq d1 then d1\<lparr>dctcp_caState := 0\<rparr> else d1) in
        if GetCnp ack \<noteq> 0 \<and> dctcp_caState d = 0 then do {
          s \<leftarrow> dr_scale (m_rate ?qp) (dsub (Fin 1) (ddiv (dctcp_alpha d) (Fin 2)));
          Some (max (m_minRate (hw h)) s, d\<lparr>dctcp_caState := 1, dctcp_highSeq := ucast (snd_nxt ?qp)\<rparr>) }
        else Some (m_rate ?qp, d)) = Some (r, d2)"
    and h': "h' = set_qp q (?qp\<lparr>m_rate := (if dctcp_caState d2 = 0 \<and> ?sq > dctcp_lastUpdateSeq ?d0
        then min (m_max_rate ?qp) (dr_add r (m_dctcp_rai (hw h))) else r), dctcp := d2\<rparr>) h"
    using assms(1) unfolding HandleAckDctcp_def Let_def by (elim bind_eq_SomeE) (auto simp: Let_def)
  have "unit_double (dctcp_alpha ?d0)" using ok by simp
  then have a1: "unit_double (dctcp_alpha d1)" using d1 dctcp_batch_alpha ok by (auto split: if_splits)
  then have f: "unit_double (dsub (Fin 1) (ddiv (dctcp_alpha d1) (Fin 2)))" by (intro unit_sub unit_half)
  have cut: "s \<le> m_rate ?qp" if "dr_scale (m_rate ?qp) (dsub (Fin 1) (ddiv (dctcp_alpha d1) (Fin 2))) = Some s" for s
    using ok by (intro dr_scale_unit [OF that f]) (meson order_trans word_le_def)
  have a2: "dctcp_alpha d2 = dctcp_alpha d1" using r by (auto simp: Let_def elim!: bind_eq_SomeE split: if_splits)
  have "m_minRate (hw h) \<le> r \<and> r \<le> m_max_rate ?qp"
    using r ok cut by (auto simp: Let_def elim!: bind_eq_SomeE split: if_splits intro: order_trans)
  then show ?thesis using that [OF h'] a1 a2 by auto
qed

lemma HandleAckDctcp_controlled:
  assumes "HandleAckDctcp q ack h = Some h'"
  shows "controlled (dctcp_ok q) m_minRate q h h'"
proof -
  have "dctcp_ok q h' \<and> m_minRate (hw h) \<le> m_rate (h_qp h' q) \<and> m_rate (h_qp h' q) \<le> m_max_rate (h_qp h q)"
    if ok: "dctcp_ok q h"
  proof -
    obtain r r' d where h': "h' = set_qp q ((h_qp h q)\<lparr>m_rate := r', dctcp := d\<rparr>) h" and d: "unit_double (dctcp_alpha d)"
      and r: "m_minRate (hw h) \<le> r" "r \<le> m_max_rate (h_qp h q)"
        "r' = r \<or> r' = min (m_max_rate (h_qp h q)) (dr_add r (m_dctcp_rai (hw h)))"
      by (rule HandleAckDctcp_cases [OF assms ok])
    have "uint r \<le> 2 ^ 53" using ok r(2) by (meson dctcp_ok_def order_trans word_le_def)
    then have "r \<le> dr_add r (m_dctcp_rai (hw h))" using ok by (intro dr_add_ge) (simp_all add: dctcp_ok_def)
    then have "m_minRate (hw h) \<le> r' \<and> r' \<le> m_max_rate (h_qp h q)" using r by (auto simp: min_def)
    then show ?thesis using ok d by (simp add: h' dctcp_ok_def)
  qed
  moreover have "hw h' = hw h \<and> m_max_rate (h_qp h' q) = m_max_rate (h_qp h q)"
    using assms by (auto simp: HandleAckDctcp_def Let_def elim!: bind_eq_SomeE)
  ultimately show ?thesis by (simp add: controlled_def)
qed

interpretation dc_tcp: bounded_control "HandleAckDctcp q" "dctcp_ok q" q m_minRate
proof unfold_locales
  show "dctcp_ok q h'" if "hw h' = hw h" "ctl_view (h_qp h' q) = ctl_view (h_qp h q)" "dctcp_ok q h" for h h'
    using that by (simp add: dctcp_ok_def ctl_view_def)
qed (use HandleAckDctcp_controlled [unfolded controlled_def] in blast)+

text \<open>TIMELY. A factor is NaN, which no cast to an integer accepts, or between 0 and 1.\<close>

lemma cut_factor_unit:
  assumes "y = Fin v \<and> 0 \<le> v \<or> y = Infty False"
  shows "unit_double (let f = dsub (Fin 1) y in if dless f (Fin 0) then Fin 0 else f)"
proof -
  have zero: "unit_double (Fin 0)" by (simp add: unit_double_def)
  consider (unit) "y = Fin v" "0 \<le> v" "v \<le> 1" | (big) "y = Fin v" "1 \<le> v" | (inf) "y = Infty False"
    using assms by fastforce
  then show ?thesis
  proof cases
    case unit
    then have "unit_double (dsub (Fin 1) y)" by (simp add: dsub_def unit_double_fl)
    then show ?thesis using zero by (simp add: Let_def)
  next
    case big
    have "rnd (1 - v) \<le> 0" using big(2) rnd_mono [of "1 - v" 0] by simp
    then have "fl (1 - v) = Infty True \<or> (\<exists>w. fl (1 - v) = Fin w \<and> w \<le> 0)"
      using fl_cases [of "1 - v"] big(2) by (cases "v = 1") auto
    then show ?thesis using big(1) zero by (auto simp: Let_def dsub_def)
  qed (simp add: Let_def dsub_def zero)
qed

lemma timely_factor:
  assumes "timely_decision c rtt g = Some f" and "unit_double (m_tmly_beta c)"
  shows "unit_double f \<or> f = NaN"
proof -
  obtain b where b: "m_tmly_beta c = Fin b" "0 \<le> b" "b \<le> 1" by (rule unit_doubleE [OF assms(2)])
  let ?y = "dmul (m_tmly_beta c) g" and ?x = "u2r rtt"
  consider (slow) "rtt > m_tmly_THigh c"
      "f = dsub (Fin 1) (dmul (m_tmly_beta c) (dsub (Fin 1) (ddiv (of_u64_d (m_tmly_THigh c)) (of_u64_d rtt))))"
    | (middle) "\<not> dle g (Fin 0)" "f = (let f = dsub (Fin 1) ?y in if dless f (Fin 0) then Fin 0 else f)"
    using assms(1) by (auto simp: timely_decision_def Let_def split: if_splits)
  then show ?thesis
  proof cases
    case slow
    have "1 \<le> uint rtt" using slow(1) uint_ge_0 [of "m_tmly_THigh c"] unfolding word_less_def by linarith
    then have "of_int 1 \<le> (of_int (uint rtt) :: rat)" by (simp only: of_int_le_iff)
    then have "1 \<le> ?x" by (simp only: u2r_def of_int_1)
    then have "0 < rnd ?x" using rnd_mono [of 1 ?x] by simp
    moreover have "rnd (u2r (m_tmly_THigh c)) \<le> rnd ?x" using slow(1) by (simp add: rnd_mono)
    ultimately have "unit_double (ddiv (of_u64_d (m_tmly_THigh c)) (of_u64_d rtt))"
      using unit_quotient [of "rnd (u2r (m_tmly_THigh c))" "rnd ?x"] by (simp add: of_u64_d_eq)
    then show ?thesis using slow(2) assms(2) unit_sub unit_mul by blast
  next
    case middle
    have "?y = NaN \<or> (\<exists>v. ?y = Fin v \<and> 0 \<le> v) \<or> ?y = Infty False"
    proof (cases g)
      case (Fin x)
      then have "0 \<le> b * x" using middle(1) b by (simp add: dle_def)
      then show ?thesis using Fin b(1) fl_cases [of "b * x"] rnd_nonneg by (metis dmul.simps(1) leD)
    qed (use middle(1) b in \<open>auto simp: dle_def\<close>)
    then show ?thesis
    proof (elim disjE)
      assume "?y = NaN"
      then show ?thesis using middle(2) by (simp add: dsub_def Let_def)
    qed (use middle(2) cut_factor_unit in blast)+
  qed
qed

definition timely_ok :: "nat \<Rightarrow> host \<Rightarrow> bool" where
  "timely_ok q h \<longleftrightarrow> unit_double (m_tmly_beta (hw h)) \<and> m_minRate (hw h) \<le> tmly_curRate (tmly (h_qp h q))
     \<and> tmly_curRate (tmly (h_qp h q)) \<le> m_max_rate (h_qp h q) \<and> uint (m_max_rate (h_qp h q)) \<le> 2 ^ 53
     \<and> uint (m_rai (hw h)) \<le> 2 ^ 53 \<and> uint (m_rhai (hw h)) \<le> 2 ^ 53"

lemma timely_adjust_bounds:
  assumes "timely_adjust c us rtt p = Some p'" and "unit_double (m_tmly_beta c)"
    and "m_minRate c \<le> tmly_curRate (tmly p)" and "tmly_curRate (tmly p) \<le> m_max_rate p"
    and "uint (m_max_rate p) \<le> 2 ^ 53" and "uint (m_rai c) \<le> 2 ^ 53" and "uint (m_rhai c) \<le> 2 ^ 53"
  shows "m_minRate c \<le> m_rate p' \<and> m_rate p' \<le> m_max_rate p \<and> m_max_rate p' = m_max_rate p
    \<and> tmly_curRate (tmly p') \<in> {m_rate p', tmly_curRate (tmly p)}"
proof -
  let ?R = "tmly_curRate (tmly p)"
  have R: "uint ?R \<le> 2 ^ 53" using assms(4,5) by (meson order_trans word_le_def)
  obtain d r st g where d: "(case timely_decision c rtt g of
         None \<Rightarrow> let r = dr_add ?R (if tmly_incStage (tmly p) < 5 then m_rai c else m_rhai c)
                  in Some (if r > m_max_rate p then m_max_rate p else r, tmly_incStage (tmly p) + 1)
       | Some f \<Rightarrow> do { d \<leftarrow> dr_scale ?R f; Some (max (m_minRate c) d, 0) }) = Some (r, st)"
    and p': "p' = p\<lparr>m_rate := r, tmly := (if us then tmly p
       else (tmly p)\<lparr>tmly_curRate := r, tmly_incStage := st, tmly_rttDiff := d\<rparr>)\<rparr>"
    using assms(1) unfolding timely_adjust_def Let_def by (elim bind_eq_SomeE) (auto simp: Let_def)
  have "m_minRate c \<le> r \<and> r \<le> m_max_rate p"
  proof (cases "timely_decision c rtt g")
    case None
    have "?R \<le> dr_add ?R (if tmly_incStage (tmly p) < 5 then m_rai c else m_rhai c)"
      using R assms(6,7) by (intro dr_add_ge) simp_all
    then show ?thesis using d None assms(3,4) by (auto simp: Let_def split: if_splits)
  next
    case (Some f)
    then obtain m where m: "dr_scale ?R f = Some m" "r = max (m_minRate c) m"
      using d by (auto elim!: bind_eq_SomeE)
    have "f \<noteq> NaN" using m(1) by (auto simp: dr_scale_def of_u64_d_eq to_u64_def)
    then have "m \<le> ?R" using timely_factor [OF Some assms(2)] dr_scale_unit [OF m(1) _ R] by blast
    then show ?thesis using m(2) assms(3,4) by auto
  qed
  then show ?thesis by (simp add: p')
qed

lemma HandleAckTimely_controlled:
  assumes "HandleAckTimely q ack h = Some h'"
  shows "controlled (timely_ok q) m_minRate q h h'"
proof -
  have "controlled (timely_ok q) m_minRate q h h'" if upd: "UpdateRateTimely q ack us h = Some h'" for us
  proof -
    let ?p = "h_qp h q"
    obtain rtt p where p: "(if tmly_lastUpdateSeq (tmly ?p) \<noteq> 0 then timely_adjust (hw h) us rtt ?p else Some ?p) = Some p"
      and h': "h' = set_qp q (if \<not> us \<and> ucast (snd_nxt ?p) > tmly_lastUpdateSeq (tmly p)
        then p\<lparr>tmly := (tmly p)\<lparr>tmly_lastUpdateSeq := ucast (snd_nxt ?p), tmly_lastRtt := rtt\<rparr>\<rparr> else p) h"
      using upd unfolding UpdateRateTimely_def Let_def by (elim bind_eq_SomeE) simp
    have same: "hw h' = hw h" "m_rate (h_qp h' q) = m_rate p" "m_max_rate (h_qp h' q) = m_max_rate p"
      "tmly_curRate (tmly (h_qp h' q)) = tmly_curRate (tmly p)" by (simp_all add: h')
    have "m_max_rate p = m_max_rate ?p" using p by (auto simp: timely_adjust_def Let_def elim!: bind_eq_SomeE split: if_splits option.splits)
    moreover have "timely_ok q h' \<and> (m_rate p = m_rate ?p \<or> m_minRate (hw h) \<le> m_rate p \<and> m_rate p \<le> m_max_rate ?p)"
      if ok: "timely_ok q h"
      using p ok timely_adjust_bounds [of "hw h" us rtt ?p p] by (auto simp: timely_ok_def same split: if_splits)
    ultimately show ?thesis by (simp add: controlled_def same)
  qed
  then show ?thesis using assms controlled_refl by (auto simp: HandleAckTimely_def split: if_splits)
qed

interpretation timely: bounded_control "HandleAckTimely q" "timely_ok q" q m_minRate
proof unfold_locales
  show "timely_ok q h'" if "hw h' = hw h" "ctl_view (h_qp h' q) = ctl_view (h_qp h q)" "timely_ok q h" for h h'
    using that by (simp add: timely_ok_def ctl_view_def)
qed (use HandleAckTimely_controlled [unfolded controlled_def] in blast)+

subsection \<open>Properties\<close>

text \<open>C38: TIMELY keeps the rate of a flow between the least rate and the rate of the link, for any round
  trip times, also when the gradient overflows to infinity, if beta is between 0 and 1 and no rate
  exceeds 2^53 b/s.\<close>

theorem timely_rate_bounds:
  assumes "ctl_run (HandleAckTimely q) q h h'" and "timely_ok q h"
    and "m_minRate (hw h) \<le> m_rate (h_qp h q)" and "m_rate (h_qp h q) \<le> m_max_rate (h_qp h q)"
  shows "m_minRate (hw h) \<le> m_rate (h_qp h' q) \<and> m_rate (h_qp h' q) \<le> m_max_rate (h_qp h q)"
  by (rule timely.run_bounds [OF assms])

lemma dctcp_run_ok: "ctl_run (HandleAckDctcp q) q h h' \<Longrightarrow> dctcp_ok q h \<Longrightarrow> dctcp_ok q h'"
  using dc_tcp.run_in_band by (simp add: dc_tcp.in_band_def dctcp_ok_def)

text \<open>C39: DCTCP keeps its estimate of the marked fraction between 0 and 1 in IEEE arithmetic and the rate
  between the least rate and the rate of the link, whatever the marks.\<close>

theorem dctcp_bounds:
  assumes "ctl_run (HandleAckDctcp q) q h h'" and "dctcp_ok q h"
  shows "unit_double (dctcp_alpha (dctcp (h_qp h' q))) \<and> m_minRate (hw h) \<le> m_rate (h_qp h' q)
    \<and> m_rate (h_qp h' q) \<le> m_max_rate (h_qp h q)"
  using dctcp_run_ok [OF assms] dc_tcp.run_conf [OF assms(1)] by (simp add: dctcp_ok_def)

text \<open>C40: PowerTCP and HPCC-PINT keep the rate between the least rate and the rate of the link, whatever
  telemetry the ACKs carry, however \<^verbatim>\<open>pow\<close> rounds and whichever ACKs are sampled; HPCC-FS keeps it above
  its own floor.\<close>

theorem clamped_rate_bounds:
  assumes "ctl_run (HandleAckPower q) q h h' \<and> lo = m_minRate
      \<or> ctl_run (\<lambda>ack h. HandleAckHpPint pow lb (rv ack h) q ack h) q h h' \<and> lo = m_minRate
      \<or> ctl_run (HandleAckFs q) q h h' \<and> lo = m_fsMinRate"
    and "lo (hw h) \<le> m_rate (h_qp h q)" and "m_rate (h_qp h q) \<le> m_max_rate (h_qp h q)"
  shows "lo (hw h) \<le> m_rate (h_qp h' q) \<and> m_rate (h_qp h' q) \<le> m_max_rate (h_qp h q)"
proof -
  have ok: "limits_ok lo q h" using assms(2,3) by (simp add: limits_ok_def)
  show ?thesis
    using assms(1)
  proof (elim disjE conjE)
    assume "ctl_run (HandleAckPower q) q h h'" and lo: "lo = m_minRate"
    then show ?thesis using power_tcp.run_bounds assms(2,3) ok by (simp only: lo)
  next
    assume "ctl_run (\<lambda>ack h. HandleAckHpPint pow lb (rv ack h) q ack h) q h h'" and lo: "lo = m_minRate"
    then show ?thesis using pint.run_bounds assms(2,3) ok by (simp only: lo)
  next
    assume "ctl_run (HandleAckFs q) q h h'" and lo: "lo = m_fsMinRate"
    then show ?thesis using fair_share.run_bounds assms(2,3) ok by (simp only: lo)
  qed
qed

text \<open>Under HPCC-FS an ACK that carries a fair rate sets the rate and the committed rate to it, clamped
  to the floor of the mode and the rate of the link.\<close>

lemma HandleAckFs_rate:
  assumes "HandleAckFs q ack h = Some h'" and "GetFairRate (hw_int (hw h)) (qbb_ih ack) = fr" and "fr \<noteq> 0"
  shows "m_rate (h_qp h' q) = clamp_rate (m_fsMinRate (hw h)) (m_max_rate (h_qp h q)) fr
    \<and> hp_curRate (hp (h_qp h' q)) = m_rate (h_qp h' q) \<and> (\<forall>p. p \<noteq> q \<longrightarrow> h_qp h' p = h_qp h p)"
proof -
  obtain qp' where c: "ChangeRate q (clamp_rate (m_fsMinRate (hw h)) (m_max_rate (h_qp h q)) fr) (set_qp q qp' h) = Some h'"
    and m: "hp_curRate (hp qp') = clamp_rate (m_fsMinRate (hw h)) (m_max_rate (h_qp h q)) fr"
    using HandleAckFs_spec [OF assms(1)] assms(2,3) by metis
  show ?thesis using m ChangeRate_qp [OF c] by (simp add: set_qp_def)
qed

subsection \<open>Witnesses\<close>

definition demo_cc_host :: host where
  "demo_cc_host = (demo_host [1])\<lparr>h_qp := (\<lambda>_. demo_qp\<lparr>tmly := (tmly demo_qp)\<lparr>tmly_curRate := 50000000000\<rparr>\<rparr>),
     hw := demo_hw\<lparr>hw_int := int_demo\<lparr>ih_mode := FS\<rparr>\<rparr>\<rparr>"

lemma demo_cc_facts:
  "m_minRate (hw demo_cc_host) = 100000000" "m_fsMinRate (hw demo_cc_host) = 100000000"
  "m_rate (h_qp demo_cc_host q) = 50000000000" "m_max_rate (h_qp demo_cc_host q) = 100000000000"
  by (simp_all add: demo_cc_host_def demo_hw_def demo_host_defs)

lemma ctl_run_one: "handle ack h = Some h' \<Longrightarrow> ctl_run handle q h h'"
  by (rule ctl_run.Ack [where handle = handle], rule ctl_run.Begin)

lemma timely_rate_bounds_witness:
  "\<exists>h'. HandleAckTimely 1 demo_ack demo_cc_host = Some h' \<and> m_rate (h_qp h' 1) \<le> 100000000000"
proof -
  obtain h' where h': "HandleAckTimely 1 demo_ack demo_cc_host = Some h'"
    by (simp add: HandleAckTimely_def UpdateRateTimely_def demo_cc_host_def demo_host_defs demo_ack_def Let_def)
  have "unit_double (m_tmly_beta (hw demo_cc_host))"
    by (simp add: demo_cc_host_def demo_hw_def lit_def unit_double_fl)
  then have "timely_ok 1 demo_cc_host"
    by (simp add: timely_ok_def demo_cc_facts) (simp add: demo_cc_host_def demo_hw_def demo_host_defs)
  then show ?thesis
    using timely_rate_bounds [OF ctl_run_one [where handle = "HandleAckTimely 1", OF h']] h' by (simp add: demo_cc_facts)
qed

lemma dctcp_bounds_witness:
  "\<exists>h'. HandleAckDctcp 1 demo_ack demo_cc_host = Some h' \<and> m_rate (h_qp h' 1) \<le> 100000000000"
proof -
  obtain h' where h': "HandleAckDctcp 1 demo_ack demo_cc_host = Some h'"
    by (simp add: HandleAckDctcp_def dctcp_batch_def demo_cc_host_def demo_host_defs demo_hw_def demo_ack_def Let_def
        GetCnp_def qbbHeader_init_def)
  have "rnd (1 / 16) = 1 / 16" using rnd_exact [of 1 "-4"] by (simp add: power_int_minus)
  then have "unit_double (m_g (hw demo_cc_host))"
    by (simp add: demo_cc_host_def demo_hw_def unit_double_def)
  then have "dctcp_ok 1 demo_cc_host"
    by (simp add: dctcp_ok_def demo_cc_facts) (simp add: demo_cc_host_def demo_hw_def demo_host_defs unit_double_1)
  then show ?thesis
    using dctcp_bounds [OF ctl_run_one [where handle = "HandleAckDctcp 1", OF h']] h' by (simp add: demo_cc_facts)
qed

text \<open>An ACK that stamps a fair rate of 10 Gb/s, on a flow that has not sent a packet yet.\<close>

definition demo_fs_ack :: qbbHeader where
  "demo_fs_ack = demo_ack\<lparr>qbb_ih := IntHeader_init\<lparr>hop := (hop IntHeader_init)[0 := 10000000000]\<rparr>\<rparr>"

lemma demo_fs_defined:
  "HandleAckFs 1 demo_fs_ack demo_cc_host \<noteq> None" "GetFairRate (hw_int (hw demo_cc_host)) (qbb_ih demo_fs_ack) = 10000000000"
proof -
  have t: "\<exists>t. CalculateBytesTxTime 50000000000 0 = Some t" "\<exists>t. CalculateBytesTxTime 10000000000 0 = Some t"
    using CalculateBitsTxTime_eq [of 50000000000 0] CalculateBitsTxTime_eq [of 10000000000 0]
    by (simp_all add: CalculateBytesTxTime_def)
  show f: "GetFairRate (hw_int (hw demo_cc_host)) (qbb_ih demo_fs_ack) = 10000000000"
    by (simp add: GetFairRate_def demo_cc_host_def demo_hw_def demo_fs_ack_def IntHeader_init_def maxHop_def)
  show "HandleAckFs 1 demo_fs_ack demo_cc_host \<noteq> None"
    using t unfolding HandleAckFs_def f Let_def
    by (auto simp: demo_cc_host_def demo_hw_def demo_host_defs clamp_rate_def ChangeRate_def nic_UpdateNextAvail_def
        GetNicIdxOfQp_def Let_def)
qed

lemma clamped_rate_bounds_witness:
  "\<exists>h'. HandleAckFs 1 demo_fs_ack demo_cc_host = Some h' \<and> m_rate (h_qp h' 1) \<le> 100000000000"
proof -
  obtain h' where h': "HandleAckFs 1 demo_fs_ack demo_cc_host = Some h'" using demo_fs_defined(1) by blast
  have "ctl_run (HandleAckFs 1) 1 demo_cc_host h'" by (rule ctl_run_one [where handle = "HandleAckFs 1", OF h'])
  then show ?thesis
    using clamped_rate_bounds [of 1 demo_cc_host h' m_fsMinRate undefined undefined undefined] h' by (simp add: demo_cc_facts)
qed

end
