(* ===== verification/Rdma_Receive.thy ===== *)
theory Rdma_Receive
  imports Cc_Dcqcn Cc_Others
begin

text \<open>
  The receiving side of \<^verbatim>\<open>RdmaHw\<close> (\<^verbatim>\<open>rdma-hw.cc\<close>): the attributes' defaults, the life of a queue pair
  (creation, completion, redistribution), the receiver's check of sequence numbers with its ACKs and
  NACKs, the dispatch of what a card receives (\<^verbatim>\<open>qbb-net-device.cc\<close>), and the dispatch of the events.
  The lemmas give the behaviour of the receiver on every branch.
\<close>

subsection \<open>Attributes\<close>

text \<open>\<^verbatim>\<open>UtilHigh\<close> is an attribute that no function reads.\<close>

definition RdmaHw_defaults :: "int_conf \<Rightarrow> nat \<Rightarrow> RdmaHw_conf" where
  "RdmaHw_defaults ic ack_q = \<lparr>m_minRate = 100000000, m_mtu = 1000, m_cc_mode = 0, m_nack_interval = Fin 500,
     m_chunk = 0, m_ack_interval = 0, m_backto0 = False, hw_var_win = False, m_fast_react = True,
     m_rateBound = True, m_g = ddiv (Fin 1) (Fin 16), m_rateOnFirstCNP = Fin 1, m_EcnClampTgtRate = False,
     m_rpgTimeReset = Fin 1500, m_rateDecreaseInterval = Fin 4, m_rpgThreshold = 5,
     m_alpha_resume_interval = Fin 55, m_rai = 5000000, m_rhai = 50000000, m_targetUtil = lit (95 / 100),
     m_miThresh = 5, m_multipleRate = True, m_sampleFeedback = False, m_mbMode = 0, m_mbGamma = Fin 1,
     m_tmly_alpha = lit (875 / 1000), m_tmly_beta = lit (8 / 10), m_tmly_TLow = 50000, m_tmly_THigh = 500000,
     m_tmly_minRtt = 20000, m_dctcp_rai = 1000000000, pint_smpl_thresh = 65536, m_mixFsDport = 0,
     m_fsRcpWindow = False, m_fsMinRate = 100000000, hw_int = ic, ack_q_idx = ack_q\<rparr>"

subsection \<open>The life of a queue pair\<close>

text \<open>The initial rates: \<^verbatim>\<open>bps\<close> is the rate of the card.\<close>

definition set_hp_rates :: "bool \<Rightarrow> rate \<Rightarrow> hp_state \<Rightarrow> hp_state" where
  "set_hp_rates multiple bps s = s\<lparr>hp_curRate := bps, hp_hopState := (if multiple
     then (\<lambda>i. if i < maxHop then (hp_hopState s i)\<lparr>hs_Rc := bps\<rparr> else hp_hopState s i) else hp_hopState s)\<rparr>"

definition init_rates :: "RdmaHw_conf \<Rightarrow> bool \<Rightarrow> rate \<Rightarrow> RdmaQueuePair \<Rightarrow> RdmaQueuePair" where
  "init_rates c is_fs bps qp = (let m = m_cc_mode c; qp = qp\<lparr>m_rate := bps, m_max_rate := bps\<rparr>;
       slow = qp\<lparr>m_rate := m_minRate c, hp := (hp qp)\<lparr>hp_curRate := m_minRate c\<rparr>\<rparr>;
       stock = qp\<lparr>hp := set_hp_rates (m_multipleRate c) bps (hp qp)\<rparr> in
     if m = 1 then qp\<lparr>mlx := (mlx qp)\<lparr>m_targetRate := bps\<rparr>\<rparr>
     else if m = 3 \<or> m = 13 then stock
     else if m = 7 then qp\<lparr>tmly := (tmly qp)\<lparr>tmly_curRate := bps\<rparr>\<rparr>
     else if m = 10 then qp\<lparr>hpccPint := (hpccPint qp)\<lparr>pint_curRate := bps\<rparr>\<rparr>
     else if m = 11 then slow
     else if m = 12 then (if is_fs then slow else stock)
     else qp)"

definition AddQueuePair :: "(nat \<Rightarrow> IntHop) \<Rightarrow> u32 \<Rightarrow> u64 \<Rightarrow> u16 \<Rightarrow> u32 \<Rightarrow> u32 \<Rightarrow> u16 \<Rightarrow> u16 \<Rightarrow> u32 \<Rightarrow> u64
    \<Rightarrow> host \<Rightarrow> host option" where
  "AddQueuePair junk_hop junk_size flow_size pg sip dip sport dport win baseRtt h = do {
     let q = h_nqp h;
     let qp = (RdmaQueuePair_init junk_hop junk_size (h_now h) pg sip dip sport dport)
       \<lparr>m_size := flow_size, m_win := win, m_baseRtt := baseRtt, m_var_win := hw_var_win (hw h)\<rparr>;
     let h = (set_qp q qp h)\<lparr>h_nqp := q + 1\<rparr>;
     nic_idx \<leftarrow> GetNicIdxOfQp q h;
     d \<leftarrow> m_nic h nic_idx;
     let h = set_nic nic_idx (d\<lparr>nd_qpGrp := nd_qpGrp d @ [q]\<rparr>) h;
     let h = h\<lparr>m_qpMap := (m_qpMap h)(GetQpKey dip sport pg \<mapsto> q)\<rparr>;
     let h = set_qp q (init_rates (hw h) (IsFsQp q h) (nd_bps d) qp) h;
     NewQp nic_idx q h }"

text \<open>\<open>h_completed\<close> records, in their order, the calls of the two callbacks with the completed queue pair
  (\<^verbatim>\<open>m_qpCompleteCallback\<close> and \<^verbatim>\<open>qp->m_notifyAppFinish\<close>), which are handed in by the user of the engine and end up
  in the scripts that set up a simulation; they are not code of a host.\<close>

definition QpComplete :: "nat \<Rightarrow> host \<Rightarrow> host" where
  "QpComplete q h =
     (let m = mlx (h_qp h q);
          h = (if m_cc_mode (hw h) = 1
               then h_Cancel (m_rpTimer m) (h_Cancel (m_eventDecreaseRate m) (h_Cancel (m_eventUpdateAlpha m) h))
               else h);
          h = h\<lparr>h_completed := h_completed h @ [q]\<rparr>
      in DeleteQueuePair q h)"

text \<open>The order in which the map is walked is an argument.\<close>

fun reassign_all :: "u64 list \<Rightarrow> host \<Rightarrow> host option" where
  "reassign_all [] h = Some h"
| "reassign_all (key # keys) h = do {
     q \<leftarrow> m_qpMap h key;
     nic_idx \<leftarrow> GetNicIdxOfQp q h;
     d \<leftarrow> m_nic h nic_idx;
     h \<leftarrow> ReassignedQp nic_idx q (set_nic nic_idx (d\<lparr>nd_qpGrp := nd_qpGrp d @ [q]\<rparr>) h);
     reassign_all keys h }"

definition RedistributeQp :: "u64 list \<Rightarrow> host \<Rightarrow> host option" where
  "RedistributeQp order h =
     reassign_all order (h\<lparr>m_nic := (\<lambda>i. map_option (\<lambda>d. d\<lparr>nd_qpGrp := []\<rparr>) (m_nic h i))\<rparr>)"

subsection \<open>Receiver queue pairs\<close>

definition RxKey :: "u32 \<Rightarrow> u16 \<Rightarrow> u16 \<Rightarrow> u64" where
  "RxKey dip pg dport = push_bit 32 (ucast dip) OR push_bit 16 (ucast pg) OR ucast dport"

definition GetRxQp :: "u32 \<Rightarrow> u32 \<Rightarrow> u16 \<Rightarrow> u16 \<Rightarrow> u16 \<Rightarrow> bool \<Rightarrow> host \<Rightarrow> nat option \<times> host" where
  "GetRxQp sip dip sport dport pg create h = (let key = RxKey dip pg dport in
     case m_rxQpMap h key of Some r \<Rightarrow> (Some r, h)
     | None \<Rightarrow> if create then
         (let r = h_nrxqp h;
              q = RdmaRxQueuePair_init\<lparr>rx_sip := sip, rx_dip := dip, rx_sport := sport, rx_dport := dport,
                    m_ecn_source := (m_ecn_source RdmaRxQueuePair_init)\<lparr>ea_qIndex := pg\<rparr>\<rparr>
          in (Some r, h\<lparr>h_rxqp := (h_rxqp h)(r := q), h_nrxqp := r + 1, m_rxQpMap := (m_rxQpMap h)(key \<mapsto> r)\<rparr>))
       else (None, h))"

definition GetNicIdxOfRxQp :: "RdmaRxQueuePair \<Rightarrow> host \<Rightarrow> nat option" where
  "GetNicIdxOfRxQp q h = (let v = m_rtTable h (rx_dip q) in
     if length v > 0 then Some (v ! (unat (rx_GetHash q) mod length v)) else None)"

definition DeleteRxQp :: "u32 \<Rightarrow> u16 \<Rightarrow> u16 \<Rightarrow> host \<Rightarrow> host" where
  "DeleteRxQp dip pg dport h = h\<lparr>m_rxQpMap := (m_rxQpMap h)(RxKey dip pg dport := None)\<rparr>"

definition set_rx :: "nat \<Rightarrow> RdmaRxQueuePair \<Rightarrow> host \<Rightarrow> host" where
  "set_rx r q h = h\<lparr>h_rxqp := (h_rxqp h)(r := q)\<rparr>"

subsection \<open>Sequence numbers at the receiver\<close>

text \<open>The result is 1 (send an ACK), 2 (send a NACK), 3 (duplicate), 4 (out of order, NACK sent before) or
  5 (in order, no ACK due). A zero chunk size divides by zero.\<close>

definition ReceiverCheckSeq :: "RdmaHw_conf \<Rightarrow> int \<Rightarrow> u32 \<Rightarrow> u32 \<Rightarrow> RdmaRxQueuePair \<Rightarrow> (nat \<times> RdmaRxQueuePair) option" where
  "ReceiverCheckSeq c now sq n q = (let expected = ReceiverNextExpectedSeq q in
     if sq = expected then
       (let q = q\<lparr>ReceiverNextExpectedSeq := expected + n\<rparr> in
        if ReceiverNextExpectedSeq q \<ge> m_milestone_rx q
        then Some (1, q\<lparr>m_milestone_rx := m_milestone_rx q + m_ack_interval c\<rparr>)
        else do {
          guard (m_chunk c \<noteq> 0);
          Some (if ReceiverNextExpectedSeq q mod m_chunk c = 0 then 1 else 5, q) })
     else if sq > expected then
       (if now \<ge> m_nackTimer q \<or> m_lastNACK q \<noteq> expected then do {
          t \<leftarrow> micro_seconds_d (m_nack_interval c);
          let q = q\<lparr>m_nackTimer := now + t, m_lastNACK := expected\<rparr>;
          if m_backto0 c then do {
            guard (m_chunk c \<noteq> 0);
            Some (2, q\<lparr>ReceiverNextExpectedSeq := ReceiverNextExpectedSeq q div m_chunk c * m_chunk c\<rparr>) }
          else Some (2, q) }
        else Some (4, q))
     else Some (3, q))"

text \<open>The ACK or NACK for a data packet.\<close>

definition make_ack :: "RdmaHw_conf \<Rightarrow> bool \<Rightarrow> u8 \<Rightarrow> packet \<Rightarrow> RdmaRxQueuePair \<Rightarrow> packet" where
  "make_ack c nack ecnbits p q =
     (let d = pkt_load p;
          seqh = (qbbHeader_init (pd_pg d))\<lparr>qbb_seq := ReceiverNextExpectedSeq q, qbb_sport := pd_dport d,
            qbb_dport := pd_sport d, qbb_ih := pd_ih d\<rparr>;
          seqh = (if ecnbits \<noteq> 0 then SetCnp seqh else seqh);
          n = uint (qbb_GetSerializedSize (hw_int c));
          l4 = of_int (max (60 - 14 - 20 - n) 0 + n);
          head = Ipv4Header_init\<lparr>ip_destination := ip_source (pkt_ip p), ip_source := ip_destination (pkt_ip p),
            ip_protocol := (if nack then 0xFD else 0xFC), ip_ttl := 64, ip_payloadSize := ucast (l4 :: u32),
            ip_identification := rx_ipid q\<rparr>
      in \<lparr>pkt_ip = head, pkt_load = Qbb_Ack seqh, pkt_size = l4 + 20 + ppp_GetStaticSize, pkt_tag = None\<rparr>)"

text \<open>The statistics of ECN and the milestone, which every packet sets back.\<close>

definition rx_account :: "RdmaHw_conf \<Rightarrow> u8 \<Rightarrow> RdmaRxQueuePair \<Rightarrow> RdmaRxQueuePair" where
  "rx_account c ecnbits q =
     (let e = m_ecn_source q;
          e = (if ecnbits \<noteq> 0 then e\<lparr>ea_ecnbits := ea_ecnbits e OR ecnbits, ea_qfb := ea_qfb e + 1\<rparr> else e)
      in q\<lparr>m_ecn_source := e\<lparr>ea_total := ea_total e + 1\<rparr>, m_milestone_rx := m_ack_interval c\<rparr>)"

definition ReceiveUdp :: "packet \<Rightarrow> host \<Rightarrow> host option" where
  "ReceiveUdp p h = do {
     let c = hw h;
     let ip = pkt_ip p;
     let d = pkt_load p;
     let ecnbits = GetEcn ip;
     let payload_size = pkt_size p - (14 + 20 + GetUdpHeaderSize (hw_int c));
     let (r, h) = GetRxQp (ip_destination ip) (ip_source ip) (pd_dport d) (pd_sport d) (pd_pg d) True h;
     r \<leftarrow> r;
     (x, q) \<leftarrow> ReceiverCheckSeq c (h_now h) (pd_seq d) payload_size (rx_account c ecnbits (h_rxqp h r));
     if x = 1 \<or> x = 2 then do {
       let newp = make_ack c (x = 2) ecnbits p q;
       let h = set_rx r (q\<lparr>rx_ipid := rx_ipid q + 1\<rparr>) h;
       nic_idx \<leftarrow> GetNicIdxOfRxQp (h_rxqp h r) h;
       h \<leftarrow> RdmaEnqueueHighPrioQ nic_idx newp h;
       TriggerTransmit nic_idx h }
     else Some (set_rx r q h) }"

subsection \<open>ACKs at the sender\<close>

text \<open>A congestion notification packet is used only to set rates that are still zero; it names a flow that
  must exist.\<close>

definition lazy_rates :: "RdmaHw_conf \<Rightarrow> bool \<Rightarrow> rate \<Rightarrow> RdmaQueuePair \<Rightarrow> RdmaQueuePair" where
  "lazy_rates c is_fs bps qp = (let m = m_cc_mode c; qp = qp\<lparr>m_rate := bps\<rparr> in
     if m = 1 then qp\<lparr>mlx := (mlx qp)\<lparr>m_targetRate := bps\<rparr>\<rparr>
     else if m = 3 \<or> m = 13 then qp\<lparr>hp := set_hp_rates (m_multipleRate c) bps (hp qp)\<rparr>
     else if m = 7 then qp\<lparr>tmly := (tmly qp)\<lparr>tmly_curRate := bps\<rparr>\<rparr>
     else if m = 10 then qp\<lparr>hpccPint := (hpccPint qp)\<lparr>pint_curRate := bps\<rparr>\<rparr>
     else if m = 12 \<and> \<not> is_fs then qp\<lparr>hp := set_hp_rates (m_multipleRate c) bps (hp qp)\<rparr>
     else qp)"

definition ReceiveCnp :: "u32 \<Rightarrow> CnHeader \<Rightarrow> host \<Rightarrow> host option" where
  "ReceiveCnp sip cn h =
     (if cn_qIndex cn = 1 then Some h
      else do {
        q \<leftarrow> GetQp sip (cn_fid cn) (ucast (cn_qIndex cn)) h;
        nic_idx \<leftarrow> GetNicIdxOfQp q h;
        d \<leftarrow> m_nic h nic_idx;
        Some (if m_rate (h_qp h q) = 0
          then set_qp q (lazy_rates (hw h) (IsFsQp q h) (nd_bps d) (h_qp h q)) h else h) })"

text \<open>What the libraries and the random source contribute: \<^verbatim>\<open>pow\<close>, the base of PINT's logarithm, the value
  of \<^verbatim>\<open>rand ()\<close> and the value of an uninitialised variable.\<close>

record cc_env =
  env_pow :: pow_fun
  env_log_base :: double
  env_rand :: u32
  env_junk :: u32

definition cc_ack :: "cc_env \<Rightarrow> nat \<Rightarrow> qbbHeader \<Rightarrow> host \<Rightarrow> host option" where
  "cc_ack env q ack h = (let m = m_cc_mode (hw h) in
     if m = 3 then HandleAckHp (env_pow env) (env_junk env) q ack h
     else if m = 7 then HandleAckTimely q ack h
     else if m = 8 then HandleAckDctcp q ack h
     else if m = 10 then HandleAckHpPint (env_pow env) (env_log_base env) (env_rand env) q ack h
     else if m = 11 then HandleAckFs q ack h
     else if m = 12 then (if IsFsQp q h then HandleAckFs q ack h
       else HandleAckHp (env_pow env) (env_junk env) q ack h)
     else if m = 13 then HandleAckPower q ack h
     else Some h)"

definition acknowledge_qp :: "nat \<Rightarrow> u32 \<Rightarrow> host \<Rightarrow> host option" where
  "acknowledge_qp q sq h =
     (if m_ack_interval (hw h) = 0 then Some h
      else do {
        guard (\<not> m_backto0 (hw h) \<or> m_chunk (hw h) \<noteq> 0);
        let upto = (if \<not> m_backto0 (hw h) then sq else sq div m_chunk (hw h) * m_chunk (hw h));
        let h = set_qp q (Acknowledge (ucast upto) (h_qp h q)) h;
        Some (if IsFinished (h_qp h q) then QpComplete q h else h) })"

definition ReceiveAck :: "cc_env \<Rightarrow> u32 \<Rightarrow> bool \<Rightarrow> qbbHeader \<Rightarrow> host \<Rightarrow> host option" where
  "ReceiveAck env sip nack ack h =
     (case GetQp sip (qbb_dport ack) (qbb_pg ack) h of None \<Rightarrow> Some h
      | Some q \<Rightarrow> do {
          nic_idx \<leftarrow> GetNicIdxOfQp q h;
          h \<leftarrow> acknowledge_qp q (qbb_seq ack) h;
          let h = (if nack then RecoverQueue q h else h);
          h \<leftarrow> (if GetCnp ack \<noteq> 0 \<and> m_cc_mode (hw h) = 1 then cnp_received_mlx q h else Some h);
          h \<leftarrow> cc_ack env q ack h;
          TriggerTransmit nic_idx h })"

subsection \<open>Dispatch\<close>

definition Receive :: "cc_env \<Rightarrow> packet \<Rightarrow> host \<Rightarrow> host option" where
  "Receive env p h = (let proto = pkt_proto p; sip = ip_source (pkt_ip p) in
     if proto = 0x11 then (case pkt_load p of Udp_Data _ _ _ _ _ \<Rightarrow> ReceiveUdp p h | _ \<Rightarrow> None)
     else if proto = 0xFF then (case pkt_load p of Cnp cn \<Rightarrow> ReceiveCnp sip cn h | _ \<Rightarrow> None)
     else if proto = 0xFD then (case pkt_load p of Qbb_Ack a \<Rightarrow> ReceiveAck env sip True a h | _ \<Rightarrow> None)
     else if proto = 0xFC then (case pkt_load p of Qbb_Ack a \<Rightarrow> ReceiveAck env sip False a h | _ \<Rightarrow> None)
     else Some h)"

text \<open>A card receives a packet; \<^verbatim>\<open>corrupt\<close> is the verdict of its error model, if it has one.\<close>

definition nic_pfc :: "nat \<Rightarrow> PauseHeader \<Rightarrow> host \<Rightarrow> host option" where
  "nic_pfc i pf h = do {
     d \<leftarrow> m_nic h i;
     if \<not> nd_qbbEnabled d then Some h
     else if pause_time pf > 0 then do {
       guard (unat (pause_qindex pf) < nic_qCnt);
       Some (set_nic i (d\<lparr>nd_paused := (nd_paused d)(unat (pause_qindex pf) := True)\<rparr>) h) }
     else nic_Resume i (unat (pause_qindex pf)) h }"

definition nic_Receive :: "cc_env \<Rightarrow> bool \<Rightarrow> nat \<Rightarrow> packet \<Rightarrow> host \<Rightarrow> host option" where
  "nic_Receive env corrupt i p h = do {
     d \<leftarrow> m_nic h i;
     if \<not> nd_linkUp d \<or> corrupt then Some h
     else if pkt_proto p = 0xFE then (case pkt_load p of Pfc pf \<Rightarrow> nic_pfc i pf h | _ \<Rightarrow> None)
     else Receive env p h }"

definition host_exec :: "host_event \<Rightarrow> host \<Rightarrow> host option" where
  "host_exec e h = (case e of
       Ev_TransmitComplete i \<Rightarrow> TransmitComplete i h
     | Ev_DequeueAndTransmit i \<Rightarrow> DequeueAndTransmit i h
     | Ev_UpdateAlphaMlx q \<Rightarrow> UpdateAlphaMlx q h
     | Ev_CheckRateDecreaseMlx q \<Rightarrow> CheckRateDecreaseMlx q h
     | Ev_RateIncEventTimerMlx q \<Rightarrow> RateIncEventTimerMlx q h)"

text \<open>One turn of the simulator's loop on a host.\<close>

definition host_ProcessOneEvent :: "host \<Rightarrow> host option" where
  "host_ProcessOneEvent h = do {
     (e, s) \<leftarrow> ProcessOneEvent (h_sim h);
     case e of None \<Rightarrow> Some (h\<lparr>h_sim := s\<rparr>) | Some e \<Rightarrow> host_exec e (h\<lparr>h_sim := s\<rparr>) }"

end
