(* ===== verification/Rdma_Flow.thy ===== *)
theory Rdma_Flow
  imports Rdma_Receive
begin

text \<open>
  A flow between two hosts over a network that may lose, repeat, reorder and re-mark packets: the
  composition of the sending and the receiving side. \<open>calm\<close> is what every operation other than the
  handling of an acknowledgement leaves alone; on top of it the run of a flow refines a reliable stream.
\<close>

subsection \<open>What a host has let out\<close>

definition out :: "host \<Rightarrow> packet set" where
  "out h = (\<lambda>w. fst (snd w)) ` set (h_wire h) \<union> {p. \<exists>i d. m_nic h i = Some d \<and> p \<in> set (m_packets (nd_ackQ d))}"

definition acks_only :: "host \<Rightarrow> bool" where
  "acks_only h \<longleftrightarrow> (\<forall>i d. m_nic h i = Some d \<longrightarrow> (\<forall>p \<in> set (m_packets (nd_ackQ d)). is_Qbb_Ack (pkt_load p)))"

text \<open>The tuple and the size of a flow, and the acknowledged part.\<close>

definition flow_id :: "RdmaQueuePair \<Rightarrow> u32 \<times> u32 \<times> u16 \<times> u16 \<times> u16 \<times> u64 \<times> u64" where
  "flow_id p = (qp_sip p, qp_dip p, qp_sport p, qp_dport p, m_pg p, m_size p, snd_una p)"

definition qp_fine :: "RdmaQueuePair \<Rightarrow> bool" where
  "qp_fine p \<longleftrightarrow> unat (m_size p) < 2 ^ 32 \<and> snd_una p \<le> m_size p \<and> snd_nxt p \<le> m_size p"

definition advances :: "RdmaQueuePair \<Rightarrow> RdmaQueuePair \<Rightarrow> bool" where
  "advances p p' \<longleftrightarrow> flow_id p' = flow_id p \<and> (snd_nxt p' \<in> {snd_nxt p, snd_una p} \<or> snd_nxt p' \<le> m_size p)"

definition payload_of :: "int_conf \<Rightarrow> packet \<Rightarrow> u32" where
  "payload_of c p = pkt_size p - (14 + 20 + GetUdpHeaderSize c)"

text \<open>A segment of a flow: within its size, if the state of the queue pair was sound.\<close>

definition seg_of :: "RdmaHw_conf \<Rightarrow> RdmaQueuePair \<Rightarrow> packet \<Rightarrow> bool" where
  "seg_of c qp p \<longleftrightarrow> ip_source (pkt_ip p) = qp_sip qp \<and> ip_destination (pkt_ip p) = qp_dip qp
     \<and> (\<exists>sq ih. pkt_load p = Udp_Data (qp_sport qp) (qp_dport qp) sq (m_pg qp) ih
          \<and> (qp_fine qp \<longrightarrow> unat sq + unat (payload_of (hw_int c) p) \<le> unat (m_size qp)))"

definition calm :: "host \<Rightarrow> host \<Rightarrow> bool" where
  "calm h h' \<longleftrightarrow> hw h' = hw h \<and> m_qpMap h' = m_qpMap h \<and> m_rxQpMap h' = m_rxQpMap h \<and> h_rxqp h' = h_rxqp h
     \<and> h_nrxqp h' = h_nrxqp h \<and> h_nqp h' = h_nqp h \<and> h_completed h' = h_completed h
     \<and> (\<forall>q. advances (h_qp h q) (h_qp h' q)) \<and> (acks_only h \<longrightarrow> acks_only h')
     \<and> set (h_wire h) \<subseteq> set (h_wire h')
     \<and> (\<forall>p \<in> out h'. p \<in> out h \<or> (\<exists>q. seg_of (hw h) (h_qp h q) p))"

lemma advances_refl [simp]: "advances p p"
  by (simp add: advances_def)

lemma advances_trans: "advances p p' \<Longrightarrow> advances p' p'' \<Longrightarrow> advances p p''"
  by (auto simp: advances_def flow_id_def)

lemma advances_fine: "advances p p' \<Longrightarrow> qp_fine p \<Longrightarrow> qp_fine p'"
  by (auto simp: advances_def qp_fine_def flow_id_def)

lemma seg_of_advances: "advances p p' \<Longrightarrow> seg_of c p' x \<Longrightarrow> seg_of c p x"
  using advances_fine by (auto simp: seg_of_def advances_def flow_id_def)

lemma calm_refl [simp]: "calm h h"
  by (simp add: calm_def)

text \<open>A packet a host may let out: it is already out, or a segment of one of its flows.\<close>

definition may_send :: "host \<Rightarrow> packet \<Rightarrow> bool" where
  "may_send h p \<longleftrightarrow> p \<in> out h \<or> (\<exists>q. seg_of (hw h) (h_qp h q) p)"

lemma calm_may_send: "calm h h' \<Longrightarrow> may_send h' p \<Longrightarrow> may_send h p"
  using seg_of_advances by (simp add: calm_def may_send_def) blast

lemma calm_trans [trans]:
  assumes "calm h h'" and "calm h' h''"
  shows "calm h h''"
proof -
  have "may_send h p" if "p \<in> out h''" for p
    using calm_may_send [OF assms(1) calm_may_send [OF assms(2)]] that by (simp add: may_send_def)
  moreover have "advances (h_qp h q) (h_qp h'' q)" for q
    using assms advances_trans by (simp add: calm_def) blast
  moreover have "set (h_wire h) \<subseteq> set (h_wire h'')" using assms by (auto simp: calm_def)
  ultimately show ?thesis using assms by (simp add: calm_def may_send_def)
qed

subsection \<open>Operations that are calm\<close>

lemma calm_sim [simp]: "calm h (h'\<lparr>h_sim := s\<rparr>) \<longleftrightarrow> calm h h'"
  by (simp add: calm_def out_def acks_only_def)

lemma calm_Cancel [simp]: "calm h (h_Cancel ev h') \<longleftrightarrow> calm h h'"
  by (simp add: h_Cancel_def)

lemma calm_Schedule: "h_Schedule t e h = Some (ev, h') \<Longrightarrow> calm h h'"
  by (metis h_Schedule_frame calm_sim calm_refl)

lemma calm_set_qp: "advances (h_qp h q) x \<Longrightarrow> calm h (set_qp q x h)"
  by (simp add: calm_def set_qp_def out_def acks_only_def)

lemma calm_set_nic:
  assumes "m_nic h i = Some d" and "set (m_packets (nd_ackQ d')) \<subseteq> set (m_packets (nd_ackQ d))"
  shows "calm h (set_nic i d' h)"
  using assms by (auto simp: calm_def set_nic_def out_def acks_only_def split: if_splits)

lemma GetNextQindex_nic: "GetNextQindex a Q now d = Some (r, d') \<Longrightarrow> nd_ackQ d' = nd_ackQ d \<and> nd_bps d' = nd_bps d"
  by (auto simp: GetNextQindex_def elim!: bind_eq_SomeE split: if_splits prod.splits option.splits)

lemma calm_wake_up: "wake_up i h = Some h' \<Longrightarrow> calm h h'"
proof -
  assume w: "wake_up i h = Some h'"
  then obtain d where d: "m_nic h i = Some d" by (auto simp: wake_up_def elim!: bind_eq_SomeE)
  show "calm h h'"
  proof (cases "h' = h")
    case False
    then obtain t ev h1 where h1: "h_Schedule t (Ev_DequeueAndTransmit i) h = Some (ev, h1)"
      and h': "h' = set_nic i (d\<lparr>nd_nextSend := ev\<rparr>) h1"
      using w d by (auto simp: wake_up_def Let_def elim!: bind_eq_SomeE split: if_splits)
    have "m_nic h1 i = Some d" using d h_Schedule_frame [OF h1] by (metis host.select_convs(10) host.update_convs(2) host.surjective)
    then show ?thesis unfolding h' by (intro calm_trans [OF calm_Schedule [OF h1]] calm_set_nic [of _ _ d]) simp_all
  qed simp
qed

lemma calm_TransmitStart:
  assumes "TransmitStart i p h1 = Some h2" and "calm h h1" and "may_send h p"
  shows "calm h h2"
proof -
  from assms(1) obtain d t ev h3 where d: "m_nic h1 i = Some d"
    and sch: "h_Schedule (t + nd_tInterframeGap d) (Ev_TransmitComplete i)
      (set_nic i (d\<lparr>nd_busy := True, nd_currentPkt := Some p\<rparr>) h1) = Some (ev, h3)"
    and h2: "h2 = h3\<lparr>h_wire := h_wire h3 @ [(i, p, h_now h3, t)]\<rparr>"
    unfolding TransmitStart_def Let_def by (elim bind_eq_SomeE) (auto elim!: bind_eq_SomeE)
  have h3: "h3 = (set_nic i (d\<lparr>nd_busy := True, nd_currentPkt := Some p\<rparr>) h1)\<lparr>h_sim := h_sim h3\<rparr>"
    by (rule h_Schedule_frame [OF sch])
  have h2': "\<exists>s x. h2 = (set_nic i (d\<lparr>nd_busy := True, nd_currentPkt := Some p\<rparr>) h1)\<lparr>h_sim := s, h_wire := h_wire h1 @ [(i, p, x)]\<rparr>"
    unfolding h2 by (subst (1 2) h3) auto
  then obtain s x where h2: "h2 = (set_nic i (d\<lparr>nd_busy := True, nd_currentPkt := Some p\<rparr>) h1)\<lparr>h_sim := s, h_wire := h_wire h1 @ [(i, p, x)]\<rparr>"
    by blast
  have "out h2 \<subseteq> insert p (out h1)"
    using d by (cases x) (auto simp: h2 out_def set_nic_def split: if_splits)
  moreover have "acks_only h1 \<Longrightarrow> acks_only h2"
    using d by (auto simp: h2 acks_only_def set_nic_def)
  ultimately show ?thesis using assms(2,3) by (auto simp: calm_def may_send_def h2 set_nic_def)
qed

lemma GetNxtPacket_calm:
  assumes "GetNxtPacket q h = (p, h')"
  shows "calm h h'" and "seg_of (hw h) (h_qp h q) p"
proof -
  let ?qp = "h_qp h q"
  let ?left = "(ucast (GetBytesLeft ?qp) :: u32)"
  let ?n = "if m_mtu (hw h) < ?left then m_mtu (hw h) else ?left"
  from assms have h': "h' = set_qp q (?qp\<lparr>snd_nxt := snd_nxt ?qp + ucast ?n, m_ipid := m_ipid ?qp + 1\<rparr>) h"
    by (auto simp: GetNxtPacket_def Let_def)
  have "?n \<le> ?left" by auto
  then have "unat ?n \<le> unat ?left" unfolding word_le_nat_alt .
  also have "unat ?left \<le> unat (GetBytesLeft ?qp)" by (simp add: unsigned_ucast_eq take_bit_nat_less_eq_self)
  finally have n: "unat ?n \<le> unat (GetBytesLeft ?qp)" .
  have "advances ?qp (?qp\<lparr>snd_nxt := snd_nxt ?qp + ucast ?n, m_ipid := m_ipid ?qp + 1\<rparr>)"
  proof (cases "snd_nxt ?qp \<le> m_size ?qp")
    case True
    then have "unat (snd_nxt ?qp) + unat ?n \<le> unat (m_size ?qp)"
      using n by (simp add: GetBytesLeft_def unat_sub_nowrap word_le_nat_alt)
    moreover have "unat (m_size ?qp) < 2 ^ LENGTH(64)" by (rule unat_lt_exp)
    ultimately have "unat (snd_nxt ?qp + ucast ?n) = unat (snd_nxt ?qp) + unat ?n"
      by (subst unat_add_nowrap) (simp_all add: unat_ucast_up del: u64_lt)
    then show ?thesis
      using \<open>unat (snd_nxt ?qp) + unat ?n \<le> unat (m_size ?qp)\<close> by (simp add: advances_def flow_id_def word_le_nat_alt)
  next
    case False
    then have "?n = 0" using n by (simp add: GetBytesLeft_def)
    then show ?thesis by (simp add: advances_def flow_id_def)
  qed
  then show "calm h h'" unfolding h' by (rule calm_set_qp)
  have "unat (ucast (snd_nxt ?qp) :: u32) + unat (payload_of (hw_int (hw h)) p) \<le> unat (m_size ?qp)" if "qp_fine ?qp"
  proof -
    have sz: "payload_of (hw_int (hw h)) p = ?n"
      using assms by (auto simp: payload_of_def GetNxtPacket_def Let_def GetUdpHeaderSize_def SeqTsHeader_size_def ppp_GetStaticSize_def)
    have "snd_nxt ?qp \<le> m_size ?qp" using that by (simp add: qp_fine_def)
    then have "unat (snd_nxt ?qp) + unat ?n \<le> unat (m_size ?qp)"
      using n by (simp add: GetBytesLeft_def unat_sub_nowrap word_le_nat_alt)
    moreover have "unat (ucast (snd_nxt ?qp) :: u32) \<le> unat (snd_nxt ?qp)" by (simp add: unsigned_ucast_eq take_bit_nat_less_eq_self)
    ultimately show ?thesis unfolding sz by linarith
  qed
  then show "seg_of (hw h) ?qp p"
    using assms by (auto simp: seg_of_def GetNxtPacket_def Let_def SeqTsHeader_init_def)
qed

lemma Dequeue_set:
  assumes "Dequeue q = Some (r, q')"
  shows "set (m_packets q') \<subseteq> set (m_packets q)" and "r = Some p \<Longrightarrow> p \<in> set (m_packets q)"
  using assms by (auto simp: Dequeue_def DoDequeue_def Let_def elim!: bind_eq_SomeE split: list.splits)

lemma DequeueQindex_calm:
  assumes "DequeueQindex i qi h = Some (Some p, h')" and "calm g h"
  shows "calm g h'" and "may_send g p"
proof -
  from assms(1) obtain d where d: "m_nic h i = Some d" by (auto simp: DequeueQindex_def elim!: bind_eq_SomeE)
  consider (ack) r where "qi = -1" "Dequeue (nd_ackQ d) = Some (Some p, r)" "h' = set_nic i (d\<lparr>nd_ackQ := r, nd_qlast := -1\<rparr>) h"
    | (data) h1 where "GetNxtPacket (nd_qpGrp d ! nat qi) h = (p, h1)"
        "h' = set_nic i (d\<lparr>nd_rrlast := of_int qi, nd_qlast := qi\<rparr>) h1" "m_nic h1 i = Some d"
    using assms(1) d
    by (auto simp: DequeueQindex_def GetNxtPacket_def Let_def elim!: bind_eq_SomeE split: if_splits)
  then have "calm h h' \<and> may_send h p"
  proof cases
    case ack
    then have "p \<in> out h" using d Dequeue_set(2) [OF ack(2)] by (auto simp: out_def)
    then show ?thesis unfolding ack(3) using calm_set_nic [OF d] Dequeue_set(1) [OF ack(2)] by (simp add: may_send_def)
  next
    case data
    then have "calm h1 h'" by (auto intro: calm_set_nic)
    then show ?thesis using GetNxtPacket_calm [OF data(1)] calm_trans by (auto simp: may_send_def)
  qed
  then show "calm g h'" and "may_send g p"
    using calm_trans [OF assms(2)] calm_may_send [OF assms(2)] by blast+
qed

lemma calm_PktSent: "PktSent q p t h = Some h' \<Longrightarrow> calm h h'"
proof -
  assume "PktSent q p t h = Some h'"
  then obtain x y where h': "h' = set_qp q ((h_qp h q)\<lparr>lastPktSize := x, m_nextAvail := y\<rparr>) h"
    by (auto simp: PktSent_def UpdateNextAvail_def Let_def set_qp_def elim!: bind_eq_SomeE)
  show ?thesis unfolding h' by (rule calm_set_qp) (simp add: advances_def flow_id_def)
qed

lemma calm_DequeueAndTransmit: "DequeueAndTransmit i h = Some h' \<Longrightarrow> calm h h'"
proof -
  assume D: "DequeueAndTransmit i h = Some h'"
  then obtain d where d: "m_nic h i = Some d" by (auto simp: DequeueAndTransmit_def elim!: bind_eq_SomeE)
  show "calm h h'"
  proof (cases "\<not> nd_linkUp d \<or> nd_busy d")
    case True
    then show ?thesis using D d by (simp add: DequeueAndTransmit_def)
  next
    case False
    then obtain qi d1 where g: "GetNextQindex (ack_q_idx (hw h)) (h_qp h) (h_now h) d = Some (qi, d1)"
      and rest: "(if qi = -1024 then wake_up i (set_nic i d1 h) else do {
         (p, h) \<leftarrow> DequeueQindex i qi (set_nic i d1 h);
         p \<leftarrow> p;
         h \<leftarrow> TransmitStart i p h;
         if qi = -1 then Some h else PktSent (nd_qpGrp d1 ! nat qi) p (nd_tInterframeGap d1) h }) = Some h'"
      using D d by (auto simp: DequeueAndTransmit_def Let_def elim!: bind_eq_SomeE)
    have c: "calm h (set_nic i d1 h)" using GetNextQindex_nic [OF g] by (intro calm_set_nic [OF d]) simp
    show ?thesis
    proof (cases "qi = -1024")
      case True
      then show ?thesis using rest calm_wake_up calm_trans [OF c] by simp
    next
      case False
      then obtain p h1 h2 where p: "DequeueQindex i qi (set_nic i d1 h) = Some (Some p, h1)"
        and h2: "TransmitStart i p h1 = Some h2" "calm h2 h'"
        using rest by (auto elim!: bind_eq_SomeE split: if_splits dest!: calm_PktSent)
      show ?thesis
        using calm_TransmitStart [OF h2(1) DequeueQindex_calm [OF p c]] h2(2) calm_trans by blast
    qed
  qed
qed

text \<open>The parts of a queue pair that the rate controllers own.\<close>

lemma calm_rate [simp]:
  "advances p (p\<lparr>m_rate := r\<rparr>)" "advances p (p\<lparr>hp := a\<rparr>)" "advances p (p\<lparr>mlx := m\<rparr>)" "advances p (p\<lparr>tmly := t\<rparr>)"
  "advances p (p\<lparr>dctcp := d\<rparr>)" "advances p (p\<lparr>hpccPint := i\<rparr>)" "advances p (p\<lparr>m_win := w\<rparr>)" "advances p (p\<lparr>m_nextAvail := n\<rparr>)"
  "advances p (p\<lparr>m_rate := r, mlx := m\<rparr>)" "advances p (p\<lparr>m_rate := r, dctcp := d\<rparr>)" "advances p (p\<lparr>m_rate := r, tmly := t\<rparr>)"
  "advances p (p\<lparr>m_win := w, hp := a\<rparr>)" "advances p (p\<lparr>hp := a, m_win := w\<rparr>)" "advances p (p\<lparr>m_nextAvail := n, m_rate := r\<rparr>)"
  "advances p (p\<lparr>m_rate := r, tmly := t, tmly := t'\<rparr>)" "advances p (p\<lparr>snd_nxt := snd_una p\<rparr>)"
  by (simp_all add: advances_def flow_id_def)

lemma calm_set_hp [simp]: "calm h (set_hp q s h)"
  by (simp add: set_hp_def calm_set_qp)

lemma calm_set_mlx [simp]: "calm h (set_mlx q s h)"
  by (simp add: set_mlx_def calm_set_qp)

lemma calm_nic_UpdateNextAvail: "nic_UpdateNextAvail i t h = Some h' \<Longrightarrow> calm h h'"
proof -
  assume "nic_UpdateNextAvail i t h = Some h'"
  then show "calm h h'"
  proof (rule nic_UpdateNextAvail_cases)
    fix d ev sm
    assume "m_nic h i = Some d" and h': "h' = set_nic i (d\<lparr>nd_nextSend := ev\<rparr>) (h\<lparr>h_sim := sm\<rparr>)"
    then have "calm (h\<lparr>h_sim := sm\<rparr>) h'" by (auto intro!: calm_set_nic [of _ _ d])
    then show ?thesis by (rule calm_trans [rotated]) simp
  qed simp
qed

lemma calm_ChangeRate: "ChangeRate q r h = Some h' \<Longrightarrow> calm h h'"
proof -
  assume "ChangeRate q r h = Some h'"
  then obtain t i h1 where n: "nic_UpdateNextAvail i t (set_qp q ((h_qp h q)\<lparr>m_nextAvail := t\<rparr>) h) = Some h1"
    and h': "h' = set_qp q ((h_qp h1 q)\<lparr>m_rate := r\<rparr>) h1"
    by (auto simp: ChangeRate_def Let_def elim!: bind_eq_SomeE)
  have "calm h (set_qp q ((h_qp h q)\<lparr>m_nextAvail := t\<rparr>) h)" by (rule calm_set_qp) simp
  also note calm_nic_UpdateNextAvail [OF n]
  also have "calm h1 h'" unfolding h' by (rule calm_set_qp) simp
  finally show ?thesis .
qed

subsection \<open>The rate controllers are calm\<close>

text \<open>The last step of a chain of operations.\<close>

lemma calm_by_ChangeRate: "ChangeRate q r h1 = Some h2 \<Longrightarrow> calm h h1 \<Longrightarrow> calm h h2"
  by (rule calm_trans [OF _ calm_ChangeRate])

lemma calm_by_set_hp: "calm h h1 \<Longrightarrow> calm h (set_hp q s h1)"
  by (rule calm_trans [OF _ calm_set_hp])

lemma calm_by_set_mlx: "calm h h1 \<Longrightarrow> calm h (set_mlx q m h1)"
  by (rule calm_trans [OF _ calm_set_mlx])

lemma calm_by_Schedule: "h_Schedule t e h1 = Some (ev, h2) \<Longrightarrow> calm h h1 \<Longrightarrow> calm h h2"
  by (rule calm_trans [OF _ calm_Schedule])

lemma calm_by_set_qp: "advances (h_qp h1 q) x \<Longrightarrow> calm h h1 \<Longrightarrow> calm h (set_qp q x h1)"
  by (rule calm_trans [OF _ calm_set_qp])

lemmas calm_by = calm_by_ChangeRate calm_by_set_hp calm_by_set_mlx calm_by_Schedule calm_by_set_qp

lemma calm_UpdateRateHp_deltas: "UpdateRateHp_deltas pow junk q ack f h = Some h' \<Longrightarrow> calm h h'"
  by (auto simp: UpdateRateHp_deltas_def Let_def elim!: bind_eq_SomeE split: if_splits)
    (blast intro: calm_by calm_refl)+

lemma calm_UpdateRateHp_virtual: "UpdateRateHp_virtual q ack f h = Some h' \<Longrightarrow> calm h h'"
  by (auto simp: UpdateRateHp_virtual_def Let_def elim!: bind_eq_SomeE split: if_splits prod.splits)
    (blast intro: calm_by calm_refl)+

lemma calm_UpdateRateHp: "UpdateRateHp pow junk q ack f h = Some h' \<Longrightarrow> calm h h'"
  by (auto simp: UpdateRateHp_def UpdateRateHp_first_def Let_def guard_bind_eq_Some split: if_splits elim!: bind_eq_SomeE)
    (blast intro: calm_by calm_UpdateRateHp_deltas calm_UpdateRateHp_virtual)+

lemma calm_HandleAckHp: "HandleAckHp pow junk q ack h = Some h' \<Longrightarrow> calm h h'"
  by (auto simp: HandleAckHp_def FastReactHp_def split: if_splits intro: calm_UpdateRateHp)

lemma calm_HandleAckPower: "HandleAckPower q ack h = Some h' \<Longrightarrow> calm h h'"
proof -
  have "calm h h'" if u: "UpdateRatePower q ack f h = Some h'" for f
  proof (cases "ack_nhop ack > maxHop")
    case False
    obtain U dt any s where fold: "fold (power_hop (hw h) (h_qp h q) ack f) [0..<ack_nhop ack] (Fin 0, 0, False, hp (h_qp h q))
      = (U, dt, any, s)" using prod_cases4 by blast
    then show ?thesis
      using u False by (auto simp: UpdateRatePower_def Let_def elim!: bind_eq_SomeE split: if_splits)
        (blast intro: calm_by calm_refl)+
  qed (use u in \<open>simp add: UpdateRatePower_def Let_def\<close>)
  then show "HandleAckPower q ack h = Some h' \<Longrightarrow> calm h h'" by (auto simp: HandleAckPower_def split: if_splits)
qed

lemma timely_adjust_flow: "timely_adjust c us rtt p = Some p' \<Longrightarrow> flow_id p' = flow_id p \<and> snd_nxt p' = snd_nxt p"
  by (auto simp: timely_adjust_def flow_id_def Let_def elim!: bind_eq_SomeE)

lemma calm_HandleAckTimely: "HandleAckTimely q ack h = Some h' \<Longrightarrow> calm h h'"
  by (auto simp: HandleAckTimely_def UpdateRateTimely_def Let_def advances_def flow_id_def [of "_\<lparr>tmly := _\<rparr>"]
      dest!: timely_adjust_flow elim!: bind_eq_SomeE split: if_splits intro!: calm_set_qp) (simp_all add: flow_id_def)

lemma calm_HandleAckDctcp: "HandleAckDctcp q ack h = Some h' \<Longrightarrow> calm h h'"
  by (auto simp: HandleAckDctcp_def Let_def elim!: bind_eq_SomeE intro!: calm_set_qp)

lemma calm_HandleAckHpPint: "HandleAckHpPint pow lb rv q ack h = Some h' \<Longrightarrow> calm h h'"
  using calm_trans [OF calm_ChangeRate calm_set_qp]
  by (auto simp: HandleAckHpPint_def UpdateRateHpPint_def Let_def elim!: bind_eq_SomeE split: if_splits
      intro!: calm_set_qp dest: calm_ChangeRate)

lemma calm_HandleAckFs: "HandleAckFs q ack h = Some h' \<Longrightarrow> calm h h'"
  by (auto simp: HandleAckFs_def Let_def elim!: bind_eq_SomeE split: if_splits
      intro!: calm_trans [OF calm_set_qp calm_ChangeRate])

lemma calm_cc_ack: "cc_ack env q ack h = Some h' \<Longrightarrow> calm h h'"
  by (auto simp: cc_ack_def Let_def split: if_splits
      dest: calm_HandleAckHp calm_HandleAckTimely calm_HandleAckDctcp calm_HandleAckHpPint calm_HandleAckFs calm_HandleAckPower)

lemma calm_by_mlx_timers:
  "ScheduleUpdateAlphaMlx q h1 = Some h2 \<Longrightarrow> calm h h1 \<Longrightarrow> calm h h2"
  "ScheduleDecreaseRateMlx q d h1 = Some h2 \<Longrightarrow> calm h h1 \<Longrightarrow> calm h h2"
  "ScheduleRpTimerMlx q h1 = Some h2 \<Longrightarrow> calm h h1 \<Longrightarrow> calm h h2"
  by (auto simp: ScheduleUpdateAlphaMlx_def ScheduleDecreaseRateMlx_def ScheduleRpTimerMlx_def Let_def
      elim!: bind_eq_SomeE intro: calm_by)

lemma calm_cnp_received_mlx: "cnp_received_mlx q h = Some h' \<Longrightarrow> calm h h'"
  by (auto simp: cnp_received_mlx_def Let_def elim!: bind_eq_SomeE split: if_splits
      intro!: calm_by_set_qp calm_by_set_mlx) (blast intro: calm_by calm_by_mlx_timers calm_refl)

lemma calm_UpdateAlphaMlx: "UpdateAlphaMlx q h = Some h' \<Longrightarrow> calm h h'"
  by (auto simp: UpdateAlphaMlx_def Let_def intro: calm_by_mlx_timers)

lemma calm_CheckRateDecreaseMlx:
  assumes "CheckRateDecreaseMlx q h = Some h'"
  shows "calm h h'"
proof -
  obtain h1 where h1: "ScheduleDecreaseRateMlx q 0 h = Some h1"
    using assms by (auto simp: CheckRateDecreaseMlx_def elim!: bind_eq_SomeE)
  have c: "calm h h1" by (rule calm_by_mlx_timers(2) [OF h1 calm_refl])
  show ?thesis
  proof (cases "m_decrease_cnp_arrived (mlx (h_qp h1 q))")
    case True
    then show ?thesis
      using assms h1 c by (auto simp: CheckRateDecreaseMlx_def Let_def elim!: bind_eq_SomeE)
        (erule calm_by_mlx_timers(3), simp add: calm_by_set_qp)+
  qed (use assms h1 c in \<open>simp add: CheckRateDecreaseMlx_def\<close>)
qed

lemma calm_RateIncEventMlx: "RateIncEventMlx q h = Some h' \<Longrightarrow> calm h h'"
  by (auto simp: RateIncEventMlx_def FastRecoveryMlx_def ActiveIncreaseMlx_def HyperIncreaseMlx_def increase_mlx_def Let_def
      elim!: bind_eq_SomeE split: if_splits intro!: calm_set_qp)

lemma calm_RateIncEventTimerMlx: "RateIncEventTimerMlx q h = Some h' \<Longrightarrow> calm h h'"
  by (auto simp: RateIncEventTimerMlx_def Let_def elim!: bind_eq_SomeE
      intro!: calm_by_set_mlx intro: calm_trans [OF calm_by_mlx_timers(3) calm_RateIncEventMlx])

subsection \<open>Events and frames of a card\<close>

lemma calm_by_DequeueAndTransmit: "DequeueAndTransmit i h1 = Some h2 \<Longrightarrow> calm h h1 \<Longrightarrow> calm h h2"
  by (rule calm_trans [OF _ calm_DequeueAndTransmit])

lemma calm_TransmitComplete: "TransmitComplete i h = Some h' \<Longrightarrow> calm h h'"
  by (auto simp: TransmitComplete_def elim!: bind_eq_SomeE intro!: calm_set_nic dest!: calm_DequeueAndTransmit
      elim!: calm_trans [rotated])

lemma calm_host_exec: "host_exec e h = Some h' \<Longrightarrow> calm h h'"
  by (cases e) (auto simp: host_exec_def dest: calm_TransmitComplete calm_DequeueAndTransmit calm_UpdateAlphaMlx
      calm_CheckRateDecreaseMlx calm_RateIncEventTimerMlx)

lemma calm_host_ProcessOneEvent: "host_ProcessOneEvent h = Some h' \<Longrightarrow> calm h h'"
  by (auto simp: host_ProcessOneEvent_def elim!: bind_eq_SomeE split: option.splits dest!: calm_host_exec
      elim!: calm_trans [rotated])

lemma calm_nic_pfc: "nic_pfc i pf h = Some h' \<Longrightarrow> calm h h'"
  by (auto simp: nic_pfc_def nic_Resume_def elim!: bind_eq_SomeE split: if_splits intro!: calm_set_nic
      dest!: calm_DequeueAndTransmit elim!: calm_trans [rotated])

lemma dequeue_all_set: "dequeue_all n q = Some q' \<Longrightarrow> set (m_packets q') \<subseteq> set (m_packets q)"
proof (induction n arbitrary: q)
  case (Suc n)
  then show ?case using Dequeue_set(1) by (fastforce elim!: bind_eq_SomeE split: if_splits)
qed (simp split: if_splits)

lemma calm_nic_TakeDown: "nic_TakeDown i h = Some h' \<Longrightarrow> calm h h'"
  using dequeue_all_set by (fastforce simp: nic_TakeDown_def elim!: bind_eq_SomeE intro!: calm_set_nic)

lemma set_hp_rates_flow: "flow_id (lazy_rates c fs bps p) = flow_id p \<and> snd_nxt (lazy_rates c fs bps p) = snd_nxt p"
  by (simp add: lazy_rates_def flow_id_def Let_def)

lemma calm_ReceiveCnp: "ReceiveCnp sip cn h = Some h' \<Longrightarrow> calm h h'"
  by (auto simp: ReceiveCnp_def advances_def set_hp_rates_flow elim!: bind_eq_SomeE split: if_splits intro!: calm_set_qp)

lemma calm_groups:
  "calm h (h\<lparr>m_nic := (\<lambda>i. map_option (\<lambda>d. d\<lparr>nd_qpGrp := []\<rparr>) (m_nic h i))\<rparr>)"
  by (auto simp: calm_def out_def acks_only_def map_option_case split: option.splits)

lemma calm_reassign_all: "reassign_all order h = Some h' \<Longrightarrow> calm h h'"
proof (induction order h rule: reassign_all.induct)
  case (2 key keys h)
  from 2(2) obtain q i d h1 where d: "m_qpMap h key = Some q" "GetNicIdxOfQp q h = Some i" "m_nic h i = Some d"
    and h1: "ReassignedQp i q (set_nic i (d\<lparr>nd_qpGrp := nd_qpGrp d @ [q]\<rparr>) h) = Some h1"
    and r: "reassign_all keys h1 = Some h'" by (auto elim!: bind_eq_SomeE)
  have "calm h (set_nic i (d\<lparr>nd_qpGrp := nd_qpGrp d @ [q]\<rparr>) h)" by (rule calm_set_nic [OF d(3)]) simp
  also have "calm (set_nic i (d\<lparr>nd_qpGrp := nd_qpGrp d @ [q]\<rparr>) h) h1"
    using h1 by (simp add: ReassignedQp_def calm_DequeueAndTransmit)
  also have "calm h1 h'" by (rule 2(1) [OF d h1 r])
  finally show ?case .
qed simp

lemma calm_RedistributeQp: "RedistributeQp order h = Some h' \<Longrightarrow> calm h h'"
  unfolding RedistributeQp_def by (rule calm_trans [OF calm_groups calm_reassign_all])

subsection \<open>The keys of the two maps\<close>

lemma key_parts:
  fixes a :: u32 and b c :: u16
  defines "k \<equiv> push_bit 32 (ucast a) OR push_bit 16 (ucast b) OR (ucast c :: u64)"
  shows "ucast (drop_bit 32 k) = a" and "ucast (drop_bit 16 k) = b" and "ucast k = c"
proof -
  have "\<not> bit b n" if "16 \<le> n" for n and b :: u16 using that bit_imp_le_length [of b n] by auto
  then show "ucast (drop_bit 32 k) = a" and "ucast (drop_bit 16 k) = b" and "ucast k = c"
    by (auto intro!: bit_word_eqI simp: k_def bit_ucast_iff bit_drop_bit_eq bit_or_iff bit_push_bit_iff)
qed

lemma GetQpKey_inj [simp]: "GetQpKey a b c = GetQpKey a' b' c' \<longleftrightarrow> a = a' \<and> b = b' \<and> c = c'"
  using key_parts [of a b c] key_parts [of a' b' c'] by (metis GetQpKey_def)

lemma RxKey_inj [simp]: "RxKey a b c = RxKey a' b' c' \<longleftrightarrow> a = a' \<and> b = b' \<and> c = c'"
  using key_parts [of a b c] key_parts [of a' b' c'] by (metis RxKey_def)

subsection \<open>The two ends of a flow\<close>

record flow =
  fl_sip :: u32
  fl_dip :: u32
  fl_sport :: u16
  fl_pg :: u16
  fl_size :: u64
  fl_qp :: nat

definition flow_data :: "flow \<Rightarrow> packet \<Rightarrow> bool" where
  "flow_data F p \<longleftrightarrow> is_Udp_Data (pkt_load p) \<and> ip_source (pkt_ip p) = fl_sip F
     \<and> pd_sport (pkt_load p) = fl_sport F \<and> pd_pg (pkt_load p) = fl_pg F"

definition flow_ack :: "flow \<Rightarrow> packet \<Rightarrow> bool" where
  "flow_ack F p \<longleftrightarrow> is_Qbb_Ack (pkt_load p) \<and> ip_source (pkt_ip p) = fl_dip F
     \<and> qbb_dport (pa_hdr (pkt_load p)) = fl_sport F \<and> qbb_pg (pa_hdr (pkt_load p)) = fl_pg F"

text \<open>The bytes the receiver has accepted in order.\<close>

definition received :: "flow \<Rightarrow> host \<Rightarrow> nat" where
  "received F B = (case m_rxQpMap B (RxKey (fl_sip F) (fl_pg F) (fl_sport F)) of None \<Rightarrow> 0
     | Some r \<Rightarrow> unat (ReceiverNextExpectedSeq (h_rxqp B r)))"

definition acked :: "flow \<Rightarrow> host \<Rightarrow> nat" where
  "acked F A = unat (snd_una (h_qp A (fl_qp F)))"

text \<open>The sender of the flow: its queue pair is the only one with its key, what it has let out lies within
  the flow, and it reports completion only when everything is acknowledged.\<close>

definition matches :: "flow \<Rightarrow> RdmaQueuePair \<Rightarrow> bool" where
  "matches F p \<longleftrightarrow> qp_dip p = fl_dip F \<and> qp_sport p = fl_sport F \<and> m_pg p = fl_pg F"

definition sender_inv :: "flow \<Rightarrow> host \<Rightarrow> bool" where
  "sender_inv F A \<longleftrightarrow> \<not> m_backto0 (hw A) \<and> fl_qp F < h_nqp A
     \<and> (let p = h_qp A (fl_qp F) in qp_sip p = fl_sip F \<and> matches F p \<and> m_size p = fl_size F \<and> qp_fine p)
     \<and> (\<forall>q. q \<noteq> fl_qp F \<longrightarrow> \<not> matches F (h_qp A q))
     \<and> (\<forall>k q. m_qpMap A k = Some q \<longrightarrow> (q = fl_qp F \<longleftrightarrow> k = GetQpKey (fl_dip F) (fl_sport F) (fl_pg F)))
     \<and> (\<forall>p \<in> out A. flow_data F p \<and> ip_destination (pkt_ip p) = fl_dip F
          \<longrightarrow> unat (pd_seq (pkt_load p)) + unat (payload_of (hw_int (hw A)) p) \<le> unat (fl_size F))
     \<and> acks_only A
     \<and> (fl_qp F \<in> set (h_completed A) \<longrightarrow> fl_size F \<le> snd_una (h_qp A (fl_qp F)))"

text \<open>The receiver: different keys have different queue pairs, and no acknowledgement it has let out is
  ahead of what it has accepted.\<close>

definition receiver_inv :: "flow \<Rightarrow> host \<Rightarrow> bool" where
  "receiver_inv F B \<longleftrightarrow> \<not> m_backto0 (hw B) \<and> acks_only B
     \<and> (\<forall>k r. m_rxQpMap B k = Some r \<longrightarrow> r < h_nrxqp B)
     \<and> (\<forall>k k' r. m_rxQpMap B k = Some r \<longrightarrow> m_rxQpMap B k' = Some r \<longrightarrow> k' = k)
     \<and> received F B \<le> unat (fl_size F) \<and> unat (fl_size F) < 2 ^ 32
     \<and> (\<forall>p \<in> out B. flow_ack F p \<and> ip_destination (pkt_ip p) = fl_sip F
          \<longrightarrow> unat (qbb_seq (pa_hdr (pkt_load p))) \<le> received F B)"

text \<open>What an operation that does not handle a packet of the flow keeps.\<close>

definition keeps_s :: "flow \<Rightarrow> host \<Rightarrow> host \<Rightarrow> bool" where
  "keeps_s F h h' \<longleftrightarrow> hw h' = hw h \<and> (sender_inv F h \<longrightarrow> sender_inv F h' \<and> acked F h' = acked F h
     \<and> (fl_qp F \<in> set (h_completed h') \<longleftrightarrow> fl_qp F \<in> set (h_completed h)))"

definition keeps_r :: "flow \<Rightarrow> host \<Rightarrow> host \<Rightarrow> bool" where
  "keeps_r F h h' \<longleftrightarrow> hw h' = hw h \<and> (receiver_inv F h \<longrightarrow> receiver_inv F h' \<and> received F h' = received F h)"

lemma keeps_trans:
  "keeps_s F h h' \<Longrightarrow> keeps_s F h' h'' \<Longrightarrow> keeps_s F h h''" "keeps_r F h h' \<Longrightarrow> keeps_r F h' h'' \<Longrightarrow> keeps_r F h h''"
  by (auto simp: keeps_s_def keeps_r_def)

lemma keeps_refl [simp]: "keeps_s F h h" "keeps_r F h h"
  by (simp_all add: keeps_s_def keeps_r_def)

lemma calm_keeps_s:
  assumes "calm h h'"
  shows "keeps_s F h h'"
proof -
  let ?q = "fl_qp F"
  note c = assms [unfolded calm_def]
  have id: "flow_id (h_qp h' q) = flow_id (h_qp h q)" for q using c by (simp add: advances_def)
  have m: "matches F (h_qp h' q) \<longleftrightarrow> matches F (h_qp h q)" for q using id [of q] by (simp add: matches_def flow_id_def)
  have "sender_inv F h'" if S: "sender_inv F h"
  proof -
    note s = S [unfolded sender_inv_def Let_def]
    have "qp_fine (h_qp h' ?q)" using s c advances_fine by blast
    moreover have "unat (pd_seq (pkt_load p)) + unat (payload_of (hw_int (hw h)) p) \<le> unat (fl_size F)"
      if p: "p \<in> out h'" "flow_data F p" "ip_destination (pkt_ip p) = fl_dip F" for p
    proof (cases "p \<in> out h")
      case False
      then obtain q where q: "seg_of (hw h) (h_qp h q) p" using c p(1) by blast
      then have "matches F (h_qp h q)" using p(2,3) by (auto simp: seg_of_def matches_def flow_data_def)
      then have "q = ?q" using s by blast
      then show ?thesis using q s by (auto simp: seg_of_def)
    qed (use s p in blast)
    ultimately show ?thesis using s c id [of ?q] m by (simp add: sender_inv_def Let_def flow_id_def)
  qed
  then show ?thesis using c id [of ?q] by (simp add: keeps_s_def acked_def flow_id_def)
qed

lemma calm_keeps_r:
  assumes "calm h h'"
  shows "keeps_r F h h'"
proof -
  note c = assms [unfolded calm_def]
  have r: "received F h' = received F h" using c by (auto simp: received_def split: option.splits)
  have "receiver_inv F h'" if R: "receiver_inv F h"
  proof -
    have "unat (qbb_seq (pa_hdr (pkt_load p))) \<le> received F h"
      if p: "p \<in> out h'" "flow_ack F p" "ip_destination (pkt_ip p) = fl_sip F" for p
    proof -
      have "\<not> seg_of (hw h) (h_qp h q) p" for q using p(2) by (auto simp: flow_ack_def seg_of_def)
      then show ?thesis using c p R by (auto simp: receiver_inv_def)
    qed
    then show ?thesis using R c r by (simp add: receiver_inv_def)
  qed
  then show ?thesis using c r by (simp add: keeps_r_def)
qed

subsection \<open>Handling an acknowledgement\<close>

text \<open>After the acknowledgement itself everything is calm.\<close>

lemma ReceiveAck_split:
  assumes "ReceiveAck env sip nack ack h = Some h'"
  obtains "GetQp sip (qbb_dport ack) (qbb_pg ack) h = None" and "h' = h"
  | q h1 where "GetQp sip (qbb_dport ack) (qbb_pg ack) h = Some q" and "acknowledge_qp q (qbb_seq ack) h = Some h1"
    and "calm h1 h'"
proof (cases "GetQp sip (qbb_dport ack) (qbb_pg ack) h")
  case None
  with assms have "h' = h" by (simp add: ReceiveAck_def)
  then show ?thesis by (rule that(1) [OF None])
next
  case (Some q)
  let ?r = "\<lambda>h1. if nack then RecoverQueue q h1 else h1"
  obtain i h1 h2 h3 where h1: "acknowledge_qp q (qbb_seq ack) h = Some h1"
    and h2: "(if GetCnp ack \<noteq> 0 \<and> m_cc_mode (hw (?r h1)) = 1 then cnp_received_mlx q (?r h1) else Some (?r h1)) = Some h2"
    and h3: "cc_ack env q ack h2 = Some h3" "TriggerTransmit i h3 = Some h'"
    using assms unfolding ReceiveAck_def Some Let_def option.case by (elim bind_eq_SomeE) blast
  have "calm h1 (if nack then RecoverQueue q h1 else h1)" by (simp add: RecoverQueue_def calm_set_qp)
  also have "calm (if nack then RecoverQueue q h1 else h1) h2"
    using h2 calm_cnp_received_mlx by (metis calm_refl option.inject)
  also note calm_cc_ack [OF h3(1)]
  also have "calm h3 h'" using h3(2) by (simp add: TriggerTransmit_def calm_DequeueAndTransmit)
  finally show ?thesis by (rule that(2) [OF Some h1])
qed

lemma acknowledge_cases:
  assumes "acknowledge_qp q sq h = Some h1" and "\<not> m_backto0 (hw h)"
  obtains "h1 = h"
    | "h1 = set_qp q (Acknowledge (ucast sq) (h_qp h q)) h" and "\<not> IsFinished (Acknowledge (ucast sq) (h_qp h q))"
    | "h1 = QpComplete q (set_qp q (Acknowledge (ucast sq) (h_qp h q)) h)" and "IsFinished (Acknowledge (ucast sq) (h_qp h q))"
  using assms by (auto simp: acknowledge_qp_def Let_def guard_bind_eq_Some split: if_splits)

lemma QpComplete_fields [simp]:
  "h_qp (QpComplete q h) = h_qp h" "hw (QpComplete q h) = hw h" "out (QpComplete q h) = out h" "h_nqp (QpComplete q h) = h_nqp h"
  "h_completed (QpComplete q h) = h_completed h @ [q]" "acks_only (QpComplete q h) \<longleftrightarrow> acks_only h"
  "m_qpMap (QpComplete q h) = (m_qpMap h)(GetQpKey (qp_dip (h_qp h q)) (qp_sport (h_qp h q)) (m_pg (h_qp h q)) := None)"
  "m_rxQpMap (QpComplete q h) = m_rxQpMap h" "h_rxqp (QpComplete q h) = h_rxqp h" "h_nrxqp (QpComplete q h) = h_nrxqp h"
  "h_wire (QpComplete q h) = h_wire h"
  by (simp_all add: QpComplete_def Let_def DeleteQueuePair_def h_Cancel_def out_def acks_only_def)

lemma set_qp_fields [simp]:
  "out (set_qp q x h) = out h" "acks_only (set_qp q x h) \<longleftrightarrow> acks_only h" "h_completed (set_qp q x h) = h_completed h"
  "m_qpMap (set_qp q x h) = m_qpMap h" "h_nqp (set_qp q x h) = h_nqp h" "m_rxQpMap (set_qp q x h) = m_rxQpMap h"
  "h_rxqp (set_qp q x h) = h_rxqp h" "h_nrxqp (set_qp q x h) = h_nrxqp h" "h_wire (set_qp q x h) = h_wire h"
  by (simp_all add: set_qp_def out_def acks_only_def)

lemma Acknowledge_flow [simp]:
  "qp_sip (Acknowledge a p) = qp_sip p" "qp_dip (Acknowledge a p) = qp_dip p" "qp_sport (Acknowledge a p) = qp_sport p"
  "m_pg (Acknowledge a p) = m_pg p" "m_size (Acknowledge a p) = m_size p" "matches F (Acknowledge a p) \<longleftrightarrow> matches F p"
  by (auto simp: Acknowledge_def Let_def matches_def)

text \<open>The acknowledgement of another flow, and of this flow.\<close>

lemma acknowledge_other:
  assumes "acknowledge_qp q sq h = Some h1" and "\<not> m_backto0 (hw h)" and "q \<noteq> fl_qp F"
  shows "keeps_s F h h1"
proof -
  have q: "qp \<noteq> q \<Longrightarrow> h_qp (set_qp q x h) qp = h_qp h qp" for x qp by simp
  have m: "matches F (h_qp (set_qp q (Acknowledge a (h_qp h q)) h) qp) \<longleftrightarrow> matches F (h_qp h qp)" for qp a
    by (cases "qp = q") simp_all
  from assms(1,2) show ?thesis
    by (rule acknowledge_cases) (use assms(3) m in \<open>auto simp: keeps_s_def sender_inv_def Let_def acked_def\<close>)
qed

lemma acknowledge_fine:
  assumes "qp_fine p" and "unat (m_size p) < 2 ^ 32" and "unat (sq :: u32) \<le> unat (m_size p)"
  shows "qp_fine (Acknowledge (ucast sq) p)" and "unat (snd_una (Acknowledge (ucast sq) p)) = max (unat (snd_una p)) (unat sq)"
proof -
  have u: "unat (ucast sq :: u64) = unat sq" by (simp add: unat_ucast_up)
  then have "(ucast sq :: u64) \<le> m_size p" using assms(3) by (simp add: word_le_nat_alt)
  then show "qp_fine (Acknowledge (ucast sq) p)" using assms(1) by (auto simp: qp_fine_def Acknowledge_nxt max_def)
  show "unat (snd_una (Acknowledge (ucast sq) p)) = max (unat (snd_una p)) (unat sq)" by (simp add: unat_max u)
qed

lemma acknowledge_own:
  assumes "acknowledge_qp (fl_qp F) sq h = Some h1" and S: "sender_inv F h" and "unat sq \<le> unat (fl_size F)"
  shows "hw h1 = hw h" and "sender_inv F h1" and "acked F h1 \<in> {acked F h, max (acked F h) (unat sq)}"
    and "fl_qp F \<in> set (h_completed h1) \<Longrightarrow> fl_qp F \<in> set (h_completed h) \<or> acked F h1 = unat (fl_size F)"
proof -
  let ?q = "fl_qp F"
  note s = S [unfolded sender_inv_def Let_def]
  have "m_size (h_qp h ?q) = fl_size F" "qp_fine (h_qp h ?q)" using s by blast+
  then have f: "qp_fine (Acknowledge (ucast sq) (h_qp h ?q))"
    "unat (snd_una (Acknowledge (ucast sq) (h_qp h ?q))) = max (acked F h) (unat sq)"
    using acknowledge_fine [of "h_qp h ?q" sq] assms(3) by (auto simp: qp_fine_def acked_def)
  have fin: "acked F h1 = unat (fl_size F)" if "IsFinished (Acknowledge (ucast sq) (h_qp h ?q))"
      "h_qp h1 ?q = Acknowledge (ucast sq) (h_qp h ?q)"
  proof -
    have "snd_una (Acknowledge (ucast sq) (h_qp h ?q)) = fl_size F"
      by (rule antisym) (use that(1) f(1) s in \<open>simp_all only: IsFinished_def qp_fine_def Acknowledge_flow\<close>)
    then show ?thesis by (simp only: acked_def that(2))
  qed
  have una: "snd_una (h_qp h ?q) \<le> snd_una (Acknowledge (ucast sq) (h_qp h ?q))" by simp
  have b: "\<not> m_backto0 (hw h)" using s by blast
  show "hw h1 = hw h" using assms(1) b by (rule acknowledge_cases) simp_all
  show "acked F h1 \<in> {acked F h, max (acked F h) (unat sq)}"
    using assms(1) b by (rule acknowledge_cases) (use f(2) in \<open>simp_all add: acked_def\<close>)
  show "fl_qp F \<in> set (h_completed h) \<or> acked F h1 = unat (fl_size F)" if "fl_qp F \<in> set (h_completed h1)"
    using assms(1) b by (rule acknowledge_cases) (use that fin in \<open>auto\<close>)
  show "sender_inv F h1"
    using assms(1) b
  proof (rule acknowledge_cases)
    assume h1: "h1 = set_qp ?q (Acknowledge (ucast sq) (h_qp h ?q)) h"
    show ?thesis
      using s f(1) una unfolding h1 by (simp add: sender_inv_def Let_def max.coboundedI1)
  next
    assume h1: "h1 = QpComplete ?q (set_qp ?q (Acknowledge (ucast sq) (h_qp h ?q)) h)"
      and "IsFinished (Acknowledge (ucast sq) (h_qp h ?q))"
    then show ?thesis
      using s f(1) unfolding h1 by (auto simp: sender_inv_def Let_def IsFinished_def matches_def)
  qed (use S in simp)
qed

subsection \<open>Handling a data packet\<close>

abbreviation rx_key_of :: "packet \<Rightarrow> u64" where
  "rx_key_of p \<equiv> RxKey (ip_source (pkt_ip p)) (pd_pg (pkt_load p)) (pd_sport (pkt_load p))"

definition with_ack :: "nat \<Rightarrow> packet \<Rightarrow> host \<Rightarrow> host \<Rightarrow> bool" where
  "with_ack i a h h' \<longleftrightarrow> (\<exists>d. m_nic h i = Some d \<and> h' = set_nic i (d\<lparr>nd_ackQ := snd (Enqueue a (nd_ackQ d))\<rparr>) h)"

lemma Enqueue_set: "set (m_packets (snd (Enqueue p q))) \<subseteq> insert p (set (m_packets q))"
  by (auto simp: Enqueue_def DoEnqueue_def Drop_def Let_def)

lemma with_ack_out: "with_ack i a h h' \<Longrightarrow> out h' \<subseteq> insert a (out h)"
  using Enqueue_set by (fastforce simp: with_ack_def out_def set_nic_def split: if_splits)

lemma with_ack_fields:
  assumes "with_ack i a h h'"
  shows "hw h' = hw h" "h_qp h' = h_qp h" "m_qpMap h' = m_qpMap h" "m_rxQpMap h' = m_rxQpMap h" "h_rxqp h' = h_rxqp h"
    "h_nrxqp h' = h_nrxqp h" "h_nqp h' = h_nqp h" "h_completed h' = h_completed h"
    "acks_only h \<Longrightarrow> is_Qbb_Ack (pkt_load a) \<Longrightarrow> acks_only h'" "h_wire h' = h_wire h"
  using assms Enqueue_set by (fastforce simp: with_ack_def acks_only_def set_nic_def split: if_splits)+

lemma set_rx_fields [simp]:
  "hw (set_rx r q h) = hw h" "h_qp (set_rx r q h) = h_qp h" "m_qpMap (set_rx r q h) = m_qpMap h"
  "m_rxQpMap (set_rx r q h) = m_rxQpMap h" "h_nrxqp (set_rx r q h) = h_nrxqp h" "h_nqp (set_rx r q h) = h_nqp h"
  "h_completed (set_rx r q h) = h_completed h" "out (set_rx r q h) = out h" "acks_only (set_rx r q h) \<longleftrightarrow> acks_only h"
  "h_rxqp (set_rx r q h) = (h_rxqp h)(r := q)" "h_wire (set_rx r q h) = h_wire h"
  by (simp_all add: set_rx_def out_def acks_only_def)

text \<open>The look-up creates the queue pair when it is missing.\<close>

lemma GetRxQp_create:
  assumes "GetRxQp sip dip sport dport pg True h = (r', h')"
  obtains r where "r' = Some r" and "m_rxQpMap h (RxKey dip pg dport) = Some r" and "h' = h"
  | q where "r' = Some (h_nrxqp h)" and "m_rxQpMap h (RxKey dip pg dport) = None" and "ReceiverNextExpectedSeq q = 0"
    and "h' = h\<lparr>h_rxqp := (h_rxqp h)(h_nrxqp h := q), h_nrxqp := h_nrxqp h + 1,
      m_rxQpMap := (m_rxQpMap h)(RxKey dip pg dport \<mapsto> h_nrxqp h)\<rparr>"
proof (cases "m_rxQpMap h (RxKey dip pg dport)")
  case None
  show ?thesis
    by (rule that(2) [OF _ None, of "RdmaRxQueuePair_init\<lparr>rx_sip := sip, rx_dip := dip, rx_sport := sport, rx_dport := dport,
      m_ecn_source := (m_ecn_source RdmaRxQueuePair_init)\<lparr>ea_qIndex := pg\<rparr>\<rparr>"])
      (use assms None in \<open>auto simp: GetRxQp_def Let_def RdmaRxQueuePair_init_def\<close>)
next
  case (Some r)
  show ?thesis by (rule that(1) [OF _ Some]) (use assms Some in \<open>simp_all add: GetRxQp_def Let_def\<close>)
qed

text \<open>A data packet changes the queue pair of its key, and possibly queues one acknowledgement for it.\<close>

definition reply_of :: "packet \<Rightarrow> u32 \<Rightarrow> packet \<Rightarrow> bool" where
  "reply_of p expected a \<longleftrightarrow> is_Qbb_Ack (pkt_load a) \<and> ip_source (pkt_ip a) = ip_destination (pkt_ip p)
     \<and> ip_destination (pkt_ip a) = ip_source (pkt_ip p) \<and> qbb_dport (pa_hdr (pkt_load a)) = pd_sport (pkt_load p)
     \<and> qbb_pg (pa_hdr (pkt_load a)) = pd_pg (pkt_load p) \<and> qbb_seq (pa_hdr (pkt_load a)) = expected"

lemma make_ack_reply: "is_Udp_Data (pkt_load p) \<Longrightarrow> reply_of p (ReceiverNextExpectedSeq q) (make_ack c nack e p q)"
  by (simp add: reply_of_def make_ack_def Let_def SetCnp_def qbbHeader_init_def)

lemma ReceiveUdp_split:
  assumes "ReceiveUdp p h = Some h'" and "is_Udp_Data (pkt_load p)"
  obtains r h1 x q q' where "GetRxQp (ip_destination (pkt_ip p)) (ip_source (pkt_ip p)) (pd_dport (pkt_load p))
      (pd_sport (pkt_load p)) (pd_pg (pkt_load p)) True h = (Some r, h1)"
    and "ReceiverCheckSeq (hw h) (h_now h1) (pd_seq (pkt_load p)) (payload_of (hw_int (hw h)) p)
      (rx_account (hw h) (GetEcn (pkt_ip p)) (h_rxqp h1 r)) = Some (x, q)"
    and "ReceiverNextExpectedSeq q' = ReceiverNextExpectedSeq q"
    and "h' = set_rx r q' h1 \<or> (\<exists>i a h2. reply_of p (ReceiverNextExpectedSeq q) a \<and> with_ack i a (set_rx r q' h1) h2 \<and> calm h2 h')"
proof -
  obtain r' h1 where g: "GetRxQp (ip_destination (pkt_ip p)) (ip_source (pkt_ip p)) (pd_dport (pkt_load p))
      (pd_sport (pkt_load p)) (pd_pg (pkt_load p)) True h = (r', h1)" by fastforce
  then obtain r where r: "r' = Some r" by (auto elim: GetRxQp_create)
  note g = g [unfolded r]
  let ?e = "GetEcn (pkt_ip p)"
  obtain x q where c: "ReceiverCheckSeq (hw h) (h_now h1) (pd_seq (pkt_load p)) (payload_of (hw_int (hw h)) p)
      (rx_account (hw h) ?e (h_rxqp h1 r)) = Some (x, q)"
    and rest: "(if x = 1 \<or> x = 2 then do {
       let newp = make_ack (hw h) (x = 2) ?e p q;
       let h = set_rx r (q\<lparr>rx_ipid := rx_ipid q + 1\<rparr>) h1;
       nic_idx \<leftarrow> GetNicIdxOfRxQp (h_rxqp h r) h;
       h \<leftarrow> RdmaEnqueueHighPrioQ nic_idx newp h;
       TriggerTransmit nic_idx h }
     else Some (set_rx r q h1)) = Some h'"
    using assms(1) unfolding ReceiveUdp_def Let_def g payload_of_def by (auto elim!: bind_eq_SomeE)
  show ?thesis
  proof (cases "x = 1 \<or> x = 2")
    case True
    then obtain i h2 where "with_ack i (make_ack (hw h) (x = 2) ?e p q) (set_rx r (q\<lparr>rx_ipid := rx_ipid q + 1\<rparr>) h1) h2"
        "calm h2 h'"
      using rest calm_DequeueAndTransmit
      by (auto simp: RdmaEnqueueHighPrioQ_def with_ack_def TriggerTransmit_def Let_def elim!: bind_eq_SomeE) blast+
    then have "\<exists>i a h2. reply_of p (ReceiverNextExpectedSeq q) a \<and> with_ack i a (set_rx r (q\<lparr>rx_ipid := rx_ipid q + 1\<rparr>) h1) h2
      \<and> calm h2 h'" using make_ack_reply [OF assms(2)] by blast
    then show ?thesis by (intro that [OF g c, of "q\<lparr>rx_ipid := rx_ipid q + 1\<rparr>"]) simp_all
  next
    case False
    then show ?thesis using rest that [OF g c, of q] by auto
  qed
qed

lemma ReceiverCheckSeq_expected:
  assumes "ReceiverCheckSeq c now sq n q = Some (x, q')" and "\<not> m_backto0 c"
  shows "ReceiverNextExpectedSeq q'
    = (if sq = ReceiverNextExpectedSeq q then ReceiverNextExpectedSeq q + n else ReceiverNextExpectedSeq q)"
  using assms by (auto simp: ReceiverCheckSeq_def Let_def elim!: bind_eq_SomeE split: if_splits)

lemma GetRxQp_frame:
  assumes "GetRxQp sip dip sport dport pg True h = (r', h')"
  shows "hw h' = hw h" "h_qp h' = h_qp h" "m_qpMap h' = m_qpMap h" "h_nqp h' = h_nqp h" "h_completed h' = h_completed h"
    "out h' = out h" "acks_only h' \<longleftrightarrow> acks_only h" "h_wire h' = h_wire h"
  using assms by (auto elim!: GetRxQp_create simp: out_def acks_only_def)

lemma ReceiveUdp_keeps_s:
  assumes "ReceiveUdp p h = Some h'" and "is_Udp_Data (pkt_load p)"
  shows "keeps_s F h h'"
  using assms
proof (rule ReceiveUdp_split)
  fix r h1 x q q'
  assume g: "GetRxQp (ip_destination (pkt_ip p)) (ip_source (pkt_ip p)) (pd_dport (pkt_load p))
      (pd_sport (pkt_load p)) (pd_pg (pkt_load p)) True h = (Some r, h1)"
    and h': "h' = set_rx r q' h1 \<or> (\<exists>i a h2. reply_of p (ReceiverNextExpectedSeq q) a \<and> with_ack i a (set_rx r q' h1) h2 \<and> calm h2 h')"
  note f = GetRxQp_frame [OF g]
  have k: "keeps_s F h (set_rx r q' h1)" using f by (simp add: keeps_s_def sender_inv_def acked_def)
  have "keeps_s F (set_rx r q' h1) h2" if a: "reply_of p (ReceiverNextExpectedSeq q) a" "with_ack i a (set_rx r q' h1) h2" for i a h2
  proof -
    have "is_Qbb_Ack (pkt_load a)" using a(1) by (simp add: reply_of_def)
    then have "\<not> flow_data F a" by (auto simp: flow_data_def payload.disc_eq_case split: payload.splits)
    moreover have "out h2 \<subseteq> insert a (out (set_rx r q' h1))" by (rule with_ack_out [OF a(2)])
    ultimately show ?thesis
      using with_ack_fields [OF a(2)] \<open>is_Qbb_Ack (pkt_load a)\<close>
      unfolding keeps_s_def sender_inv_def acked_def Let_def by auto
  qed
  then show ?thesis using h' k keeps_trans(1) calm_keeps_s by metis
qed

lemma GetRxQp_received:
  assumes "GetRxQp sip dip sport dport pg True h = (Some r, h')" and "receiver_inv F h"
  shows "receiver_inv F h'" and "received F h' = received F h" and "m_rxQpMap h' (RxKey dip pg dport) = Some r"
proof -
  let ?k = "RxKey (fl_sip F) (fl_pg F) (fl_sport F)" and ?k' = "RxKey dip pg dport"
  have "receiver_inv F h' \<and> received F h' = received F h \<and> m_rxQpMap h' ?k' = Some r"
    using assms(1)
  proof (rule GetRxQp_create)
    fix q
    assume r: "Some r = Some (h_nrxqp h)" and n: "m_rxQpMap h ?k' = None" and q: "ReceiverNextExpectedSeq q = 0"
      and h': "h' = h\<lparr>h_rxqp := (h_rxqp h)(h_nrxqp h := q), h_nrxqp := h_nrxqp h + 1, m_rxQpMap := (m_rxQpMap h)(?k' \<mapsto> h_nrxqp h)\<rparr>"
    have lt: "m_rxQpMap h k = Some s \<Longrightarrow> s < h_nrxqp h" for k s using assms(2) by (simp add: receiver_inv_def)
    have rec: "received F h' = received F h"
      using n q lt unfolding h' received_def by (auto split: option.splits)
    have inj: "\<forall>k k' s. m_rxQpMap h' k = Some s \<longrightarrow> m_rxQpMap h' k' = Some s \<longrightarrow> k' = k"
      using assms(2) lt unfolding h' receiver_inv_def by (auto split: if_splits)
    have lt': "\<forall>k s. m_rxQpMap h' k = Some s \<longrightarrow> s < h_nrxqp h'" using lt by (auto simp: h' less_SucI split: if_splits)
    have o: "out h' = out h" "acks_only h' \<longleftrightarrow> acks_only h" "hw h' = hw h" by (simp_all add: h' out_def acks_only_def)
    have "receiver_inv F h'" using assms(2) inj lt' unfolding receiver_inv_def rec o by blast
    then show ?thesis using rec r h' by simp
  qed (use assms(2) in auto)
  then show "receiver_inv F h'" and "received F h' = received F h" and "m_rxQpMap h' ?k' = Some r" by blast+
qed

text \<open>A packet of another key, and one of this flow.\<close>

lemma receiver_inv_grows:
  assumes R: "receiver_inv F h" and r: "m_rxQpMap h (RxKey (fl_sip F) (fl_pg F) (fl_sport F)) = Some r"
    and g: "received F h \<le> unat (ReceiverNextExpectedSeq q)" "unat (ReceiverNextExpectedSeq q) \<le> unat (fl_size F)"
  shows "receiver_inv F (set_rx r q h)" and "received F (set_rx r q h) = unat (ReceiverNextExpectedSeq q)"
proof -
  show rec: "received F (set_rx r q h) = unat (ReceiverNextExpectedSeq q)" using r by (simp add: received_def)
  show "receiver_inv F (set_rx r q h)"
    using R g unfolding receiver_inv_def rec by (auto intro: order_trans)
qed

lemma receiver_inv_other:
  assumes R: "receiver_inv F h" and r: "m_rxQpMap h k = Some r" and k: "k \<noteq> RxKey (fl_sip F) (fl_pg F) (fl_sport F)"
  shows "receiver_inv F (set_rx r q h)" and "received F (set_rx r q h) = received F h"
proof -
  have "m_rxQpMap h (RxKey (fl_sip F) (fl_pg F) (fl_sport F)) \<noteq> Some r" using R r k by (auto simp: receiver_inv_def)
  then show rec: "received F (set_rx r q h) = received F h" by (auto simp: received_def split: option.splits)
  show "receiver_inv F (set_rx r q h)" using R unfolding receiver_inv_def rec by simp
qed

lemma receiver_inv_with_ack:
  assumes R: "receiver_inv F h" and a: "with_ack i a h h'" "is_Qbb_Ack (pkt_load a)"
    and ok: "flow_ack F a \<Longrightarrow> ip_destination (pkt_ip a) = fl_sip F \<Longrightarrow> unat (qbb_seq (pa_hdr (pkt_load a))) \<le> received F h"
  shows "receiver_inv F h'" and "received F h' = received F h"
proof -
  note f = with_ack_fields [OF a(1)] with_ack_out [OF a(1)]
  show rec: "received F h' = received F h" using f by (auto simp: received_def split: option.splits)
  show "receiver_inv F h'" using R f a(2) ok unfolding receiver_inv_def rec by auto
qed

lemma ReceiveUdp_receiver:
  assumes u: "ReceiveUdp p h = Some h'" and d: "is_Udp_Data (pkt_load p)" and R: "receiver_inv F h"
    and own: "flow_data F p \<Longrightarrow> ip_destination (pkt_ip p) = fl_dip F
      \<and> unat (pd_seq (pkt_load p)) + unat (payload_of (hw_int (hw h)) p) \<le> unat (fl_size F)"
  shows "hw h' = hw h" and "receiver_inv F h'" and "received F h \<le> received F h'"
    and "\<not> flow_data F p \<Longrightarrow> received F h' = received F h"
proof -
  let ?k = "RxKey (fl_sip F) (fl_pg F) (fl_sport F)"
  have "hw h' = hw h \<and> receiver_inv F h' \<and> received F h \<le> received F h' \<and> (\<not> flow_data F p \<longrightarrow> received F h' = received F h)"
    using u d
  proof (rule ReceiveUdp_split)
    fix r h1 x q q'
    assume g: "GetRxQp (ip_destination (pkt_ip p)) (ip_source (pkt_ip p)) (pd_dport (pkt_load p))
        (pd_sport (pkt_load p)) (pd_pg (pkt_load p)) True h = (Some r, h1)"
      and c: "ReceiverCheckSeq (hw h) (h_now h1) (pd_seq (pkt_load p)) (payload_of (hw_int (hw h)) p)
        (rx_account (hw h) (GetEcn (pkt_ip p)) (h_rxqp h1 r)) = Some (x, q)"
      and q': "ReceiverNextExpectedSeq q' = ReceiverNextExpectedSeq q"
      and h': "h' = set_rx r q' h1 \<or> (\<exists>i a h2. reply_of p (ReceiverNextExpectedSeq q) a \<and> with_ack i a (set_rx r q' h1) h2 \<and> calm h2 h')"
    note f = GetRxQp_frame [OF g] and R1 = GetRxQp_received [OF g R]
    have fd: "flow_data F p \<longleftrightarrow> rx_key_of p = ?k" using d by (simp add: flow_data_def conj_commute)
    let ?s = "set_rx r q' h1"
    have "\<not> m_backto0 (hw h)" using R by (simp add: receiver_inv_def)
    note e = ReceiverCheckSeq_expected [OF c this]
    have acc: "ReceiverNextExpectedSeq (rx_account (hw h) (GetEcn (pkt_ip p)) (h_rxqp h1 r)) = ReceiverNextExpectedSeq (h_rxqp h1 r)"
      by (simp add: rx_account_def Let_def)
    have S: "receiver_inv F ?s \<and> received F h \<le> received F ?s \<and> (\<not> flow_data F p \<longrightarrow> received F ?s = received F h)
      \<and> (flow_data F p \<longrightarrow> received F ?s = unat (ReceiverNextExpectedSeq q))"
    proof (cases "flow_data F p")
      case True
      then have r: "m_rxQpMap h1 ?k = Some r" using R1(3) fd by simp
      then have rec: "received F h = unat (ReceiverNextExpectedSeq (h_rxqp h1 r))" using R1(2) by (simp add: received_def)
      have "unat (fl_size F) < 2 ^ 32" "received F h \<le> unat (fl_size F)" using R by (simp_all add: receiver_inv_def)
      then have "received F h \<le> unat (ReceiverNextExpectedSeq q) \<and> unat (ReceiverNextExpectedSeq q) \<le> unat (fl_size F)"
        using own [OF True] unfolding e acc rec by (auto simp: unat_add_nowrap)
      then show ?thesis using receiver_inv_grows [OF R1(1) r, of q'] q' R1(2) True by simp
    next
      case False
      then have "rx_key_of p \<noteq> ?k" using fd by blast
      then show ?thesis using receiver_inv_other [OF R1(1,3), of q'] False R1(2) by simp
    qed
    have "receiver_inv F h2 \<and> received F h2 = received F ?s \<and> hw h2 = hw h"
      if a: "reply_of p (ReceiverNextExpectedSeq q) a" "with_ack i a ?s h2" for i a h2
    proof -
      have "unat (qbb_seq (pa_hdr (pkt_load a))) \<le> received F ?s"
        if "flow_ack F a" "ip_destination (pkt_ip a) = fl_sip F"
      proof -
        have "flow_data F p" using that a(1) d by (simp add: flow_ack_def reply_of_def flow_data_def)
        then show ?thesis using S a(1) by (simp add: reply_of_def)
      qed
      then show ?thesis
        using receiver_inv_with_ack [OF _ a(2)] S a(1) with_ack_fields(1) [OF a(2)] f(1) by (simp add: reply_of_def)
    qed
    then show ?thesis
      using h' S f(1) calm_keeps_r [of _ h' F] unfolding keeps_r_def by (metis set_rx_fields(1))
  qed
  then show "hw h' = hw h" and "receiver_inv F h'" and "received F h \<le> received F h'"
    and "\<not> flow_data F p \<Longrightarrow> received F h' = received F h" by blast+
qed

subsection \<open>Starting another flow\<close>

lemma set_nic_grp_out:
  assumes "m_nic h i = Some d" and "nd_ackQ d' = nd_ackQ d"
  shows "out (set_nic i d' h) = out h" and "acks_only (set_nic i d' h) \<longleftrightarrow> acks_only h"
proof -
  have e: "(\<exists>d. m_nic (set_nic i d' h) j = Some d \<and> p \<in> set (m_packets (nd_ackQ d)))
      \<longleftrightarrow> (\<exists>d. m_nic h j = Some d \<and> p \<in> set (m_packets (nd_ackQ d)))" for j p
    using assms by (cases "j = i") (simp_all add: set_nic_def)
  show "out (set_nic i d' h) = out h" by (simp add: out_def e)
  have "acks_only g \<longleftrightarrow> (\<forall>j p. (\<exists>d. m_nic g j = Some d \<and> p \<in> set (m_packets (nd_ackQ d))) \<longrightarrow> is_Qbb_Ack (pkt_load p))" for g
    by (auto simp: acks_only_def)
  then show "acks_only (set_nic i d' h) \<longleftrightarrow> acks_only h" by (simp add: e)
qed

lemma init_rates_flow: "flow_id (init_rates c fs bps p) = flow_id p"
  by (simp add: init_rates_def flow_id_def Let_def)

lemma AddQueuePair_split:
  assumes "AddQueuePair jh js sz pg sip dip sport dport win rtt h = Some h'"
  obtains x h2 where "calm h2 h'" and "h_qp h2 = (h_qp h)(h_nqp h := x)" and "hw h2 = hw h" and "h_nqp h2 = h_nqp h + 1"
    and "qp_sip x = sip" and "qp_dip x = dip" and "qp_sport x = sport" and "m_pg x = pg" and "out h2 = out h" and "acks_only h2 \<longleftrightarrow> acks_only h"
    and "m_qpMap h2 = (m_qpMap h)(GetQpKey dip sport pg \<mapsto> h_nqp h)" and "h_completed h2 = h_completed h"
    and "m_rxQpMap h2 = m_rxQpMap h" and "h_rxqp h2 = h_rxqp h" and "h_nrxqp h2 = h_nrxqp h" and "h_wire h2 = h_wire h"
proof -
  let ?q = "h_nqp h"
  define qp where "qp = (RdmaQueuePair_init jh js (h_now h) pg sip dip sport dport)
       \<lparr>m_size := sz, m_win := win, m_baseRtt := rtt, m_var_win := hw_var_win (hw h)\<rparr>"
  let ?h1 = "(set_qp ?q qp h)\<lparr>h_nqp := ?q + 1\<rparr>"
  obtain i d where d: "m_nic ?h1 i = Some d"
    and n: "NewQp i ?q (set_qp ?q (init_rates (hw h) (IsFsQp ?q ((set_nic i (d\<lparr>nd_qpGrp := nd_qpGrp d @ [?q]\<rparr>) ?h1)
        \<lparr>m_qpMap := (m_qpMap h)(GetQpKey dip sport pg \<mapsto> ?q)\<rparr>)) (nd_bps d) qp)
        ((set_nic i (d\<lparr>nd_qpGrp := nd_qpGrp d @ [?q]\<rparr>) ?h1)\<lparr>m_qpMap := (m_qpMap h)(GetQpKey dip sport pg \<mapsto> ?q)\<rparr>)) = Some h'"
    using assms unfolding AddQueuePair_def Let_def qp_def [symmetric]
    by (elim bind_eq_SomeE) (simp add: set_nic_def set_qp_def)
  define h1 where "h1 = set_nic i (d\<lparr>nd_qpGrp := nd_qpGrp d @ [?q]\<rparr>) ?h1"
  define y where "y = init_rates (hw h) (IsFsQp ?q (h1\<lparr>m_qpMap := (m_qpMap h)(GetQpKey dip sport pg \<mapsto> ?q)\<rparr>)) (nd_bps d) qp"
  have o: "out h1 = out h" "acks_only h1 \<longleftrightarrow> acks_only h"
    using set_nic_grp_out [OF d, of "d\<lparr>nd_qpGrp := nd_qpGrp d @ [?q]\<rparr>"] unfolding h1_def
    by (simp_all add: out_def acks_only_def)
  have "flow_id y = flow_id qp" by (simp add: y_def init_rates_flow)
  then have id: "qp_sip y = sip" "qp_dip y = dip" "qp_sport y = sport" "m_pg y = pg"
    by (simp_all add: flow_id_def qp_def RdmaQueuePair_init_def)
  let ?m = "set_qp ?q y (h1\<lparr>m_qpMap := (m_qpMap h)(GetQpKey dip sport pg \<mapsto> ?q)\<rparr>)"
  let ?h2 = "set_qp ?q (y\<lparr>m_nextAvail := h_now ?m\<rparr>) ?m"
  have "DequeueAndTransmit i ?h2 = Some h'" using n unfolding h1_def [symmetric] y_def [symmetric] NewQp_def by simp
  then have c: "calm ?h2 h'" by (rule calm_DequeueAndTransmit)
  have e: "out (h1\<lparr>m_qpMap := m\<rparr>) = out h1" "acks_only (h1\<lparr>m_qpMap := m\<rparr>) \<longleftrightarrow> acks_only h1" for m
    by (simp_all add: out_def acks_only_def)
  show ?thesis
    by (rule that [OF c, of "y\<lparr>m_nextAvail := h_now ?m\<rparr>"]) (simp_all add: o e id, simp_all add: h1_def set_qp_def set_nic_def)
qed

lemma AddQueuePair_keeps:
  assumes "AddQueuePair jh js sz pg sip dip sport dport win rtt h = Some h'"
  shows "(dip, sport, pg) \<noteq> (fl_dip F, fl_sport F, fl_pg F) \<Longrightarrow> keeps_s F h h'" and "keeps_r F h h'"
proof -
  obtain x h2 where c: "calm h2 h'" and q: "h_qp h2 = (h_qp h)(h_nqp h := x)" and f: "hw h2 = hw h" "h_nqp h2 = h_nqp h + 1"
      "out h2 = out h" "acks_only h2 \<longleftrightarrow> acks_only h" "h_completed h2 = h_completed h"
    and x: "qp_dip x = dip" "qp_sport x = sport" "m_pg x = pg"
    and m: "m_qpMap h2 = (m_qpMap h)(GetQpKey dip sport pg \<mapsto> h_nqp h)"
    and r: "m_rxQpMap h2 = m_rxQpMap h" "h_rxqp h2 = h_rxqp h" "h_nrxqp h2 = h_nrxqp h" "h_wire h2 = h_wire h"
    by (rule AddQueuePair_split [OF assms])
  show "keeps_s F h h'" if k: "(dip, sport, pg) \<noteq> (fl_dip F, fl_sport F, fl_pg F)"
  proof -
    have "\<not> matches F x" using k x by (auto simp: matches_def)
    then have "keeps_s F h h2"
      using k unfolding keeps_s_def sender_inv_def acked_def Let_def q f m by (auto split: if_splits)
    then show ?thesis by (rule keeps_trans(1) [OF _ calm_keeps_s [OF c]])
  qed
  have "keeps_r F h h2" unfolding keeps_r_def receiver_inv_def received_def f r by simp
  then show "keeps_r F h h'" by (rule keeps_trans(2) [OF _ calm_keeps_r [OF c]])
qed

subsection \<open>What a card receives\<close>

lemma acknowledge_fields:
  assumes "acknowledge_qp q sq h = Some h1"
  shows "hw h1 = hw h" "out h1 = out h" "acks_only h1 \<longleftrightarrow> acks_only h" "m_rxQpMap h1 = m_rxQpMap h" "h_rxqp h1 = h_rxqp h"
    "h_nrxqp h1 = h_nrxqp h" "h_wire h1 = h_wire h"
  using assms by (auto simp: acknowledge_qp_def Let_def guard_bind_eq_Some split: if_splits)

lemma ReceiveAck_keeps_r: "ReceiveAck env sip nack ack h = Some h' \<Longrightarrow> keeps_r F h h'"
proof (erule ReceiveAck_split)
  fix q h1
  assume a: "acknowledge_qp q (qbb_seq ack) h = Some h1" and c: "calm h1 h'"
  have "keeps_r F h h1" unfolding keeps_r_def receiver_inv_def received_def acknowledge_fields [OF a] by simp
  then show ?thesis by (rule keeps_trans(2) [OF _ calm_keeps_r [OF c]])
qed simp

lemma ReceiveAck_keeps_s:
  assumes "ReceiveAck env sip nack ack h = Some h'"
    and "\<not> (sip = fl_dip F \<and> qbb_dport ack = fl_sport F \<and> qbb_pg ack = fl_pg F)"
  shows "keeps_s F h h'"
  using assms(1)
proof (rule ReceiveAck_split)
  fix q h1
  assume q: "GetQp sip (qbb_dport ack) (qbb_pg ack) h = Some q" and a: "acknowledge_qp q (qbb_seq ack) h = Some h1"
    and c: "calm h1 h'"
  have "keeps_s F h h1"
  proof (cases "sender_inv F h")
    case True
    then have "q \<noteq> fl_qp F" using q assms(2) by (auto simp: sender_inv_def GetQp_def)
    then show ?thesis using acknowledge_other [OF a] True by (simp add: sender_inv_def)
  next
    case False
    then show ?thesis using acknowledge_fields(1) [OF a] by (simp add: keeps_s_def)
  qed
  then show ?thesis by (rule keeps_trans(1) [OF _ calm_keeps_s [OF c]])
qed simp

text \<open>What a card receives is dropped, calm, data or an acknowledgement.\<close>

lemma nic_Receive_split:
  assumes "nic_Receive env corrupt i p h = Some h'"
  obtains "calm h h'"
    | "is_Udp_Data (pkt_load p)" and "ReceiveUdp p h = Some h'"
    | nack where "is_Qbb_Ack (pkt_load p)" and "ReceiveAck env (ip_source (pkt_ip p)) nack (pa_hdr (pkt_load p)) h = Some h'"
proof -
  obtain d where d: "m_nic h i = Some d" using assms by (auto simp: nic_Receive_def elim: bind_eq_SomeE)
  consider (drop) "\<not> nd_linkUp d \<or> corrupt" | (pfc) "nd_linkUp d" "\<not> corrupt" "pkt_proto p = 0xFE"
    | (rdma) "nd_linkUp d" "\<not> corrupt" "pkt_proto p \<noteq> 0xFE" by blast
  then show ?thesis
  proof cases
    case drop
    then show ?thesis using assms d that(1) by (simp add: nic_Receive_def)
  next
    case pfc
    then show ?thesis
      using assms d that(1) by (cases "pkt_load p") (simp_all add: nic_Receive_def calm_nic_pfc)
  next
    case rdma
    then have "Receive env p h = Some h'" using assms d by (simp add: nic_Receive_def)
    then show ?thesis
      using that by (cases "pkt_load p") (auto simp: Receive_def Let_def split: if_splits dest: calm_ReceiveCnp)
  qed
qed

lemma receive_other:
  assumes "nic_Receive env corrupt i p h = Some h'" and "\<not> flow_data F p" and "\<not> flow_ack F p"
  shows "keeps_s F h h'" and "keeps_r F h h'"
proof -
  have "keeps_s F h h' \<and> keeps_r F h h'"
    using assms(1)
  proof (rule nic_Receive_split)
    assume "calm h h'"
    then show ?thesis by (simp add: calm_keeps_s calm_keeps_r)
  next
    assume d: "is_Udp_Data (pkt_load p)" and u: "ReceiveUdp p h = Some h'"
    have k: "keeps_s F h h'" by (rule ReceiveUdp_keeps_s [OF u d])
    then have "keeps_r F h h'" using ReceiveUdp_receiver(2,4) [OF u d] assms(2) by (auto simp: keeps_r_def keeps_s_def)
    with k show ?thesis by simp
  next
    fix nack
    assume "is_Qbb_Ack (pkt_load p)" and a: "ReceiveAck env (ip_source (pkt_ip p)) nack (pa_hdr (pkt_load p)) h = Some h'"
    then have "keeps_s F h h'" using assms(3) by (intro ReceiveAck_keeps_s [OF a]) (simp add: flow_ack_def)
    then show ?thesis using ReceiveAck_keeps_r [OF a] by simp
  qed
  then show "keeps_s F h h'" and "keeps_r F h h'" by blast+
qed

subsection \<open>The composition\<close>

text \<open>What a host does besides handling the packets of the flow \<open>F\<close>: run its events, start other flows,
  receive other packets, lose a link, change its routes, wait while only other nodes do something.\<close>

inductive act :: "flow \<Rightarrow> host \<Rightarrow> host \<Rightarrow> bool" for F where
  Event: "host_ProcessOneEvent h = Some h' \<Longrightarrow> act F h h'"
| Start: "AddQueuePair jh js sz pg sip dip sport dport win rtt h = Some h'
    \<Longrightarrow> (dip, sport, pg) \<noteq> (fl_dip F, fl_sport F, fl_pg F) \<Longrightarrow> act F h h'"
| Other: "nic_Receive env corrupt i p h = Some h' \<Longrightarrow> \<not> flow_data F p \<Longrightarrow> \<not> flow_ack F p \<Longrightarrow> act F h h'"
| Down: "nic_TakeDown i h = Some h' \<Longrightarrow> act F h h'"
| Redistribute: "RedistributeQp order h = Some h' \<Longrightarrow> act F h h'"
| Route: "act F h (AddTableEntry dip i h)"
| Clear: "act F h (ClearTable h)"
| Wait: "wait_until t (h_sim h) = Some e \<Longrightarrow> act F h (h\<lparr>h_sim := e\<rparr>)"

lemma act_keeps: "act F h h' \<Longrightarrow> keeps_s F h h' \<and> keeps_r F h h'"
proof (induction rule: act.induct)
  case (Route h dip i)
  have "calm h (AddTableEntry dip i h)" by (simp add: calm_def AddTableEntry_def out_def acks_only_def)
  then show ?case by (simp add: calm_keeps_s calm_keeps_r)
next
  case (Clear h)
  have "calm h (ClearTable h)" by (simp add: calm_def ClearTable_def out_def acks_only_def)
  then show ?case by (simp add: calm_keeps_s calm_keeps_r)
next
  case (Wait t h e)
  have "calm h (h\<lparr>h_sim := e\<rparr>)" by (simp add: calm_def out_def acks_only_def)
  then show ?case by (simp add: calm_keeps_s calm_keeps_r)
next
  case (Event h h')
  then show ?case by (simp add: calm_host_ProcessOneEvent calm_keeps_s calm_keeps_r)
next
  case (Start jh js sz pg sip dip sport dport win rtt h h')
  then show ?case using AddQueuePair_keeps by metis
next
  case (Other env corrupt i p h h')
  then show ?case using receive_other by metis
next
  case (Down i h h')
  then show ?case using calm_nic_TakeDown calm_keeps_s calm_keeps_r by metis
next
  case (Redistribute order h h')
  then show ?case using calm_RedistributeQp calm_keeps_s calm_keeps_r by metis
qed

text \<open>What a host has sent stays sent.\<close>

lemma ReceiveUdp_grows:
  assumes "ReceiveUdp p h = Some h'" and "is_Udp_Data (pkt_load p)"
  shows "set (h_wire h) \<subseteq> set (h_wire h')"
  using assms
proof (rule ReceiveUdp_split)
  fix r h1 q q'
  assume g: "GetRxQp (ip_destination (pkt_ip p)) (ip_source (pkt_ip p)) (pd_dport (pkt_load p))
      (pd_sport (pkt_load p)) (pd_pg (pkt_load p)) True h = (Some r, h1)"
    and h': "h' = set_rx r q' h1 \<or> (\<exists>i a h2. reply_of p (ReceiverNextExpectedSeq q) a \<and> with_ack i a (set_rx r q' h1) h2 \<and> calm h2 h')"
  from h' show ?thesis
  proof (elim disjE exE conjE)
    fix i a h2 assume "with_ack i a (set_rx r q' h1) h2" and "calm h2 h'"
    then show ?thesis using GetRxQp_frame(8) [OF g] by (auto simp: with_ack_fields(10) calm_def)
  qed (simp add: GetRxQp_frame(8) [OF g])
qed

lemma nic_Receive_grows:
  assumes "nic_Receive env corrupt i p h = Some h'"
  shows "set (h_wire h) \<subseteq> set (h_wire h')"
  using assms
proof (rule nic_Receive_split)
  fix nack assume "ReceiveAck env (ip_source (pkt_ip p)) nack (pa_hdr (pkt_load p)) h = Some h'"
  then show ?thesis by (rule ReceiveAck_split) (auto simp: acknowledge_fields(7) calm_def)
qed (auto simp: calm_def dest: ReceiveUdp_grows)

lemma act_grows: "act F h h' \<Longrightarrow> set (h_wire h) \<subseteq> set (h_wire h')"
proof (induction rule: act.induct)
  case (Start jh js sz pg sip dip sport dport win rtt h h')
  show ?case by (rule AddQueuePair_split [OF Start(1)]) (auto simp: calm_def)
next
  case (Event h h')
  then show ?case using calm_host_ProcessOneEvent by (auto simp: calm_def)
next
  case (Down i h h')
  then show ?case using calm_nic_TakeDown by (auto simp: calm_def)
next
  case (Redistribute order h h')
  then show ?case using calm_RedistributeQp by (auto simp: calm_def)
qed (auto simp: AddTableEntry_def ClearTable_def dest: nic_Receive_grows)

text \<open>The network may lose, repeat and reorder packets, mark them and write telemetry into them.\<close>

definition carried :: "packet \<Rightarrow> packet \<Rightarrow> bool" where
  "carried p p' \<longleftrightarrow> pkt_size p' = pkt_size p \<and> ip_source (pkt_ip p') = ip_source (pkt_ip p)
     \<and> ip_destination (pkt_ip p') = ip_destination (pkt_ip p)
     \<and> (case pkt_load p of Udp_Data sp dp sq pg ih \<Rightarrow> \<exists>ih'. pkt_load p' = Udp_Data sp dp sq pg ih' | l \<Rightarrow> pkt_load p' = l)"

definition sent :: "host \<Rightarrow> packet set" where
  "sent h = (\<lambda>w. fst (snd w)) ` set (h_wire h)"

inductive flow_step :: "flow \<Rightarrow> host \<times> host \<Rightarrow> host \<times> host \<Rightarrow> bool" for F where
  Sender: "act F A A' \<Longrightarrow> flow_step F (A, B) (A', B)"
| Receiver: "act F B B' \<Longrightarrow> flow_step F (A, B) (A, B')"
| Deliver: "p \<in> sent A \<Longrightarrow> ip_destination (pkt_ip p) = fl_dip F \<Longrightarrow> flow_data F p \<Longrightarrow> carried p p'
    \<Longrightarrow> nic_Receive env corrupt i p' B = Some B' \<Longrightarrow> flow_step F (A, B) (A, B')"
| Reply: "p \<in> sent B \<Longrightarrow> ip_destination (pkt_ip p) = fl_sip F \<Longrightarrow> flow_ack F p \<Longrightarrow> carried p p'
    \<Longrightarrow> nic_Receive env corrupt i p' A = Some A' \<Longrightarrow> flow_step F (A, B) (A', B)"

definition flow_inv :: "flow \<Rightarrow> host \<times> host \<Rightarrow> bool" where
  "flow_inv F = (\<lambda>(A, B). sender_inv F A \<and> receiver_inv F B \<and> acked F A \<le> received F B \<and> hw_int (hw A) = hw_int (hw B))"

text \<open>The abstract specification: a reliable stream. The receiver accepts bytes in order up to the size;
  the sender knows at most what was accepted; it completes only when it knows that all was.\<close>

record stream =
  st_received :: nat
  st_acked :: nat
  st_completed :: bool

definition stream_step :: "nat \<Rightarrow> stream \<Rightarrow> stream \<Rightarrow> bool" where
  "stream_step n s s' \<longleftrightarrow> st_received s \<le> st_received s' \<and> st_received s' \<le> n
     \<and> st_acked s \<le> st_acked s' \<and> st_acked s' \<le> st_received s'
     \<and> (st_completed s \<longrightarrow> st_completed s') \<and> (st_completed s' \<longrightarrow> st_completed s \<or> st_acked s' = n)"

definition flow_abs :: "flow \<Rightarrow> host \<times> host \<Rightarrow> stream" where
  "flow_abs F = (\<lambda>(A, B). \<lparr>st_received = received F B, st_acked = acked F A,
     st_completed = (fl_qp F \<in> set (h_completed A))\<rparr>)"

subsection \<open>The flow refines the stream\<close>

lemma carried_data:
  assumes "carried p p'" and "flow_data F p"
  shows "flow_data F p'" and "is_Udp_Data (pkt_load p')" and "pd_seq (pkt_load p') = pd_seq (pkt_load p)"
    and "payload_of c p' = payload_of c p" and "ip_destination (pkt_ip p') = ip_destination (pkt_ip p)"
  using assms by (cases "pkt_load p"; auto simp: carried_def flow_data_def payload_of_def)+

lemma carried_ack:
  assumes "carried p p'" and "flow_ack F p"
  shows "flow_ack F p'" and "pkt_load p' = pkt_load p"
  using assms by (cases "pkt_load p"; auto simp: carried_def flow_ack_def)+

lemma sent_out: "p \<in> sent h \<Longrightarrow> p \<in> out h"
  by (auto simp: sent_def out_def)

lemma deliver_step:
  assumes inv: "flow_inv F (A, B)" and p: "p \<in> sent A" "ip_destination (pkt_ip p) = fl_dip F" "flow_data F p" "carried p p'"
    and r: "nic_Receive env corrupt i p' B = Some B'"
  shows "receiver_inv F B' \<and> received F B \<le> received F B' \<and> hw B' = hw B"
proof -
  have R: "receiver_inv F B" and h: "hw_int (hw A) = hw_int (hw B)" using inv by (simp_all add: flow_inv_def)
  note c = carried_data [OF p(4,3)]
  have own: "ip_destination (pkt_ip p') = fl_dip F
      \<and> unat (pd_seq (pkt_load p')) + unat (payload_of (hw_int (hw B)) p') \<le> unat (fl_size F)"
    using inv sent_out [OF p(1)] p(2,3) c h by (auto simp: flow_inv_def sender_inv_def)
  from r show ?thesis
  proof (rule nic_Receive_split)
    assume "calm B B'"
    then show ?thesis using calm_keeps_r [of B B' F] R by (simp add: keeps_r_def)
  next
    assume "is_Udp_Data (pkt_load p')" and u: "ReceiveUdp p' B = Some B'"
    then show ?thesis using ReceiveUdp_receiver(1-3) [OF u _ R] own by blast
  next
    fix nack assume "is_Qbb_Ack (pkt_load p')"
    then show ?thesis using c(2) by (cases "pkt_load p'") simp_all
  qed
qed

lemma reply_step:
  assumes inv: "flow_inv F (A, B)" and p: "p \<in> sent B" "ip_destination (pkt_ip p) = fl_sip F" "flow_ack F p" "carried p p'"
    and r: "nic_Receive env corrupt i p' A = Some A'"
  shows "sender_inv F A' \<and> hw A' = hw A \<and> acked F A \<le> acked F A' \<and> acked F A' \<le> received F B
    \<and> (fl_qp F \<in> set (h_completed A) \<longrightarrow> fl_qp F \<in> set (h_completed A'))
    \<and> (fl_qp F \<in> set (h_completed A') \<longrightarrow> fl_qp F \<in> set (h_completed A) \<or> acked F A' = unat (fl_size F))"
proof -
  have S: "sender_inv F A" and R: "receiver_inv F B" and le: "acked F A \<le> received F B" using inv by (simp_all add: flow_inv_def)
  have calm_case: ?thesis if "calm A A'"
    using calm_keeps_s [OF that, of F] S le by (simp add: keeps_s_def)
  note c = carried_ack [OF p(4,3)]
  let ?a = "pa_hdr (pkt_load p')"
  have sq: "unat (qbb_seq ?a) \<le> received F B" using R sent_out [OF p(1)] p(2,3) c(2) by (auto simp: receiver_inv_def)
  then have size: "unat (qbb_seq ?a) \<le> unat (fl_size F)" using R by (simp add: receiver_inv_def)
  from r show ?thesis
  proof (rule nic_Receive_split)
    assume "is_Udp_Data (pkt_load p')"
    then show ?thesis using c(1) by (cases "pkt_load p'") (simp_all add: flow_ack_def)
  next
    fix nack
    assume "ReceiveAck env (ip_source (pkt_ip p')) nack ?a A = Some A'"
    then show ?thesis
    proof (rule ReceiveAck_split)
      fix q h1
      assume q: "GetQp (ip_source (pkt_ip p')) (qbb_dport ?a) (qbb_pg ?a) A = Some q"
        and a: "acknowledge_qp q (qbb_seq ?a) A = Some h1" and k: "calm h1 A'"
      have "q = fl_qp F" using q S c(1) by (auto simp: sender_inv_def GetQp_def flow_ack_def)
      note own = acknowledge_own [OF a [unfolded this] S size]
      have mono: "fl_qp F \<in> set (h_completed A) \<Longrightarrow> fl_qp F \<in> set (h_completed h1)"
        using a by (auto simp: acknowledge_qp_def Let_def guard_bind_eq_Some split: if_splits)
      have k: "sender_inv F A' \<and> hw A' = hw A \<and> acked F A' = acked F h1
          \<and> (fl_qp F \<in> set (h_completed A') \<longleftrightarrow> fl_qp F \<in> set (h_completed h1))"
        using calm_keeps_s [OF k, of F] own(1,2) by (simp add: keeps_s_def)
      then show ?thesis using own(3,4) mono le sq by auto
    qed (use calm_case in simp)
  qed (rule calm_case)
qed

lemma flow_step_refines:
  assumes "flow_step F s s'" and "flow_inv F s"
  shows "flow_inv F s' \<and> stream_step (unat (fl_size F)) (flow_abs F s) (flow_abs F s')"
  using assms
proof (induction rule: flow_step.induct)
  case (Sender A A' B)
  then have "keeps_s F A A'" using act_keeps by blast
  then show ?case using Sender(2) by (auto simp: flow_inv_def keeps_s_def stream_step_def flow_abs_def receiver_inv_def)
next
  case (Receiver B B' A)
  then have "keeps_r F B B'" using act_keeps by blast
  then show ?case using Receiver(2) by (auto simp: flow_inv_def keeps_r_def stream_step_def flow_abs_def receiver_inv_def)
next
  case (Deliver p A p' env corrupt i B B')
  note d = deliver_step [OF Deliver(6) Deliver(1-5)]
  show ?case using d Deliver(6) by (auto simp: flow_inv_def stream_step_def flow_abs_def receiver_inv_def)
next
  case (Reply p B p' env corrupt i A A')
  note d = reply_step [OF Reply(6) Reply(1-5)]
  show ?case using d Reply(6) by (auto simp: flow_inv_def stream_step_def flow_abs_def receiver_inv_def)
qed

text \<open>C3: two hosts that run the code, over a network that may lose, repeat, reorder and re-mark packets, among
  any other traffic, timers and link failures, refine a reliable stream: each step of the system is a
  step of the stream or leaves it as it is, if the flow is smaller than 4 GiB and its key is unique.\<close>

theorem flow_refines_stream:
  assumes "flow_step F s s'" and "flow_inv F s"
  shows "flow_inv F s' \<and> stream_step (unat (fl_size F)) (flow_abs F s) (flow_abs F s')"
  by (rule flow_step_refines [OF assms])

text \<open>In the stream, and so in the system, completion implies delivery.\<close>

definition stream_ok :: "nat \<Rightarrow> stream \<Rightarrow> bool" where
  "stream_ok n s \<longleftrightarrow> st_acked s \<le> st_received s \<and> st_received s \<le> n \<and> (st_completed s \<longrightarrow> st_acked s = n)"

lemma stream_step_ok: "stream_step n s s' \<Longrightarrow> stream_ok n s \<Longrightarrow> stream_ok n s'"
  by (auto simp: stream_step_def stream_ok_def)

lemma flow_run_ok:
  assumes "(flow_step F)\<^sup>*\<^sup>* s s'" and "flow_inv F s" and "stream_ok (unat (fl_size F)) (flow_abs F s)"
  shows "flow_inv F s' \<and> stream_ok (unat (fl_size F)) (flow_abs F s')"
  using assms
proof (induction rule: rtranclp_induct)
  case (step s' s'')
  then show ?case using flow_step_refines stream_step_ok by blast
qed simp

text \<open>When the sender reports the completion of a flow, the receiver has accepted every byte of it in
  order, after any run of the two hosts over a lossy, reordering network.\<close>

lemma completed_means_delivered:
  assumes "(flow_step F)\<^sup>*\<^sup>* (A, B) (A', B')" and "flow_inv F (A, B)" and "fl_qp F \<notin> set (h_completed A)"
    and "fl_qp F \<in> set (h_completed A')"
  shows "received F B' = unat (fl_size F)"
proof -
  have "stream_ok (unat (fl_size F)) (flow_abs F (A, B))"
    using assms(2,3) by (simp add: stream_ok_def flow_abs_def flow_inv_def receiver_inv_def)
  then have "stream_ok (unat (fl_size F)) (flow_abs F (A', B'))" using flow_run_ok [OF assms(1,2)] by simp
  then show ?thesis using assms(4) by (simp add: stream_ok_def flow_abs_def)
qed

subsection \<open>Witnesses\<close>

definition demo_flow :: flow where
  "demo_flow = \<lparr>fl_sip = 0x0b000001, fl_dip = 0x0b000101, fl_sport = 10000, fl_pg = 3, fl_size = 1000, fl_qp = 0\<rparr>"

definition demo_data :: packet where
  "demo_data = \<lparr>pkt_ip = Ipv4Header_init\<lparr>ip_source := 0x0b000001, ip_destination := 0x0b000101, ip_protocol := 0x11\<rparr>,
     pkt_load = Udp_Data 10000 100 0 3 IntHeader_init, pkt_size = 1000 + (14 + 20 + GetUdpHeaderSize int_demo), pkt_tag = None\<rparr>"

definition demo_reply :: packet where
  "demo_reply = \<lparr>pkt_ip = Ipv4Header_init\<lparr>ip_source := 0x0b000101, ip_destination := 0x0b000001, ip_protocol := 0xFC\<rparr>,
     pkt_load = Qbb_Ack ((qbbHeader_init 3)\<lparr>qbb_seq := 1000, qbb_dport := 10000\<rparr>), pkt_size = 100, pkt_tag = None\<rparr>"

text \<open>The sender has sent its only packet and its card is busy; the receiver with and without that packet.\<close>

definition demo_sender :: host where
  "demo_sender = (demo_host [0])\<lparr>hw := demo_hw\<lparr>m_cc_mode := 0\<rparr>, h_nqp := 1,
     h_qp := (\<lambda>i. if i = 0 then demo_qp\<lparr>m_size := 1000, snd_nxt := 1000\<rparr> else demo_qp\<lparr>m_pg := 4\<rparr>),
     m_qpMap := [GetQpKey 0x0b000101 10000 3 \<mapsto> 0], m_nic := [1 \<mapsto> (demo_nic [0])\<lparr>nd_busy := True\<rparr>],
     h_wire := [(1, demo_data, 0, 84)]\<rparr>"

definition demo_receiver :: host where
  "demo_receiver = (demo_host [])\<lparr>hw := demo_hw\<lparr>m_cc_mode := 0, m_ack_interval := 1000000\<rparr>\<rparr>"

definition demo_receiver2 :: host where
  "demo_receiver2 = demo_receiver\<lparr>m_rxQpMap := [RxKey 0x0b000001 3 10000 \<mapsto> 0], h_nrxqp := 1,
     h_rxqp := (\<lambda>_. RdmaRxQueuePair_init\<lparr>ReceiverNextExpectedSeq := 1000\<rparr>), h_wire := [(1, demo_reply, 0, 8)]\<rparr>"

lemmas demo_ends = demo_flow_def demo_sender_def demo_receiver_def demo_receiver2_def demo_host_defs demo_hw_def

lemma demo_flow_inv: "flow_inv demo_flow (demo_sender, demo_receiver)" "flow_inv demo_flow (demo_sender, demo_receiver2)"
proof -
  have o: "out demo_sender = {demo_data}" "out demo_receiver = {}" "out demo_receiver2 = {demo_reply}"
    "acks_only demo_sender" "acks_only demo_receiver" "acks_only demo_receiver2"
    by (auto simp: out_def acks_only_def demo_ends OldQueue_init_def split: if_splits)
  have "unat (payload_of int_demo demo_data) = 1000" by (simp add: payload_of_def demo_data_def)
  then have "sender_inv demo_flow demo_sender"
    unfolding sender_inv_def o Let_def using o(4)
    by (auto simp: demo_ends matches_def qp_fine_def demo_data_def)
  moreover have r: "received demo_flow demo_receiver = 0" "received demo_flow demo_receiver2 = 1000" "acked demo_flow demo_sender = 0"
    by (simp_all add: received_def acked_def demo_ends RdmaRxQueuePair_init_def)
  moreover have "receiver_inv demo_flow demo_receiver"
    unfolding receiver_inv_def o r using o(5) by (simp add: demo_ends)
  moreover have "receiver_inv demo_flow demo_receiver2"
    unfolding receiver_inv_def o r using o(6) by (auto simp: demo_ends demo_reply_def split: if_splits)
  moreover have "hw_int (hw demo_sender) = hw_int (hw demo_receiver)" "hw_int (hw demo_sender) = hw_int (hw demo_receiver2)"
    by (simp_all add: demo_ends)
  ultimately show "flow_inv demo_flow (demo_sender, demo_receiver)" "flow_inv demo_flow (demo_sender, demo_receiver2)"
    by (simp_all add: flow_inv_def)
qed

lemma flow_refines_stream_witness:
  "\<forall>env. \<exists>B'. nic_Receive env False 1 demo_data demo_receiver = Some B' \<and> received demo_flow B' \<le> 1000" (is "\<forall>env. ?P env")
proof (intro allI)
  fix env
  have "nic_Receive env False 1 demo_data demo_receiver \<noteq> None"
    by (simp add: nic_Receive_def Receive_def pkt_proto_def demo_data_def demo_ends ReceiveUdp_def GetRxQp_def Let_def
        rx_account_def ReceiverCheckSeq_def RdmaRxQueuePair_init_def)
  then obtain B' where B': "nic_Receive env False 1 demo_data demo_receiver = Some B'" by blast
  have "flow_step demo_flow (demo_sender, demo_receiver) (demo_sender, B')"
    by (rule flow_step.Deliver [OF _ _ _ _ B', of demo_data])
      (simp_all add: sent_def carried_def flow_data_def demo_data_def demo_ends)
  then show "?P env"
    using flow_refines_stream [OF _ demo_flow_inv(1)] B' by (auto simp: stream_step_def flow_abs_def demo_flow_def)
qed

lemma demo_reply_completes:
  "\<exists>A'. nic_Receive env False 1 demo_reply demo_sender = Some A' \<and> 0 \<in> set (h_completed A')"
proof -
  have "nic_Receive env False 1 demo_reply demo_sender \<noteq> None
      \<and> (\<forall>A'. nic_Receive env False 1 demo_reply demo_sender = Some A' \<longrightarrow> 0 \<in> set (h_completed A'))"
    by (simp add: nic_Receive_def Receive_def pkt_proto_def demo_reply_def demo_ends ReceiveAck_def GetQp_def Let_def
        qbbHeader_init_def GetNicIdxOfQp_def acknowledge_qp_def Acknowledge_def IsFinished_def QpComplete_def DeleteQueuePair_def
        GetCnp_def cc_ack_def TriggerTransmit_def DequeueAndTransmit_def set_qp_def)
  then show ?thesis by blast
qed

lemma completed_means_delivered_witness:
  "\<forall>env. \<exists>A'. nic_Receive env False 1 demo_reply demo_sender = Some A' \<and> 0 \<in> set (h_completed A')
     \<and> received demo_flow demo_receiver2 = 1000" (is "\<forall>env. ?P env")
proof (intro allI)
  fix env
  obtain A' where A': "nic_Receive env False 1 demo_reply demo_sender = Some A'" "0 \<in> set (h_completed A')"
    using demo_reply_completes by blast
  have "flow_step demo_flow (demo_sender, demo_receiver2) (A', demo_receiver2)"
    by (rule flow_step.Reply [OF _ _ _ _ A'(1), of demo_reply])
      (simp_all add: sent_def carried_def flow_ack_def demo_reply_def demo_ends qbbHeader_init_def)
  then have "(flow_step demo_flow)\<^sup>*\<^sup>* (demo_sender, demo_receiver2) (A', demo_receiver2)" by simp
  from completed_means_delivered [OF this demo_flow_inv(2)] show "?P env"
    using A' by (auto simp: demo_flow_def demo_sender_def demo_host_def)
qed

end
