(* ===== verification/Switch_Telemetry.thy ===== *)
theory Switch_Telemetry
  imports Cc_Others
begin

text \<open>
  The telemetry a switch writes into a data packet that leaves a port (\<^verbatim>\<open>SwitchNode::SwitchNotifyDequeue\<close>
  of src/point-to-point/model/switch-node.cc, from the test for UDP on, and \<^verbatim>\<open>Pint::encode_u\<close> of pint.cc):
  a hop record (HPCC, PowerTCP), a sampled utilization (HPCC-PINT), or the fair rate of the port, which an
  RCP recursion in doubles or in Q16 fixed point keeps (HPCC-FS). The seven arrays of the switch that are
  indexed by port are one array of records here. The functions of libm and the values of \<^verbatim>\<open>rand\<close> are
  arguments.
\<close>

record libm =
  lm_log :: "double \<Rightarrow> double"
  lm_log2 :: "double \<Rightarrow> double"
  lm_pow :: pow_fun

record SwitchNode_conf =
  sw_ecnEnabled :: bool
  sw_ccMode :: u32
  sw_maxRtt :: u64
  sw_ackHighPrio :: bool
  sw_fsAlpha :: double
  sw_fsBeta :: double
  sw_fsInitFrac :: double
  sw_fsDScale :: double
  sw_fsFixedPoint :: bool
  sw_mixFsDport :: u16
  sw_int :: int_conf
  sw_logBase :: double

record port_stats =
  ps_txBytes :: u64
  ps_lastPktSize :: u32
  ps_lastPktTs :: u64
  ps_u :: double
  ps_fairR :: double
  ps_rcpLastTs :: u64
  ps_rcpLastBytes :: u64

definition port_stats_init :: port_stats where
  "port_stats_init = \<lparr>ps_txBytes = 0, ps_lastPktSize = 0, ps_lastPktTs = 0, ps_u = Fin 0, ps_fairR = Fin 0,
     ps_rcpLastTs = 0, ps_rcpLastBytes = 0\<rparr>"

subsection \<open>Rounding to integers\<close>

text \<open>\<^verbatim>\<open>ceil\<close>, \<^verbatim>\<open>floor\<close> and \<^verbatim>\<open>round\<close>, which rounds halves away from zero.\<close>

fun dround_by :: "(rat \<Rightarrow> int) \<Rightarrow> double \<Rightarrow> double" where
  "dround_by f (Fin x) = Fin (of_int (f x))"
| "dround_by f d = d"

definition dceil :: "double \<Rightarrow> double" where "dceil = dround_by ceiling"
definition dfloor :: "double \<Rightarrow> double" where "dfloor = dround_by floor"
definition dround :: "double \<Rightarrow> double" where
  "dround = dround_by (\<lambda>x. if 0 \<le> x then \<lfloor>x + 1 / 2\<rfloor> else \<lceil>x - 1 / 2\<rceil>)"

text \<open>The conversion of a 64-bit counter to \<^verbatim>\<open>int\<close>, and a sum of \<^verbatim>\<open>int\<close>s, which may not overflow.\<close>

definition i32_of_u64 :: "u64 \<Rightarrow> int" where
  "i32_of_u64 w = sint (ucast w :: u32)"

definition add_int32 :: "int \<Rightarrow> int \<Rightarrow> int option" where
  "add_int32 a b = (if - (2 ^ 31) \<le> a + b \<and> a + b < 2 ^ 31 then Some (a + b) else None)"

definition mul_int64 :: "int \<Rightarrow> int \<Rightarrow> int option" where
  "mul_int64 a b = (if - (2 ^ 63) \<le> a * b \<and> a * b < 2 ^ 63 then Some (a * b) else None)"

subsection \<open>PINT: logarithms in fixed point\<close>

definition logres_data :: "int list" where
  "logres_data = [0,0,1,2,2,3,3,3,3,4,4,4,4,4,4,4,4,5,5,5,5,5,5,5,5,5,5,5,5,5,5,5,5]"

definition logres_shift :: "int \<Rightarrow> int \<Rightarrow> int option" where
  "logres_shift b l = do { guard (0 \<le> b \<and> b < 33); Some (l - logres_data ! nat b) }"

text \<open>The most significant \<open>m\<close> bits of \<open>x\<close>, rounded up at random (\<open>r\<close>), and their logarithm.\<close>

definition keep_bits :: "int \<Rightarrow> int \<Rightarrow> int \<Rightarrow> int \<Rightarrow> int option" where
  "keep_bits r x msb m =
     (if msb > m then do {
        guard (0 \<le> x \<and> msb - m < 31);
        let mask = 2 ^ nat (msb - m) - 1;
        let y = push_bit (nat (msb - m)) (drop_bit (nat (msb - m)) x);
        if (x AND mask) > (r AND mask) then add_int32 y (2 ^ nat (msb - m)) else Some y }
      else Some x)"

definition log2apprx :: "libm \<Rightarrow> int \<Rightarrow> int \<Rightarrow> int \<Rightarrow> int \<Rightarrow> int \<Rightarrow> int option" where
  "log2apprx lm r x b m l = do {
     e \<leftarrow> to_i32 (lm_log2 lm (of_int_d x));
     msb \<leftarrow> add_int32 e 1;
     y \<leftarrow> keep_bits r x msb m;
     sft \<leftarrow> logres_shift b l;
     guard (0 \<le> sft \<and> sft < 31);
     to_i32 (dmul (lm_log2 lm (of_int_d y)) (of_int_d (2 ^ nat sft))) }"

definition encode_u :: "libm \<Rightarrow> double \<Rightarrow> int \<Rightarrow> double \<Rightarrow> u16 option" where
  "encode_u lm log_base r u = do {
     u_toInt \<leftarrow> to_u32 (dceil (dmul u (of_u32_d max_concurrent)));
     let u_toInt = (if u_toInt = 0 then 1 else u_toInt);
     let pw = dmul (lm_log lm (of_u32_d u_toInt)) (ddiv (Fin 1) (lm_log lm log_base));
     p_upper \<leftarrow> to_u16 (dceil pw);
     p_lower \<leftarrow> to_u16 (dfloor pw);
     let upper = lm_pow lm log_base (Fin (u2r p_upper));
     let lower = lm_pow lm log_base (Fin (u2r p_lower));
     let upper = (if p_upper = p_lower then dmul upper log_base else upper);
     Some (if dless (of_int_d (r mod 65536))
             (dmul (ddiv (dsub (of_u32_d u_toInt) lower) (dsub upper lower)) (Fin 65536))
           then p_upper else p_lower) }"

text \<open>The three terms of the utilization; a term that does not apply is zero. \<open>rn\<close> are the draws.\<close>

definition pint_qterm :: "libm \<Rightarrow> int \<Rightarrow> int \<Rightarrow> double \<Rightarrow> double \<Rightarrow> double \<Rightarrow> double \<Rightarrow> u64 \<Rightarrow> u64 \<Rightarrow> double option" where
  "pint_qterm lm r1 r2 fct log_T log_B log_1e9 dt qlen =
     (if drop_bit 8 qlen > 0 then do {
        log_dt \<leftarrow> log2apprx lm r1 (i32_of_u64 dt) 20 16 20;
        log_qlen \<leftarrow> log2apprx lm r2 (i32_of_u64 (drop_bit 8 qlen)) 20 16 20;
        s \<leftarrow> add_int32 log_dt log_qlen;
        Some (dmul (lm_pow lm (Fin 2)
            (ddiv (dsub (dsub (dadd (of_int_d s) log_1e9) log_B) (dmul (Fin 2) log_T)) fct)) (Fin 256)) }
      else Some (Fin 0))"

definition pint_byteTerm :: "libm \<Rightarrow> int \<Rightarrow> double \<Rightarrow> double \<Rightarrow> double \<Rightarrow> double \<Rightarrow> u32 \<Rightarrow> double option" where
  "pint_byteTerm lm r fct log_T log_B log_1e9 sz =
     (if sz > 0 then do {
        log_byte \<leftarrow> log2apprx lm r (sint sz) 20 16 20;
        Some (lm_pow lm (Fin 2) (ddiv (dsub (dsub (dadd (of_int_d log_byte) log_1e9) log_B) log_T) fct)) }
      else Some (Fin 0))"

definition pint_uTerm :: "libm \<Rightarrow> int \<Rightarrow> int \<Rightarrow> double \<Rightarrow> double \<Rightarrow> u64 \<Rightarrow> u64 \<Rightarrow> double \<Rightarrow> double option" where
  "pint_uTerm lm r1 r2 fct log_T maxRtt dt u =
     (if maxRtt > dt \<and> dless (Fin 0) u then do {
        log_T_dt \<leftarrow> log2apprx lm r1 (i32_of_u64 (maxRtt - dt)) 20 16 20;
        x \<leftarrow> to_i32 (dround (dmul u (Fin 8192)));
        log_u \<leftarrow> log2apprx lm r2 x 20 16 20;
        s \<leftarrow> add_int32 log_T_dt log_u;
        Some (ddiv (lm_pow lm (Fin 2) (ddiv (dsub (of_int_d s) log_T) fct)) (Fin 8192)) }
      else Some (Fin 0))"

definition pint_newU :: "libm \<Rightarrow> (nat \<Rightarrow> int) \<Rightarrow> SwitchNode_conf \<Rightarrow> u64 \<Rightarrow> u32 \<Rightarrow> rate \<Rightarrow> port_stats \<Rightarrow> double option" where
  "pint_newU lm rn c now qbytes bps st = do {
     let dt = now - ps_lastPktTs st;
     let dt = (if dt > sw_maxRtt c then sw_maxRtt c else dt);
     sft \<leftarrow> logres_shift 20 20;
     let fct = of_int_d (2 ^ nat sft);
     let log_T = dmul (lm_log2 lm (of_u64_d (sw_maxRtt c))) fct;
     let log_B = dmul (lm_log2 lm (of_u64_d (bps div 8))) fct;
     let log_1e9 = dmul (lm_log2 lm (Fin 1000000000)) fct;
     qterm \<leftarrow> pint_qterm lm (rn 0) (rn 1) fct log_T log_B log_1e9 dt (ucast qbytes);
     byteTerm \<leftarrow> pint_byteTerm lm (rn 2) fct log_T log_B log_1e9 (ps_lastPktSize st);
     uTerm \<leftarrow> pint_uTerm lm (rn 3) (rn 4) fct log_T (sw_maxRtt c) dt (ps_u st);
     Some (dadd (dadd qterm byteTerm) uTerm) }"

definition pint_stamp :: "libm \<Rightarrow> (nat \<Rightarrow> int) \<Rightarrow> SwitchNode_conf \<Rightarrow> u64 \<Rightarrow> u32 \<Rightarrow> rate \<Rightarrow> port_stats \<Rightarrow> IntHeader
    \<Rightarrow> (IntHeader \<times> port_stats) option" where
  "pint_stamp lm rn c now qbytes bps st ih = do {
     newU \<leftarrow> pint_newU lm rn c now qbytes bps st;
     pw \<leftarrow> encode_u lm (sw_logBase c) (rn 5) newU;
     Some (if pw > GetPower (sw_int c) ih then SetPower (sw_int c) pw ih else ih, st\<lparr>ps_u := newU\<rparr>) }"

subsection \<open>The fair rate of a port\<close>

text \<open>One step of the RCP recursion in doubles: \<open>y\<close> is the load over the exact interval \<open>rdt\<close>, \<open>q\<close> the
  queue of the port; the result is clamped to 1 Mb/s from below and to the link from above.\<close>

definition rcp_clamp :: "double \<Rightarrow> double \<Rightarrow> double" where
  "rcp_clamp C Rn = (let Rn = (if dless Rn (Fin 1000000) then Fin 1000000 else Rn) in if dless C Rn then C else Rn)"

definition rcp_double :: "SwitchNode_conf \<Rightarrow> rate \<Rightarrow> u64 \<Rightarrow> u64 \<Rightarrow> u32 \<Rightarrow> port_stats \<Rightarrow> double" where
  "rcp_double c Cbps dEff rdt qbytes st =
     (let d_s = dmul (of_u64_d dEff) (lit (1 / 10 ^ 9));
          dt_s = dmul (of_u64_d rdt) (lit (1 / 10 ^ 9));
          y = ddiv (dmul (of_u64_d (ps_txBytes st - ps_rcpLastBytes st)) (Fin 8)) dt_s;
          q = of_u32_d qbytes;
          C = of_u64_d Cbps;
          ratio = ddiv (dsub (dmul (sw_fsAlpha c) (dsub C y)) (ddiv (dmul (sw_fsBeta c) (dmul q (Fin 8))) d_s)) C;
          Rn = dmul (ps_fairR st) (dadd (Fin 1) ratio)
      in rcp_clamp C Rn)"

text \<open>The bucket of the elapsed time: the greatest \<open>k\<close> up to 20 with \<^verbatim>\<open>dEff << k\<close> at most \<open>rdt\<close>.\<close>

fun bucket :: "nat \<Rightarrow> u64 \<Rightarrow> u64 \<Rightarrow> nat \<Rightarrow> nat" where
  "bucket 0 dEff rdt k = k"
| "bucket (Suc n) dEff rdt k = (if push_bit (k + 1) dEff \<le> rdt then bucket n dEff rdt (k + 1) else k)"

definition bucket_mantissa :: "u64 \<Rightarrow> u64 \<Rightarrow> nat \<Rightarrow> u32 option" where
  "bucket_mantissa dEff rdt k = do {
     guard (push_bit k dEff \<noteq> 0);
     let m4 = (ucast (push_bit 2 rdt div push_bit k dEff) :: u32);
     let m4 = (if m4 < 4 then 4 else m4);
     Some (if m4 > 7 then 7 else m4) }"

text \<open>The load in Mb/s, without a division by the elapsed time.\<close>

definition fixed_load :: "u64 \<Rightarrow> u64 \<Rightarrow> u64 \<Rightarrow> u32 option" where
  "fixed_load dEff rdt yBits = do {
     let k = bucket 20 dEff rdt 0;
     m4 \<leftarrow> bucket_mantissa dEff rdt k;
     let invD4_q32 = push_bit 32 (4000 :: u64) div dEff;
     Some (ucast (drop_bit (32 + k) (yBits * invD4_q32) div ucast m4)) }"

text \<open>The factor in Q16, clamped to zero from below.\<close>

definition fixed_factor :: "SwitchNode_conf \<Rightarrow> rate \<Rightarrow> u64 \<Rightarrow> u32 \<Rightarrow> u32 \<Rightarrow> u32 \<Rightarrow> int option" where
  "fixed_factor c Cbps dEff Cmbps yMbps qbytes = do {
     a1_q16 \<leftarrow> to_i32 (dmul (sw_fsAlpha c) (Fin 65536));
     guard (Cmbps \<noteq> 0);
     let invC_q32 = push_bit 32 (1 :: u64) div ucast Cmbps;
     b2_q32 \<leftarrow> to_u64 (ddiv (dmul (dmul (dmul (sw_fsBeta c) (Fin 8)) (Fin 4294967296)) (Fin 1000000000))
                        (dmul (of_u64_d dEff) (of_u64_d Cbps)));
     t \<leftarrow> mul_int64 a1_q16 (uint Cmbps - uint yMbps);
     t \<leftarrow> mul_int64 t (uint invC_q32);
     let term1_q16 = t div 2 ^ 32;
     let term2_q16 = uint (drop_bit 16 (ucast qbytes * b2_q32));
     ratio_q16 \<leftarrow> add_int64 term1_q16 (- term2_q16);
     factor_q16 \<leftarrow> add_int64 65536 ratio_q16;
     Some (if factor_q16 < 0 then 0 else factor_q16) }"

definition kbps_clamp :: "u32 \<Rightarrow> u64 \<Rightarrow> u64" where
  "kbps_clamp Cmbps n = (let n = (if n < 1000 then 1000 else n) in
     if n > ucast Cmbps * 1000 then ucast Cmbps * 1000 else n)"

definition rcp_fixed :: "SwitchNode_conf \<Rightarrow> rate \<Rightarrow> u64 \<Rightarrow> u64 \<Rightarrow> u32 \<Rightarrow> port_stats \<Rightarrow> double option" where
  "rcp_fixed c Cbps dEff rdt qbytes st = do {
     let yBits = (ps_txBytes st - ps_rcpLastBytes st) * 8;
     let Cmbps = (ucast (Cbps div 1000000) :: u32);
     yMbps \<leftarrow> fixed_load dEff rdt yBits;
     factor_q16 \<leftarrow> fixed_factor c Cbps dEff Cmbps yMbps qbytes;
     Rkbps \<leftarrow> to_u32 (ddiv (ps_fairR st) (Fin 1000));
     let Rkbps = (if Rkbps < 1000 then 1000 else Rkbps);
     let Rn_kbps = drop_bit 16 (ucast Rkbps * (word_of_int factor_q16 :: u64));
     Some (dmul (of_u64_d (kbps_clamp Cmbps Rn_kbps)) (Fin 1000)) }"

text \<open>The first packet sets the rate; later ones recompute it once per control interval.\<close>

definition rcp_start :: "SwitchNode_conf \<Rightarrow> u64 \<Rightarrow> rate \<Rightarrow> port_stats \<Rightarrow> port_stats" where
  "rcp_start c now Cbps st = (if dle (ps_fairR st) (Fin 0)
     then st\<lparr>ps_fairR := dmul (of_u64_d Cbps) (sw_fsInitFrac c), ps_rcpLastTs := now,
             ps_rcpLastBytes := ps_txBytes st\<rparr> else st)"

definition rcp_update :: "SwitchNode_conf \<Rightarrow> u64 \<Rightarrow> u32 \<Rightarrow> rate \<Rightarrow> port_stats \<Rightarrow> port_stats option" where
  "rcp_update c now qbytes Cbps st = do {
     let rdt = now - ps_rcpLastTs st;
     dEff \<leftarrow> to_u64 (dmul (of_u64_d (sw_maxRtt c)) (sw_fsDScale c));
     if rdt \<ge> dEff \<and> rdt > 0 then do {
       R \<leftarrow> (if sw_fsFixedPoint c then rcp_fixed c Cbps dEff rdt qbytes st
            else Some (rcp_double c Cbps dEff rdt qbytes st));
       Some (st\<lparr>ps_fairR := R, ps_rcpLastTs := now, ps_rcpLastBytes := ps_txBytes st\<rparr>) }
     else Some st }"

text \<open>A packet leaves with the least of the rates stamped so far; zero means none.\<close>

definition stamp_rate :: "int_conf \<Rightarrow> u64 \<Rightarrow> IntHeader \<Rightarrow> IntHeader" where
  "stamp_rate c r ih = (if GetFairRate c ih = 0 \<or> r < GetFairRate c ih then SetFairRate c r ih else ih)"

definition rcp_stamp :: "SwitchNode_conf \<Rightarrow> u64 \<Rightarrow> u32 \<Rightarrow> rate \<Rightarrow> port_stats \<Rightarrow> IntHeader
    \<Rightarrow> (IntHeader \<times> port_stats) option" where
  "rcp_stamp c now qbytes Cbps st ih = do {
     st \<leftarrow> rcp_update c now qbytes Cbps (rcp_start c now Cbps st);
     Rstamp \<leftarrow> to_u64 (ps_fairR st);
     Some (stamp_rate (sw_int c) Rstamp ih, st) }"

subsection \<open>What a port stamps\<close>

definition stamp_int :: "libm \<Rightarrow> (nat \<Rightarrow> int) \<Rightarrow> SwitchNode_conf \<Rightarrow> u64 \<Rightarrow> u32 \<Rightarrow> rate \<Rightarrow> u16 \<Rightarrow> port_stats
    \<Rightarrow> IntHeader \<Rightarrow> (IntHeader \<times> port_stats) option" where
  "stamp_int lm rn c now qbytes bps dport st ih =
     (if sw_ccMode c = 3 \<or> sw_ccMode c = 13 \<or> sw_ccMode c = 12 \<and> dport < sw_mixFsDport c then do {
        ih \<leftarrow> PushHop (sw_int c) now (ps_txBytes st) qbytes bps ih;
        Some (ih, st) }
      else if sw_ccMode c = 10 then pint_stamp lm rn c now qbytes bps st ih
      else if sw_ccMode c = 11 \<or> sw_ccMode c = 12 then rcp_stamp c now qbytes bps st ih
      else Some (ih, st))"

definition count_tx :: "u64 \<Rightarrow> u32 \<Rightarrow> port_stats \<Rightarrow> port_stats" where
  "count_tx now sz st = st\<lparr>ps_txBytes := ps_txBytes st + ucast sz, ps_lastPktSize := sz, ps_lastPktTs := now\<rparr>"

subsection \<open>The fair rate stays between 1 Mb/s and the link\<close>

definition fair_in :: "rate \<Rightarrow> double \<Rightarrow> bool" where
  "fair_in C d \<longleftrightarrow> (\<exists>x. d = Fin x \<and> 1000000 \<le> x \<and> x \<le> u2r C)"

definition fair_ok :: "rate \<Rightarrow> double \<Rightarrow> bool" where
  "fair_ok C d \<longleftrightarrow> fair_in C d \<or> dle d (Fin 0)"

definition rcp_ok :: "SwitchNode_conf \<Rightarrow> rate \<Rightarrow> bool" where
  "rcp_ok c C \<longleftrightarrow> uint C \<le> 2 ^ 53 \<and> (\<exists>f. sw_fsInitFrac c = Fin f \<and> f \<le> 1 \<and> 1000000 \<le> u2r C * f)"

lemma rcp_ok_rate:
  assumes "rcp_ok c C"
  shows "1000000 \<le> u2r C" and "of_u64_d C = Fin (u2r C)"
  using assms mult_left_le [of _ "u2r C"] by (fastforce simp: rcp_ok_def of_u64_d_exact)+

text \<open>A clamped double is within its limits unless it is no number at all.\<close>

lemma rcp_clamp_cases:
  assumes "1000000 \<le> hi"
  shows "rcp_clamp (Fin hi) d = NaN \<or> (\<exists>x. rcp_clamp (Fin hi) d = Fin x \<and> 1000000 \<le> x \<and> x \<le> hi)"
  using assms by (cases d) (auto simp: rcp_clamp_def Let_def)

lemma rcp_double_bounds:
  assumes "rcp_ok c C"
  shows "rcp_double c C dEff rdt q st = NaN \<or> fair_in C (rcp_double c C dEff rdt q st)"
  using rcp_ok_rate [OF assms] rcp_clamp_cases unfolding rcp_double_def Let_def fair_in_def by metis

lemma kbps_clamp_bounds:
  assumes "m \<noteq> 0"
  shows "1000 \<le> uint (kbps_clamp m n) \<and> uint (kbps_clamp m n) \<le> uint m * 1000"
proof -
  have "uint m \<noteq> 0" using assms by (simp add: uint_0_iff)
  then have m: "1 \<le> uint m" "uint m < 2 ^ 32" using uint_ge_0 [of m] uint_lt2p [of m] by (linarith, simp)
  have "uint (ucast m * 1000 :: u64) = uint m * 1000"
    using m by (simp add: uint_word_ariths unsigned_ucast_eq take_bit_int_eq_self)
  then show ?thesis using m by (auto simp: kbps_clamp_def Let_def word_less_def)
qed

lemma rcp_fixed_form:
  assumes "rcp_fixed c C dEff rdt q st = Some R"
  shows "\<exists>n. ucast (C div 1000000) \<noteq> (0 :: u32) \<and> R = dmul (of_u64_d (kbps_clamp (ucast (C div 1000000)) n)) (Fin 1000)"
proof -
  obtain y f where f: "fixed_factor c C dEff (ucast (C div 1000000)) y q = Some f"
    using assms unfolding rcp_fixed_def Let_def by (elim bind_eq_SomeE) blast
  then have "ucast (C div 1000000) \<noteq> (0 :: u32)"
    unfolding fixed_factor_def by (elim bind_eq_SomeE) (simp only: guard_eq_Some simp_thms)
  moreover have "\<exists>n. R = dmul (of_u64_d (kbps_clamp (ucast (C div 1000000)) n)) (Fin 1000)"
    using assms unfolding rcp_fixed_def Let_def by (elim bind_eq_SomeE) (drule option.inject [THEN iffD1], blast)
  ultimately show ?thesis by blast
qed

lemma rcp_fixed_bounds:
  assumes "rcp_fixed c C dEff rdt q st = Some R"
  shows "fair_in C R"
proof -
  define m where "m = (ucast (C div 1000000) :: u32)"
  obtain n where nz: "m \<noteq> 0" and R: "R = dmul (of_u64_d (kbps_clamp m n)) (Fin 1000)"
    using rcp_fixed_form [OF assms] unfolding m_def by blast
  note b = kbps_clamp_bounds [OF nz, of n]
  have "unat m \<le> unat (C div 1000000)" by (simp add: m_def unsigned_ucast_eq take_bit_eq_mod)
  also have "unat (C div 1000000) = unat C div 1000000" by (simp add: unat_div)
  finally have "int (unat m) \<le> int (unat C div 1000000)" by (simp only: of_nat_le_iff)
  then have m: "uint m * 1000000 \<le> uint C" "uint m < 4294967296"
    using uint_lt2p [of m] by (simp_all add: zdiv_int)
  define k where "k = uint (kbps_clamp m n)"
  have e: "1000 \<le> k" "k \<le> 9007199254740992" "k * 1000 \<le> uint C" "k * 1000 \<le> 9007199254740992"
    using b m unfolding k_def by linarith+
  then have "fl (of_int (k * 1000)) = Fin (of_int (k * 1000))" by (intro fl_of_int) simp
  then have "R = Fin (of_int (k * 1000))" using R e by (simp add: of_u64_d_exact u2r_def k_def)
  moreover have "(1000000 :: rat) \<le> of_int (k * 1000)" "(of_int (k * 1000) :: rat) \<le> u2r C"
    using e of_int_le_iff [of 1000000 "k * 1000", where 'a = rat] unfolding u2r_def of_int_le_iff by simp_all
  ultimately show ?thesis by (auto simp: fair_in_def)
qed

lemma rcp_start_ok:
  assumes "rcp_ok c C" and "fair_ok C (ps_fairR st)"
  shows "fair_in C (ps_fairR (rcp_start c now C st))"
proof -
  obtain f where f: "sw_fsInitFrac c = Fin f" "f \<le> 1" "1000000 \<le> u2r C * f" "uint C \<le> 2 ^ 53"
    using assms(1) by (auto simp: rcp_ok_def)
  have le: "u2r C * f \<le> u2r C" using mult_left_le [of f "u2r C"] f(2) by simp
  have "\<bar>u2r C * f\<bar> \<le> 2 ^ 53" using f(3) le u2r_le [OF f(4)] by simp
  then have "fl (u2r C * f) = Fin (rnd (u2r C * f))" by (rule fl_finite) simp
  moreover have "rnd 1000000 \<le> rnd (u2r C * f)" "rnd (u2r C * f) \<le> rnd (u2r C)"
    using f(3) le by (simp_all add: rnd_mono)
  ultimately have "fair_in C (dmul (of_u64_d C) (sw_fsInitFrac c))"
    using f(1,4) rnd_of_int [of 1000000] rnd_u2r [of C] rcp_ok_rate(2) [OF assms(1)] by (simp add: fair_in_def)
  then show ?thesis using assms(2) by (auto simp: rcp_start_def fair_ok_def)
qed

lemma rcp_update_ok:
  assumes "rcp_ok c C" and "fair_in C (ps_fairR st)" and "rcp_update c now q C st = Some st'"
  shows "ps_fairR st' = NaN \<or> fair_in C (ps_fairR st')"
proof -
  obtain dEff where d: "(if now - ps_rcpLastTs st \<ge> dEff \<and> now - ps_rcpLastTs st > 0 then
      (if sw_fsFixedPoint c then rcp_fixed c C dEff (now - ps_rcpLastTs st) q st
       else Some (rcp_double c C dEff (now - ps_rcpLastTs st) q st)) \<bind>
      (\<lambda>R. Some (st\<lparr>ps_fairR := R, ps_rcpLastTs := now, ps_rcpLastBytes := ps_txBytes st\<rparr>))
    else Some st) = Some st'"
    using assms(3) unfolding rcp_update_def Let_def by (elim bind_eq_SomeE) blast
  show ?thesis
    using d assms(2) rcp_double_bounds [OF assms(1), of dEff "now - ps_rcpLastTs st" q st]
      rcp_fixed_bounds [of c C dEff "now - ps_rcpLastTs st" q st]
    by (auto elim!: bind_eq_SomeE split: if_splits)
qed

text \<open>C12: whatever the load and the queue of the port, in doubles and in fixed point, a rate the switch
  stamps into a packet is at least 1 Mb/s and at most the rate of the link, the packet leaves with
  the least rate stamped so far, and the rate kept for the port stays in these limits.\<close>

theorem fair_rate_bounds:
  assumes "rcp_ok c C" and "fair_ok C (ps_fairR st)" and "rcp_stamp c now q C st ih = Some (ih', st')"
  shows "fair_ok C (ps_fairR st') \<and> (\<exists>r. 1000000 \<le> uint r \<and> r \<le> C \<and> ih' = stamp_rate (sw_int c) r ih)"
proof -
  obtain R where u: "rcp_update c now q C (rcp_start c now C st) = Some st'"
    and R: "to_u64 (ps_fairR st') = Some R" "ih' = stamp_rate (sw_int c) R ih"
    using assms(3) unfolding rcp_stamp_def by (elim bind_eq_SomeE) simp
  have "ps_fairR st' \<noteq> NaN" using R(1) by (auto simp: to_u64_def)
  then have i: "fair_in C (ps_fairR st')"
    using rcp_update_ok [OF assms(1) rcp_start_ok [OF assms(1,2)] u] by blast
  then obtain x where x: "ps_fairR st' = Fin x" "1000000 \<le> x" "x \<le> u2r C" by (auto simp: fair_in_def)
  then obtain v where v: "to_u64 (Fin x) = Some v" "v \<le> C" "uint v = \<lfloor>x\<rfloor>" using to_u64_Fin [of x C] by auto
  moreover have "1000000 \<le> \<lfloor>x\<rfloor>" using x(2) by (simp add: le_floor_iff)
  ultimately have "1000000 \<le> uint R" "R \<le> C" using R(1) x(1) by simp_all
  then show ?thesis using i R(2) unfolding fair_ok_def by blast
qed

subsection \<open>The least rate of a path\<close>

definition fs_mode :: "int_conf \<Rightarrow> bool" where
  "fs_mode c \<longleftrightarrow> ih_mode c = FS \<or> ih_mode c = FSMIX"

lemma stamp_rate_GetFairRate:
  assumes "fs_mode c" and "hop ih \<noteq> []"
  shows "GetFairRate c (stamp_rate c r ih) = (if GetFairRate c ih = 0 then r else min r (GetFairRate c ih))"
    and "hop (stamp_rate c r ih) \<noteq> []"
  using assms by (cases "hop ih"; auto simp: stamp_rate_def fs_mode_def GetFairRate_def SetFairRate_def min_def)+

lemma stamped_path:
  assumes "fs_mode c" and "hop ih \<noteq> []" and "0 \<notin> set rs" and "GetFairRate c ih \<noteq> 0"
  shows "GetFairRate c (fold (stamp_rate c) rs ih) = Min (insert (GetFairRate c ih) (set rs))"
  using assms
proof (induction rs arbitrary: ih)
  case (Cons r rs)
  have "GetFairRate c (stamp_rate c r ih) = min r (GetFairRate c ih)"
    using stamp_rate_GetFairRate [OF Cons.prems(1,2)] Cons.prems(4) by simp
  moreover have "min r (GetFairRate c ih) \<noteq> 0" using Cons.prems(3,4) by (auto simp: min_def)
  ultimately show ?case
    using Cons.IH [of "stamp_rate c r ih"] Cons.prems stamp_rate_GetFairRate [OF Cons.prems(1,2)]
    by (cases "rs = []") (simp_all add: min.left_commute min.commute)
qed simp

lemma path_minimum:
  assumes "fs_mode c" and "rs \<noteq> []" and "0 \<notin> set rs"
  shows "GetFairRate c (fold (stamp_rate c) rs IntHeader_init) = Min (set rs)"
proof -
  obtain r rs' where r: "rs = r # rs'" using assms(2) by (cases rs) auto
  have i: "hop IntHeader_init \<noteq> []" "GetFairRate c IntHeader_init = 0"
    by (simp_all add: IntHeader_init_def maxHop_def GetFairRate_def)
  note s = stamp_rate_GetFairRate [OF assms(1) i(1), of r]
  show ?thesis using stamped_path [OF assms(1) s(2), of rs'] s(1) i(2) assms(3) r by simp
qed

text \<open>C9: under HPCC-FS a sender whose packet was stamped by the switches of its path, one after the other,
  and whose ACK carries that stamp back, sends at the least of the stamped rates, within its own limits;
  no other flow of the host changes.\<close>

theorem path_rate_adopted:
  assumes "HandleAckFs q ack h = Some h'" and "fs_mode (hw_int (hw h))" and "rs \<noteq> []" and "0 \<notin> set rs"
    and "qbb_ih ack = fold (stamp_rate (hw_int (hw h))) rs IntHeader_init"
  shows "m_rate (h_qp h' q) = clamp_rate (m_fsMinRate (hw h)) (m_max_rate (h_qp h q)) (Min (set rs))
    \<and> hp_curRate (hp (h_qp h' q)) = m_rate (h_qp h' q) \<and> (\<forall>p. p \<noteq> q \<longrightarrow> h_qp h' p = h_qp h p)"
proof -
  have fr: "GetFairRate (hw_int (hw h)) (qbb_ih ack) = Min (set rs)" using path_minimum assms by simp
  have "Min (set rs) \<noteq> 0" using assms(3,4) by (metis List.finite_set Min_in set_empty)
  then show ?thesis using HandleAckFs_rate [OF assms(1) fr] by blast
qed

subsection \<open>Concrete inputs\<close>

definition demo_sw_conf :: SwitchNode_conf where
  "demo_sw_conf = \<lparr>sw_ecnEnabled = True, sw_ccMode = 11, sw_maxRtt = 9000, sw_ackHighPrio = True,
     sw_fsAlpha = lit (2 / 5), sw_fsBeta = lit (113 / 500), sw_fsInitFrac = Fin (1 / 2), sw_fsDScale = Fin 1,
     sw_fsFixedPoint = False, sw_mixFsDport = 0, sw_int = \<lparr>ih_mode = FS, pint_bytes = 2, multi = 1\<rparr>,
     sw_logBase = lit (21 / 20)\<rparr>"

lemma demo_rcp_ok: "rcp_ok demo_sw_conf 100000000000"
  unfolding rcp_ok_def by (intro conjI exI [of _ "1 / 2"]) (simp_all add: demo_sw_conf_def u2r_def)

lemma demo_rcp_stamp:
  "rcp_stamp demo_sw_conf 0 0 100000000000 port_stats_init IntHeader_init
    = Some (stamp_rate (sw_int demo_sw_conf) 50000000000 IntHeader_init, port_stats_init\<lparr>ps_fairR := Fin 50000000000\<rparr>)"
proof -
  have d: "dmul (of_u64_d 9000) (Fin 1) = Fin 9000" "dmul (of_u64_d 100000000000) (Fin (1 / 2)) = Fin 50000000000"
    using fl_of_int [of 9000] fl_of_int [of 50000000000]
    by (simp_all add: of_u64_d_exact u2r_def)
  have t: "to_u64 (Fin 9000) = Some 9000" "to_u64 (Fin 50000000000) = Some 50000000000"
    by (simp_all add: to_u64_def trunc_def)
  show ?thesis
    by (simp add: rcp_stamp_def rcp_update_def rcp_start_def demo_sw_conf_def port_stats_init_def d t dle_def)
qed

lemma fair_rate_bounds_witness:
  "\<exists>ih' st'. rcp_stamp demo_sw_conf 0 0 100000000000 port_stats_init IntHeader_init = Some (ih', st')
     \<and> fair_ok 100000000000 (ps_fairR st')"
proof -
  have "fair_ok 100000000000 (ps_fairR port_stats_init)" by (simp add: fair_ok_def port_stats_init_def dle_def)
  from fair_rate_bounds [OF demo_rcp_ok this demo_rcp_stamp] show ?thesis using demo_rcp_stamp by blast
qed

lemma path_rate_adopted_witness:
  "\<exists>h'. HandleAckFs 1 demo_fs_ack demo_cc_host = Some h' \<and> m_rate (h_qp h' 1) = 10000000000"
proof -
  obtain h' where h': "HandleAckFs 1 demo_fs_ack demo_cc_host = Some h'" using demo_fs_defined(1) by blast
  have "fs_mode (hw_int (hw demo_cc_host))" "qbb_ih demo_fs_ack
      = fold (stamp_rate (hw_int (hw demo_cc_host))) [25000000000, 10000000000] IntHeader_init"
    by (simp_all add: fs_mode_def demo_cc_host_def demo_hw_def demo_fs_ack_def IntHeader_init_def maxHop_def
        stamp_rate_def GetFairRate_def SetFairRate_def)
  then show ?thesis
    using path_rate_adopted [OF h', of "[25000000000, 10000000000]"] h' by (simp add: demo_cc_facts clamp_rate_def)
qed

end
