(* ===== verification/Switch_Node.thy ===== *)
theory Switch_Node
  imports Switch_Telemetry Switch_Mmu Egress_Queue Sim_Events
begin

text \<open>
  A switch (src/point-to-point/model/switch-node.h and .cc) with the switch side of its ports
  (\<^verbatim>\<open>QbbNetDevice\<close> of qbb-net-device.cc): routing, admission, PFC, the egress queues, transmission and
  telemetry. A frame that pauses or resumes a neighbour is sent from inside these operations and
  starts further ones; \<open>dequeue_fuel\<close> bounds that recursion, and \<open>dequeue_terminates\<close> shows that the
  number of waiting packets is always enough. What the code draws at random (\<^verbatim>\<open>rand\<close>, the ECN
  variable, identifications of frames) is the next element of streams in \<open>sw_env\<close>.
\<close>

subsection \<open>Routing\<close>

text \<open>\<^verbatim>\<open>EcmpHash\<close> as it is written: words of four bytes, then the tail from its last byte on.\<close>

definition ecmp_scramble :: "u32 \<Rightarrow> u32" where
  "ecmp_scramble k = (let k = k * 0xcc9e2d51; k = push_bit 15 k OR drop_bit 17 k in k * 0x1b873593)"

definition ecmp_word :: "u32 \<Rightarrow> u32 \<Rightarrow> u32" where
  "ecmp_word k h = (let h = h XOR ecmp_scramble k; h = push_bit 13 h OR drop_bit 19 h
     in h + (push_bit 2 h + 0xe6546b64))"

definition le_word :: "u8 \<Rightarrow> u8 \<Rightarrow> u8 \<Rightarrow> u8 \<Rightarrow> u32" where
  "le_word a b c d = ucast a OR push_bit 8 (ucast b) OR push_bit 16 (ucast c) OR push_bit 24 (ucast d)"

fun ecmp_blocks :: "u8 list \<Rightarrow> u32 \<Rightarrow> u32" where
  "ecmp_blocks (a # b # c # d # key) h = ecmp_blocks key (ecmp_word (le_word a b c d) h)"
| "ecmp_blocks key h = (if key = [] then h
     else h XOR ecmp_scramble (foldr (\<lambda>b k. push_bit 8 k OR ucast b) key 0))"

definition ecmp_final :: "u32 \<Rightarrow> u32" where
  "ecmp_final h = (let h = h XOR drop_bit 16 h; h = h * 0x85ebca6b; h = h XOR drop_bit 13 h;
     h = h * 0xc2b2ae35 in h XOR drop_bit 16 h)"

definition EcmpHash :: "u8 list \<Rightarrow> u32 \<Rightarrow> u32" where
  "EcmpHash key seed = ecmp_final (ecmp_blocks key seed XOR of_nat (length key))"

text \<open>The third word of the key; protocols without ports leave it as it was (\<open>junk\<close>). A payload that
  does not belong to its protocol number does not occur.\<close>

definition port_word :: "u16 \<Rightarrow> u16 \<Rightarrow> u32" where
  "port_word sport dport = ucast sport OR push_bit 16 (ucast dport)"

definition flow_ports :: "u32 \<Rightarrow> packet \<Rightarrow> u32 option" where
  "flow_ports junk p =
     (if pkt_proto p = 0x06 then (case pkt_load p of Tcp_Seg sp dp \<Rightarrow> Some (port_word sp dp) | _ \<Rightarrow> None)
      else if pkt_proto p = 0x11 then (case pkt_load p of Udp_Data sp dp _ _ _ \<Rightarrow> Some (port_word sp dp) | _ \<Rightarrow> None)
      else if pkt_proto p = 0xFC \<or> pkt_proto p = 0xFD
      then (case pkt_load p of Qbb_Ack a \<Rightarrow> Some (port_word (qbb_sport a) (qbb_dport a)) | _ \<Rightarrow> None)
      else Some junk)"

definition ecmp_key :: "u32 \<Rightarrow> u32 \<Rightarrow> u32 \<Rightarrow> u8 list" where
  "ecmp_key sip dip w = WriteU32 sip @ WriteU32 dip @ WriteU32 w"

text \<open>The outer option is definedness; the inner one is \<open>None\<close> for \<open>-1\<close>.\<close>

definition GetOutDev :: "u32 \<Rightarrow> (u32 \<rightharpoonup> nat list) \<Rightarrow> u32 \<Rightarrow> packet \<Rightarrow> nat option option" where
  "GetOutDev seed rtTable junk p = (case rtTable (ip_destination (pkt_ip p)) of None \<Rightarrow> Some None
     | Some nexthops \<Rightarrow> do {
         w \<leftarrow> flow_ports junk p;
         guard (nexthops \<noteq> []);
         let key = ecmp_key (ip_source (pkt_ip p)) (ip_destination (pkt_ip p)) w;
         Some (Some (nexthops ! (unat (EcmpHash key seed) mod length nexthops))) })"

subsection \<open>State\<close>

text \<open>A port (\<^verbatim>\<open>QbbNetDevice\<close> on a switch) and a switch. \<open>sw_wire\<close> are the packets given to the channels:
  port, packet, time, transmission time.\<close>

record SwitchPort =
  sp_bps :: rate
  sp_tInterframeGap :: int
  sp_linkUp :: bool
  sp_busy :: bool
  sp_currentPkt :: "packet option"
  sp_qbbEnabled :: bool
  sp_paused :: "nat \<Rightarrow> bool"
  sp_pausetime :: u32
  sp_addr :: u32
  sp_queue :: BEgressQueue

datatype sw_event = Sw_TransmitComplete nat

record SwitchNode =
  sw_conf :: SwitchNode_conf
  sw_ecmpSeed :: u32
  sw_rtTable :: "u32 \<rightharpoonup> nat list"
  sw_bytes :: "nat \<Rightarrow> nat \<Rightarrow> nat \<Rightarrow> u32"
  sw_stats :: "nat \<Rightarrow> port_stats"
  sw_mmu :: SwitchMmu
  sw_devices :: "nat \<rightharpoonup> SwitchPort"
  sw_sim :: "sw_event sim"
  sw_wire :: "(nat \<times> packet \<times> int \<times> int) list"
  sw_draws :: nat

record sw_env =
  se_lm :: libm
  se_ecn :: "nat \<Rightarrow> double"
  se_ipid :: "nat \<Rightarrow> u16"
  se_rand :: "nat \<Rightarrow> nat \<Rightarrow> int"
  se_junk :: u32

definition SwitchNode_init :: "u32 \<Rightarrow> SwitchNode_conf \<Rightarrow> SwitchMmu \<Rightarrow> (nat \<rightharpoonup> SwitchPort) \<Rightarrow> SwitchNode" where
  "SwitchNode_init node_id c mem devices = \<lparr>sw_conf = c, sw_ecmpSeed = node_id, sw_rtTable = Map.empty,
     sw_bytes = (\<lambda>_ _ _. 0), sw_stats = (\<lambda>_. port_stats_init), sw_mmu = SwitchMmu_init mem,
     sw_devices = devices, sw_sim = sim_init, sw_wire = [], sw_draws = 0\<rparr>"

definition set_port :: "nat \<Rightarrow> SwitchPort \<Rightarrow> SwitchNode \<Rightarrow> SwitchNode" where
  "set_port i d s = s\<lparr>sw_devices := (sw_devices s)(i \<mapsto> d)\<rparr>"

definition SetEcmpSeed :: "u32 \<Rightarrow> SwitchNode \<Rightarrow> SwitchNode" where
  "SetEcmpSeed seed s = s\<lparr>sw_ecmpSeed := seed\<rparr>"

definition sw_AddTableEntry :: "u32 \<Rightarrow> nat \<Rightarrow> SwitchNode \<Rightarrow> SwitchNode" where
  "sw_AddTableEntry dip intf_idx s = s\<lparr>sw_rtTable := (sw_rtTable s)(dip \<mapsto>
     (case sw_rtTable s dip of None \<Rightarrow> [] | Some v \<Rightarrow> v) @ [intf_idx])\<rparr>"

definition sw_ClearTable :: "SwitchNode \<Rightarrow> SwitchNode" where
  "sw_ClearTable s = s\<lparr>sw_rtTable := Map.empty\<rparr>"

subsection \<open>Operations\<close>

text \<open>\<open>again\<close> is \<^verbatim>\<open>DequeueAndTransmit\<close>, which the operations call and which calls them.\<close>

definition SwitchSend :: "(nat \<Rightarrow> SwitchNode \<Rightarrow> SwitchNode option) \<Rightarrow> nat \<Rightarrow> nat \<Rightarrow> packet \<Rightarrow> SwitchNode
    \<Rightarrow> SwitchNode option" where
  "SwitchSend again i qIndex p s = do {
     d \<leftarrow> sw_devices s i;
     (_, b) \<leftarrow> beq_Enqueue p qIndex (sp_queue d);
     again i (set_port i (d\<lparr>sp_queue := b\<rparr>) s) }"

definition pfc_frame :: "u32 \<Rightarrow> u16 \<Rightarrow> PauseHeader \<Rightarrow> packet" where
  "pfc_frame src ident pauseh = \<lparr>pkt_ip = Ipv4Header_init\<lparr>ip_protocol := 0xFE, ip_source := src,
       ip_destination := 0xFFFFFFFF, ip_payloadSize := of_nat PauseHeader_size, ip_ttl := 1,
       ip_identification := ident\<rparr>,
     pkt_load = Pfc pauseh, pkt_size = of_nat PauseHeader_size + 20 + ppp_GetStaticSize, pkt_tag = None\<rparr>"

text \<open>\<open>pause\<close> is type 0, otherwise the frame resumes.\<close>

definition SendPfc :: "(nat \<Rightarrow> SwitchNode \<Rightarrow> SwitchNode option) \<Rightarrow> sw_env \<Rightarrow> nat \<Rightarrow> nat \<Rightarrow> bool \<Rightarrow> SwitchNode
    \<Rightarrow> SwitchNode option" where
  "SendPfc again env i qIndex pause s = do {
     d \<leftarrow> sw_devices s i;
     qlen \<leftarrow> GetNBytes (sp_queue d) qIndex;
     let pauseh = \<lparr>pause_time = (if pause then sp_pausetime d else 0), pause_qlen = qlen, pause_qindex = of_nat qIndex\<rparr>;
     SwitchSend again i 0 (pfc_frame (sp_addr d) (se_ipid env (sw_draws s)) pauseh) (s\<lparr>sw_draws := sw_draws s + 1\<rparr>) }"

definition CheckAndSendPfc :: "(nat \<Rightarrow> SwitchNode \<Rightarrow> SwitchNode option) \<Rightarrow> sw_env \<Rightarrow> nat \<Rightarrow> nat \<Rightarrow> SwitchNode
    \<Rightarrow> SwitchNode option" where
  "CheckAndSendPfc again env inDev qIndex s =
     (if CheckShouldPause (sw_mmu s) inDev qIndex then do {
        s \<leftarrow> SendPfc again env inDev qIndex True s;
        Some (s\<lparr>sw_mmu := SetPause (sw_mmu s) inDev qIndex\<rparr>) }
      else Some s)"

definition CheckAndSendResume :: "(nat \<Rightarrow> SwitchNode \<Rightarrow> SwitchNode option) \<Rightarrow> sw_env \<Rightarrow> nat \<Rightarrow> nat \<Rightarrow> SwitchNode
    \<Rightarrow> SwitchNode option" where
  "CheckAndSendResume again env inDev qIndex s =
     (if CheckShouldResume (sw_mmu s) inDev qIndex then do {
        s \<leftarrow> SendPfc again env inDev qIndex False s;
        Some (s\<lparr>sw_mmu := SetResume (sw_mmu s) inDev qIndex\<rparr>) }
      else Some s)"

text \<open>The class of a packet; ACKs have their priority where data packets have it.\<close>

definition queue_of :: "bool \<Rightarrow> u32 \<Rightarrow> packet \<Rightarrow> nat" where
  "queue_of ackHighPrio junk p =
     (if pkt_proto p = 0xFF \<or> pkt_proto p = 0xFE \<or> ackHighPrio \<and> (pkt_proto p = 0xFD \<or> pkt_proto p = 0xFC) then 0
      else if pkt_proto p = 0x06 then 1
      else (case pkt_load p of Udp_Data _ _ _ pg _ \<Rightarrow> unat pg | Qbb_Ack a \<Rightarrow> unat (qbb_pg a)
            | _ \<Rightarrow> unat (ucast junk :: u16)))"

definition admits :: "SwitchMmu \<Rightarrow> nat \<Rightarrow> nat \<Rightarrow> nat \<Rightarrow> u32 \<Rightarrow> bool" where
  "admits m inDev outDev qIndex sz \<longleftrightarrow>
     CheckIngressAdmission m inDev qIndex sz \<and> CheckEgressAdmission m outDev qIndex sz"

definition SendToDev :: "(nat \<Rightarrow> SwitchNode \<Rightarrow> SwitchNode option) \<Rightarrow> sw_env \<Rightarrow> packet \<Rightarrow> SwitchNode
    \<Rightarrow> SwitchNode option" where
  "SendToDev again env p s = do {
     idx \<leftarrow> GetOutDev (sw_ecmpSeed s) (sw_rtTable s) (se_junk env) p;
     case idx of None \<Rightarrow> Some s
     | Some idx \<Rightarrow> do {
         d \<leftarrow> sw_devices s idx;
         guard (sp_linkUp d);
         let qIndex = queue_of (sw_ackHighPrio (sw_conf s)) (se_junk env) p;
         inDev \<leftarrow> map_option unat (pkt_tag p);
         guard (idx < pCnt \<and> inDev < pCnt \<and> qIndex < qCnt \<and> (qIndex \<noteq> 0 \<longrightarrow> mmu_defined (sw_mmu s) inDev qIndex));
         if qIndex \<noteq> 0 \<and> \<not> admits (sw_mmu s) inDev idx qIndex (pkt_size p) then Some s
         else do {
           s \<leftarrow> (if qIndex \<noteq> 0 then
                CheckAndSendPfc again env inDev qIndex (s\<lparr>sw_mmu :=
                  UpdateEgressAdmission (UpdateIngressAdmission (sw_mmu s) inDev qIndex (pkt_size p)) idx qIndex (pkt_size p)\<rparr>)
              else Some s);
           let s = s\<lparr>sw_bytes := (sw_bytes s)(inDev := upd2 (sw_bytes s inDev) idx qIndex
                     (sw_bytes s inDev idx qIndex + pkt_size p))\<rparr>;
           SwitchSend again idx qIndex p s } } }"

text \<open>A data packet is marked when its egress queue is long.\<close>

definition mark_ecn :: "sw_env \<Rightarrow> nat \<Rightarrow> nat \<Rightarrow> packet \<Rightarrow> SwitchNode \<Rightarrow> packet \<times> SwitchNode" where
  "mark_ecn env i qIndex p s =
     (if sw_ecnEnabled (sw_conf s)
      then (if ShouldSendCN (sw_mmu s) i qIndex (se_ecn env (sw_draws s))
            then p\<lparr>pkt_ip := SetEcn 3 (pkt_ip p)\<rparr> else p, s\<lparr>sw_draws := sw_draws s + 1\<rparr>)
      else (p, s))"

definition sw_now :: "SwitchNode \<Rightarrow> u64" where
  "sw_now s = of_int (Now (sw_sim s))"

text \<open>The release of a packet that leaves through a queue other than 0.\<close>

definition release_packet :: "(nat \<Rightarrow> SwitchNode \<Rightarrow> SwitchNode option) \<Rightarrow> sw_env \<Rightarrow> nat \<Rightarrow> nat \<Rightarrow> packet \<Rightarrow> SwitchNode
    \<Rightarrow> (packet \<times> SwitchNode) option" where
  "release_packet again env i qIndex p s = do {
     inDev \<leftarrow> map_option unat (pkt_tag p);
     guard (mmu_defined (sw_mmu s) inDev qIndex);
     let s = s\<lparr>sw_mmu := RemoveFromEgressAdmission (RemoveFromIngressAdmission (sw_mmu s) inDev qIndex (pkt_size p))
               i qIndex (pkt_size p),
             sw_bytes := (sw_bytes s)(inDev := upd2 (sw_bytes s inDev) i qIndex
               (sw_bytes s inDev i qIndex - pkt_size p))\<rparr>;
     let (p, s) = mark_ecn env i qIndex p s;
     s \<leftarrow> CheckAndSendResume again env inDev qIndex s;
     Some (p, s) }"

definition stamp_packet :: "sw_env \<Rightarrow> nat \<Rightarrow> packet \<Rightarrow> SwitchNode \<Rightarrow> (packet \<times> SwitchNode) option" where
  "stamp_packet env i p s =
     (if pkt_proto p = 0x11 then (case pkt_load p of
        Udp_Data sp dp sq pg ih \<Rightarrow> do {
          d \<leftarrow> sw_devices s i;
          (ih, st) \<leftarrow> stamp_int (se_lm env) (se_rand env (sw_draws s)) (sw_conf s) (sw_now s)
            (GetNBytesTotal (sp_queue d)) (sp_bps d) dp (sw_stats s i) ih;
          Some (p\<lparr>pkt_load := Udp_Data sp dp sq pg ih\<rparr>,
            s\<lparr>sw_stats := (sw_stats s)(i := st), sw_draws := sw_draws s + 1\<rparr>) }
        | _ \<Rightarrow> None)
      else Some (p, s))"

definition SwitchNotifyDequeue :: "(nat \<Rightarrow> SwitchNode \<Rightarrow> SwitchNode option) \<Rightarrow> sw_env \<Rightarrow> nat \<Rightarrow> nat \<Rightarrow> packet \<Rightarrow> SwitchNode
    \<Rightarrow> (packet \<times> SwitchNode) option" where
  "SwitchNotifyDequeue again env i qIndex p s = do {
     guard (i < pCnt);
     (p, s) \<leftarrow> (if qIndex \<noteq> 0 then release_packet again env i qIndex p s else Some (p, s));
     (p, s) \<leftarrow> stamp_packet env i p s;
     Some (p, s\<lparr>sw_stats := (sw_stats s)(i := count_tx (sw_now s) (pkt_size p) (sw_stats s i))\<rparr>) }"

definition sw_TransmitStart :: "nat \<Rightarrow> packet \<Rightarrow> SwitchNode \<Rightarrow> SwitchNode option" where
  "sw_TransmitStart i p s = do {
     d \<leftarrow> sw_devices s i;
     guard (\<not> sp_busy d);
     let s = set_port i (d\<lparr>sp_busy := True, sp_currentPkt := Some p\<rparr>) s;
     txTime \<leftarrow> CalculateBytesTxTime (sp_bps d) (pkt_size p);
     (_, sim) \<leftarrow> Schedule (txTime + sp_tInterframeGap d) (Sw_TransmitComplete i) (sw_sim s);
     Some (s\<lparr>sw_sim := sim, sw_wire := sw_wire s @ [(i, p, Now (sw_sim s), txTime)]\<rparr>) }"

text \<open>The body of \<^verbatim>\<open>DequeueAndTransmit\<close> on a switch. The deficit round robin index stays below the number
  of queues, as every access to \<^verbatim>\<open>m_paused\<close> needs.\<close>

definition dequeue_body :: "(nat \<Rightarrow> SwitchNode \<Rightarrow> SwitchNode option) \<Rightarrow> sw_env \<Rightarrow> nat \<Rightarrow> SwitchNode
    \<Rightarrow> SwitchNode option" where
  "dequeue_body again env i s = do {
     d \<leftarrow> sw_devices s i;
     if \<not> sp_linkUp d \<or> sp_busy d then Some s
     else do {
       guard (m_dwrrCur (sp_queue d) < beq_qCnt);
       (r, b) \<leftarrow> DequeueRR (sp_paused d) (sp_queue d);
       let s = set_port i (d\<lparr>sp_queue := b\<rparr>) s;
       case r of None \<Rightarrow> Some s
       | Some p \<Rightarrow> do {
           (p, s) \<leftarrow> SwitchNotifyDequeue again env i (GetLastQueue b) p s;
           sw_TransmitStart i (p\<lparr>pkt_tag := None\<rparr>) s } } }"

text \<open>The packets that wait in the queues 1 to \<open>fCnt - 1\<close>: only these start further frames.\<close>

definition port_waiting :: "SwitchPort \<Rightarrow> nat" where
  "port_waiting d = (\<Sum>q\<in>{1..<fCnt}. length (contents (sp_queue d) q))"

definition waiting :: "SwitchNode \<Rightarrow> nat" where
  "waiting s = (\<Sum>i<pCnt. case sw_devices s i of None \<Rightarrow> 0 | Some d \<Rightarrow> port_waiting d)"

text \<open>\<open>n\<close> levels of the recursion, below which \<open>stop\<close> stands for the call.\<close>

fun dequeue_fuel :: "(nat \<Rightarrow> SwitchNode \<Rightarrow> SwitchNode option) \<Rightarrow> nat \<Rightarrow> sw_env \<Rightarrow> nat \<Rightarrow> SwitchNode
    \<Rightarrow> SwitchNode option" where
  "dequeue_fuel stop 0 env = stop"
| "dequeue_fuel stop (Suc n) env = dequeue_body (dequeue_fuel stop n env) env"

definition sw_DequeueAndTransmit :: "sw_env \<Rightarrow> nat \<Rightarrow> SwitchNode \<Rightarrow> SwitchNode option" where
  "sw_DequeueAndTransmit env i s = dequeue_fuel (\<lambda>_ _. None) (Suc (waiting s)) env i s"

subsection \<open>Events of a port\<close>

definition sw_TransmitComplete :: "sw_env \<Rightarrow> nat \<Rightarrow> SwitchNode \<Rightarrow> SwitchNode option" where
  "sw_TransmitComplete env i s = do {
     d \<leftarrow> sw_devices s i;
     guard (sp_busy d);
     guard (sp_currentPkt d \<noteq> None);
     sw_DequeueAndTransmit env i (set_port i (d\<lparr>sp_busy := False, sp_currentPkt := None\<rparr>) s) }"

definition sw_Resume :: "sw_env \<Rightarrow> nat \<Rightarrow> nat \<Rightarrow> SwitchNode \<Rightarrow> SwitchNode option" where
  "sw_Resume env i qIndex s = do {
     d \<leftarrow> sw_devices s i;
     guard (qIndex < nic_qCnt);
     guard (sp_paused d qIndex);
     sw_DequeueAndTransmit env i (set_port i (d\<lparr>sp_paused := (sp_paused d)(qIndex := False)\<rparr>) s) }"

definition sw_pfc :: "sw_env \<Rightarrow> nat \<Rightarrow> PauseHeader \<Rightarrow> SwitchNode \<Rightarrow> SwitchNode option" where
  "sw_pfc env i pf s = do {
     d \<leftarrow> sw_devices s i;
     if \<not> sp_qbbEnabled d then Some s
     else if pause_time pf > 0 then do {
       guard (unat (pause_qindex pf) < nic_qCnt);
       Some (set_port i (d\<lparr>sp_paused := (sp_paused d)(unat (pause_qindex pf) := True)\<rparr>) s) }
     else sw_Resume env i (unat (pause_qindex pf)) s }"

definition SwitchReceiveFromDevice :: "sw_env \<Rightarrow> packet \<Rightarrow> SwitchNode \<Rightarrow> SwitchNode option" where
  "SwitchReceiveFromDevice env p s = SendToDev (sw_DequeueAndTransmit env) env p s"

definition sw_Receive :: "sw_env \<Rightarrow> bool \<Rightarrow> nat \<Rightarrow> packet \<Rightarrow> SwitchNode \<Rightarrow> SwitchNode option" where
  "sw_Receive env corrupt i p s = do {
     d \<leftarrow> sw_devices s i;
     if \<not> sp_linkUp d \<or> corrupt then Some s
     else if pkt_proto p = 0xFE then (case pkt_load p of Pfc pf \<Rightarrow> sw_pfc env i pf s | _ \<Rightarrow> None)
     else SwitchReceiveFromDevice env (p\<lparr>pkt_tag := Some (of_nat i)\<rparr>) s }"

text \<open>\<^verbatim>\<open>TakeDown\<close> drops what the queue gives out with no class paused; the fuel is the packets it holds.\<close>

fun drop_queue :: "nat \<Rightarrow> BEgressQueue \<Rightarrow> BEgressQueue option" where
  "drop_queue 0 b = None"
| "drop_queue (Suc n) b = do {
     guard (m_dwrrCur b < beq_qCnt);
     (r, b) \<leftarrow> DequeueRR (\<lambda>_. False) b;
     case r of None \<Rightarrow> Some b | Some p \<Rightarrow> drop_queue n b }"

definition sw_TakeDown :: "nat \<Rightarrow> SwitchNode \<Rightarrow> SwitchNode option" where
  "sw_TakeDown i s = do {
     d \<leftarrow> sw_devices s i;
     b \<leftarrow> drop_queue (Suc (total_packets (sp_queue d))) (sp_queue d);
     Some (set_port i (d\<lparr>sp_paused := (\<lambda>q. if q < nic_qCnt then False else sp_paused d q),
       sp_queue := b, sp_linkUp := False\<rparr>) s) }"

definition sw_ProcessOneEvent :: "sw_env \<Rightarrow> SwitchNode \<Rightarrow> SwitchNode option" where
  "sw_ProcessOneEvent env s = do {
     (e, sim) \<leftarrow> ProcessOneEvent (sw_sim s);
     case e of None \<Rightarrow> Some (s\<lparr>sw_sim := sim\<rparr>)
     | Some (Sw_TransmitComplete i) \<Rightarrow> sw_TransmitComplete env i (s\<lparr>sw_sim := sim\<rparr>) }"

end
