(* ===== verification/Switch_Recursion.thy ===== *)
theory Switch_Recursion
  imports Switch_Node
begin

text \<open>
  The recursion of a switch ends (\<open>dequeue_terminates\<close>). A call of \<^verbatim>\<open>DequeueAndTransmit\<close> goes on to
  send a frame only when it has taken a packet from a queue other than 0, and the frame goes to queue 0:
  the packets that wait in the other queues become fewer.
\<close>

subsection \<open>What waits in a port\<close>

lemma contents_upd:
  "m_queues b' = (m_queues b)(q := inner) \<Longrightarrow> contents b' = (contents b)(q := m_packets inner)"
  by (auto simp: contents_def fun_eq_iff)

lemma beq_Enqueue_contents:
  assumes "beq_Enqueue p q b = Some (ok, b')"
  shows "\<forall>r. r \<noteq> q \<longrightarrow> contents b' r = contents b r" and "contents b' q \<in> {contents b q, contents b q @ [p]}"
    and "m_dwrrCur b' = m_dwrrCur b"
  using assms
  by (auto simp: beq_Enqueue_def beq_DoEnqueue_def Let_def contents_def Enqueue_def DoEnqueue_def Drop_def
      guard_bind_eq_Some elim!: bind_eq_SomeE split: if_splits prod.splits)

lemma Dequeue_packets:
  assumes "Dequeue q = Some (Some p, q')"
  shows "m_packets q = p # m_packets q'"
  using assms by (auto simp: Dequeue_def DoDequeue_def Let_def guard_bind_eq_Some split: list.splits option.splits)

text \<open>A packet is taken from the front of one of the eight queues; when there is none, nothing moves.\<close>

lemma DequeueRR_cases:
  assumes "DequeueRR paused b = Some (r, b')" and "m_dwrrCur b < beq_qCnt"
  shows "m_dwrrCur b' < beq_qCnt" and "r = None \<Longrightarrow> contents b' = contents b"
    and "r = Some p \<Longrightarrow> m_qlast b' < beq_qCnt \<and> contents b (m_qlast b') = p # contents b' (m_qlast b')
      \<and> (\<forall>q. q \<noteq> m_qlast b' \<longrightarrow> contents b' q = contents b q)"
proof -
  obtain b1 where d: "DoDequeueRR paused b = Some (r, b1)"
    and b': "contents b' = contents b1" "m_qlast b' = m_qlast b1" "m_dwrrCur b' = m_dwrrCur b1"
    using assms(1) by (auto simp: DequeueRR_def contents_def fun_eq_iff guard_bind_eq_Some elim!: bind_eq_SomeE split: option.splits)
  show "m_dwrrCur b' < beq_qCnt" "r = None \<Longrightarrow> contents b' = contents b"
    "r = Some p \<Longrightarrow> m_qlast b' < beq_qCnt \<and> contents b (m_qlast b') = p # contents b' (m_qlast b')
      \<and> (\<forall>q. q \<noteq> m_qlast b' \<longrightarrow> contents b' q = contents b q)"
  proof -
    consider "m_bytesInQueueTotal b = 0" "r = None" "b1 = b"
      | b2 where "select_queue paused b = Some (None, b2)" "r = None" "b1 = b2"
      | q b2 inner p' where "select_queue paused b = Some (Some q, b2)" "Dequeue (m_queues b2 q) = Some (Some p', inner)"
          "r = Some p'" "m_queues b1 = (m_queues b2)(q := inner)" "m_qlast b1 = q" "m_dwrrCur b1 = m_dwrrCur b2"
      using d by (auto simp: DoDequeueRR_def Let_def elim!: bind_eq_SomeE split: if_splits option.splits)
    then have "m_dwrrCur b1 < beq_qCnt \<and> (r = None \<longrightarrow> contents b1 = contents b)
      \<and> (\<forall>p. r = Some p \<longrightarrow> m_qlast b1 < beq_qCnt \<and> contents b (m_qlast b1) = p # contents b1 (m_qlast b1)
      \<and> (\<forall>q. q \<noteq> m_qlast b1 \<longrightarrow> contents b1 q = contents b q))"
    proof cases
      case 1 then show ?thesis using assms(2) by simp
    next
      case 2
      note f = select_queue_frame [OF 2(1) assms(2)]
      show ?thesis using f(1,2) 2 same_queuesD(1) [OF f(1)] by (simp add: contents_def fun_eq_iff)
    next
      case 3
      note f = select_queue_frame [OF 3(1) assms(2)]
      have c: "contents b2 = contents b" using same_queuesD(1) [OF f(1)] by (simp add: contents_def fun_eq_iff)
      have "contents b q = p' # m_packets inner"
        using Dequeue_packets [OF 3(2)] by (simp add: c [symmetric] contents_def)
      then show ?thesis using f(2) f(3) [of q] 3 contents_upd [OF 3(4)] c by simp
    qed
    then show "m_dwrrCur b' < beq_qCnt" "r = None \<Longrightarrow> contents b' = contents b"
      "r = Some p \<Longrightarrow> m_qlast b' < beq_qCnt \<and> contents b (m_qlast b') = p # contents b' (m_qlast b')
        \<and> (\<forall>q. q \<noteq> m_qlast b' \<longrightarrow> contents b' q = contents b q)"
      using b' by simp_all
  qed
qed

lemma port_waiting_enqueue0:
  assumes "beq_Enqueue p 0 (sp_queue d) = Some (ok, b')"
  shows "port_waiting (d\<lparr>sp_queue := b'\<rparr>) = port_waiting d"
  unfolding port_waiting_def using beq_Enqueue_contents(1) [OF assms] by (intro sum.cong) auto

lemma port_waiting_dequeue:
  assumes "DequeueRR paused (sp_queue d) = Some (Some p, b')" and "m_dwrrCur (sp_queue d) < beq_qCnt"
    and "m_qlast b' \<noteq> 0"
  shows "port_waiting (d\<lparr>sp_queue := b'\<rparr>) < port_waiting d"
proof -
  note c = DequeueRR_cases(3) [OF assms(1,2) refl]
  have "length (contents b' q) \<le> length (contents (sp_queue d) q)" for q
    using c by (cases "q = m_qlast b'") auto
  moreover have "m_qlast b' \<in> {1..<fCnt}" using c assms(3) by (auto simp: fCnt_def beq_qCnt_def)
  moreover have "length (contents b' (m_qlast b')) < length (contents (sp_queue d) (m_qlast b'))" using c by simp
  ultimately show ?thesis
    unfolding port_waiting_def by (intro sum_strict_mono_ex1) auto
qed

lemma waiting_set_port:
  assumes "sw_devices s i = Some d" and "i < pCnt"
  shows "waiting (set_port i d' s) + port_waiting d = waiting s + port_waiting d'"
  unfolding waiting_def set_port_def
  using sum_fun_upd [OF assms(2), of "\<lambda>x. case x of None \<Rightarrow> 0 | Some d \<Rightarrow> port_waiting d" "sw_devices s" "Some d'"] assms(1)
  by simp

lemma waiting_set_port_same:
  assumes "sw_devices s i = Some d" and "port_waiting d' = port_waiting d"
  shows "waiting (set_port i d' s) = waiting s"
  unfolding waiting_def set_port_def using assms by (intro sum.cong) auto

lemma waiting_cong: "sw_devices s' = sw_devices s \<Longrightarrow> waiting s' = waiting s"
  by (simp add: waiting_def)

subsection \<open>The recursion ends\<close>

text \<open>Two continuations that agree on the states where fewer than \<open>n\<close> packets wait.\<close>

definition agree :: "nat \<Rightarrow> (nat \<Rightarrow> SwitchNode \<Rightarrow> SwitchNode option) \<Rightarrow> (nat \<Rightarrow> SwitchNode \<Rightarrow> SwitchNode option) \<Rightarrow> bool" where
  "agree n f g \<longleftrightarrow> (\<forall>i s. waiting s < n \<longrightarrow> f i s = g i s)"

lemma SendPfc_cong:
  assumes "agree n f g" and "waiting s < n"
  shows "SendPfc f env i q pause s = SendPfc g env i q pause s"
proof -
  have "SwitchSend f i 0 p s' = SwitchSend g i 0 p s'" if "waiting s' < n" for p s'
    unfolding SwitchSend_def
  proof (intro Option.bind_cong refl, clarify)
    fix d ok b assume d: "sw_devices s' i = Some d" and b: "beq_Enqueue p 0 (sp_queue d) = Some (ok, b)"
    then have "waiting (set_port i (d\<lparr>sp_queue := b\<rparr>) s') < n"
      using waiting_set_port_same [OF d port_waiting_enqueue0 [OF b]] that by simp
    then show "f i (set_port i (d\<lparr>sp_queue := b\<rparr>) s') = g i (set_port i (d\<lparr>sp_queue := b\<rparr>) s')"
      using assms(1) by (simp add: agree_def)
  qed
  then show ?thesis using assms(2) waiting_cong [of "s\<lparr>sw_draws := sw_draws s + 1\<rparr>" s]
    by (simp add: SendPfc_def Let_def)
qed

lemma CheckAndSendResume_cong:
  assumes "agree n f g" and "waiting s < n"
  shows "CheckAndSendResume f env i q s = CheckAndSendResume g env i q s"
  using SendPfc_cong [OF assms] by (simp add: CheckAndSendResume_def)

lemma SwitchNotifyDequeue_cong:
  assumes "agree n f g" and "q \<noteq> 0 \<Longrightarrow> waiting s < n"
  shows "SwitchNotifyDequeue f env i q p s = SwitchNotifyDequeue g env i q p s"
proof -
  have "release_packet f env i q p s = release_packet g env i q p s" if "waiting s < n"
  proof -
    have "sw_devices (snd (mark_ecn env i q p s')) = sw_devices s'" for p s' by (simp add: mark_ecn_def)
    then have c: "CheckAndSendResume f env j q (snd (mark_ecn env i q p s')) = CheckAndSendResume g env j q (snd (mark_ecn env i q p s'))"
      if "sw_devices s' = sw_devices s" for j s'
      using \<open>waiting s < n\<close> that by (intro CheckAndSendResume_cong [OF assms(1)]) (simp add: waiting_def)
    show ?thesis
      unfolding release_packet_def Let_def by (intro Option.bind_cong refl) (simp add: case_prod_beta c)
  qed
  then show ?thesis using assms(2) by (simp add: SwitchNotifyDequeue_def)
qed

lemma dequeue_body_cong:
  assumes "agree n f g" and "waiting s \<le> n"
  shows "dequeue_body f env i s = dequeue_body g env i s"
proof (cases "sw_devices s i")
  case (Some d)
  have "SwitchNotifyDequeue f env i (GetLastQueue b) p (set_port i (d\<lparr>sp_queue := b\<rparr>) s)
      = SwitchNotifyDequeue g env i (GetLastQueue b) p (set_port i (d\<lparr>sp_queue := b\<rparr>) s)"
    if r: "DequeueRR (sp_paused d) (sp_queue d) = Some (Some p, b)" "m_dwrrCur (sp_queue d) < beq_qCnt" for p b
  proof (cases "i < pCnt")
    case True
    have "waiting (set_port i (d\<lparr>sp_queue := b\<rparr>) s) < n" if "GetLastQueue b \<noteq> 0"
      using port_waiting_dequeue [OF r] that waiting_set_port [OF Some True, of "d\<lparr>sp_queue := b\<rparr>"] assms(2)
      by (simp add: GetLastQueue_def)
    then show ?thesis by (rule SwitchNotifyDequeue_cong [OF assms(1)])
  qed (simp add: SwitchNotifyDequeue_def)
  then show ?thesis
    using Some by (auto simp: dequeue_body_def Let_def guard_def intro!: Option.bind_cong split: option.splits)
qed (simp add: dequeue_body_def)

lemma dequeue_fuel_enough:
  "waiting s < n \<Longrightarrow> waiting s < m \<Longrightarrow> dequeue_fuel stop n env i s = dequeue_fuel stop' m env i s"
proof (induction n arbitrary: m i s)
  case (Suc n)
  obtain k where k: "m = Suc k" using Suc.prems(2) by (cases m) auto
  have "agree (waiting s) (dequeue_fuel stop n env) (dequeue_fuel stop' k env)"
    unfolding agree_def by (intro allI impI Suc.IH) (use Suc.prems k in simp_all)
  from dequeue_body_cong [OF this] show ?case using k by simp
qed simp

text \<open>C7: the recursion between sending, pausing and resuming ends: at most as many calls are nested as
  packets wait, whatever would stand for a deeper call, and \<^verbatim>\<open>DequeueAndTransmit\<close> satisfies the
  recursive equation that the code states.\<close>

theorem dequeue_terminates:
  "dequeue_fuel stop (Suc (waiting s) + k) env i s = sw_DequeueAndTransmit env i s
    \<and> sw_DequeueAndTransmit env i s = dequeue_body (sw_DequeueAndTransmit env) env i s"
proof -
  have "agree (waiting s) (dequeue_fuel (\<lambda>_ _. None) (waiting s) env) (sw_DequeueAndTransmit env)"
    unfolding agree_def sw_DequeueAndTransmit_def by (intro allI impI dequeue_fuel_enough) simp_all
  from dequeue_body_cong [OF this] have "sw_DequeueAndTransmit env i s = dequeue_body (sw_DequeueAndTransmit env) env i s"
    unfolding sw_DequeueAndTransmit_def [of env i s] by simp
  moreover have "dequeue_fuel stop (Suc (waiting s) + k) env i s = sw_DequeueAndTransmit env i s"
    unfolding sw_DequeueAndTransmit_def by (rule dequeue_fuel_enough) simp_all
  ultimately show ?thesis by blast
qed

end
