(* ===== verification/Switch_Invariants.thy ===== *)
theory Switch_Invariants
  imports Switch_Recursion Rdma_Flow
begin

text \<open>
  Invariants of a running switch. \<open>switch_handlers\<close> is the interface: what an invariant has to keep at
  each elementary step of the handlers of \<open>Switch_Node\<close>, with the packets that a handler holds in its hands
  at that moment; then every handler keeps it, nested calls included. \<open>switch_invariant\<close> adds that
  arrivals keep it, so that it holds in every run. It is interpreted for the accounting of the buffer, for
  what a switch may do to a packet, for the packets being conserved, and for the classes that are paused. The
  set \<open>E\<close> of an invariant holds the classes whose packet has just been released, until the handler has checked
  whether to resume them.
\<close>

subsection \<open>The interface\<close>

text \<open>A packet that a handler holds, with its port and its queue: after its arrival it is at no port (\<open>pCnt\<close>), and
  with queue 0 when the buffer is not charged for it.\<close>

type_synonym in_hand = "nat \<times> nat \<times> packet"

text \<open>The queues, the buffer, the wires and the routes of two states are the same.\<close>

definition same_core :: "SwitchNode \<Rightarrow> SwitchNode \<Rightarrow> bool" where
  "same_core s s' \<longleftrightarrow> sw_mmu s' = sw_mmu s \<and> sw_wire s' = sw_wire s \<and> sw_rtTable s' = sw_rtTable s
     \<and> (\<forall>i. map_option sp_queue (sw_devices s' i) = map_option sp_queue (sw_devices s i))"

lemma same_core_simps [simp]:
  "same_core s s" "same_core s (s\<lparr>sw_draws := x\<rparr>)" "same_core s (s\<lparr>sw_stats := a\<rparr>)" "same_core s (s\<lparr>sw_bytes := c\<rparr>)"
  "same_core s (s\<lparr>sw_sim := e\<rparr>)" "same_core s (s\<lparr>sw_ecmpSeed := u\<rparr>)"
  by (simp_all add: same_core_def)

lemma same_core_trans: "same_core a b \<Longrightarrow> same_core b c \<Longrightarrow> same_core a c"
  by (simp add: same_core_def)

lemma same_core_port:
  "sw_devices s i = Some d \<Longrightarrow> sp_queue d' = sp_queue d \<Longrightarrow> same_core s (set_port i d' s)"
  by (simp add: same_core_def set_port_def)

text \<open>A packet is rewritten: it has the same size, the same IPv4 header, in which congestion may have been marked, and
  the same payload, in which telemetry may have been written.\<close>

definition rewritten :: "packet \<Rightarrow> packet \<Rightarrow> bool" where
  "rewritten p p' \<longleftrightarrow> pkt_size p' = pkt_size p \<and> (pkt_ip p' = pkt_ip p \<or> pkt_ip p' = SetEcn 3 (pkt_ip p))
     \<and> (case pkt_load p of Udp_Data sp dp sq pg ih \<Rightarrow> \<exists>ih'. pkt_load p' = Udp_Data sp dp sq pg ih' | l \<Rightarrow> pkt_load p' = l)"

locale switch_handlers =
  fixes Inv :: "(nat \<times> nat) set \<Rightarrow> in_hand list \<Rightarrow> SwitchNode \<Rightarrow> bool" and accept :: "packet \<Rightarrow> bool"
    and allowed :: "u32 \<Rightarrow> nat \<Rightarrow> bool"
  assumes core: "Inv E X s \<Longrightarrow> same_core s s' \<Longrightarrow> Inv E X s'"
    and enqueue: "Inv E ((i, q, p) # X) s \<Longrightarrow> sw_devices s i = Some d \<Longrightarrow> beq_Enqueue p q (sp_queue d) = Some (ok, b)
      \<Longrightarrow> Inv E X (set_port i (d\<lparr>sp_queue := b\<rparr>) s)"
    and dequeue: "Inv E X s \<Longrightarrow> sw_devices s i = Some d \<Longrightarrow> i < pCnt \<Longrightarrow> m_dwrrCur (sp_queue d) < beq_qCnt
      \<Longrightarrow> DequeueRR paused (sp_queue d) = Some (Some p, b)
      \<Longrightarrow> Inv E ((i, m_qlast b, p) # X) (set_port i (d\<lparr>sp_queue := b\<rparr>) s)"
    and dequeue_none: "Inv E X s \<Longrightarrow> sw_devices s i = Some d \<Longrightarrow> m_dwrrCur (sp_queue d) < beq_qCnt
      \<Longrightarrow> DequeueRR paused (sp_queue d) = Some (None, b) \<Longrightarrow> Inv E X (set_port i (d\<lparr>sp_queue := b\<rparr>) s)"
    and discard: "Inv E (c # X) s \<Longrightarrow> Inv E X s"
    and routed: "Inv E ((pCnt, 0, p) # X) s \<Longrightarrow> GetOutDev seed (sw_rtTable s) junk p = Some (Some e) \<Longrightarrow> Inv E ((e, 0, p) # X) s"
    and add_route: "Inv E X s \<Longrightarrow> allowed dip idx \<Longrightarrow> Inv E X (sw_AddTableEntry dip idx s)"
    and clear_routes: "Inv E X s \<Longrightarrow> Inv E X (sw_ClearTable s)"
    and frame_sent: "Inv E X s \<Longrightarrow> Inv E ((i, 0, pfc_frame a n ph) # X) s"
    and pausing: "Inv E ((e, q, p) # X) s \<Longrightarrow> accept p \<Longrightarrow> pkt_tag p = Some t \<Longrightarrow> unat t < pCnt \<Longrightarrow> q < qCnt \<Longrightarrow> q \<noteq> 0
      \<Longrightarrow> Inv E ((e, q, p) # X) (s\<lparr>sw_mmu := SetPause (sw_mmu s) (unat t) q\<rparr>)"
    and resuming: "Inv (insert (i, q) E) X s \<Longrightarrow> Inv E X (s\<lparr>sw_mmu := SetResume (sw_mmu s) i q\<rparr>)"
    and not_due: "Inv (insert (i, q) E) X s \<Longrightarrow> \<not> CheckShouldResume (sw_mmu s) i q \<Longrightarrow> Inv E X s"
    and release: "Inv E ((i, q, p) # X) s \<Longrightarrow> q \<noteq> 0 \<Longrightarrow> pkt_tag p = Some t \<Longrightarrow> Inv (insert (unat t, q) E) ((i, 0, p) # X)
      (s\<lparr>sw_mmu := RemoveFromEgressAdmission (RemoveFromIngressAdmission (sw_mmu s) (unat t) q (pkt_size p)) i q (pkt_size p)\<rparr>)"
    and rewrite: "Inv E ((i, 0, p) # X) s \<Longrightarrow> rewritten p p' \<Longrightarrow> Inv E ((i, 0, p') # X) s"
    and transmit: "Inv E ((i, 0, p) # X) s \<Longrightarrow> i < pCnt \<Longrightarrow> Inv E X (s\<lparr>sw_wire := sw_wire s @ [(i, p, now, x)]\<rparr>)"
    and accept_tag: "accept p \<Longrightarrow> accept (p\<lparr>pkt_tag := Some u\<rparr>)"
    and charge: "Inv E ((e, 0, p) # X) s \<Longrightarrow> accept p \<Longrightarrow> pkt_tag p = Some t \<Longrightarrow> unat t < pCnt \<Longrightarrow> e < pCnt \<Longrightarrow> q < qCnt
      \<Longrightarrow> q \<noteq> 0 \<Longrightarrow> admits (sw_mmu s) (unat t) e q (pkt_size p) \<Longrightarrow> Inv E ((e, q, p) # X)
      (s\<lparr>sw_mmu := UpdateEgressAdmission (UpdateIngressAdmission (sw_mmu s) (unat t) q (pkt_size p)) e q (pkt_size p)\<rparr>)"
begin

text \<open>A continuation that keeps the invariant, whatever is held.\<close>

definition keeps :: "(nat \<Rightarrow> SwitchNode \<Rightarrow> SwitchNode option) \<Rightarrow> bool" where
  "keeps again \<longleftrightarrow> (\<forall>E X i s s'. Inv E X s \<longrightarrow> again i s = Some s' \<longrightarrow> Inv E X s')"

lemma SwitchSend_keeps:
  "keeps again \<Longrightarrow> Inv E ((i, q, p) # X) s \<Longrightarrow> SwitchSend again i q p s = Some s' \<Longrightarrow> Inv E X s'"
  unfolding SwitchSend_def keeps_def by (elim bind_eq_SomeE) (auto dest: enqueue)

lemma SendPfc_keeps:
  assumes "keeps again" and "Inv E X s" and "SendPfc again env i q pause s = Some s'"
  shows "Inv E X s'"
proof -
  have "Inv E X (s\<lparr>sw_draws := sw_draws s + 1\<rparr>)" by (rule core [OF assms(2)]) simp
  then show ?thesis
    using assms(3) SwitchSend_keeps [OF assms(1) frame_sent] unfolding SendPfc_def Let_def by (elim bind_eq_SomeE) blast
qed

lemma CheckAndSendPfc_keeps:
  assumes "keeps again" and "Inv E ((e, q, p) # X) s" and "accept p" and "pkt_tag p = Some t" and "unat t < pCnt" and "q < qCnt"
    and "q \<noteq> 0" and "CheckAndSendPfc again env (unat t) q s = Some s'"
  shows "Inv E ((e, q, p) # X) s'"
proof (cases "CheckShouldPause (sw_mmu s) (unat t) q")
  case True
  then obtain s1 where s1: "SendPfc again env (unat t) q True s = Some s1" "s' = s1\<lparr>sw_mmu := SetPause (sw_mmu s1) (unat t) q\<rparr>"
    using assms(8) by (auto simp: CheckAndSendPfc_def elim!: bind_eq_SomeE)
  show ?thesis unfolding s1(2) by (rule pausing [OF SendPfc_keeps [OF assms(1,2) s1(1)] assms(3-7)])
next
  case False
  then show ?thesis using assms(2,8) by (simp add: CheckAndSendPfc_def)
qed

text \<open>The class of a released packet is due to be resumed until this has been checked.\<close>

lemma CheckAndSendResume_keeps:
  assumes "keeps again" and "Inv (insert (i, q) E) X s" and "CheckAndSendResume again env i q s = Some s'"
  shows "Inv E X s'"
proof (cases "CheckShouldResume (sw_mmu s) i q")
  case True
  then obtain s1 where s1: "SendPfc again env i q False s = Some s1" "s' = s1\<lparr>sw_mmu := SetResume (sw_mmu s1) i q\<rparr>"
    using assms(3) by (auto simp: CheckAndSendResume_def elim!: bind_eq_SomeE)
  show ?thesis unfolding s1(2) by (rule resuming [OF SendPfc_keeps [OF assms(1,2) s1(1)]])
next
  case False
  then show ?thesis using not_due [OF assms(2)] assms(3) by (simp add: CheckAndSendResume_def)
qed

lemma rewrite_core: "Inv E ((i, 0, p) # X) s \<Longrightarrow> rewritten p p' \<Longrightarrow> same_core s s' \<Longrightarrow> Inv E ((i, 0, p') # X) s'"
  by (blast intro: core rewrite)

end

lemma rewritten_refl [simp]: "rewritten p p"
  by (simp add: rewritten_def split: payload.splits)

lemma rewritten_tag [simp]: "rewritten p (p\<lparr>pkt_tag := t\<rparr>)"
  by (simp add: rewritten_def split: payload.splits)

lemma mark_ecn_rewritten:
  assumes "mark_ecn env i q p s = (p', s')"
  shows "rewritten p p'" and "same_core s s'" and "pkt_tag p' = pkt_tag p"
  using assms by (auto simp: mark_ecn_def rewritten_def split: if_splits payload.splits)

lemma stamp_packet_rewritten:
  assumes "stamp_packet env i p s = Some (p', s')"
  shows "rewritten p p'" and "same_core s s'"
  using assms
  by (auto simp: stamp_packet_def rewritten_def same_core_def elim!: bind_eq_SomeE split: if_splits payload.splits)

context switch_handlers
begin

lemma release_packet_keeps:
  assumes "keeps again" and "Inv E ((i, q, p) # X) s" and "q \<noteq> 0" and "release_packet again env i q p s = Some (p', s')"
  shows "Inv E ((i, 0, p') # X) s'"
proof -
  obtain t where t: "pkt_tag p = Some t"
    using assms(4) unfolding release_packet_def by (elim bind_eq_SomeE) auto
  let ?m = "RemoveFromEgressAdmission (RemoveFromIngressAdmission (sw_mmu s) (unat t) q (pkt_size p)) i q (pkt_size p)"
  let ?s = "s\<lparr>sw_mmu := ?m, sw_bytes := (sw_bytes s)(unat t := upd2 (sw_bytes s (unat t)) i q (sw_bytes s (unat t) i q - pkt_size p))\<rparr>"
  obtain s1 where m: "mark_ecn env i q p ?s = (p', s1)" and c: "CheckAndSendResume again env (unat t) q s1 = Some s'"
    using assms(4) t unfolding release_packet_def Let_def
    by (auto elim!: bind_eq_SomeE split: prod.splits)
  note w = mark_ecn_rewritten [OF m]
  have "same_core (s\<lparr>sw_mmu := ?m\<rparr>) s1" using w(2) by (simp add: same_core_def)
  then have "Inv (insert (unat t, q) E) ((i, 0, p') # X) s1"
    using rewrite_core [OF release [OF assms(2,3) t] w(1)] by blast
  then show ?thesis using CheckAndSendResume_keeps [OF assms(1) _ c] by blast
qed

lemma SwitchNotifyDequeue_keeps:
  assumes "keeps again" and "Inv E ((i, q, p) # X) s" and "SwitchNotifyDequeue again env i q p s = Some (p', s')"
  shows "Inv E ((i, 0, p') # X) s'"
proof -
  obtain p1 s1 s2 where r: "(if q \<noteq> 0 then release_packet again env i q p s else Some (p, s)) = Some (p1, s1)"
    and t: "stamp_packet env i p1 s1 = Some (p', s2)" and e: "same_core s2 s'"
    using assms(3) unfolding SwitchNotifyDequeue_def by (auto elim!: bind_eq_SomeE)
  have "Inv E ((i, 0, p1) # X) s1"
    using r assms(2) release_packet_keeps [OF assms(1,2)] by (cases "q = 0") auto
  then show ?thesis using rewrite_core stamp_packet_rewritten [OF t] same_core_trans e by blast
qed

lemma TransmitStart_keeps:
  assumes "Inv E ((i, 0, p) # X) s" and "sw_TransmitStart i p s = Some s'" and "i < pCnt"
  shows "Inv E X s'"
proof -
  obtain d txTime x where d: "sw_devices s i = Some d"
    and s': "s' = (set_port i (d\<lparr>sp_busy := True, sp_currentPkt := Some p\<rparr>) s)\<lparr>sw_sim := x,
       sw_wire := sw_wire s @ [(i, p, Now (sw_sim s), txTime)]\<rparr>"
    using assms(2) unfolding sw_TransmitStart_def Let_def
    by (auto simp: set_port_def guard_bind_eq_Some elim!: bind_eq_SomeE)
  have "same_core (s\<lparr>sw_wire := sw_wire s @ [(i, p, Now (sw_sim s), txTime)]\<rparr>) s'"
    using d s' by (simp add: same_core_def set_port_def)
  then show ?thesis using core [OF transmit [OF assms(1,3)]] by blast
qed

lemma dequeue_body_keeps:
  assumes "keeps again" and "Inv E X s" and "dequeue_body again env i s = Some s'"
  shows "Inv E X s'"
proof -
  obtain d where d: "sw_devices s i = Some d" using assms(3) unfolding dequeue_body_def by (elim bind_eq_SomeE) blast
  show ?thesis
  proof (cases "\<not> sp_linkUp d \<or> sp_busy d")
    case True
    then show ?thesis using assms(2,3) d by (simp add: dequeue_body_def)
  next
    case False
    then obtain r b where c: "m_dwrrCur (sp_queue d) < beq_qCnt" "DequeueRR (sp_paused d) (sp_queue d) = Some (r, b)"
      and k: "(case r of None \<Rightarrow> Some (set_port i (d\<lparr>sp_queue := b\<rparr>) s)
         | Some p \<Rightarrow> SwitchNotifyDequeue again env i (GetLastQueue b) p (set_port i (d\<lparr>sp_queue := b\<rparr>) s)
             \<bind> (\<lambda>(p, s). sw_TransmitStart i (p\<lparr>pkt_tag := None\<rparr>) s)) = Some s'"
      using assms(3) d unfolding dequeue_body_def Let_def by (auto simp: guard_bind_eq_Some elim!: bind_eq_SomeE)
    show ?thesis
    proof (cases r)
      case None
      have "s' = set_port i (d\<lparr>sp_queue := b\<rparr>) s" using k None by simp
      then show ?thesis using dequeue_none [OF assms(2) d c(1)] c(2) None by blast
    next
      case (Some p)
      then obtain p1 s1 where n: "SwitchNotifyDequeue again env i (GetLastQueue b) p (set_port i (d\<lparr>sp_queue := b\<rparr>) s) = Some (p1, s1)"
        and t: "sw_TransmitStart i (p1\<lparr>pkt_tag := None\<rparr>) s1 = Some s'"
        using k by (auto elim!: bind_eq_SomeE)
      have i: "i < pCnt" using n by (auto simp: SwitchNotifyDequeue_def guard_bind_eq_Some)
      then have "Inv E ((i, GetLastQueue b, p) # X) (set_port i (d\<lparr>sp_queue := b\<rparr>) s)"
        using dequeue [OF assms(2) d _ c(1)] c(2) Some by (simp add: GetLastQueue_def)
      then have "Inv E ((i, 0, p1) # X) s1" by (rule SwitchNotifyDequeue_keeps [OF assms(1) _ n])
      from TransmitStart_keeps [OF rewrite [OF this rewritten_tag] t i] show ?thesis .
    qed
  qed
qed

lemma fuel_keeps: "keeps (dequeue_fuel (\<lambda>_ _. None) n env)"
proof (induction n)
  case (Suc n)
  have "Inv E X s \<Longrightarrow> dequeue_fuel (\<lambda>_ _. None) (Suc n) env i s = Some s' \<Longrightarrow> Inv E X s'" for E X i s s'
    by (rule dequeue_body_keeps [OF Suc]) simp_all
  then show ?case unfolding keeps_def by blast
qed (simp add: keeps_def)

lemma DequeueAndTransmit_keeps: "keeps (sw_DequeueAndTransmit env)"
  using fuel_keeps unfolding keeps_def sw_DequeueAndTransmit_def by blast

lemma SendToDev_keeps:
  assumes "keeps again" and "Inv E ((pCnt, 0, p) # X) s" and "accept p" and "SendToDev again env p s = Some s'"
  shows "Inv E X s'"
proof -
  obtain idx where o: "GetOutDev (sw_ecmpSeed s) (sw_rtTable s) (se_junk env) p = Some idx"
    by (rule bind_eq_SomeE [OF assms(4) [unfolded SendToDev_def]]) (erule that)
  show ?thesis
  proof (cases idx)
    case None
    then show ?thesis using discard [OF assms(2)] assms(4) o by (simp add: SendToDev_def)
  next
    case (Some e)
    let ?q = "queue_of (sw_ackHighPrio (sw_conf s)) (se_junk env) p"
    obtain d t where t: "sw_devices s e = Some d" "sp_linkUp d" "pkt_tag p = Some t"
      and g: "e < pCnt" "unat t < pCnt" "?q < qCnt" "?q \<noteq> 0 \<longrightarrow> mmu_defined (sw_mmu s) (unat t) ?q"
      using assms(4) o Some unfolding SendToDev_def Let_def
      by (auto simp: guard_bind_eq_Some elim!: bind_eq_SomeE)
    let ?m = "UpdateEgressAdmission (UpdateIngressAdmission (sw_mmu s) (unat t) ?q (pkt_size p)) e ?q (pkt_size p)"
    show ?thesis
    proof (cases "?q \<noteq> 0 \<and> \<not> admits (sw_mmu s) (unat t) e ?q (pkt_size p)")
      case True
      then show ?thesis using discard [OF assms(2)] assms(4) o Some t g by (simp add: SendToDev_def Let_def)
    next
      case False
      then have k: "((if ?q \<noteq> 0 then CheckAndSendPfc again env (unat t) ?q (s\<lparr>sw_mmu := ?m\<rparr>) else Some s) \<bind>
          (\<lambda>s. SwitchSend again e ?q p (s\<lparr>sw_bytes := (sw_bytes s)(unat t := upd2 (sw_bytes s (unat t)) e ?q
             (sw_bytes s (unat t) e ?q + pkt_size p))\<rparr>))) = Some s'"
        using assms(4) o Some t g by (auto simp: SendToDev_def Let_def guard_def split: if_splits)
      obtain s1 s2 where c: "(if ?q \<noteq> 0 then CheckAndSendPfc again env (unat t) ?q (s\<lparr>sw_mmu := ?m\<rparr>) else Some s) = Some s1"
        and b: "same_core s1 s2" and e: "SwitchSend again e ?q p s2 = Some s'"
        by (rule bind_eq_SomeE [OF k]) (use same_core_simps(4) in blast)
      have h: "Inv E ((e, 0, p) # X) s" by (rule routed [OF assms(2) o [unfolded Some]])
      have "Inv E ((e, ?q, p) # X) s1"
      proof (cases "?q = 0")
        case True
        then show ?thesis using c h by simp
      next
        case q: False
        have "Inv E ((e, ?q, p) # X) (s\<lparr>sw_mmu := ?m\<rparr>)"
          using charge [OF h assms(3) t(3) g(2,1,3) q] False q by blast
        then show ?thesis using c q CheckAndSendPfc_keeps [OF assms(1) _ assms(3) t(3) g(2,3)] by auto
      qed
      then show ?thesis using SwitchSend_keeps [OF assms(1) core [OF _ b] e] by blast
    qed
  qed
qed

lemma again_keeps: "Inv E X s \<Longrightarrow> sw_DequeueAndTransmit env i s = Some s' \<Longrightarrow> Inv E X s'"
  using DequeueAndTransmit_keeps unfolding keeps_def by blast

lemma port_change_keeps:
  "Inv E X s \<Longrightarrow> sw_devices s i = Some d \<Longrightarrow> sp_queue d' = sp_queue d \<Longrightarrow> Inv E X (set_port i d' s)"
  by (blast intro: core same_core_port)

lemma TransmitComplete_keeps:
  assumes "Inv E X s" and "sw_TransmitComplete env i s = Some s'"
  shows "Inv E X s'"
proof -
  obtain d where d: "sw_devices s i = Some d"
    and k: "sw_DequeueAndTransmit env i (set_port i (d\<lparr>sp_busy := False, sp_currentPkt := None\<rparr>) s) = Some s'"
    using assms(2) unfolding sw_TransmitComplete_def by (auto simp: guard_bind_eq_Some elim!: bind_eq_SomeE)
  show ?thesis by (rule again_keeps [OF port_change_keeps [OF assms(1) d] k]) simp
qed

lemma Resume_keeps:
  assumes "Inv E X s" and "sw_Resume env i q s = Some s'"
  shows "Inv E X s'"
proof -
  obtain d where d: "sw_devices s i = Some d"
    and k: "sw_DequeueAndTransmit env i (set_port i (d\<lparr>sp_paused := (sp_paused d)(q := False)\<rparr>) s) = Some s'"
    using assms(2) unfolding sw_Resume_def by (auto simp: guard_bind_eq_Some elim!: bind_eq_SomeE)
  show ?thesis by (rule again_keeps [OF port_change_keeps [OF assms(1) d] k]) simp
qed

lemma pfc_keeps:
  assumes "Inv E X s" and "sw_pfc env i pf s = Some s'"
  shows "Inv E X s'"
  using assms Resume_keeps port_change_keeps unfolding sw_pfc_def
  by (auto simp: guard_bind_eq_Some elim!: bind_eq_SomeE split: if_splits)

lemma Receive_keeps:
  assumes "Inv E ((pCnt, 0, p) # X) s" and "accept p" and "sw_Receive env corrupt i p s = Some s'"
  shows "Inv E X s'"
  using assms pfc_keeps [OF discard [OF assms(1)]]
    SendToDev_keeps [OF DequeueAndTransmit_keeps rewrite [OF assms(1) rewritten_tag] accept_tag [OF assms(2)]]
  unfolding sw_Receive_def SwitchReceiveFromDevice_def
  by (auto dest: discard elim!: bind_eq_SomeE split: if_splits payload.splits)

lemma ProcessOneEvent_keeps:
  assumes "Inv E X s" and "sw_ProcessOneEvent env s = Some s'"
  shows "Inv E X s'"
proof -
  obtain e x where k: "(case e of None \<Rightarrow> Some (s\<lparr>sw_sim := x\<rparr>)
     | Some (Sw_TransmitComplete i) \<Rightarrow> sw_TransmitComplete env i (s\<lparr>sw_sim := x\<rparr>)) = Some s'"
    using assms(2) unfolding sw_ProcessOneEvent_def by (auto elim!: bind_eq_SomeE)
  have "Inv E X (s\<lparr>sw_sim := x\<rparr>)" by (rule core [OF assms(1)]) simp
  then show ?thesis using k TransmitComplete_keeps by (auto split: option.splits sw_event.splits)
qed

lemma drop_queue_keeps:
  assumes "Inv E X s" and "sw_devices s i = Some d" and "i < pCnt" and "drop_queue n (sp_queue d) = Some b"
  shows "Inv E X (set_port i (d\<lparr>sp_queue := b\<rparr>) s)"
  using assms
proof (induction n arbitrary: s d)
  case (Suc n)
  obtain r b1 where c: "m_dwrrCur (sp_queue d) < beq_qCnt" "DequeueRR (\<lambda>_. False) (sp_queue d) = Some (r, b1)"
    and k: "(case r of None \<Rightarrow> Some b1 | Some p \<Rightarrow> drop_queue n b1) = Some b"
    using Suc.prems(4) by (auto simp: guard_bind_eq_Some elim!: bind_eq_SomeE)
  show ?case
  proof (cases r)
    case None
    then have "b1 = b" using k by simp
    then show ?thesis using dequeue_none [OF Suc.prems(1,2) c(1)] c(2) None by blast
  next
    case (Some p)
    let ?s = "set_port i (d\<lparr>sp_queue := b1\<rparr>) s"
    have "Inv E X ?s" using discard [OF dequeue [OF Suc.prems(1-3) c(1)]] c(2) Some by blast
    moreover have "sw_devices ?s i = Some (d\<lparr>sp_queue := b1\<rparr>)" by (simp add: set_port_def)
    ultimately have "Inv E X (set_port i (d\<lparr>sp_queue := b1, sp_queue := b\<rparr>) ?s)"
      using Suc.IH [of ?s "d\<lparr>sp_queue := b1\<rparr>"] Suc.prems(3) k Some by simp
    then show ?thesis by (simp add: set_port_def)
  qed
qed simp

lemma TakeDown_keeps:
  assumes "Inv E X s" and "i < pCnt" and "sw_TakeDown i s = Some s'"
  shows "Inv E X s'"
proof -
  obtain d b where d: "sw_devices s i = Some d" and b: "drop_queue (Suc (total_packets (sp_queue d))) (sp_queue d) = Some b"
    and s': "s' = set_port i (d\<lparr>sp_paused := (\<lambda>q. if q < nic_qCnt then False else sp_paused d q),
       sp_queue := b, sp_linkUp := False\<rparr>) s"
    using assms(3) unfolding sw_TakeDown_def by (auto elim!: bind_eq_SomeE)
  note k = drop_queue_keeps [OF assms(1) d assms(2) b]
  have "same_core (set_port i (d\<lparr>sp_queue := b\<rparr>) s) s'" by (simp add: s' same_core_def set_port_def)
  then show ?thesis by (rule core [OF k])
qed

end

subsection \<open>Runs\<close>

text \<open>What can happen to a switch: packets that satisfy \<open>A\<close> arrive, its events run, its routes change within
  the allowed ones, its ports go down, and time passes in which only other nodes do something.\<close>

inductive sw_step :: "(packet \<Rightarrow> bool) \<Rightarrow> (u32 \<Rightarrow> nat \<Rightarrow> bool) \<Rightarrow> SwitchNode \<Rightarrow> SwitchNode \<Rightarrow> bool" for A L where
  Receive: "A p \<Longrightarrow> sw_Receive env corrupt i p s = Some s' \<Longrightarrow> sw_step A L s s'"
| Event: "sw_ProcessOneEvent env s = Some s' \<Longrightarrow> sw_step A L s s'"
| Down: "i < pCnt \<Longrightarrow> sw_TakeDown i s = Some s' \<Longrightarrow> sw_step A L s s'"
| Route: "L dip idx \<Longrightarrow> sw_step A L s (sw_AddTableEntry dip idx s)"
| Clear: "sw_step A L s (sw_ClearTable s)"
| Seed: "sw_step A L s (SetEcmpSeed seed s)"
| Wait: "wait_until t (sw_sim s) = Some e \<Longrightarrow> sw_step A L s (s\<lparr>sw_sim := e\<rparr>)"

text \<open>A step in which nothing arrives.\<close>

abbreviation quiet :: "(u32 \<Rightarrow> nat \<Rightarrow> bool) \<Rightarrow> SwitchNode \<Rightarrow> SwitchNode \<Rightarrow> bool" where
  "quiet \<equiv> sw_step (\<lambda>_. False)"

lemma sw_step_split:
  assumes "sw_step A L s s'"
  obtains "quiet L s s'" | env corrupt i p where "A p" and "sw_Receive env corrupt i p s = Some s'"
  using assms by cases (auto intro: sw_step.intros)

lemma sw_step_mono: "sw_step A L s s' \<Longrightarrow> (\<And>p. A p \<Longrightarrow> B p) \<Longrightarrow> sw_step B L s s'"
  by (erule sw_step.cases) (auto intro: sw_step.intros)

context switch_handlers
begin

lemma quiet_keeps:
  assumes "quiet allowed s s'" and "Inv E X s"
  shows "Inv E X s'"
  using assms
proof (cases rule: sw_step.cases)
  case Seed
  then show ?thesis using core [OF assms(2)] by (simp add: SetEcmpSeed_def)
next
  case (Wait t e)
  then show ?thesis using core [OF assms(2)] by simp
qed (use assms(2) ProcessOneEvent_keeps TakeDown_keeps add_route clear_routes in blast)+

end

text \<open>An invariant that any arrival keeps holds in every run.\<close>

locale switch_invariant = switch_handlers +
  assumes arrive: "Inv E X s \<Longrightarrow> accept p \<Longrightarrow> Inv E ((pCnt, 0, p) # X) s"
begin

lemma step_keeps: "sw_step accept allowed s s' \<Longrightarrow> Inv E X s \<Longrightarrow> Inv E X s'"
  by (erule sw_step_split) (blast intro: quiet_keeps Receive_keeps arrive)+

lemma run_keeps: "(sw_step accept allowed)\<^sup>*\<^sup>* s s' \<Longrightarrow> Inv E X s \<Longrightarrow> Inv E X s'"
  by (induction rule: rtranclp_induct) (auto intro: step_keeps)

end

end
