(* ===== verification/Switch_Contents.thy ===== *)
theory Switch_Contents
  imports Switch_Invariants
begin

text \<open>
  What is in a switch, counted: a function gives every packet, with its port and its queue, a multiset, and
  \<open>tally\<close> adds these up over the queues and over the packets that a handler holds. Enqueuing and dequeuing
  move packets between the two. \<open>Switch_Accounting\<close> counts residents of the buffer, \<open>Switch_Forwarding\<close>
  the packets themselves.
\<close>

type_synonym 'a weight = "nat \<Rightarrow> nat \<Rightarrow> packet \<Rightarrow> 'a multiset"

definition weigh :: "'a weight \<Rightarrow> nat \<Rightarrow> BEgressQueue \<Rightarrow> 'a multiset" where
  "weigh f i b = (\<Sum>q<fCnt. sum_list (map (f i q) (contents b q)))"

definition port_weight :: "'a weight \<Rightarrow> nat \<Rightarrow> SwitchPort option \<Rightarrow> 'a multiset" where
  "port_weight f i x = (case x of None \<Rightarrow> {#} | Some d \<Rightarrow> weigh f i (sp_queue d))"

definition in_switch :: "'a weight \<Rightarrow> SwitchNode \<Rightarrow> 'a multiset" where
  "in_switch f s = (\<Sum>i<pCnt. port_weight f i (sw_devices s i))"

definition in_hands :: "'a weight \<Rightarrow> in_hand list \<Rightarrow> 'a multiset" where
  "in_hands f X = sum_list (map (\<lambda>(i, q, p). f i q p) X)"

definition tally :: "'a weight \<Rightarrow> in_hand list \<Rightarrow> SwitchNode \<Rightarrow> 'a multiset" where
  "tally f X s = in_switch f s + in_hands f X"

lemma in_hands_simps [simp]: "in_hands f [] = {#}" "in_hands f ((i, q, p) # X) = f i q p + in_hands f X"
  by (simp_all add: in_hands_def)

lemma port_weight_simps [simp]: "port_weight f i None = {#}" "port_weight f i (Some d) = weigh f i (sp_queue d)"
  by (simp_all add: port_weight_def)

lemma port_weight_cong: "map_option sp_queue x = map_option sp_queue y \<Longrightarrow> port_weight f i x = port_weight f i y"
  by (cases x; cases y) auto

lemma in_switch_same_core: "same_core s s' \<Longrightarrow> in_switch f s' = in_switch f s"
  unfolding in_switch_def same_core_def by (intro sum.cong refl port_weight_cong) simp

lemma in_switch_fields [simp]:
  "in_switch f (s\<lparr>sw_mmu := m\<rparr>) = in_switch f s" "in_switch f (s\<lparr>sw_wire := w\<rparr>) = in_switch f s"
  by (simp_all add: in_switch_def)

lemma set_port_fields [simp]:
  "sw_mmu (set_port i d s) = sw_mmu s" "sw_wire (set_port i d s) = sw_wire s"
  by (simp_all add: set_port_def)

text \<open>A sum in which one summand changes.\<close>

lemma sum_change:
  fixes f g :: "'a \<Rightarrow> 'b::comm_monoid_add"
  assumes "finite A" and "a \<in> A" and "\<And>x. x \<in> A - {a} \<Longrightarrow> g x = f x"
  shows "sum g A + f a = sum f A + g a"
proof -
  have "sum g (A - {a}) = sum f (A - {a})" using assms(3) by (rule sum.cong [OF refl])
  then show ?thesis using sum.remove [OF assms(1,2), of f] sum.remove [OF assms(1,2), of g] by (simp add: ac_simps)
qed

lemma in_switch_set_port:
  assumes "sw_devices s i = Some d" and "i < pCnt"
  shows "in_switch f (set_port i d' s) + weigh f i (sp_queue d) = in_switch f s + weigh f i (sp_queue d')"
  using sum_change [of "{..<pCnt}" i "\<lambda>j. port_weight f j (sw_devices (set_port i d' s) j)" "\<lambda>j. port_weight f j (sw_devices s j)"]
    assms by (simp add: in_switch_def set_port_def)

lemma in_switch_set_port_other:
  assumes "\<not> i < pCnt"
  shows "in_switch f (set_port i d' s) = in_switch f s"
  unfolding in_switch_def using assms by (intro sum.cong) (auto simp: set_port_def)

lemma weigh_change:
  assumes "\<forall>r. r \<noteq> q \<longrightarrow> contents b' r = contents b r" and "q < fCnt"
  shows "weigh f i b' + sum_list (map (f i q) (contents b q)) = weigh f i b + sum_list (map (f i q) (contents b' q))"
  unfolding weigh_def
  using assms sum_change [of "{..<fCnt}" q "\<lambda>q. sum_list (map (f i q) (contents b' q))" "\<lambda>q. sum_list (map (f i q) (contents b q))"]
  by simp

lemma weigh_enqueue:
  assumes "beq_Enqueue p q b = Some (ok, b')"
  shows "weigh f i b' \<subseteq># weigh f i b + f i q p"
proof (cases "q < fCnt")
  case True
  note c = beq_Enqueue_contents [OF assms]
  note k = weigh_change [OF c(1) True, of f i]
  from c(2) consider "contents b' q = contents b q" | "contents b' q = contents b q @ [p]" by blast
  then show ?thesis
  proof cases
    case 2
    with k have "weigh f i b' = weigh f i b + f i q p" by (simp add: ac_simps)
    then show ?thesis by simp
  qed (use k in simp)
next
  case False
  then have "weigh f i b' = weigh f i b"
    unfolding weigh_def using beq_Enqueue_contents(1) [OF assms] by (intro sum.cong) auto
  then show ?thesis by simp
qed

lemma weigh_dequeue:
  assumes "DequeueRR paused b = Some (Some p, b')" and "m_dwrrCur b < beq_qCnt"
  shows "weigh f i b = weigh f i b' + f i (m_qlast b') p"
proof -
  note c = DequeueRR_cases(3) [OF assms refl]
  have q: "m_qlast b' < fCnt" using c by (simp add: beq_qCnt_def fCnt_def)
  have "\<forall>r. r \<noteq> m_qlast b' \<longrightarrow> contents b' r = contents b r" using c by simp
  from weigh_change [OF this q, of f i] c show ?thesis by (simp add: ac_simps)
qed

subsection \<open>Moves between queues and hands\<close>

lemma tally_same_core: "same_core s s' \<Longrightarrow> tally f X s' = tally f X s"
  by (simp add: tally_def in_switch_same_core)

lemma tally_enqueue:
  assumes "sw_devices s i = Some d" and "beq_Enqueue p q (sp_queue d) = Some (ok, b)"
  shows "tally f X (set_port i (d\<lparr>sp_queue := b\<rparr>) s) \<subseteq># tally f ((i, q, p) # X) s"
proof (cases "i < pCnt")
  case True
  have "in_switch f (set_port i (d\<lparr>sp_queue := b\<rparr>) s) + weigh f i (sp_queue d) = in_switch f s + weigh f i b"
    using in_switch_set_port [OF assms(1) True, of f "d\<lparr>sp_queue := b\<rparr>"] by simp
  also have "\<dots> \<subseteq># in_switch f s + (weigh f i (sp_queue d) + f i q p)"
    using weigh_enqueue [OF assms(2), of f i] by simp
  finally have "in_switch f (set_port i (d\<lparr>sp_queue := b\<rparr>) s) \<subseteq># in_switch f s + f i q p" by (simp add: ac_simps)
  then show ?thesis by (simp add: tally_def ac_simps)
qed (simp add: tally_def in_switch_set_port_other)

lemma tally_dequeue:
  assumes "sw_devices s i = Some d" and "i < pCnt" and "m_dwrrCur (sp_queue d) < beq_qCnt"
    and "DequeueRR paused (sp_queue d) = Some (Some p, b)"
  shows "tally f ((i, m_qlast b, p) # X) (set_port i (d\<lparr>sp_queue := b\<rparr>) s) = tally f X s"
  using in_switch_set_port [OF assms(1,2), of f "d\<lparr>sp_queue := b\<rparr>"] weigh_dequeue [OF assms(4,3), of f i]
  by (simp add: tally_def ac_simps)

lemma tally_dequeue_none:
  assumes "sw_devices s i = Some d" and "m_dwrrCur (sp_queue d) < beq_qCnt"
    and "DequeueRR paused (sp_queue d) = Some (None, b)"
  shows "tally f X (set_port i (d\<lparr>sp_queue := b\<rparr>) s) = tally f X s"
proof -
  have "weigh f i b = weigh f i (sp_queue d)" using DequeueRR_cases(2) [OF assms(3,2)] by (simp add: weigh_def)
  then show ?thesis
    using in_switch_set_port [OF assms(1), of f "d\<lparr>sp_queue := b\<rparr>"] in_switch_set_port_other [of i f "d\<lparr>sp_queue := b\<rparr>" s]
    by (cases "i < pCnt") (auto simp: tally_def)
qed

definition fresh_switch :: "SwitchNode \<Rightarrow> bool" where
  "fresh_switch s \<longleftrightarrow> sw_wire s = [] \<and> (\<forall>i d q. sw_devices s i = Some d \<longrightarrow> contents (sp_queue d) q = [])"

lemma fresh_switch_tally: "fresh_switch s \<Longrightarrow> tally f [] s = {#}"
  by (auto simp: fresh_switch_def tally_def in_switch_def port_weight_def weigh_def intro!: sum.neutral split: option.splits)

end
