(* ===== verification/Switch_Demo.thy ===== *)
theory Switch_Demo
  imports Switch_Invariants
begin

text \<open>
  A switch of two ports at a concrete moment: the port that a packet of 5000 bytes leaves through is busy, the
  buffer has no shared part, and so the packet goes to the headroom and the switch pauses the port it came from.
\<close>

definition demo_port :: SwitchPort where
  "demo_port = \<lparr>sp_bps = 100000000000, sp_tInterframeGap = 0, sp_linkUp = True, sp_busy = False, sp_currentPkt = None,
     sp_qbbEnabled = True, sp_paused = (\<lambda>_. False), sp_pausetime = 5, sp_addr = 0x0b000001, sp_queue = BEgressQueue_init 0\<rparr>"

definition demo_conf :: SwitchNode_conf where
  "demo_conf = \<lparr>sw_ecnEnabled = True, sw_ccMode = 3, sw_maxRtt = 9000, sw_ackHighPrio = True,
     sw_fsAlpha = Fin 0, sw_fsBeta = Fin 0, sw_fsInitFrac = Fin (1 / 2), sw_fsDScale = Fin 1, sw_fsFixedPoint = False,
     sw_mixFsDport = 0, sw_int = \<lparr>ih_mode = NORMAL, pint_bytes = 2, multi = 1\<rparr>, sw_logBase = Fin 1\<rparr>"

definition demo_env :: sw_env where
  "demo_env = \<lparr>se_lm = \<lparr>lm_log = (\<lambda>x. x), lm_log2 = (\<lambda>x. x), lm_pow = (\<lambda>x y. x)\<rparr>, se_ecn = (\<lambda>_. Fin 0), se_ipid = (\<lambda>_. 7),
     se_rand = (\<lambda>_ _. 0), se_junk = 0\<rparr>"

definition demo_arrival :: packet where
  "demo_arrival = \<lparr>pkt_ip = Ipv4Header_init\<lparr>ip_protocol := 0x11, ip_source := 0x0b000101, ip_destination := 0x0b000201\<rparr>,
     pkt_load = Udp_Data 10000 100 0 3 IntHeader_init, pkt_size = 5000, pkt_tag = None\<rparr>"

definition demo_switch :: SwitchNode where
  "demo_switch = (SwitchNode_init 1 demo_conf blank_mmu [1 \<mapsto> demo_port, 2 \<mapsto> demo_port\<lparr>sp_busy := True\<rparr>])
     \<lparr>sw_rtTable := [0x0b000201 \<mapsto> [2]], sw_mmu := demo_mmu 18192\<rparr>"

text \<open>The queue after one packet has been put into it.\<close>

definition demo_queued :: "nat \<Rightarrow> packet \<Rightarrow> BEgressQueue" where
  "demo_queued q p = (BEgressQueue_init 0)\<lparr>m_queues := (\<lambda>_. OldQueue_init)(q := OldQueue_init\<lparr>m_bytesInDropTail := pkt_size p,
       m_packets := [p], m_nBytes := pkt_size p, m_nTotalReceivedBytes := pkt_size p, m_nPackets := 1, m_nTotalReceivedPackets := 1\<rparr>),
     m_bytesInQueueTotal := pkt_size p, m_bytesInQueue := (\<lambda>_. 0)(q := pkt_size p), beq_nBytes := pkt_size p,
     beq_totalBytes := pkt_size p, beq_nPackets := 1, beq_totalPackets := 1\<rparr>"

lemma demo_enqueue:
  assumes "unat (pkt_size p) < 1000000" and "q < fCnt"
  shows "beq_Enqueue p q (BEgressQueue_init 0) = Some (True, demo_queued q p)"
proof -
  have "\<not> (1966050000 :: u32) \<le> pkt_size p" using assms(1) by (simp add: word_le_nat_alt)
  moreover have "u2r (pkt_size p) < u2r (1048576000 :: u32)" using assms(1) by (simp add: word_less_nat_alt)
  then have "u2r (pkt_size p) < 1048576000" by (simp add: u2r_def [of "1048576000 :: u32"] del: u2r_less_iff)
  ultimately show ?thesis
    using assms by (simp add: beq_Enqueue_def beq_DoEnqueue_def BEgressQueue_init_def demo_queued_def guard_def Enqueue_def
      DoEnqueue_def OldQueue_init_def Let_def fun_upd_def)
qed

lemma demo_dequeue:
  assumes "pkt_size p \<noteq> 0"
  shows "\<exists>b. DequeueRR paused (demo_queued 0 p) = Some (Some p, b) \<and> m_qlast b = 0 \<and> m_dwrrCur b = 1"
  using assms by (simp add: DequeueRR_def DoDequeueRR_def select_queue_def Dequeue_def DoDequeue_def demo_queued_def
      BEgressQueue_init_def OldQueue_init_def Let_def guard_def)

subsection \<open>The packet arrives\<close>

definition demo_tagged :: packet where
  "demo_tagged = demo_arrival\<lparr>pkt_tag := Some 1\<rparr>"

definition demo_frame :: packet where
  "demo_frame = pfc_frame 0x0b000001 7 \<lparr>pause_time = 5, pause_qlen = 0, pause_qindex = 3\<rparr>"

lemmas demo_switch_defs = demo_switch_def SwitchNode_init_def demo_port_def demo_conf_def demo_env_def

lemma demo_route: "GetOutDev (sw_ecmpSeed demo_switch) (sw_rtTable demo_switch) 0 demo_tagged = Some (Some 2)"
  by (simp add: GetOutDev_def demo_switch_defs demo_tagged_def demo_arrival_def flow_ports_def pkt_proto_def guard_def Let_def)

lemma demo_charged: "UpdateEgressAdmission (UpdateIngressAdmission (demo_mmu 18192) 1 3 5000) 2 3 5000
    = (demo_mmu 18192)\<lparr>hdrm_bytes := upd2 (\<lambda>_ _. 0) 1 3 5000, egress_bytes := upd2 (\<lambda>_ _. 0) 2 3 5000\<rparr>"
  by (simp add: demo_mmu_eq blank_mmu_def UpdateEgressAdmission_def UpdateIngressAdmission_def GetPfcThreshold_def Let_def)

lemma demo_admitted: "admits (demo_mmu 18192) 1 2 3 5000"
  by (simp add: admits_def CheckIngressAdmission_def CheckEgressAdmission_def demo_mmu_eq blank_mmu_def)

lemma demo_frame_simps [simp]: "pkt_size demo_frame = 43" "pkt_tag demo_frame = None" "pkt_proto demo_frame = 0xFE"
  by (simp_all add: demo_frame_def pfc_frame_def PauseHeader_size_def ppp_GetStaticSize_def pkt_proto_def)

lemma demo_transmit:
  assumes "sw_devices s 1 = Some (demo_port\<lparr>sp_queue := demo_queued 0 p\<rparr>)" and "sw_sim s = sim_init"
    and "pkt_size p \<noteq> 0" and "pkt_proto p \<noteq> 0x11" and "CalculateBytesTxTime 100000000000 (pkt_size p) = Some t" and "0 \<le> t" and "t \<le> 1000"
  shows "\<exists>s'. sw_DequeueAndTransmit env 1 s = Some s' \<and> sw_mmu s' = sw_mmu s \<and> sw_wire s' = sw_wire s @ [(1, p\<lparr>pkt_tag := None\<rparr>, 0, t)]
      \<and> sw_devices s' 2 = sw_devices s 2 \<and> sw_conf s' = sw_conf s \<and> sw_ecmpSeed s' = sw_ecmpSeed s \<and> sw_rtTable s' = sw_rtTable s"
proof -
  obtain b where b: "DequeueRR (\<lambda>_. False) (demo_queued 0 p) = Some (Some p, b)" "m_qlast b = 0"
    using demo_dequeue [of p "\<lambda>_. False"] assms(3) by auto
  have c: "m_dwrrCur (demo_queued 0 p) < beq_qCnt" by (simp add: demo_queued_def BEgressQueue_init_def beq_qCnt_def)
  show ?thesis
    using assms by (auto simp: sw_DequeueAndTransmit_def dequeue_body_def demo_port_def b c guard_def set_port_def GetLastQueue_def
        SwitchNotifyDequeue_def stamp_packet_def sw_TransmitStart_def Schedule_def sim_init_def max_time_def Let_def pCnt_def Now_def)
qed

lemma demo_tx_time: "CalculateBytesTxTime 100000000000 43 = Some 3" "CalculateBytesTxTime 100000000000 100 = Some 8"
  using CalculateBitsTxTime_eq [of 100000000000 344] CalculateBitsTxTime_eq [of 100000000000 800]
  by (simp_all add: CalculateBytesTxTime_def q_round_nonneg)

lemma demo_pause:
  assumes "s = demo_switch\<lparr>sw_mmu := (demo_mmu 18192)\<lparr>hdrm_bytes := upd2 (\<lambda>_ _. 0) 1 3 5000, egress_bytes := upd2 (\<lambda>_ _. 0) 2 3 5000\<rparr>\<rparr>"
  shows "\<exists>s'. CheckAndSendPfc (sw_DequeueAndTransmit env) demo_env 1 3 s = Some s' \<and> sw_mmu s' = SetPause (sw_mmu s) 1 3
      \<and> sw_wire s' = [(1, demo_frame, 0, 3)] \<and> sw_devices s' 2 = sw_devices s 2 \<and> sw_conf s' = sw_conf s
      \<and> sw_ecmpSeed s' = sw_ecmpSeed s \<and> sw_rtTable s' = sw_rtTable s"
proof -
  let ?s = "set_port 1 (demo_port\<lparr>sp_queue := demo_queued 0 demo_frame\<rparr>) (s\<lparr>sw_draws := 1\<rparr>)"
  have c: "CheckShouldPause (sw_mmu s) 1 3"
    by (simp add: assms CheckShouldPause_def demo_mmu_eq blank_mmu_def)
  have e: "beq_Enqueue demo_frame 0 (BEgressQueue_init 0) = Some (True, demo_queued 0 demo_frame)"
    by (rule demo_enqueue) (simp_all add: fCnt_def)
  have f: "pfc_frame (sp_addr demo_port) (se_ipid demo_env 0) \<lparr>pause_time = sp_pausetime demo_port, pause_qlen = 0, pause_qindex = 3\<rparr> = demo_frame"
    by (simp add: demo_frame_def demo_port_def demo_env_def)
  have d: "sw_devices s 1 = Some demo_port" "sw_draws s = 0" "sp_queue demo_port = BEgressQueue_init 0" "GetNBytes (BEgressQueue_init 0) 3 = Some 0"
    by (simp_all add: assms demo_switch_def SwitchNode_init_def demo_port_def GetNBytes_def BEgressQueue_init_def fCnt_def guard_def)
  have "SendPfc (sw_DequeueAndTransmit env) demo_env 1 3 True s = sw_DequeueAndTransmit env 1 ?s"
    using d f e by (simp add: SendPfc_def SwitchSend_def set_port_def)
  moreover have "sw_devices ?s 1 = Some (demo_port\<lparr>sp_queue := demo_queued 0 demo_frame\<rparr>)" "sw_sim ?s = sim_init"
    "sw_mmu ?s = sw_mmu s" "sw_wire ?s = []" "sw_devices ?s 2 = sw_devices s 2" "sw_conf ?s = sw_conf s"
    "sw_ecmpSeed ?s = sw_ecmpSeed s" "sw_rtTable ?s = sw_rtTable s"
    by (simp_all add: set_port_def assms demo_switch_def SwitchNode_init_def)
  moreover have "demo_frame\<lparr>pkt_tag := None\<rparr> = demo_frame" by (simp add: demo_frame_def pfc_frame_def)
  ultimately show ?thesis using demo_transmit [of ?s demo_frame 3 env] demo_tx_time c by (auto simp: CheckAndSendPfc_def)
qed

lemma demo_receive:
  "\<exists>s. sw_Receive demo_env False 1 demo_arrival demo_switch = Some s \<and> sw_wire s = [(1, demo_frame, 0, 3)]
     \<and> sw_mmu s = SetPause ((demo_mmu 18192)\<lparr>hdrm_bytes := upd2 (\<lambda>_ _. 0) 1 3 5000, egress_bytes := upd2 (\<lambda>_ _. 0) 2 3 5000\<rparr>) 1 3
     \<and> sw_devices s 2 = Some (demo_port\<lparr>sp_busy := True, sp_queue := demo_queued 3 demo_tagged\<rparr>)
     \<and> sw_conf s = demo_conf \<and> sw_ecmpSeed s = sw_ecmpSeed demo_switch \<and> sw_rtTable s = sw_rtTable demo_switch"
proof -
  let ?c = "demo_switch\<lparr>sw_mmu := (demo_mmu 18192)\<lparr>hdrm_bytes := upd2 (\<lambda>_ _. 0) 1 3 5000, egress_bytes := upd2 (\<lambda>_ _. 0) 2 3 5000\<rparr>\<rparr>"
  obtain s1 where s1: "CheckAndSendPfc (sw_DequeueAndTransmit demo_env) demo_env 1 3 ?c = Some s1"
    "sw_mmu s1 = SetPause (sw_mmu ?c) 1 3" "sw_wire s1 = [(1, demo_frame, 0, 3)]" "sw_devices s1 2 = sw_devices ?c 2"
    "sw_conf s1 = sw_conf ?c" "sw_ecmpSeed s1 = sw_ecmpSeed ?c" "sw_rtTable s1 = sw_rtTable ?c"
    using demo_pause [OF refl, of demo_env] by blast
  let ?s2 = "s1\<lparr>sw_bytes := (sw_bytes s1)(1 := upd2 (sw_bytes s1 1) 2 3 (sw_bytes s1 1 2 3 + 5000))\<rparr>"
  let ?s3 = "set_port 2 (demo_port\<lparr>sp_busy := True, sp_queue := demo_queued 3 demo_tagged\<rparr>) ?s2"
  have e: "beq_Enqueue demo_tagged 3 (BEgressQueue_init 0) = Some (True, demo_queued 3 demo_tagged)"
    by (rule demo_enqueue) (simp_all add: fCnt_def demo_tagged_def demo_arrival_def)
  have d: "sw_devices ?c 2 = Some (demo_port\<lparr>sp_busy := True\<rparr>)" "sw_mmu demo_switch = demo_mmu 18192"
    "sw_conf demo_switch = demo_conf" "sp_linkUp demo_port" "sw_devices demo_switch 2 = Some (demo_port\<lparr>sp_busy := True\<rparr>)"
    "sw_devices demo_switch 1 = Some demo_port" "se_junk demo_env = 0" "sp_queue demo_port = BEgressQueue_init 0"
    by (simp_all add: demo_switch_defs)
  have p: "pkt_tag demo_tagged = Some 1" "pkt_size demo_tagged = 5000" "pkt_proto demo_arrival = 0x11"
    "queue_of (sw_ackHighPrio demo_conf) 0 demo_tagged = 3" "demo_arrival\<lparr>pkt_tag := Some 1\<rparr> = demo_tagged"
    by (simp_all add: demo_tagged_def demo_arrival_def pkt_proto_def queue_of_def demo_conf_def)
  have g: "mmu_defined (demo_mmu 18192) 1 3" "(2::nat) < pCnt" "(1::nat) < pCnt" "(3::nat) < qCnt"
    by (simp_all add: mmu_defined_def demo_mmu_eq blank_mmu_def pCnt_def qCnt_def)
  have a: "sw_DequeueAndTransmit demo_env 2 ?s3 = Some ?s3"
    by (simp add: sw_DequeueAndTransmit_def dequeue_body_def set_port_def)
  have "SwitchSend (sw_DequeueAndTransmit demo_env) 2 3 demo_tagged ?s2 = Some ?s3"
    using a s1(4) d(1,8) e by (simp add: SwitchSend_def)
  then have "sw_Receive demo_env False 1 demo_arrival demo_switch = Some ?s3"
    using s1(1) demo_route demo_admitted demo_charged d p g
    by (simp add: sw_Receive_def SwitchReceiveFromDevice_def SendToDev_def Let_def guard_def)
  then show ?thesis using s1 d by (simp add: set_port_def demo_switch_def SwitchNode_init_def)
qed

lemma demo_switch_queues: "sw_devices demo_switch i = Some d \<Longrightarrow> contents (sp_queue d) q = []"
  by (auto simp: demo_switch_defs contents_def BEgressQueue_init_def OldQueue_init_def split: if_splits)

lemma demo_switch_simps [simp]: "sw_wire demo_switch = []" "sw_mmu demo_switch = demo_mmu 18192"
  by (simp_all add: demo_switch_defs)

lemma demo_arrival_simps [simp]: "pkt_size demo_arrival = 5000" "well_formed_packet demo_arrival"
  by (simp_all add: demo_arrival_def well_formed_packet_def pkt_proto_def)

end
