(* ===== verification/Switch_Accounting.thy ===== *)
theory Switch_Accounting
  imports Switch_Contents Switch_Demo
begin

text \<open>
  The buffer of a running switch (\<open>switch_accounting\<close>): \<open>SwitchMmu\<close> is charged for every packet that waits in
  the queues 1 to \<open>fCnt - 1\<close> of a port, whatever arrives, is sent, paused, resumed or dropped; and a class that is paused
  holds bytes of the buffer, so that the release of its last packet resumes it (\<open>drained_queue_resumes\<close>). The laws of
  \<open>switch_invariant\<close> are discharged by the steps of \<open>mmu_reach\<close>.
\<close>

subsection \<open>The buffer is charged for what waits\<close>

text \<open>A packet that waits: the port it came in, the port it leaves, its queue and its size. What waits in
  queue 0 is not charged.\<close>

definition resident_of :: "nat \<Rightarrow> nat \<Rightarrow> packet \<Rightarrow> resident multiset" where
  "resident_of i q p = (if q = 0 then {#}
     else {#(case pkt_tag p of None \<Rightarrow> 0 | Some t \<Rightarrow> unat t, i, q, pkt_size p)#})"

abbreviation queued :: "SwitchNode \<Rightarrow> resident multiset" where
  "queued s \<equiv> tally resident_of [] s"

definition charged :: "SwitchMmu \<Rightarrow> in_hand list \<Rightarrow> SwitchNode \<Rightarrow> bool" where
  "charged m0 X s \<longleftrightarrow> (\<exists>R. mmu_reach m0 (sw_mmu s) R \<and> tally resident_of X s \<subseteq># R)"

definition short :: "packet \<Rightarrow> bool" where
  "short p \<longleftrightarrow> unat (pkt_size p) < 65536"

lemma charged_less:
  "charged m0 X s \<Longrightarrow> sw_mmu s' = sw_mmu s \<Longrightarrow> tally resident_of Y s' \<subseteq># tally resident_of X s \<Longrightarrow> charged m0 Y s'"
  unfolding charged_def by (auto intro: subset_mset.order_trans)

lemma charged_step:
  assumes "charged m0 X s"
    and "\<And>R. mmu_reach m0 (sw_mmu s) R \<Longrightarrow> tally resident_of X s \<subseteq># R
      \<Longrightarrow> \<exists>R'. mmu_step (sw_mmu s, R) (m', R') \<and> tally resident_of Y s \<subseteq># R'"
  shows "charged m0 Y (s\<lparr>sw_mmu := m'\<rparr>)"
proof -
  obtain R where R: "mmu_reach m0 (sw_mmu s) R" "tally resident_of X s \<subseteq># R" using assms(1) by (auto simp: charged_def)
  obtain R' where "mmu_step (sw_mmu s, R) (m', R')" and "tally resident_of Y s \<subseteq># R'" using assms(2) [OF R] by blast
  then show ?thesis using mmu_reach.step [OF R(1)] by (auto simp: charged_def tally_def)
qed

lemma charged_release:
  assumes "charged m0 ((i, q, p) # X) s" and "q \<noteq> 0" and "pkt_tag p = Some t"
  shows "charged m0 ((i, 0, p) # X) (s\<lparr>sw_mmu :=
    RemoveFromEgressAdmission (RemoveFromIngressAdmission (sw_mmu s) (unat t) q (pkt_size p)) i q (pkt_size p)\<rparr>)"
proof (rule charged_step [OF assms(1)])
  fix R
  assume "tally resident_of ((i, q, p) # X) s \<subseteq># R"
  then have "add_mset (unat t, i, q, pkt_size p) (tally resident_of ((i, 0, p) # X) s) \<subseteq># R"
    using assms(2,3) by (simp add: resident_of_def tally_def)
  then obtain R' where "R = add_mset (unat t, i, q, pkt_size p) R'" and "tally resident_of ((i, 0, p) # X) s \<subseteq># R'"
    by (metis insert_subset_eq_iff insert_DiffM)
  then show "\<exists>R'. mmu_step (sw_mmu s, R) (RemoveFromEgressAdmission
      (RemoveFromIngressAdmission (sw_mmu s) (unat t) q (pkt_size p)) i q (pkt_size p), R')
    \<and> tally resident_of ((i, 0, p) # X) s \<subseteq># R'"
    using mmu_step.leave by (intro exI [of _ R']) simp
qed

lemma charged_charge:
  assumes "charged m0 ((e, 0, p) # X) s" and "short p" and "pkt_tag p = Some t" and "unat t < pCnt" and "e < pCnt"
    and "q < qCnt" and "q \<noteq> 0" and "admits (sw_mmu s) (unat t) e q (pkt_size p)"
  shows "charged m0 ((e, q, p) # X) (s\<lparr>sw_mmu :=
    UpdateEgressAdmission (UpdateIngressAdmission (sw_mmu s) (unat t) q (pkt_size p)) e q (pkt_size p)\<rparr>)"
proof (rule charged_step [OF assms(1)])
  fix R
  assume R: "tally resident_of ((e, 0, p) # X) s \<subseteq># R"
  have "mmu_step (sw_mmu s, R) (UpdateEgressAdmission (UpdateIngressAdmission (sw_mmu s) (unat t) q (pkt_size p)) e q (pkt_size p),
      add_mset (unat t, e, q, pkt_size p) R)"
    using assms(2,4-6,8) by (intro mmu_step.arrive) (simp_all add: short_def admits_def)
  moreover have "tally resident_of ((e, q, p) # X) s \<subseteq># add_mset (unat t, e, q, pkt_size p) R"
    using R assms(3,7) by (simp add: resident_of_def tally_def)
  ultimately show "\<exists>R'. mmu_step (sw_mmu s, R) (UpdateEgressAdmission
      (UpdateIngressAdmission (sw_mmu s) (unat t) q (pkt_size p)) e q (pkt_size p), R')
    \<and> tally resident_of ((e, q, p) # X) s \<subseteq># R'" by blast
qed

lemma resident_of_0 [simp]: "resident_of i 0 p = {#}"
  by (simp add: resident_of_def)

interpretation acct: switch_invariant "\<lambda>_. charged m0" short "\<lambda>_ _. True" for m0
proof unfold_locales
  show "charged m0 X s \<Longrightarrow> same_core s s' \<Longrightarrow> charged m0 X s'" for X s s'
    by (rule charged_less [of m0 X s s' X]) (simp_all add: tally_same_core, simp add: same_core_def)
  show "charged m0 ((e, q, p) # X) s \<Longrightarrow> charged m0 ((e, q, p) # X) (s\<lparr>sw_mmu := SetPause (sw_mmu s) (unat t) q\<rparr>)"
    for e q p X s and t :: u32
    by (rule charged_step) (auto intro: mmu_step.pause)
  show "charged m0 X s \<Longrightarrow> charged m0 X (s\<lparr>sw_mmu := SetResume (sw_mmu s) i q\<rparr>)" for X s i q
    by (rule charged_step) (auto intro: mmu_step.resume)
  show "charged m0 X (set_port i (d\<lparr>sp_queue := b\<rparr>) s)" if "charged m0 ((i, q, p) # X) s" "sw_devices s i = Some d"
    "beq_Enqueue p q (sp_queue d) = Some (ok, b)" for X s i q p d ok b
    by (rule charged_less [OF that(1) _ tally_enqueue [OF that(2,3)]]) simp
  show "charged m0 ((i, m_qlast b, p) # X) (set_port i (d\<lparr>sp_queue := b\<rparr>) s)" if "charged m0 X s" "sw_devices s i = Some d"
    "i < pCnt" "m_dwrrCur (sp_queue d) < beq_qCnt" "DequeueRR paused (sp_queue d) = Some (Some p, b)" for X s i d paused p b
    by (rule charged_less [OF that(1)]) (simp_all add: tally_dequeue [OF that(2-5)])
  show "charged m0 X (set_port i (d\<lparr>sp_queue := b\<rparr>) s)" if "charged m0 X s" "sw_devices s i = Some d"
    "m_dwrrCur (sp_queue d) < beq_qCnt" "DequeueRR paused (sp_queue d) = Some (None, b)" for X s i d paused b
    by (rule charged_less [OF that(1)]) (simp_all add: tally_dequeue_none [OF that(2-4)])
  show "charged m0 X s \<Longrightarrow> charged m0 X (sw_AddTableEntry dip idx s)" "charged m0 X s \<Longrightarrow> charged m0 X (sw_ClearTable s)" for X s dip idx
    by (erule charged_less; simp add: tally_def in_switch_def sw_AddTableEntry_def sw_ClearTable_def)+
  show "charged m0 (c # X) s \<Longrightarrow> charged m0 X s" for c X s
    by (cases c; erule charged_less) (auto simp: tally_def)
qed ((rule charged_release charged_charge; assumption) | (erule charged_less; simp add: tally_def; fail)
    | (simp add: short_def; fail))+

subsection \<open>A paused class holds bytes\<close>

text \<open>The bytes that came in at a port and a class.\<close>

definition from_port :: "nat \<Rightarrow> nat \<Rightarrow> resident multiset \<Rightarrow> nat" where
  "from_port p q R = (\<Sum>x\<in>#R. in_of p q x)"

lemma from_port_add [simp]: "from_port p q (add_mset (i, e, k, sz) R) = (if i = p \<and> k = q then unat sz else 0) + from_port p q R"
  by (simp add: from_port_def in_of_def)

lemma from_port_mono: "R \<subseteq># R' \<Longrightarrow> from_port p q R \<le> from_port p q R'"
  unfolding from_port_def by (metis image_mset_union le_add1 subset_mset.le_iff_add sum_mset.union)

text \<open>Every class that is paused has bytes in the buffer, but for the classes \<open>E\<close> whose last packet may just have
  been released.\<close>

definition holding :: "(nat \<times> nat) set \<Rightarrow> SwitchMmu \<Rightarrow> resident multiset \<Rightarrow> bool" where
  "holding E m R \<longleftrightarrow> (\<forall>p < pCnt. \<forall>q < qCnt. (p, q) \<notin> E \<longrightarrow> mmu_paused m p q \<longrightarrow> 0 < from_port p q R)"

definition owing :: "SwitchMmu \<Rightarrow> (nat \<times> nat) set \<Rightarrow> in_hand list \<Rightarrow> SwitchNode \<Rightarrow> bool" where
  "owing m0 E X s \<longleftrightarrow> (\<exists>R. mmu_start m0 \<and> mmu_reach m0 (sw_mmu s) R \<and> tally resident_of X s \<subseteq># R \<and> holding E (sw_mmu s) R)"

definition chargeable :: "packet \<Rightarrow> bool" where
  "chargeable p \<longleftrightarrow> short p \<and> pkt_size p \<noteq> 0"

lemma owing_less:
  "owing m0 E X s \<Longrightarrow> sw_mmu s' = sw_mmu s \<Longrightarrow> tally resident_of Y s' \<subseteq># tally resident_of X s \<Longrightarrow> owing m0 E Y s'"
  unfolding owing_def by (auto intro: subset_mset.order_trans)

lemma owing_step:
  assumes "owing m0 E X s"
    and "\<And>R. mmu_reach m0 (sw_mmu s) R \<Longrightarrow> tally resident_of X s \<subseteq># R \<Longrightarrow> holding E (sw_mmu s) R
      \<Longrightarrow> \<exists>R'. mmu_step (sw_mmu s, R) (m', R') \<and> tally resident_of Y s \<subseteq># R' \<and> holding E' m' R'"
  shows "owing m0 E' Y (s\<lparr>sw_mmu := m'\<rparr>)"
proof -
  obtain R where R: "mmu_start m0" "mmu_reach m0 (sw_mmu s) R" "tally resident_of X s \<subseteq># R" "holding E (sw_mmu s) R"
    using assms(1) by (auto simp: owing_def)
  obtain R' where "mmu_step (sw_mmu s, R) (m', R')" "tally resident_of Y s \<subseteq># R'" "holding E' m' R'"
    using assms(2) [OF R(2-4)] by blast
  then show ?thesis using R(1) mmu_reach.step [OF R(2)] by (auto simp: owing_def tally_def)
qed

lemma paused_fields [simp]:
  "mmu_paused (UpdateEgressAdmission m e q sz) = mmu_paused m" "mmu_paused (RemoveFromEgressAdmission m e q sz) = mmu_paused m"
  by (simp_all add: UpdateEgressAdmission_def RemoveFromEgressAdmission_def)

lemma owing_release:
  assumes "owing m0 E ((i, q, p) # X) s" and "q \<noteq> 0" and "pkt_tag p = Some t"
  shows "owing m0 (insert (unat t, q) E) ((i, 0, p) # X) (s\<lparr>sw_mmu :=
    RemoveFromEgressAdmission (RemoveFromIngressAdmission (sw_mmu s) (unat t) q (pkt_size p)) i q (pkt_size p)\<rparr>)"
proof (rule owing_step [OF assms(1)])
  fix R
  assume R: "tally resident_of ((i, q, p) # X) s \<subseteq># R" and h: "holding E (sw_mmu s) R"
  have "add_mset (unat t, i, q, pkt_size p) (tally resident_of ((i, 0, p) # X) s) \<subseteq># R"
    using R assms(2,3) by (simp add: resident_of_def tally_def)
  then obtain R' where R': "R = add_mset (unat t, i, q, pkt_size p) R'" and "tally resident_of ((i, 0, p) # X) s \<subseteq># R'"
    by (metis insert_subset_eq_iff insert_DiffM)
  moreover have "holding (insert (unat t, q) E) (RemoveFromEgressAdmission
      (RemoveFromIngressAdmission (sw_mmu s) (unat t) q (pkt_size p)) i q (pkt_size p)) R'"
    using h unfolding R' holding_def by (auto split: if_splits)
  ultimately show "\<exists>R'. mmu_step (sw_mmu s, R) (RemoveFromEgressAdmission
      (RemoveFromIngressAdmission (sw_mmu s) (unat t) q (pkt_size p)) i q (pkt_size p), R')
    \<and> tally resident_of ((i, 0, p) # X) s \<subseteq># R' \<and> holding (insert (unat t, q) E) (RemoveFromEgressAdmission
      (RemoveFromIngressAdmission (sw_mmu s) (unat t) q (pkt_size p)) i q (pkt_size p)) R'"
    using mmu_step.leave by (intro exI [of _ R']) simp
qed

lemma owing_charge:
  assumes "owing m0 E ((e, 0, p) # X) s" and "chargeable p" and "pkt_tag p = Some t" and "unat t < pCnt" and "e < pCnt"
    and "q < qCnt" and "q \<noteq> 0" and "admits (sw_mmu s) (unat t) e q (pkt_size p)"
  shows "owing m0 E ((e, q, p) # X) (s\<lparr>sw_mmu :=
    UpdateEgressAdmission (UpdateIngressAdmission (sw_mmu s) (unat t) q (pkt_size p)) e q (pkt_size p)\<rparr>)"
proof (rule owing_step [OF assms(1)])
  fix R
  assume R: "tally resident_of ((e, 0, p) # X) s \<subseteq># R" and h: "holding E (sw_mmu s) R"
  let ?R = "add_mset (unat t, e, q, pkt_size p) R"
  have "mmu_step (sw_mmu s, R) (UpdateEgressAdmission (UpdateIngressAdmission (sw_mmu s) (unat t) q (pkt_size p)) e q (pkt_size p), ?R)"
    using assms(2,4-6,8) by (intro mmu_step.arrive) (simp_all add: chargeable_def short_def admits_def)
  moreover have "tally resident_of ((e, q, p) # X) s \<subseteq># ?R"
    using R assms(3,7) by (simp add: resident_of_def tally_def)
  moreover have "holding E (UpdateEgressAdmission (UpdateIngressAdmission (sw_mmu s) (unat t) q (pkt_size p)) e q (pkt_size p)) ?R"
    using h by (auto simp: holding_def)
  ultimately show "\<exists>R'. mmu_step (sw_mmu s, R) (UpdateEgressAdmission
      (UpdateIngressAdmission (sw_mmu s) (unat t) q (pkt_size p)) e q (pkt_size p), R')
    \<and> tally resident_of ((e, q, p) # X) s \<subseteq># R' \<and> holding E (UpdateEgressAdmission
      (UpdateIngressAdmission (sw_mmu s) (unat t) q (pkt_size p)) e q (pkt_size p)) R'" by blast
qed

text \<open>A class is paused while a packet of it is charged.\<close>

lemma owing_pause:
  assumes "owing m0 E ((e, q, p) # X) s" and "chargeable p" and "pkt_tag p = Some t" and "q \<noteq> 0"
  shows "owing m0 E ((e, q, p) # X) (s\<lparr>sw_mmu := SetPause (sw_mmu s) (unat t) q\<rparr>)"
proof (rule owing_step [OF assms(1)])
  fix R
  assume R: "tally resident_of ((e, q, p) # X) s \<subseteq># R" and h: "holding E (sw_mmu s) R"
  have "(unat t, e, q, pkt_size p) \<in># R"
    using R assms(3,4) mset_subset_eqD [of "add_mset (unat t, e, q, pkt_size p) (tally resident_of X s)" R]
    by (simp add: resident_of_def tally_def)
  then have "{#(unat t, e, q, pkt_size p)#} \<subseteq># R" by simp
  from from_port_mono [OF this, of "unat t" q] have "unat (pkt_size p) \<le> from_port (unat t) q R" by (simp add: from_port_def in_of_def)
  moreover have "0 < unat (pkt_size p)" using assms(2) by (simp add: chargeable_def unat_gt_0)
  ultimately have "holding E (SetPause (sw_mmu s) (unat t) q) R"
    using h by (auto simp: holding_def SetPause_def upd2_apply split: if_splits)
  then show "\<exists>R'. mmu_step (sw_mmu s, R) (SetPause (sw_mmu s) (unat t) q, R') \<and> tally resident_of ((e, q, p) # X) s \<subseteq># R'
    \<and> holding E (SetPause (sw_mmu s) (unat t) q) R'" using R mmu_step.pause by blast
qed

lemma owing_resume:
  assumes "owing m0 (insert (i, q) E) X s"
  shows "owing m0 E X (s\<lparr>sw_mmu := SetResume (sw_mmu s) i q\<rparr>)"
proof (rule owing_step [OF assms])
  fix R
  assume R: "tally resident_of X s \<subseteq># R" and h: "holding (insert (i, q) E) (sw_mmu s) R"
  then have "holding E (SetResume (sw_mmu s) i q) R" by (auto simp: holding_def SetResume_def upd2_apply split: if_splits)
  then show "\<exists>R'. mmu_step (sw_mmu s, R) (SetResume (sw_mmu s) i q, R') \<and> tally resident_of X s \<subseteq># R'
    \<and> holding E (SetResume (sw_mmu s) i q) R'" using R mmu_step.resume by blast
qed

lemma owing_not_due:
  assumes "owing m0 (insert (i, q) E) X s" and "\<not> CheckShouldResume (sw_mmu s) i q"
  shows "owing m0 E X s"
proof -
  obtain R where R: "mmu_start m0" "mmu_reach m0 (sw_mmu s) R" "tally resident_of X s \<subseteq># R" "holding (insert (i, q) E) (sw_mmu s) R"
    using assms(1) by (auto simp: owing_def)
  have "0 < from_port i q R" if "i < pCnt" "q < qCnt" "mmu_paused (sw_mmu s) i q"
  proof -
    have "held (sw_mmu s) i q = from_port i q R"
      using mmu_reach_ok [OF R(2,1)] that by (simp add: mmu_ok_def accounts_def from_port_def)
    then show ?thesis using drained_should_resume [OF that(3)] assms(2) by fastforce
  qed
  then have "0 < from_port p k R" if "p < pCnt" "k < qCnt" "(p, k) \<notin> E" "mmu_paused (sw_mmu s) p k" for p k
    using R(4) that by (cases "(p, k) = (i, q)") (auto simp: holding_def)
  then have "holding E (sw_mmu s) R" by (simp add: holding_def)
  then show ?thesis using R by (auto simp: owing_def)
qed

interpretation owes: switch_invariant "owing m0" chargeable "\<lambda>_ _. True" for m0
proof unfold_locales
  show "owing m0 E X s \<Longrightarrow> same_core s s' \<Longrightarrow> owing m0 E X s'" for E X s s'
    by (rule owing_less [of m0 E X s s' X]) (simp_all add: tally_same_core, simp add: same_core_def)
  show "owing m0 E X (set_port i (d\<lparr>sp_queue := b\<rparr>) s)" if "owing m0 E ((i, q, p) # X) s" "sw_devices s i = Some d"
    "beq_Enqueue p q (sp_queue d) = Some (ok, b)" for E X s i q p d ok b
    by (rule owing_less [OF that(1) _ tally_enqueue [OF that(2,3)]]) simp
  show "owing m0 E ((i, m_qlast b, p) # X) (set_port i (d\<lparr>sp_queue := b\<rparr>) s)" if "owing m0 E X s" "sw_devices s i = Some d"
    "i < pCnt" "m_dwrrCur (sp_queue d) < beq_qCnt" "DequeueRR paused (sp_queue d) = Some (Some p, b)" for E X s i d paused p b
    by (rule owing_less [OF that(1)]) (simp_all add: tally_dequeue [OF that(2-5)])
  show "owing m0 E X (set_port i (d\<lparr>sp_queue := b\<rparr>) s)" if "owing m0 E X s" "sw_devices s i = Some d"
    "m_dwrrCur (sp_queue d) < beq_qCnt" "DequeueRR paused (sp_queue d) = Some (None, b)" for E X s i d paused b
    by (rule owing_less [OF that(1)]) (simp_all add: tally_dequeue_none [OF that(2-4)])
  show "owing m0 E X s \<Longrightarrow> owing m0 E X (sw_AddTableEntry dip idx s)" "owing m0 E X s \<Longrightarrow> owing m0 E X (sw_ClearTable s)" for E X s dip idx
    by (erule owing_less; simp add: tally_def in_switch_def sw_AddTableEntry_def sw_ClearTable_def)+
  show "owing m0 E (c # X) s \<Longrightarrow> owing m0 E X s" for E c X s
    by (cases c; erule owing_less) (auto simp: tally_def)
qed ((rule owing_release owing_charge owing_pause owing_resume owing_not_due; assumption) | (erule owing_less; simp add: tally_def; fail)
    | (simp add: chargeable_def short_def; fail))+

subsection \<open>Properties\<close>

lemma switch_charged:
  assumes "(sw_step short (\<lambda>_ _. True))\<^sup>*\<^sup>* s s'" and "fresh_switch s" and "mmu_start (sw_mmu s)"
  obtains R where "mmu_reach (sw_mmu s) (sw_mmu s') R" and "mmu_ok (sw_mmu s') R" and "queued s' \<subseteq># R"
proof -
  have "charged (sw_mmu s) [] s"
    using mmu_reach.init [of "sw_mmu s"] by (auto simp: charged_def fresh_switch_tally [OF assms(2)])
  then have "charged (sw_mmu s) [] s'" by (rule acct.run_keeps [OF assms(1)])
  then show ?thesis using that mmu_reach_ok [OF _ assms(3)] by (auto simp: charged_def)
qed

lemma sum_mset_le:
  fixes f :: "'a \<Rightarrow> nat"
  shows "A \<subseteq># B \<Longrightarrow> (\<Sum>x\<in>#A. f x) \<le> (\<Sum>x\<in>#B. f x)"
  by (metis image_mset_union le_add1 subset_mset.le_iff_add sum_mset.union)

text \<open>C4: However packets arrive, are sent, paused, resumed and dropped, a switch that started empty
  has charged its buffer for what waits in its queues: the ingress and headroom bytes of a port
  and a class are at least the sizes of the waiting packets that came in there, the shared counter is the
  sum of what the classes use above their reserve, it stays within the pool, and the headroom of
  every class is respected. Nested transmissions of pause frames are included.\<close>

theorem switch_accounting:
  assumes "(sw_step short (\<lambda>_ _. True))\<^sup>*\<^sup>* s s'" and "fresh_switch s" and "mmu_start (sw_mmu s)" and "p < pCnt" and "q < qCnt"
  shows "(\<Sum>x\<in>#queued s'. in_of p q x) \<le> unat (ingress_bytes (sw_mmu s') p q) + unat (hdrm_bytes (sw_mmu s') p q)
    \<and> unat (shared_used_bytes (sw_mmu s')) = (\<Sum>c\<in>cells. over (sw_mmu s') c)
    \<and> unat (shared_used_bytes (sw_mmu s')) \<le> pool (sw_mmu s')
    \<and> unat (hdrm_bytes (sw_mmu s') p q) \<le> unat (headroom (sw_mmu s') p)"
proof -
  obtain R where R: "mmu_ok (sw_mmu s') R" "queued s' \<subseteq># R" using switch_charged [OF assms(1-3)] by blast
  have "(\<Sum>x\<in>#R. in_of p q x) = held (sw_mmu s') p q" using R(1) assms(4,5) by (simp add: mmu_ok_def accounts_def)
  with sum_mset_le [OF R(2), of "in_of p q"] show ?thesis
    using R(1) assms(4,5) by (simp add: mmu_ok_def mmu_inv_def held_def)
qed

lemma release_resumes:
  assumes "release_packet again env i q p u = Some (p', u')" and "pkt_tag p = Some t" and "mmu_paused (sw_mmu u) (unat t) q"
    and "held (RemoveFromIngressAdmission (sw_mmu u) (unat t) q (pkt_size p)) (unat t) q = 0"
  shows "\<exists>a ident n u1 u2. SwitchSend again (unat t) 0
       (pfc_frame a ident \<lparr>pause_time = 0, pause_qlen = n, pause_qindex = of_nat q\<rparr>) u1 = Some u2
     \<and> u' = u2\<lparr>sw_mmu := SetResume (sw_mmu u2) (unat t) q\<rparr>"
proof -
  let ?m = "RemoveFromEgressAdmission (RemoveFromIngressAdmission (sw_mmu u) (unat t) q (pkt_size p)) i q (pkt_size p)"
  let ?u = "u\<lparr>sw_mmu := ?m, sw_bytes := (sw_bytes u)(unat t := upd2 (sw_bytes u (unat t)) i q (sw_bytes u (unat t) i q - pkt_size p))\<rparr>"
  obtain u1 where m: "mark_ecn env i q p ?u = (p', u1)" and c: "CheckAndSendResume again env (unat t) q u1 = Some u'"
    using assms(1,2) unfolding release_packet_def Let_def by (auto elim!: bind_eq_SomeE split: prod.splits)
  have "sw_mmu u1 = ?m" using mark_ecn_rewritten(2) [OF m] by (simp add: same_core_def)
  moreover have "held ?m (unat t) q = 0" using assms(4) by (simp add: held_def RemoveFromEgressAdmission_def)
  ultimately have "CheckShouldResume (sw_mmu u1) (unat t) q" using assms(3) drained_should_resume by simp
  then obtain u2 where s: "SendPfc again env (unat t) q False u1 = Some u2" and u': "u' = u2\<lparr>sw_mmu := SetResume (sw_mmu u2) (unat t) q\<rparr>"
    using c by (auto simp: CheckAndSendResume_def elim!: bind_eq_SomeE)
  from s obtain a n where "SwitchSend again (unat t) 0 (pfc_frame a (se_ipid env (sw_draws u1))
      \<lparr>pause_time = 0, pause_qlen = n, pause_qindex = of_nat q\<rparr>) (u1\<lparr>sw_draws := sw_draws u1 + 1\<rparr>) = Some u2"
    unfolding SendPfc_def Let_def by (elim bind_eq_SomeE) auto
  then show ?thesis using u' by blast
qed

text \<open>C20: Pausing never outlasts its cause. In every run of a switch that started empty with no class paused, after every
  event, a class that is paused still holds bytes of the buffer: the event that releases its last packet resumes it.
  And releasing the last packet of a paused class hands a resume frame of this class (pause time 0) to queue 0
  of the port the packets came in by, starts that port, and then marks the class as not paused.\<close>

theorem drained_queue_resumes:
  assumes "(sw_step chargeable (\<lambda>_ _. True))\<^sup>*\<^sup>* s s'" and "fresh_switch s" and "mmu_start (sw_mmu s)"
    and "mmu_paused (sw_mmu s) = (\<lambda>_ _. False)"
  shows "(\<forall>p < pCnt. \<forall>q < qCnt. mmu_paused (sw_mmu s') p q \<longrightarrow> 0 < held (sw_mmu s') p q)
    \<and> (\<forall>again env i q p p' t u u'. release_packet again env i q p u = Some (p', u') \<longrightarrow> pkt_tag p = Some t
      \<longrightarrow> mmu_paused (sw_mmu u) (unat t) q \<longrightarrow> held (RemoveFromIngressAdmission (sw_mmu u) (unat t) q (pkt_size p)) (unat t) q = 0
      \<longrightarrow> (\<exists>a ident n u1 u2. SwitchSend again (unat t) 0
             (pfc_frame a ident \<lparr>pause_time = 0, pause_qlen = n, pause_qindex = of_nat q\<rparr>) u1 = Some u2
           \<and> u' = u2\<lparr>sw_mmu := SetResume (sw_mmu u2) (unat t) q\<rparr>))"
proof (intro conjI allI impI)
  fix p q assume pq: "p < pCnt" "q < qCnt" "mmu_paused (sw_mmu s') p q"
  have "owing (sw_mmu s) {} [] s"
    using mmu_reach.init [of "sw_mmu s"] assms(3,4) by (auto simp: owing_def holding_def fresh_switch_tally [OF assms(2)])
  then have "owing (sw_mmu s) {} [] s'" by (rule owes.run_keeps [OF assms(1)])
  then obtain R where R: "mmu_reach (sw_mmu s) (sw_mmu s') R" "holding {} (sw_mmu s') R" by (auto simp: owing_def)
  then show "0 < held (sw_mmu s') p q"
    using pq mmu_reach_ok [OF R(1) assms(3)] by (simp add: holding_def mmu_ok_def accounts_def from_port_def)
next
  fix again env i q p p' t u u'
  assume r: "release_packet again env i q p u = Some (p', u')" "pkt_tag p = Some t" "mmu_paused (sw_mmu u) (unat t) q"
    "held (RemoveFromIngressAdmission (sw_mmu u) (unat t) q (pkt_size p)) (unat t) q = 0"
  then show "\<exists>a ident n u1 u2. SwitchSend again (unat t) 0
       (pfc_frame a ident \<lparr>pause_time = 0, pause_qlen = n, pause_qindex = of_nat q\<rparr>) u1 = Some u2
     \<and> u' = u2\<lparr>sw_mmu := SetResume (sw_mmu u2) (unat t) q\<rparr>" by (rule release_resumes)
qed

text \<open>A port that goes down drops what waits there, but the buffer stays charged for it: nothing of \<open>SwitchMmu\<close>
  changes, and the bytes are never released.\<close>

lemma TakeDown_leaves_charge:
  assumes "sw_TakeDown i s = Some s'"
  shows "sw_mmu s' = sw_mmu s"
  using assms by (auto simp: sw_TakeDown_def elim!: bind_eq_SomeE)

subsection \<open>Witness\<close>

lemma demo_fresh: "fresh_switch demo_switch"
  using demo_switch_queues by (auto simp: fresh_switch_def)

lemma demo_mmu_start: "mmu_start (sw_mmu demo_switch)"
  by (simp add: demo_start)

lemma demo_short_run: "sw_Receive demo_env False 1 demo_arrival demo_switch = Some s \<Longrightarrow> (sw_step short (\<lambda>_ _. True))\<^sup>*\<^sup>* demo_switch s"
  by (rule r_into_rtranclp, erule sw_step.Receive [rotated]) (simp add: short_def)

lemma switch_accounting_witness:
  "\<exists>s. sw_Receive demo_env False 1 demo_arrival demo_switch = Some s
     \<and> (\<Sum>x\<in>#queued s. in_of 1 3 x) \<le> unat (ingress_bytes (sw_mmu s) 1 3) + unat (hdrm_bytes (sw_mmu s) 1 3)"
proof -
  obtain s where s: "sw_Receive demo_env False 1 demo_arrival demo_switch = Some s" using demo_receive by blast
  then show ?thesis
    using switch_accounting [OF demo_short_run [OF s] demo_fresh demo_mmu_start, of 1 3] by (auto simp: pCnt_def qCnt_def)
qed

lemma drained_queue_resumes_witness:
  "\<exists>s. sw_Receive demo_env False 1 demo_arrival demo_switch = Some s \<and> mmu_paused (sw_mmu s) 1 3 \<and> 0 < held (sw_mmu s) 1 3"
proof -
  obtain s where s: "sw_Receive demo_env False 1 demo_arrival demo_switch = Some s"
    "sw_mmu s = SetPause ((demo_mmu 18192)\<lparr>hdrm_bytes := upd2 (\<lambda>_ _. 0) 1 3 5000, egress_bytes := upd2 (\<lambda>_ _. 0) 2 3 5000\<rparr>) 1 3"
    using demo_receive by blast
  have "sw_step chargeable (\<lambda>_ _. True) demo_switch s" by (rule sw_step.Receive [OF _ s(1)]) (simp add: chargeable_def short_def)
  then have r: "(sw_step chargeable (\<lambda>_ _. True))\<^sup>*\<^sup>* demo_switch s" by (rule r_into_rtranclp)
  have "mmu_paused (sw_mmu demo_switch) = (\<lambda>_ _. False)" by (simp add: demo_switch_def demo_mmu_eq blank_mmu_def)
  moreover have "mmu_paused (sw_mmu s) 1 3" by (simp add: s(2) SetPause_def upd2_apply)
  ultimately show ?thesis
    using drained_queue_resumes [OF r demo_fresh demo_mmu_start] s(1) by (auto simp: pCnt_def qCnt_def)
qed

end
