(* ===== verification/Switch_Forwarding.thy ===== *)
theory Switch_Forwarding
  imports Switch_Accounting
begin

text \<open>
  What a switch may do to a packet. Everything it sends is well formed and is a pause frame of its own or a
  packet it received, with only the congestion mark and the telemetry changed (\<open>switch_forwards\<close>); and it sends no
  packet more often than it was received (\<open>switch_conserves\<close>).
\<close>

subsection \<open>What does not change on the way\<close>

text \<open>The size, the header with its congestion bits cleared, and the payload without its telemetry.\<close>

type_synonym packet_key = "u32 \<times> Ipv4Header \<times> payload"

definition packet_key :: "packet \<Rightarrow> packet_key" where
  "packet_key p = (pkt_size p, SetEcn 0 (pkt_ip p), case pkt_load p of
     Udp_Data sp dp sq pg ih \<Rightarrow> Udp_Data sp dp sq pg IntHeader_init | l \<Rightarrow> l)"

text \<open>Marking sets the two low bits of the type of service and nothing else.\<close>

lemma ecn_bits: "((x AND 0xFC) OR 3) AND 0xFC = x AND (0xFC :: u8)"
proof -
  have "((x AND 0xFC) OR 3) AND 0xFC = (x AND (0xFC AND 0xFC)) OR (3 AND (0xFC :: u8))"
    by (simp only: bit.conj_disj_distrib2 and.assoc)
  also have "\<dots> = x AND 0xFC" by simp
  finally show ?thesis .
qed

lemma SetEcn_simps [simp]: "SetEcn 3 (SetEcn 3 h) = SetEcn 3 h" "SetEcn 0 (SetEcn 3 h) = SetEcn 0 h"
  by (simp_all add: SetEcn_def ecn_bits)

lemma SetEcn_fields [simp]:
  "ip_payloadSize (SetEcn e h) = ip_payloadSize h" "ip_identification (SetEcn e h) = ip_identification h"
  "ip_ttl (SetEcn e h) = ip_ttl h" "ip_protocol (SetEcn e h) = ip_protocol h" "ip_flags (SetEcn e h) = ip_flags h"
  "ip_fragmentOffset (SetEcn e h) = ip_fragmentOffset h" "ip_source (SetEcn e h) = ip_source h"
  "ip_destination (SetEcn e h) = ip_destination h"
  by (simp_all add: SetEcn_def)

lemma rewritten_fields:
  assumes "rewritten p p'"
  shows "carried p p'" and "pkt_proto p' = pkt_proto p" and "ip_destination (pkt_ip p') = ip_destination (pkt_ip p)"
  using assms by (auto simp: rewritten_def carried_def pkt_proto_def)

lemma carried_back: "carried p p' \<Longrightarrow> carried p' p"
  by (cases "pkt_load p"; cases "pkt_load p'") (auto simp: carried_def)

lemma rewritten_trans: "rewritten p q \<Longrightarrow> rewritten q r \<Longrightarrow> rewritten p r"
  by (cases "pkt_load p"; cases "pkt_load q") (auto simp: rewritten_def)

lemma rewritten_key: "rewritten p p' \<Longrightarrow> packet_key p' = packet_key p"
  by (cases "pkt_load p") (auto simp: rewritten_def packet_key_def)

lemma key_is_Pfc: "packet_key p' = packet_key p \<Longrightarrow> is_Pfc (pkt_load p') = is_Pfc (pkt_load p)"
  by (cases "pkt_load p"; cases "pkt_load p'") (auto simp: packet_key_def)

lemma rewritten_well_formed: "rewritten p p' \<Longrightarrow> well_formed_packet p' = well_formed_packet p"
  by (cases "pkt_load p"; cases "pkt_load p'") (auto simp: rewritten_def well_formed_packet_def pkt_proto_def)

lemma pfc_frame_simps [simp]:
  "is_Pfc (pkt_load (pfc_frame a n ph))" "well_formed_packet (pfc_frame a n ph)"
  by (simp_all add: pfc_frame_def well_formed_packet_def pkt_proto_def)

subsection \<open>Every packet is its own or a received one\<close>

definition own_frame :: "packet \<Rightarrow> bool" where
  "own_frame p \<longleftrightarrow> (\<exists>a n ph. rewritten (pfc_frame a n ph) p)"

definition relayed :: "packet set \<Rightarrow> packet \<Rightarrow> bool" where
  "relayed G p \<longleftrightarrow> (\<exists>g\<in>G. rewritten g p)"

text \<open>A property of packets that may depend on the port; a packet on a wire has left through a port.\<close>

definition all_packets :: "(nat \<Rightarrow> packet \<Rightarrow> bool) \<Rightarrow> in_hand list \<Rightarrow> SwitchNode \<Rightarrow> bool" where
  "all_packets P X s \<longleftrightarrow> (\<forall>(i, q, p) \<in> set X. P i p) \<and> (\<forall>(i, p, t, x) \<in> set (sw_wire s). i < pCnt \<and> P i p)
     \<and> (\<forall>i d q. sw_devices s i = Some d \<longrightarrow> (\<forall>p \<in> set (contents (sp_queue d) q). P i p))"

lemma all_packets_core: "all_packets P X s \<Longrightarrow> same_core s s' \<Longrightarrow> all_packets P X s'"
proof -
  assume a: "all_packets P X s" and c: "same_core s s'"
  have "\<exists>d0. sw_devices s i = Some d0 \<and> sp_queue d0 = sp_queue d" if "sw_devices s' i = Some d" for i d
  proof -
    have "map_option sp_queue (sw_devices s i) = Some (sp_queue d)"
      using c that by (metis option.simps(9) same_core_def)
    then show ?thesis by auto
  qed
  then show ?thesis using a c by (fastforce simp: all_packets_def same_core_def)
qed

lemma all_packets_queue:
  assumes "all_packets P X s" and "\<forall>q. \<forall>p \<in> set (contents b q). P i p" and "\<forall>(i, q, p) \<in> set Y. P i p"
  shows "all_packets P Y (set_port i (d\<lparr>sp_queue := b\<rparr>) s)"
  using assms unfolding all_packets_def set_port_def by auto

lemma all_packets_enqueue:
  assumes "all_packets P ((i, q, p) # X) s" and "sw_devices s i = Some d" and "beq_Enqueue p q (sp_queue d) = Some (ok, b)"
  shows "all_packets P X (set_port i (d\<lparr>sp_queue := b\<rparr>) s)"
proof (rule all_packets_queue [OF assms(1)])
  note c = beq_Enqueue_contents(1,2) [OF assms(3)]
  have "set (contents b r) \<subseteq> set (contents (sp_queue d) r) \<union> {p}" for r using c by (cases "r = q") auto
  moreover have "P i p'" if "p' \<in> set (contents (sp_queue d) r) \<union> {p}" for p' r
    using assms(1,2) that by (auto simp: all_packets_def)
  ultimately show "\<forall>r. \<forall>p' \<in> set (contents b r). P i p'" by blast
  show "\<forall>(i, q, p) \<in> set X. P i p" using assms(1) by (auto simp: all_packets_def)
qed

lemma all_packets_dequeue:
  assumes "all_packets P X s" and "sw_devices s i = Some d"
    and "m_dwrrCur (sp_queue d) < beq_qCnt" and "DequeueRR paused (sp_queue d) = Some (Some p, b)"
  shows "all_packets P ((i, m_qlast b, p) # X) (set_port i (d\<lparr>sp_queue := b\<rparr>) s)"
proof (rule all_packets_queue [OF assms(1)])
  note c = DequeueRR_cases(3) [OF assms(4,3) refl]
  have old: "P i p'" if "p' \<in> set (contents (sp_queue d) q)" for p' q
    using assms(1,2) that by (auto simp: all_packets_def)
  have "set (contents b q) \<subseteq> set (contents (sp_queue d) q)" for q using c by (cases "q = m_qlast b") auto
  then show "\<forall>q. \<forall>p' \<in> set (contents b q). P i p'" using old by blast
  have "p \<in> set (contents (sp_queue d) (m_qlast b))" using c by simp
  then show "\<forall>(i, q, p) \<in> set ((i, m_qlast b, p) # X). P i p"
    using old assms(1) by (auto simp: all_packets_def)
qed

lemma all_packets_dequeue_none:
  assumes "all_packets P X s" and "sw_devices s i = Some d"
    and "m_dwrrCur (sp_queue d) < beq_qCnt" and "DequeueRR paused (sp_queue d) = Some (None, b)"
  shows "all_packets P X (set_port i (d\<lparr>sp_queue := b\<rparr>) s)"
  using all_packets_queue [OF assms(1), of b i X d] DequeueRR_cases(2) [OF assms(4,3)] assms(1,2)
  by (auto simp: all_packets_def)

text \<open>\<open>L\<close> are the routes that may be entered: a received packet leaves only through them.\<close>

definition may_hold :: "(u32 \<Rightarrow> nat \<Rightarrow> bool) \<Rightarrow> packet set \<Rightarrow> nat \<Rightarrow> packet \<Rightarrow> bool" where
  "may_hold L G i p \<longleftrightarrow> own_frame p \<or> relayed G p \<and> (i < pCnt \<longrightarrow> L (ip_destination (pkt_ip p)) i)"

definition routes_in :: "(u32 \<Rightarrow> nat \<Rightarrow> bool) \<Rightarrow> SwitchNode \<Rightarrow> bool" where
  "routes_in L s \<longleftrightarrow> (\<forall>dip hops. sw_rtTable s dip = Some hops \<longrightarrow> (\<forall>e \<in> set hops. L dip e))"

definition forwarding :: "(u32 \<Rightarrow> nat \<Rightarrow> bool) \<Rightarrow> packet set \<Rightarrow> in_hand list \<Rightarrow> SwitchNode \<Rightarrow> bool" where
  "forwarding L G X s \<longleftrightarrow> routes_in L s \<and> all_packets (may_hold L G) X s"

lemma may_hold_rewritten:
  assumes "may_hold L G i p" and "rewritten p p'"
  shows "may_hold L G i p'"
proof -
  have "ip_destination (pkt_ip p') = ip_destination (pkt_ip p)" by (rule rewritten_fields(3) [OF assms(2)])
  then show ?thesis
    using assms rewritten_trans unfolding may_hold_def own_frame_def relayed_def by metis
qed

lemma own_frame_pfc [simp]: "own_frame (pfc_frame a n ph)"
  unfolding own_frame_def by (blast intro: rewritten_refl)

lemma GetOutDev_hop:
  "GetOutDev seed rt junk p = Some (Some e) \<Longrightarrow> \<exists>hops. rt (ip_destination (pkt_ip p)) = Some hops \<and> e \<in> set hops"
  by (auto simp: GetOutDev_def Let_def guard_bind_eq_Some elim!: bind_eq_SomeE split: option.splits intro!: nth_mem)

lemma forwarding_routes:
  "routes_in L s \<Longrightarrow> L dip idx \<Longrightarrow> routes_in L (sw_AddTableEntry dip idx s)"
  "routes_in L (sw_ClearTable s)"
  by (cases "sw_rtTable s dip"; auto simp: routes_in_def sw_AddTableEntry_def split: if_splits)
    (simp add: routes_in_def sw_ClearTable_def)

lemma all_packets_routes: "all_packets P X (s\<lparr>sw_rtTable := rt\<rparr>) = all_packets P X s"
  by (simp add: all_packets_def)

lemma forwarding_hand:
  "forwarding L G (c # X) s \<longleftrightarrow> forwarding L G X s \<and> (case c of (i, q, p) \<Rightarrow> may_hold L G i p)"
  by (auto simp: forwarding_def all_packets_def)

interpretation relay: switch_invariant "\<lambda>_. forwarding L G" "relayed G" L for L G
proof unfold_locales
  show "forwarding L G X s \<Longrightarrow> same_core s s' \<Longrightarrow> forwarding L G X s'" for X s s'
    using all_packets_core by (auto simp: forwarding_def routes_in_def same_core_def)
  show "forwarding L G X (set_port i (d\<lparr>sp_queue := b\<rparr>) s)"
    if "forwarding L G ((i, q, p) # X) s" "sw_devices s i = Some d"
      "beq_Enqueue p q (sp_queue d) = Some (ok, b)" for X s i q p d ok b
    using that all_packets_enqueue by (fastforce simp: forwarding_def routes_in_def set_port_def)
  show "forwarding L G ((i, m_qlast b, p) # X) (set_port i (d\<lparr>sp_queue := b\<rparr>) s)"
    if "forwarding L G X s" "sw_devices s i = Some d"
      "m_dwrrCur (sp_queue d) < beq_qCnt" "DequeueRR paused (sp_queue d) = Some (Some p, b)" for X s i d paused p b
    using that all_packets_dequeue by (fastforce simp: forwarding_def routes_in_def set_port_def)
  show "forwarding L G X (set_port i (d\<lparr>sp_queue := b\<rparr>) s)"
    if "forwarding L G X s" "sw_devices s i = Some d"
      "m_dwrrCur (sp_queue d) < beq_qCnt" "DequeueRR paused (sp_queue d) = Some (None, b)" for X s i d paused b
    using that all_packets_dequeue_none by (fastforce simp: forwarding_def routes_in_def set_port_def)
  show "relayed G p \<Longrightarrow> relayed G (p\<lparr>pkt_tag := Some u\<rparr>)" for p u
    using rewritten_trans [OF _ rewritten_tag] unfolding relayed_def by blast
  show "forwarding L G ((i, 0, p) # X) s \<Longrightarrow> rewritten p p' \<Longrightarrow> forwarding L G ((i, 0, p') # X) s" for i p X s p'
    using may_hold_rewritten by (auto simp: forwarding_hand)
  show "forwarding L G ((e, 0, p) # X) s" if "forwarding L G ((pCnt, 0, p) # X) s"
    "GetOutDev seed (sw_rtTable s) junk p = Some (Some e)" for p X s seed junk e
  proof -
    have "routes_in L s" using that(1) by (simp add: forwarding_def)
    then have "L (ip_destination (pkt_ip p)) e" using GetOutDev_hop [OF that(2)] by (auto simp: routes_in_def)
    then show ?thesis using that(1) by (simp add: forwarding_hand may_hold_def)
  qed
  show "forwarding L G X s \<Longrightarrow> L dip idx \<Longrightarrow> forwarding L G X (sw_AddTableEntry dip idx s)" for X s dip idx
    using forwarding_routes(1) by (auto simp: forwarding_def sw_AddTableEntry_def all_packets_routes)
  show "forwarding L G X s \<Longrightarrow> forwarding L G X (sw_ClearTable s)" for X s
    using forwarding_routes(2) by (auto simp: forwarding_def sw_ClearTable_def all_packets_routes)
  show "forwarding L G ((i, 0, p) # X) s \<Longrightarrow> i < pCnt \<Longrightarrow> forwarding L G X (s\<lparr>sw_wire := sw_wire s @ [(i, p, now, x)]\<rparr>)" for i p X s now x
    by (auto simp: forwarding_def all_packets_def routes_in_def)
  show "forwarding L G X s \<Longrightarrow> forwarding L G ((i, 0, pfc_frame a n ph) # X) s" for X s i a n ph
    by (simp add: forwarding_hand may_hold_def)
  show "forwarding L G X s \<Longrightarrow> relayed G p \<Longrightarrow> forwarding L G ((pCnt, 0, p) # X) s" for X s p
    by (simp add: forwarding_hand may_hold_def relayed_def)
qed (simp_all add: forwarding_def all_packets_def routes_in_def)

subsection \<open>Packets are conserved\<close>

text \<open>The packets that are no pause frames, by what does not change.\<close>

definition key_weight :: "packet_key weight" where
  "key_weight i q p = (if is_Pfc (pkt_load p) then {#} else {#packet_key p#})"

definition keys_of :: "packet list \<Rightarrow> packet_key multiset" where
  "keys_of ps = sum_list (map (key_weight 0 0) ps)"

definition wire_packets :: "SwitchNode \<Rightarrow> packet list" where
  "wire_packets s = map (\<lambda>(i, p, t, x). p) (sw_wire s)"

definition conserved :: "packet_key multiset \<Rightarrow> in_hand list \<Rightarrow> SwitchNode \<Rightarrow> bool" where
  "conserved N X s \<longleftrightarrow> tally key_weight X s + keys_of (wire_packets s) \<subseteq># N"

lemma keys_of_simps [simp]:
  "keys_of [] = {#}" "keys_of (p # ps) = key_weight 0 0 p + keys_of ps" "keys_of (ps @ qs) = keys_of ps + keys_of qs"
  by (simp_all add: keys_of_def)

lemma key_weight_rewritten: "rewritten p p' \<Longrightarrow> key_weight i q p' = key_weight j k p"
  using rewritten_key [of p p'] key_is_Pfc [of p' p] by (simp add: key_weight_def)

lemma key_weight_place: "key_weight i q p = key_weight 0 0 p"
  by (simp add: key_weight_def)

lemma conserved_less:
  "conserved N X s \<Longrightarrow> tally key_weight Y s' + keys_of (wire_packets s') \<subseteq># tally key_weight X s + keys_of (wire_packets s)
    \<Longrightarrow> conserved N Y s'"
  unfolding conserved_def by (rule subset_mset.order_trans)

lemma wire_packets_simps [simp]:
  "wire_packets (set_port i d s) = wire_packets s" "wire_packets (s\<lparr>sw_mmu := m\<rparr>) = wire_packets s"
  by (simp_all add: wire_packets_def)

interpretation conserve: switch_handlers "\<lambda>_. conserved N" "\<lambda>_. True" "\<lambda>_ _. True" for N
proof unfold_locales
  show "conserved N X s \<Longrightarrow> same_core s s' \<Longrightarrow> conserved N X s'" for X s s'
    by (simp add: conserved_def tally_same_core) (simp add: wire_packets_def same_core_def)
  show "conserved N X (set_port i (d\<lparr>sp_queue := b\<rparr>) s)" if "conserved N ((i, q, p) # X) s" "sw_devices s i = Some d"
    "beq_Enqueue p q (sp_queue d) = Some (ok, b)" for X s i q p d ok b
    by (rule conserved_less [OF that(1)]) (simp add: tally_enqueue [OF that(2,3)])
  show "conserved N ((i, m_qlast b, p) # X) (set_port i (d\<lparr>sp_queue := b\<rparr>) s)" if "conserved N X s" "sw_devices s i = Some d"
    "i < pCnt" "m_dwrrCur (sp_queue d) < beq_qCnt" "DequeueRR paused (sp_queue d) = Some (Some p, b)" for X s i d paused p b
    by (rule conserved_less [OF that(1)]) (simp add: tally_dequeue [OF that(2-5)])
  show "conserved N X (set_port i (d\<lparr>sp_queue := b\<rparr>) s)" if "conserved N X s" "sw_devices s i = Some d"
    "m_dwrrCur (sp_queue d) < beq_qCnt" "DequeueRR paused (sp_queue d) = Some (None, b)" for X s i d paused b
    by (rule conserved_less [OF that(1)]) (simp add: tally_dequeue_none [OF that(2-4)])
  show "conserved N (c # X) s \<Longrightarrow> conserved N X s" for c X s
    by (cases c; erule conserved_less) (simp add: tally_def)
  show "conserved N ((i, 0, p) # X) s \<Longrightarrow> rewritten p p' \<Longrightarrow> conserved N ((i, 0, p') # X) s" for i p X s p'
    using key_weight_rewritten [of p p' i 0 i 0] by (simp add: conserved_def tally_def)
  show "conserved N ((i, 0, p) # X) s \<Longrightarrow> conserved N X (s\<lparr>sw_wire := sw_wire s @ [(i, p, now, x)]\<rparr>)" for i p X s now x
    using key_weight_place [of i 0 p] by (simp add: conserved_def tally_def wire_packets_def ac_simps)
  show "conserved N ((pCnt, 0, p) # X) s \<Longrightarrow> conserved N ((j, 0, p) # X) s" for p X s j
    using key_weight_place [of pCnt 0 p] key_weight_place [of j 0 p] by (simp add: conserved_def tally_def)
  show "conserved N X s \<Longrightarrow> conserved N X (sw_AddTableEntry dip idx s)" "conserved N X s \<Longrightarrow> conserved N X (sw_ClearTable s)" for X s dip idx
    by (simp_all add: conserved_def tally_def in_switch_def sw_AddTableEntry_def sw_ClearTable_def wire_packets_def)
  show "conserved N ((i, q, p) # X) s \<Longrightarrow> conserved N ((i, 0, p) # X)
      (s\<lparr>sw_mmu := RemoveFromEgressAdmission (RemoveFromIngressAdmission (sw_mmu s) (unat t) q (pkt_size p)) i q (pkt_size p)\<rparr>)"
    for i q p X s t
    using key_weight_place [of i q p] key_weight_place [of i 0 p] by (simp add: conserved_def tally_def)
  show "conserved N ((e, 0, p) # X) s \<Longrightarrow> conserved N ((e, q, p) # X)
      (s\<lparr>sw_mmu := UpdateEgressAdmission (UpdateIngressAdmission (sw_mmu s) (unat t) q (pkt_size p)) e q (pkt_size p)\<rparr>)"
    for e q p X s t
    using key_weight_place [of e q p] key_weight_place [of e 0 p] by (simp add: conserved_def tally_def)
qed (simp_all add: conserved_def tally_def key_weight_def)

subsection \<open>Properties\<close>

lemma switch_relays:
  assumes "(sw_step (relayed G) L)\<^sup>*\<^sup>* s s'" and "fresh_switch s" and "routes_in L s"
  shows "forwarding L G [] s'"
  by (rule relay.run_keeps [OF assms(1)])
    (use assms(2,3) in \<open>auto simp: forwarding_def all_packets_def fresh_switch_def\<close>)

lemma own_frame_well_formed: "own_frame p \<Longrightarrow> well_formed_packet p"
  using rewritten_well_formed by (auto simp: own_frame_def)

text \<open>C5: A switch that started fresh and receives well-formed packets sends only well-formed packets. Each is a
  pause frame the switch made, or one of the packets it received, which leaves through a port that a route names for
  its destination. On its way a packet keeps its size, its whole IPv4 header but for the two congestion bits, which a
  mark sets to 3, and its whole payload but for the telemetry of a data packet. This holds in every run, with links
  that go down and routes that change within \<open>L\<close>.\<close>

theorem switch_forwards:
  assumes "(sw_step (\<lambda>p. p \<in> G) L)\<^sup>*\<^sup>* s s'" and "fresh_switch s" and "routes_in L s"
    and "\<And>g. g \<in> G \<Longrightarrow> well_formed_packet g" and "(i, p, t, x) \<in> set (sw_wire s')"
  shows "well_formed_packet p \<and> (own_frame p \<or> (\<exists>g\<in>G. rewritten g p) \<and> L (ip_destination (pkt_ip p)) i)"
proof -
  have "sw_step (\<lambda>p. p \<in> G) L \<le> sw_step (relayed G) L"
    by (intro predicate2I) (erule sw_step_mono, unfold relayed_def, blast intro: rewritten_refl)
  then have "forwarding L G [] s'" using switch_relays [OF predicate2D [OF rtranclp_mono assms(1)] assms(2,3)] by blast
  then have m: "i < pCnt" "may_hold L G i p" using assms(5) by (auto simp: forwarding_def all_packets_def)
  then have "well_formed_packet p"
    using own_frame_well_formed assms(4) rewritten_well_formed by (auto simp: may_hold_def relayed_def)
  then show ?thesis using m by (auto simp: may_hold_def relayed_def)
qed

text \<open>A run with the packets that arrived in it, the last one first.\<close>

inductive sw_run :: "SwitchNode \<Rightarrow> packet list \<Rightarrow> SwitchNode \<Rightarrow> bool" for s0 where
  start: "sw_run s0 [] s0"
| arrival: "sw_run s0 ps s \<Longrightarrow> sw_Receive env corrupt i p s = Some s' \<Longrightarrow> sw_run s0 (p # ps) s'"
| other: "sw_run s0 ps s \<Longrightarrow> quiet (\<lambda>_ _. True) s s' \<Longrightarrow> sw_run s0 ps s'"

lemma conserved_arrival: "conserved N [] s \<Longrightarrow> conserved (key_weight 0 0 p + N) [(pCnt, 0, p)] s"
  using key_weight_place [of pCnt 0 p] by (simp add: conserved_def tally_def)

lemma sw_run_conserved: "sw_run s ps s' \<Longrightarrow> fresh_switch s \<Longrightarrow> conserved (keys_of ps) [] s'"
proof (induction rule: sw_run.induct)
  case start
  then show ?case using fresh_switch_tally by (auto simp: conserved_def fresh_switch_def wire_packets_def)
next
  case (arrival ps s env corrupt i p s')
  then show ?case using conserve.Receive_keeps [OF conserved_arrival [of _ s p] _ arrival.hyps(2)] by simp
next
  case (other ps s s')
  then show ?case using conserve.quiet_keeps by blast
qed

text \<open>C6: A switch neither invents nor repeats packets: in every run from a fresh switch, the packets on its
  wires and in its queues that are no pause frames, counted with what a switch does not change
  (size, addresses, payload without telemetry), are at most those that arrived.\<close>

theorem switch_conserves:
  assumes "sw_run s ps s'" and "fresh_switch s"
  shows "tally key_weight [] s' + keys_of (wire_packets s') \<subseteq># keys_of ps"
  using sw_run_conserved [OF assms] by (simp add: conserved_def)

subsection \<open>Witnesses\<close>

lemma switch_forwards_witness:
  "\<exists>s. sw_Receive demo_env False 1 demo_arrival demo_switch = Some s \<and> well_formed_packet demo_frame
     \<and> (own_frame demo_frame \<or> (\<exists>g\<in>{demo_arrival}. rewritten g demo_frame) \<and> ip_destination (pkt_ip demo_frame) = 0x0b000201 \<and> 1 = (2::nat))"
proof -
  let ?L = "\<lambda>dip e. dip = 0x0b000201 \<and> e = 2"
  obtain s where s: "sw_Receive demo_env False 1 demo_arrival demo_switch = Some s" "sw_wire s = [(1, demo_frame, 0, 3)]"
    using demo_receive by blast
  have "sw_step (\<lambda>p. p \<in> {demo_arrival}) ?L demo_switch s" by (rule sw_step.Receive [OF _ s(1)]) simp
  then have r: "(sw_step (\<lambda>p. p \<in> {demo_arrival}) ?L)\<^sup>*\<^sup>* demo_switch s" by (rule r_into_rtranclp)
  have l: "routes_in ?L demo_switch" by (simp add: routes_in_def demo_switch_def)
  show ?thesis
    using switch_forwards [OF r demo_fresh l, of 1 demo_frame 0 3] s by auto
qed

lemma switch_conserves_witness:
  "\<exists>s. sw_Receive demo_env False 1 demo_arrival demo_switch = Some s
     \<and> tally key_weight [] s + keys_of (wire_packets s) \<subseteq># {#packet_key demo_arrival#}"
proof -
  obtain s where s: "sw_Receive demo_env False 1 demo_arrival demo_switch = Some s" using demo_receive by blast
  have "keys_of [demo_arrival] = {#packet_key demo_arrival#}" by (simp add: key_weight_def demo_arrival_def)
  then show ?thesis
    using switch_conserves [OF sw_run.arrival [OF sw_run.start s] demo_fresh] s by auto
qed

end
