(* ===== verification/Switch_Routing.thy ===== *)
theory Switch_Routing
  imports Switch_Forwarding
begin

text \<open>
  Routing and admission at a switch: the hash is MurmurHash3 (\<open>ecmp_is_murmur\<close>, against the model of
  \<^verbatim>\<open>hash-murmur3.cc\<close>), the packets of a flow take one path (\<open>flow_one_path\<close>), and a packet is
  refused only when its class is paused or about to be (\<open>switch_refuses\<close>).
\<close>

subsection \<open>The hash\<close>

lemma ecmp_scramble_mix: "ecmp_scramble k = mix_k1 k"
  by (simp add: ecmp_scramble_def mix_k1_def rotl32_def Let_def)

lemma ecmp_word_mix: "ecmp_word k h = mix_h1 h k"
proof -
  have m: "y + (push_bit 2 y + c) = y * 5 + c" for y c :: u32
    by (simp add: push_bit_eq_mult algebra_simps)
  show ?thesis unfolding ecmp_word_def mix_h1_def Let_def rotl32_def ecmp_scramble_mix m by simp
qed

lemma byte_disjoint: "push_bit 8 x OR ucast (b :: u8) = push_bit 8 x XOR (ucast b :: u32)"
  by (rule bit_word_eqI) (auto simp: bit_or_iff bit_xor_iff bit_push_bit_iff bit_ucast_iff dest: bit_imp_le_length)

lemma push_bit_xor: "push_bit n (x XOR y) = push_bit n x XOR push_bit n (y :: u32)"
  by (rule bit_word_eqI) (auto simp: bit_xor_iff bit_push_bit_iff)

lemma ecmp_blocks_incr: "ecmp_blocks key h = MurmurHash3_x86_32_incr key h"
  by (induction key h rule: MurmurHash3_x86_32_incr.induct)
    (simp_all add: ecmp_word_mix le_word_def block4_def ecmp_scramble_mix byte_disjoint push_bit_xor xor.assoc push_bit_push_bit)

lemma ecmp_final_fmix: "ecmp_final h = fmix h"
  by (simp add: ecmp_final_def fmix_def)

lemma ecmp_key_hash:
  "EcmpHash (ecmp_key sip dip w) seed = fmix (mix_h1 (mix_h1 (mix_h1 seed sip) dip) w XOR 12)"
  by (simp add: EcmpHash_def ecmp_blocks_incr ecmp_final_fmix ecmp_key_def WriteU32_def WriteU8_def block4_word [unfolded One_nat_def])

text \<open>C13: The hash that chooses among the next hops, written as its own loop in the switch, is
  MurmurHash3 (x86, 32 bits) of the key with the seed of the switch, for keys of every length; and on the keys the
  switch builds it separates any two flows that differ in one of the three words.\<close>

theorem ecmp_is_murmur:
  "EcmpHash key seed = MurmurHash3_x86_32_fin (of_nat (length key)) (MurmurHash3_x86_32_incr key seed)
   \<and> (EcmpHash (ecmp_key sip dip w) seed = EcmpHash (ecmp_key sip dip w') seed \<longleftrightarrow> w = w')
   \<and> (EcmpHash (ecmp_key sip dip w) seed = EcmpHash (ecmp_key sip dip' w) seed \<longleftrightarrow> dip = dip')
   \<and> (EcmpHash (ecmp_key sip dip w) seed = EcmpHash (ecmp_key sip' dip w) seed \<longleftrightarrow> sip = sip')"
  unfolding ecmp_key_hash fmix_inj xor_cancel_right mix_h1_inj
  by (simp add: EcmpHash_def ecmp_blocks_incr ecmp_final_fmix MurmurHash3_x86_32_fin_def)

subsection \<open>The path of a flow\<close>

text \<open>The data packets of a flow leave a switch through one port, whatever their sequence numbers, classes,
  marks and telemetry, and so do its acknowledgements; a packet never leaves through a port that
  the routes do not name for its destination.\<close>

lemma flow_one_path:
  assumes "ip_source (pkt_ip p') = ip_source (pkt_ip p)" and "ip_destination (pkt_ip p') = ip_destination (pkt_ip p)"
    and "pkt_load p = Udp_Data sp dp sq pg ih \<and> pkt_load p' = Udp_Data sp dp sq' pg' ih' \<and> pkt_proto p = 0x11 \<and> pkt_proto p' = 0x11
      \<or> pkt_load p = Qbb_Ack a \<and> pkt_load p' = Qbb_Ack a' \<and> pkt_proto p \<in> {0xFC, 0xFD} \<and> pkt_proto p' \<in> {0xFC, 0xFD}
        \<and> qbb_sport a = qbb_sport a' \<and> qbb_dport a = qbb_dport a'"
  shows "GetOutDev seed rt junk p' = GetOutDev seed rt junk' p
    \<and> (\<forall>e. GetOutDev seed rt junk p = Some (Some e) \<longrightarrow> (\<exists>hops. rt (ip_destination (pkt_ip p)) = Some hops \<and> e \<in> set hops))"
proof -
  have "flow_ports junk p' = flow_ports junk' p" using assms(3) by (auto simp: flow_ports_def)
  then have "GetOutDev seed rt junk p' = GetOutDev seed rt junk' p" by (simp add: GetOutDev_def Let_def assms(1,2) split: option.split)
  then show ?thesis using GetOutDev_hop by blast
qed

subsection \<open>Refusal\<close>

lemma SendToDev_refused:
  assumes "GetOutDev (sw_ecmpSeed s) (sw_rtTable s) (se_junk env) p = Some (Some e)" and "sw_devices s e = Some d" and "sp_linkUp d"
    and "pkt_tag p = Some t" and "e < pCnt" and "mmu_defined (sw_mmu s) (unat t) q"
    and "q = queue_of (sw_ackHighPrio (sw_conf s)) (se_junk env) p" and "q \<noteq> 0" and "\<not> admits (sw_mmu s) (unat t) e q (pkt_size p)"
  shows "SendToDev again env p s = Some s"
  using assms by (simp add: SendToDev_def Let_def guard_def mmu_defined_def)

text \<open>C8: A packet a switch cannot forward leaves it unchanged: one without a route, and one that the buffer does
  not admit. In a run from a fresh switch the second happens only when the class the packet came in is
  paused, or is due to be paused, provided the headroom of the port holds a packet of this size: with PFC
  the switch is lossless.\<close>

theorem switch_refuses:
  assumes "(sw_step short (\<lambda>_ _. True))\<^sup>*\<^sup>* s0 s" and "fresh_switch s0" and "mmu_start (sw_mmu s0)"
    and "GetOutDev (sw_ecmpSeed s) (sw_rtTable s) (se_junk env) p = Some (Some e)" and "sw_devices s e = Some d" and "sp_linkUp d"
    and "pkt_tag p = Some t" and "e < pCnt" and "mmu_defined (sw_mmu s) (unat t) q"
    and "q = queue_of (sw_ackHighPrio (sw_conf s)) (se_junk env) p" and "q \<noteq> 0"
    and "\<not> admits (sw_mmu s) (unat t) e q (pkt_size p)" and "short p" and "unat (pkt_size p) \<le> unat (headroom (sw_mmu s0) (unat t))"
    and "sw_rtTable s (ip_destination (pkt_ip p')) = None"
  shows "SwitchReceiveFromDevice env p s = Some s \<and> (mmu_paused (sw_mmu s) (unat t) q \<or> CheckShouldPause (sw_mmu s) (unat t) q)
    \<and> SwitchReceiveFromDevice env p' s = Some s"
proof -
  obtain R where R: "mmu_reach (sw_mmu s0) (sw_mmu s) R" using switch_charged [OF assms(1-3)] by blast
  have "\<not> CheckIngressAdmission (sw_mmu s) (unat t) q (pkt_size p)"
    using assms(12) by (simp add: admits_def CheckEgressAdmission_def)
  then have "mmu_paused (sw_mmu s) (unat t) q \<or> CheckShouldPause (sw_mmu s) (unat t) q"
    using refused_only_when_paused [OF R assms(3)] assms(9,13,14) by (simp add: mmu_defined_def short_def)
  moreover have "GetOutDev (sw_ecmpSeed s) (sw_rtTable s) (se_junk env) p' = Some None"
    using assms(15) by (simp add: GetOutDev_def)
  then have "SwitchReceiveFromDevice env p' s = Some s" by (simp add: SwitchReceiveFromDevice_def SendToDev_def)
  ultimately show ?thesis
    using SendToDev_refused [OF assms(4-12)] by (simp add: SwitchReceiveFromDevice_def)
qed

subsection \<open>Witnesses\<close>

lemma flow_one_path_witness:
  "GetOutDev 1 [0x0b000201 \<mapsto> [2, 3]] 0 (demo_arrival\<lparr>pkt_load := Udp_Data 10000 100 1000 4 IntHeader_init\<rparr>)
     = GetOutDev 1 [0x0b000201 \<mapsto> [2, 3]] 9 demo_arrival"
  using flow_one_path [of "demo_arrival\<lparr>pkt_load := Udp_Data 10000 100 1000 4 IntHeader_init\<rparr>" demo_arrival
      10000 100 0 3 IntHeader_init 1000 4 IntHeader_init undefined undefined 1 "[0x0b000201 \<mapsto> [2, 3]]" 0 9]
  by (simp add: demo_arrival_def pkt_proto_def)

lemma switch_refuses_witness:
  "\<exists>s. sw_Receive demo_env False 1 demo_arrival demo_switch = Some s
     \<and> SwitchReceiveFromDevice demo_env demo_tagged s = Some s
     \<and> (mmu_paused (sw_mmu s) 1 3 \<or> CheckShouldPause (sw_mmu s) 1 3)
     \<and> SwitchReceiveFromDevice demo_env (demo_tagged\<lparr>pkt_ip := Ipv4Header_init\<rparr>) s = Some s"
proof -
  obtain s where s: "sw_Receive demo_env False 1 demo_arrival demo_switch = Some s"
    "sw_mmu s = SetPause ((demo_mmu 18192)\<lparr>hdrm_bytes := upd2 (\<lambda>_ _. 0) 1 3 5000, egress_bytes := upd2 (\<lambda>_ _. 0) 2 3 5000\<rparr>) 1 3"
    "sw_devices s 2 = Some (demo_port\<lparr>sp_busy := True, sp_queue := demo_queued 3 demo_tagged\<rparr>)"
    "sw_conf s = demo_conf" "sw_ecmpSeed s = sw_ecmpSeed demo_switch" "sw_rtTable s = sw_rtTable demo_switch"
    using demo_receive by blast
  have t: "pkt_tag demo_tagged = Some 1" "pkt_size demo_tagged = 5000" by (simp_all add: demo_tagged_def demo_arrival_def)
  have j: "se_junk demo_env = 0" by (simp add: demo_env_def)
  have "SwitchReceiveFromDevice demo_env demo_tagged s = Some s
    \<and> (mmu_paused (sw_mmu s) (unat (1 :: u32)) 3 \<or> CheckShouldPause (sw_mmu s) (unat (1 :: u32)) 3)
    \<and> SwitchReceiveFromDevice demo_env (demo_tagged\<lparr>pkt_ip := Ipv4Header_init\<rparr>) s = Some s"
  proof (rule switch_refuses [OF demo_short_run [OF s(1)] demo_fresh demo_mmu_start _ s(3) _ t(1)])
    show "GetOutDev (sw_ecmpSeed s) (sw_rtTable s) (se_junk demo_env) demo_tagged = Some (Some 2)"
      using demo_route s(5,6) j by simp
    show "mmu_defined (sw_mmu s) (unat (1 :: u32)) 3"
      by (simp add: s(2) SetPause_def mmu_defined_def demo_mmu_eq blank_mmu_def pCnt_def qCnt_def)
    show "3 = queue_of (sw_ackHighPrio (sw_conf s)) (se_junk demo_env) demo_tagged"
      by (simp add: s(4) demo_conf_def queue_of_def demo_tagged_def demo_arrival_def pkt_proto_def)
    show "\<not> admits (sw_mmu s) (unat (1 :: u32)) 2 3 (pkt_size demo_tagged)"
      by (simp add: s(2) t SetPause_def admits_def CheckEgressAdmission_def CheckIngressAdmission_def GetPfcThreshold_def GetSharedUsed_def Let_def demo_mmu_eq blank_mmu_def)
    show "sw_rtTable s (ip_destination (pkt_ip (demo_tagged\<lparr>pkt_ip := Ipv4Header_init\<rparr>))) = None"
      by (simp add: s(6) demo_switch_def Ipv4Header_init_def)
  qed (simp_all add: demo_port_def pCnt_def short_def t demo_mmu_eq)
  then show ?thesis using s(1) by auto
qed

end
