(* ===== verification/Network.thy ===== *)
theory Network
  imports Switch_Forwarding
begin

text \<open>
  The two hosts of a flow and the switches between them, each running its code (\<open>Rdma_Host\<close> and
  \<open>Rdma_Receive\<close>, \<open>Switch_Node\<close>), over any topology whose routes end at the right hosts. The network
  refines the two hosts of \<open>Rdma_Flow\<close> (\<open>network_refines_flow\<close>), so that a completed flow is delivered
  through the switches too (\<open>network_delivers\<close>). Each node has a clock of its own, which may move on between its
  steps (\<open>Wait\<close>); a run of the one clock of the code is a run in which the nodes wait for each other.
\<close>

subsection \<open>A network\<close>

text \<open>The other end of a link; what is beyond it is not modelled.\<close>

datatype place = At_A nat | At_B nat | At_Switch nat nat | Beyond

record topology =
  tp_A :: "nat \<Rightarrow> place"
  tp_B :: "nat \<Rightarrow> place"
  tp_sw :: "nat \<Rightarrow> nat \<Rightarrow> place"
  tp_routes :: "nat \<Rightarrow> u32 \<Rightarrow> nat \<Rightarrow> bool"

record net =
  nt_A :: host
  nt_B :: host
  nt_sw :: "nat \<Rightarrow> SwitchNode"

text \<open>A switch sends to a host only what is addressed to it.\<close>

definition well_routed :: "flow \<Rightarrow> topology \<Rightarrow> bool" where
  "well_routed F T \<longleftrightarrow> (\<forall>k i j dip. tp_routes T k dip i \<longrightarrow>
     (tp_sw T k i = At_A j \<longrightarrow> dip = fl_sip F) \<and> (tp_sw T k i = At_B j \<longrightarrow> dip = fl_dip F))"

text \<open>A host sends neither under the address of the other one nor to its own.\<close>

definition proper :: "u32 \<Rightarrow> u32 \<Rightarrow> packet \<Rightarrow> bool" where
  "proper me other p \<longleftrightarrow> ip_source (pkt_ip p) \<noteq> other \<and> ip_destination (pkt_ip p) \<noteq> me"

text \<open>The hosts act, the switches act, packets cross the links, and other hosts send packets that are not of the
  flow. A link may lose, repeat and reorder packets.\<close>

inductive net_step :: "flow \<Rightarrow> topology \<Rightarrow> net \<Rightarrow> net \<Rightarrow> bool" for F T where
  Act_A: "act F (nt_A n) A' \<Longrightarrow> net_step F T n (n\<lparr>nt_A := A'\<rparr>)"
| Act_B: "act F (nt_B n) B' \<Longrightarrow> net_step F T n (n\<lparr>nt_B := B'\<rparr>)"
| Quiet: "quiet (tp_routes T k) (nt_sw n k) s' \<Longrightarrow> net_step F T n (n\<lparr>nt_sw := (nt_sw n)(k := s')\<rparr>)"
| Others: "\<not> flow_data F p \<Longrightarrow> \<not> flow_ack F p \<Longrightarrow> sw_Receive env corrupt j p (nt_sw n k) = Some s'
    \<Longrightarrow> net_step F T n (n\<lparr>nt_sw := (nt_sw n)(k := s')\<rparr>)"
| From_A: "(i, p, t, x) \<in> set (h_wire (nt_A n)) \<Longrightarrow> tp_A T i = At_Switch k j \<Longrightarrow> proper (fl_sip F) (fl_dip F) p
    \<Longrightarrow> sw_Receive env corrupt j p (nt_sw n k) = Some s' \<Longrightarrow> net_step F T n (n\<lparr>nt_sw := (nt_sw n)(k := s')\<rparr>)"
| From_B: "(i, p, t, x) \<in> set (h_wire (nt_B n)) \<Longrightarrow> tp_B T i = At_Switch k j \<Longrightarrow> proper (fl_dip F) (fl_sip F) p
    \<Longrightarrow> sw_Receive env corrupt j p (nt_sw n k) = Some s' \<Longrightarrow> net_step F T n (n\<lparr>nt_sw := (nt_sw n)(k := s')\<rparr>)"
| Hop: "(i, p, t, x) \<in> set (sw_wire (nt_sw n k')) \<Longrightarrow> tp_sw T k' i = At_Switch k j
    \<Longrightarrow> sw_Receive env corrupt j p (nt_sw n k) = Some s' \<Longrightarrow> net_step F T n (n\<lparr>nt_sw := (nt_sw n)(k := s')\<rparr>)"
| To_A: "(i, p, t, x) \<in> set (sw_wire (nt_sw n k)) \<Longrightarrow> tp_sw T k i = At_A j
    \<Longrightarrow> nic_Receive henv corrupt j p (nt_A n) = Some A' \<Longrightarrow> net_step F T n (n\<lparr>nt_A := A'\<rparr>)"
| To_B: "(i, p, t, x) \<in> set (sw_wire (nt_sw n k)) \<Longrightarrow> tp_sw T k i = At_B j
    \<Longrightarrow> nic_Receive henv corrupt j p (nt_B n) = Some B' \<Longrightarrow> net_step F T n (n\<lparr>nt_B := B'\<rparr>)"

inductive_cases net_stepE: "net_step F T n n'"

subsection \<open>The invariant\<close>

text \<open>What may be under way in the switches.\<close>

definition flying :: "flow \<Rightarrow> net \<Rightarrow> packet set" where
  "flying F n = {p \<in> sent (nt_A n). proper (fl_sip F) (fl_dip F) p} \<union> {p \<in> sent (nt_B n). proper (fl_dip F) (fl_sip F) p}
     \<union> {p. is_Pfc (pkt_load p) \<or> \<not> flow_data F p \<and> \<not> flow_ack F p}"

definition net_inv :: "flow \<Rightarrow> topology \<Rightarrow> net \<Rightarrow> bool" where
  "net_inv F T n \<longleftrightarrow> (\<forall>k. forwarding (tp_routes T k) (flying F n) [] (nt_sw n k))"

lemma forwarding_mono: "forwarding L G X s \<Longrightarrow> G \<subseteq> G' \<Longrightarrow> forwarding L G' X s"
  unfolding forwarding_def all_packets_def may_hold_def relayed_def by fast

lemma flying_mono:
  assumes "set (h_wire (nt_A n)) \<subseteq> set (h_wire (nt_A n'))" and "set (h_wire (nt_B n)) \<subseteq> set (h_wire (nt_B n'))"
  shows "flying F n \<subseteq> flying F n'"
  using assms unfolding flying_def sent_def by blast

lemma net_inv_hosts:
  assumes "net_inv F T n" and "nt_sw n' = nt_sw n"
    and "set (h_wire (nt_A n)) \<subseteq> set (h_wire (nt_A n'))" and "set (h_wire (nt_B n)) \<subseteq> set (h_wire (nt_B n'))"
  shows "net_inv F T n'"
  using assms(1,2) forwarding_mono [OF _ flying_mono [OF assms(3,4)]] by (simp add: net_inv_def)

lemma flying_switch [simp]: "flying F (n\<lparr>nt_sw := S\<rparr>) = flying F n"
  by (simp add: flying_def)

lemma net_inv_switch:
  "net_inv F T n \<Longrightarrow> forwarding (tp_routes T k) (flying F n) [] s' \<Longrightarrow> net_inv F T (n\<lparr>nt_sw := (nt_sw n)(k := s')\<rparr>)"
  by (simp add: net_inv_def)

lemma rewritten_flow:
  assumes "rewritten g p"
  shows "flow_data F p \<longleftrightarrow> flow_data F g" and "flow_ack F p \<longleftrightarrow> flow_ack F g" and "carried g p"
    and "ip_destination (pkt_ip p) = ip_destination (pkt_ip g)"
proof -
  have c: "carried g p" "carried p g" using rewritten_fields(1) [OF assms] carried_back by blast+
  then show "flow_data F p \<longleftrightarrow> flow_data F g" "flow_ack F p \<longleftrightarrow> flow_ack F g" using carried_data(1) carried_ack(1) by blast+
  show "carried g p" "ip_destination (pkt_ip p) = ip_destination (pkt_ip g)" using c by (simp_all add: carried_def)
qed

lemma Pfc_not_flow: "is_Pfc (pkt_load p) \<Longrightarrow> \<not> flow_data F p \<and> \<not> flow_ack F p"
  by (cases "pkt_load p") (simp_all add: flow_data_def flow_ack_def)

lemma own_frame_Pfc: "own_frame p \<Longrightarrow> is_Pfc (pkt_load p)"
  using key_is_Pfc rewritten_key pfc_frame_simps(1) unfolding own_frame_def by blast

text \<open>A packet on a wire of a switch may enter another one.\<close>

lemma wire_flies:
  assumes "net_inv F T n" and "(i, p, t, x) \<in> set (sw_wire (nt_sw n k))"
  shows "relayed (flying F n) p"
    and "own_frame p \<or> (\<exists>g \<in> flying F n. rewritten g p) \<and> tp_routes T k (ip_destination (pkt_ip p)) i"
proof -
  have w: "i < pCnt" "may_hold (tp_routes T k) (flying F n) i p"
    using assms by (auto simp: net_inv_def forwarding_def all_packets_def)
  have "relayed (flying F n) p" if "own_frame p"
    using own_frame_Pfc [OF that] rewritten_refl unfolding relayed_def flying_def by blast
  then show "relayed (flying F n) p" using w by (auto simp: may_hold_def)
  show "own_frame p \<or> (\<exists>g \<in> flying F n. rewritten g p) \<and> tp_routes T k (ip_destination (pkt_ip p)) i"
    using w by (auto simp: may_hold_def relayed_def)
qed

lemma arrival_keeps:
  assumes "net_inv F T n" and "relayed (flying F n) p" and "sw_Receive env corrupt j p (nt_sw n k) = Some s'"
  shows "net_inv F T (n\<lparr>nt_sw := (nt_sw n)(k := s')\<rparr>)"
proof (rule net_inv_switch [OF assms(1)])
  have "forwarding (tp_routes T k) (flying F n) [] (nt_sw n k)" using assms(1) by (simp add: net_inv_def)
  from relay.Receive_keeps [OF relay.arrive [OF this assms(2)] assms(2,3)]
  show "forwarding (tp_routes T k) (flying F n) [] s'" .
qed

subsection \<open>Refinement\<close>

lemma to_B_step:
  assumes "net_inv F T n" and "well_routed F T" and "(i, p, t, x) \<in> set (sw_wire (nt_sw n k))" and "tp_sw T k i = At_B j"
    and "nic_Receive env corrupt j p (nt_B n) = Some B'"
  shows "flow_step F (nt_A n, nt_B n) (nt_A n, B')"
proof (cases "flow_data F p \<or> flow_ack F p")
  case False
  then show ?thesis using act.Other [OF assms(5)] flow_step.Receiver by blast
next
  case True
  then have "\<not> own_frame p" using own_frame_Pfc Pfc_not_flow by blast
  then obtain g where g: "g \<in> flying F n" "rewritten g p" and r: "tp_routes T k (ip_destination (pkt_ip p)) i"
    using wire_flies(2) [OF assms(1,3)] by blast
  note e = rewritten_flow [OF g(2)]
  have d: "ip_destination (pkt_ip g) = fl_dip F" using assms(2,4) r e(4) by (auto simp: well_routed_def)
  have "flow_data F g \<or> flow_ack F g" using True e(1,2) by blast
  then have "g \<in> sent (nt_A n) \<and> flow_data F g"
    using g(1) d Pfc_not_flow [of g F] by (auto simp: flying_def proper_def flow_data_def flow_ack_def)
  then show ?thesis using flow_step.Deliver [OF _ d _ e(3) assms(5)] by blast
qed

lemma to_A_step:
  assumes "net_inv F T n" and "well_routed F T" and "(i, p, t, x) \<in> set (sw_wire (nt_sw n k))" and "tp_sw T k i = At_A j"
    and "nic_Receive env corrupt j p (nt_A n) = Some A'"
  shows "flow_step F (nt_A n, nt_B n) (A', nt_B n)"
proof (cases "flow_data F p \<or> flow_ack F p")
  case False
  then show ?thesis using act.Other [OF assms(5)] flow_step.Sender by blast
next
  case True
  then have "\<not> own_frame p" using own_frame_Pfc Pfc_not_flow by blast
  then obtain g where g: "g \<in> flying F n" "rewritten g p" and r: "tp_routes T k (ip_destination (pkt_ip p)) i"
    using wire_flies(2) [OF assms(1,3)] by blast
  note e = rewritten_flow [OF g(2)]
  have d: "ip_destination (pkt_ip g) = fl_sip F" using assms(2,4) r e(4) by (auto simp: well_routed_def)
  have "flow_data F g \<or> flow_ack F g" using True e(1,2) by blast
  then have "g \<in> sent (nt_B n) \<and> flow_ack F g"
    using g(1) d Pfc_not_flow [of g F] by (auto simp: flying_def proper_def flow_data_def flow_ack_def)
  then show ?thesis using flow_step.Reply [OF _ d _ e(3) assms(5)] by blast
qed

abbreviation hosts :: "net \<Rightarrow> host \<times> host" where
  "hosts n \<equiv> (nt_A n, nt_B n)"

lemma net_step_refines:
  assumes "net_step F T n n'" and "net_inv F T n" and "well_routed F T"
  shows "net_inv F T n' \<and> (hosts n' = hosts n \<or> flow_step F (hosts n) (hosts n'))"
  using assms(1)
proof cases
  case (Act_A A')
  then show ?thesis using net_inv_hosts [OF assms(2)] act_grows flow_step.Sender by simp
next
  case (Act_B B')
  then show ?thesis using net_inv_hosts [OF assms(2)] act_grows flow_step.Receiver by simp
next
  case (Quiet k s')
  have "forwarding (tp_routes T k) (flying F n) [] (nt_sw n k)" using assms(2) by (simp add: net_inv_def)
  then have "forwarding (tp_routes T k) (flying F n) [] s'" by (rule relay.quiet_keeps [OF Quiet(2)])
  then show ?thesis using Quiet(1) net_inv_switch [OF assms(2)] by simp
next
  case (Others p env corrupt j k s')
  have "relayed (flying F n) p" using Others(2,3) rewritten_refl unfolding relayed_def flying_def by blast
  then show ?thesis using Others(1) arrival_keeps [OF assms(2) _ Others(4)] by simp
next
  case (From_A i p t x k j env corrupt s')
  have "p \<in> flying F n" using From_A(2,4) by (force simp: flying_def sent_def)
  then have "relayed (flying F n) p" using rewritten_refl unfolding relayed_def by blast
  then show ?thesis using From_A(1) arrival_keeps [OF assms(2) _ From_A(5)] by simp
next
  case (From_B i p t x k j env corrupt s')
  have "p \<in> flying F n" using From_B(2,4) by (force simp: flying_def sent_def)
  then have "relayed (flying F n) p" using rewritten_refl unfolding relayed_def by blast
  then show ?thesis using From_B(1) arrival_keeps [OF assms(2) _ From_B(5)] by simp
next
  case (Hop i p t x k' k j env corrupt s')
  then show ?thesis using arrival_keeps [OF assms(2) wire_flies(1) [OF assms(2) Hop(2)] Hop(4)] by simp
next
  case (To_A i p t x k j henv corrupt A')
  then show ?thesis
    using net_inv_hosts [OF assms(2)] nic_Receive_grows [OF To_A(4)] to_A_step [OF assms(2,3) To_A(2-4)] by simp
next
  case (To_B i p t x k j henv corrupt B')
  then show ?thesis
    using net_inv_hosts [OF assms(2)] nic_Receive_grows [OF To_B(4)] to_B_step [OF assms(2,3) To_B(2-4)] by simp
qed

lemma net_run_refines:
  assumes "(net_step F T)\<^sup>*\<^sup>* n n'" and "net_inv F T n" and "well_routed F T"
  shows "net_inv F T n' \<and> (flow_step F)\<^sup>*\<^sup>* (hosts n) (hosts n')"
  using assms(1)
proof (induction rule: rtranclp_induct)
  case (step n' n'')
  then show ?case using net_step_refines [OF step(2) _ assms(3)] rtranclp.rtrancl_into_rtrancl by metis
qed (simp add: assms(2))

lemma fresh_net_inv:
  "(\<And>k. fresh_switch (nt_sw n k) \<and> routes_in (tp_routes T k) (nt_sw n k)) \<Longrightarrow> net_inv F T n"
  by (auto simp: net_inv_def forwarding_def all_packets_def fresh_switch_def)

subsection \<open>Properties\<close>

text \<open>C2: Two hosts and any number of switches that run the code, over any topology whose routes
  deliver to a host only what is addressed to it, among traffic of other hosts, refine the two hosts over a
  network that may lose, repeat, reorder and re-mark packets: every run of the network is a run of \<open>flow_step\<close>.\<close>

theorem network_refines_flow:
  assumes "(net_step F T)\<^sup>*\<^sup>* n n'" and "well_routed F T"
    and "\<And>k. fresh_switch (nt_sw n k) \<and> routes_in (tp_routes T k) (nt_sw n k)"
  shows "(flow_step F)\<^sup>*\<^sup>* (hosts n) (hosts n')"
  using net_run_refines [OF assms(1) fresh_net_inv [OF assms(3)] assms(2)] by blast

text \<open>C1: A flow that its sender reports complete has been delivered to its receiver in full and in order, through
  the switches.\<close>

theorem network_delivers:
  assumes "(net_step F T)\<^sup>*\<^sup>* n n'" and "well_routed F T"
    and "\<And>k. fresh_switch (nt_sw n k) \<and> routes_in (tp_routes T k) (nt_sw n k)"
    and "flow_inv F (hosts n)" and "fl_qp F \<notin> set (h_completed (nt_A n))" and "fl_qp F \<in> set (h_completed (nt_A n'))"
  shows "received F (nt_B n') = unat (fl_size F) \<and> acked F (nt_A n') = unat (fl_size F)"
proof -
  have run: "(flow_step F)\<^sup>*\<^sup>* (hosts n) (hosts n')"
    using net_run_refines [OF assms(1) fresh_net_inv [OF assms(3)] assms(2)] by blast
  have "stream_ok (unat (fl_size F)) (flow_abs F (hosts n))"
    using assms(4,5) by (simp add: stream_ok_def flow_abs_def flow_inv_def receiver_inv_def)
  from flow_run_ok [OF run assms(4) this] have "acked F (nt_A n') = unat (fl_size F)"
    using assms(6) by (simp add: stream_ok_def flow_abs_def)
  then show ?thesis using completed_means_delivered [OF run assms(4-6)] by simp
qed

subsection \<open>Witnesses\<close>

text \<open>The hosts of \<open>Rdma_Flow\<close> at the ports 1 and 2 of a switch; the acknowledgement of the whole flow is on the
  wire of the receiver.\<close>

definition demo_topology :: topology where
  "demo_topology = \<lparr>tp_A = (\<lambda>_. At_Switch 0 1), tp_B = (\<lambda>_. At_Switch 0 2),
     tp_sw = (\<lambda>k i. if i = 1 then At_A 1 else if i = 2 then At_B 1 else Beyond),
     tp_routes = (\<lambda>k dip i. dip = 0x0b000001 \<and> i = 1 \<or> dip = 0x0b000101 \<and> i = 2)\<rparr>"

definition demo_middle :: SwitchNode where
  "demo_middle = (SwitchNode_init 1 demo_conf blank_mmu [1 \<mapsto> demo_port, 2 \<mapsto> demo_port])
     \<lparr>sw_rtTable := [0x0b000001 \<mapsto> [1], 0x0b000101 \<mapsto> [2]]\<rparr>"

definition demo_net :: net where
  "demo_net = \<lparr>nt_A = demo_sender, nt_B = demo_receiver2, nt_sw = (\<lambda>_. demo_middle)\<rparr>"

lemma demo_middle_fresh: "fresh_switch demo_middle \<and> routes_in (tp_routes demo_topology k) demo_middle"
  by (auto simp: demo_middle_def SwitchNode_init_def fresh_switch_def routes_in_def demo_topology_def demo_port_def contents_def
      BEgressQueue_init_def OldQueue_init_def split: if_splits)

lemma demo_well_routed: "well_routed demo_flow demo_topology"
  by (auto simp: well_routed_def demo_topology_def demo_flow_def split: if_splits)

lemma demo_forwarded:
  "\<exists>s. sw_Receive demo_env False 2 demo_reply demo_middle = Some s \<and> sw_wire s = [(1, demo_reply, 0, 8)]"
proof -
  let ?p = "demo_reply\<lparr>pkt_tag := Some 2\<rparr>"
  let ?s = "set_port 1 (demo_port\<lparr>sp_queue := demo_queued 0 ?p\<rparr>)
    (demo_middle\<lparr>sw_bytes := (sw_bytes demo_middle)(2 := upd2 (sw_bytes demo_middle 2) 1 0 (sw_bytes demo_middle 2 1 0 + 100))\<rparr>)"
  have p: "pkt_size ?p = 100" "pkt_proto demo_reply = 0xFC" "pkt_proto ?p = 0xFC" "?p\<lparr>pkt_tag := None\<rparr> = demo_reply"
    by (simp_all add: demo_reply_def pkt_proto_def)
  have e: "beq_Enqueue ?p 0 (BEgressQueue_init 0) = Some (True, demo_queued 0 ?p)"
    by (rule demo_enqueue) (simp_all add: fCnt_def demo_reply_def)
  have o: "GetOutDev (sw_ecmpSeed demo_middle) (sw_rtTable demo_middle) (se_junk demo_env) ?p = Some (Some 1)"
    by (simp add: GetOutDev_def demo_middle_def SwitchNode_init_def demo_reply_def flow_ports_def pkt_proto_def guard_def Let_def)
  have q: "queue_of (sw_ackHighPrio (sw_conf demo_middle)) (se_junk demo_env) ?p = 0"
    using p(3) by (simp add: queue_of_def demo_middle_def SwitchNode_init_def demo_conf_def)
  have d: "sw_devices demo_middle 1 = Some demo_port" "sw_devices demo_middle 2 = Some demo_port" "sp_linkUp demo_port"
    "sp_queue demo_port = BEgressQueue_init 0"
    by (simp_all add: demo_middle_def SwitchNode_init_def demo_port_def)
  have g: "(1::nat) < pCnt" "(2::nat) < pCnt" "(0::nat) < qCnt" by (simp_all add: pCnt_def qCnt_def)
  have "sw_Receive demo_env False 2 demo_reply demo_middle = sw_DequeueAndTransmit demo_env 1 ?s"
    using p d e o q g by (simp add: sw_Receive_def SwitchReceiveFromDevice_def SendToDev_def SwitchSend_def Let_def guard_def)
  moreover have "sw_devices ?s 1 = Some (demo_port\<lparr>sp_queue := demo_queued 0 ?p\<rparr>)" "sw_sim ?s = sim_init" "sw_wire ?s = []"
    by (simp_all add: set_port_def demo_middle_def SwitchNode_init_def)
  ultimately show ?thesis using demo_transmit [of ?s ?p 8 demo_env] p demo_tx_time(2) by auto
qed

lemma demo_net_run:
  "\<exists>n'. (net_step demo_flow demo_topology)\<^sup>*\<^sup>* demo_net n' \<and> 0 \<in> set (h_completed (nt_A n')) \<and> nt_B n' = demo_receiver2"
proof -
  obtain s where s: "sw_Receive demo_env False 2 demo_reply demo_middle = Some s" "sw_wire s = [(1, demo_reply, 0, 8)]"
    using demo_forwarded by blast
  let ?n1 = "demo_net\<lparr>nt_sw := (nt_sw demo_net)(0 := s)\<rparr>"
  have "proper (fl_dip demo_flow) (fl_sip demo_flow) demo_reply"
    by (simp add: proper_def demo_reply_def demo_flow_def)
  then have 1: "net_step demo_flow demo_topology demo_net ?n1"
    by (rule net_step.From_B [of 1 demo_reply 0 8 _ _ _ 2 _ demo_env False, rotated 2])
      (simp_all add: demo_net_def s(1) demo_topology_def demo_receiver2_def)
  obtain A' where A': "nic_Receive undefined False 1 demo_reply demo_sender = Some A'" "0 \<in> set (h_completed A')"
    using demo_reply_completes by blast
  have 2: "net_step demo_flow demo_topology ?n1 (?n1\<lparr>nt_A := A'\<rparr>)"
    by (rule net_step.To_A [of 1 demo_reply 0 8 _ 0 _ 1 undefined False]) (simp_all add: s(2) demo_topology_def demo_net_def A'(1) [unfolded One_nat_def])
  have "(net_step demo_flow demo_topology)\<^sup>*\<^sup>* demo_net (?n1\<lparr>nt_A := A'\<rparr>)"
    using 1 2 by (meson rtranclp.rtrancl_into_rtrancl r_into_rtranclp)
  then show ?thesis using A'(2) by (intro exI [of _ "?n1\<lparr>nt_A := A'\<rparr>"]) (simp add: demo_net_def)
qed

lemma network_refines_flow_witness:
  "\<exists>n'. 0 \<in> set (h_completed (nt_A n')) \<and> (flow_step demo_flow)\<^sup>*\<^sup>* (hosts demo_net) (hosts n')"
proof -
  obtain n' where n: "(net_step demo_flow demo_topology)\<^sup>*\<^sup>* demo_net n'" "0 \<in> set (h_completed (nt_A n'))" using demo_net_run by blast
  have "fresh_switch (nt_sw demo_net k) \<and> routes_in (tp_routes demo_topology k) (nt_sw demo_net k)" for k
    using demo_middle_fresh by (simp add: demo_net_def)
  from network_refines_flow [OF n(1) demo_well_routed this] show ?thesis using n(2) by blast
qed

lemma network_delivers_witness:
  "\<exists>n'. (net_step demo_flow demo_topology)\<^sup>*\<^sup>* demo_net n' \<and> received demo_flow (nt_B n') = 1000 \<and> acked demo_flow (nt_A n') = 1000"
proof -
  obtain n' where n: "(net_step demo_flow demo_topology)\<^sup>*\<^sup>* demo_net n'" "0 \<in> set (h_completed (nt_A n'))" using demo_net_run by blast
  have f: "fresh_switch (nt_sw demo_net k) \<and> routes_in (tp_routes demo_topology k) (nt_sw demo_net k)" for k
    using demo_middle_fresh by (simp add: demo_net_def)
  have h: "flow_inv demo_flow (hosts demo_net)" "fl_qp demo_flow \<notin> set (h_completed (nt_A demo_net))" "fl_qp demo_flow = 0" "unat (fl_size demo_flow) = 1000"
    using demo_flow_inv(2) by (simp_all add: demo_net_def demo_flow_def demo_sender_def demo_host_def)
  show ?thesis using network_delivers [OF n(1) demo_well_routed f h(1,2)] n h(3,4) by auto
qed

end
