(* ===== verification/Schedulers.thy ===== *)
theory Schedulers
  imports Sim_Events "HOL-Library.Multiset"
begin

text \<open>
  The event queues a simulation can be given (\<^verbatim>\<open>scheduler.h\<close>): the abstract class \<^verbatim>\<open>Scheduler\<close> is a
  record of its operations, and its contract the locale \<open>scheduler\<close>, which relates the state of a
  queue to the list of the pending events in the order they are due. A client that keeps the
  rules of the interface gets the same answers from every queue that meets the contract. This theory has the
  list (\<^verbatim>\<open>list-scheduler.cc\<close>), the ordered map (\<^verbatim>\<open>map-scheduler.cc\<close>) and the queue over
  \<^verbatim>\<open>std::priority_queue\<close> (\<^verbatim>\<open>priority-queue-scheduler.cc\<close>).
\<close>

record EventKey =
  k_ts :: u64
  k_uid :: u32
  k_context :: u32

text \<open>The body of an event is a pointer, \<open>None\<close> when it is null.\<close>

record 'e Event =
  ev_impl :: "'e option"
  ev_key :: EventKey

definition EventKey_eq :: "EventKey \<Rightarrow> EventKey \<Rightarrow> bool" where
  "EventKey_eq a b \<longleftrightarrow> k_uid a = k_uid b"

definition EventKey_less :: "EventKey \<Rightarrow> EventKey \<Rightarrow> bool" where
  "EventKey_less a b \<longleftrightarrow> k_ts a < k_ts b \<or> k_ts a = k_ts b \<and> k_uid a < k_uid b"

definition EventKey_greater :: "EventKey \<Rightarrow> EventKey \<Rightarrow> bool" where
  "EventKey_greater a b \<longleftrightarrow> k_ts a > k_ts b \<or> k_ts a = k_ts b \<and> k_uid a > k_uid b"

definition Event_eq :: "'e Event \<Rightarrow> 'e Event \<Rightarrow> bool" where
  "Event_eq a b \<longleftrightarrow> EventKey_eq (ev_key a) (ev_key b)"

definition Event_less :: "'e Event \<Rightarrow> 'e Event \<Rightarrow> bool" where
  "Event_less a b \<longleftrightarrow> EventKey_less (ev_key a) (ev_key b)"

definition Event_greater :: "'e Event \<Rightarrow> 'e Event \<Rightarrow> bool" where
  "Event_greater a b \<longleftrightarrow> EventKey_greater (ev_key a) (ev_key b)"

abbreviation ev_ts :: "'e Event \<Rightarrow> u64" where "ev_ts e \<equiv> k_ts (ev_key e)"
abbreviation ev_uid :: "'e Event \<Rightarrow> u32" where "ev_uid e \<equiv> k_uid (ev_key e)"

lemma EventKey_greater_flip: "EventKey_greater a b \<longleftrightarrow> EventKey_less b a"
  by (auto simp: EventKey_greater_def EventKey_less_def)

lemma Event_greater_flip: "Event_greater a b \<longleftrightarrow> Event_less b a"
  by (simp add: Event_greater_def Event_less_def EventKey_greater_flip)

lemma EventKey_less_trans: "EventKey_less a b \<Longrightarrow> EventKey_less b c \<Longrightarrow> EventKey_less a c"
  by (auto simp: EventKey_less_def)

lemma EventKey_less_irrefl [simp]: "\<not> EventKey_less a a"
  by (simp add: EventKey_less_def)

lemma Event_less_trans: "Event_less a b \<Longrightarrow> Event_less b c \<Longrightarrow> Event_less a c"
  by (auto simp: Event_less_def intro: EventKey_less_trans)

lemma Event_less_irrefl [simp]: "\<not> Event_less a a"
  by (simp add: Event_less_def)

lemma Event_less_asym: "Event_less a b \<Longrightarrow> \<not> Event_less b a"
  using Event_less_trans by fastforce

lemma Event_less_linear: "ev_uid a \<noteq> ev_uid b \<Longrightarrow> Event_less a b \<or> Event_less b a"
  by (auto simp: Event_less_def EventKey_less_def)

lemma Event_not_less_trans: "\<not> Event_less b a \<Longrightarrow> \<not> Event_less c b \<Longrightarrow> \<not> Event_less c a"
  by (auto simp: Event_less_def EventKey_less_def)

lemma Event_less_not_trans: "Event_less a b \<Longrightarrow> \<not> Event_less c b \<Longrightarrow> Event_less a c"
  by (auto simp: Event_less_def EventKey_less_def)

lemma Event_less_ts: "Event_less a b \<Longrightarrow> ev_ts a \<le> ev_ts b"
  by (auto simp: Event_less_def EventKey_less_def)

lemma Event_less_uid: "Event_less a b \<Longrightarrow> ev_uid a = ev_uid b \<Longrightarrow> ev_ts a < ev_ts b"
  by (auto simp: Event_less_def EventKey_less_def)

subsection \<open>The interface\<close>

record ('e, 'q) Scheduler =
  sc_new :: 'q
  sc_Insert :: "'e Event \<Rightarrow> 'q \<Rightarrow> 'q option"
  sc_IsEmpty :: "'q \<Rightarrow> bool"
  sc_PeekNext :: "'q \<Rightarrow> 'e Event option"
  sc_RemoveNext :: "'q \<Rightarrow> ('e Event \<times> 'q) option"
  sc_Remove :: "'e Event \<Rightarrow> 'q \<Rightarrow> 'q option"

text \<open>A call of a client and what it returns.\<close>

datatype 'e sched_call = Call_Insert "'e Event" | Call_IsEmpty | Call_PeekNext | Call_RemoveNext | Call_Remove "'e Event"
datatype 'e sched_reply = Reply_Done | Reply_Bool bool | Reply_Event "'e Event"

definition sched_call :: "('e, 'q) Scheduler \<Rightarrow> 'e sched_call \<Rightarrow> 'q \<Rightarrow> ('e sched_reply \<times> 'q) option" where
  "sched_call S c q = (case c of
       Call_Insert e \<Rightarrow> map_option (Pair Reply_Done) (sc_Insert S e q)
     | Call_IsEmpty \<Rightarrow> Some (Reply_Bool (sc_IsEmpty S q), q)
     | Call_PeekNext \<Rightarrow> map_option (\<lambda>e. (Reply_Event e, q)) (sc_PeekNext S q)
     | Call_RemoveNext \<Rightarrow> map_option (\<lambda>(e, q). (Reply_Event e, q)) (sc_RemoveNext S q)
     | Call_Remove e \<Rightarrow> map_option (Pair Reply_Done) (sc_Remove S e q))"

fun sched_calls :: "('e, 'q) Scheduler \<Rightarrow> 'e sched_call list \<Rightarrow> 'q \<Rightarrow> ('e sched_reply list \<times> 'q) option" where
  "sched_calls S [] q = Some ([], q)"
| "sched_calls S (c # cs) q = do {
     (r, q) \<leftarrow> sched_call S c q;
     (rs, q) \<leftarrow> sched_calls S cs q;
     Some (r # rs, q) }"

text \<open>What the interface promises: the pending events in the order they are due, and the time of the
  last event that was taken. A client inserts numbers that are not pending, never before that time
  and never more events than the numbers go, below a bound on the time; it takes the next event only
  when there is one and removes only events that are pending.\<close>

type_synonym 'e agenda = "u64 \<times> 'e Event list"

fun insert_due :: "'e Event \<Rightarrow> 'e Event list \<Rightarrow> 'e Event list" where
  "insert_due e [] = [e]"
| "insert_due e (x # xs) = (if Event_less e x then e # x # xs else x # insert_due e xs)"

definition agenda_call :: "nat \<Rightarrow> 'e sched_call \<Rightarrow> 'e agenda \<Rightarrow> ('e sched_reply \<times> 'e agenda) option" where
  "agenda_call B c a = (case a of (t, es) \<Rightarrow> (case c of
       Call_Insert e \<Rightarrow> if t \<le> ev_ts e \<and> unat (ev_ts e) < B \<and> ev_uid e \<notin> ev_uid ` set es \<and> length es + 1 < 2 ^ 32
         then Some (Reply_Done, t, insert_due e es) else None
     | Call_IsEmpty \<Rightarrow> Some (Reply_Bool (es = []), t, es)
     | Call_PeekNext \<Rightarrow> (case es of [] \<Rightarrow> None | e # _ \<Rightarrow> Some (Reply_Event e, t, es))
     | Call_RemoveNext \<Rightarrow> (case es of [] \<Rightarrow> None | e # es' \<Rightarrow> Some (Reply_Event e, ev_ts e, es'))
     | Call_Remove e \<Rightarrow> if e \<in> set es then Some (Reply_Done, t, remove1 e es) else None))"

fun agenda_calls :: "nat \<Rightarrow> 'e sched_call list \<Rightarrow> 'e agenda \<Rightarrow> ('e sched_reply list \<times> 'e agenda) option" where
  "agenda_calls B [] a = Some ([], a)"
| "agenda_calls B (c # cs) a = do {
     (r, a) \<leftarrow> agenda_call B c a;
     (rs, a) \<leftarrow> agenda_calls B cs a;
     Some (r # rs, a) }"

text \<open>The state of an agenda.\<close>

definition agenda_wf :: "nat \<Rightarrow> 'e agenda \<Rightarrow> bool" where
  "agenda_wf B a \<longleftrightarrow> (case a of (t, es) \<Rightarrow> sorted_wrt Event_less es \<and> distinct (map ev_uid es)
     \<and> (\<forall>e \<in> set es. t \<le> ev_ts e \<and> unat (ev_ts e) < B) \<and> length es < 2 ^ 32)"

lemma set_insert_due [simp]: "set (insert_due e es) = insert e (set es)"
  by (induction es) auto

lemma length_insert_due [simp]: "length (insert_due e es) = Suc (length es)"
  by (induction es) auto

lemma mset_insert_due [simp]: "mset (insert_due e es) = add_mset e (mset es)"
  by (induction es) auto

lemma distinct_uid_insert_due:
  "distinct (map ev_uid (insert_due e es)) \<longleftrightarrow> ev_uid e \<notin> ev_uid ` set es \<and> distinct (map ev_uid es)"
  by (induction es) auto

lemma sorted_insert_due:
  "sorted_wrt Event_less es \<Longrightarrow> ev_uid e \<notin> ev_uid ` set es \<Longrightarrow> sorted_wrt Event_less (insert_due e es)"
proof (induction es)
  case (Cons x xs)
  then have "Event_less e x \<or> Event_less x e" using Event_less_linear [of e x] by auto
  then show ?case using Cons Event_less_trans [of e x] Event_less_asym by auto
qed simp

lemma agenda_distinct: "distinct (map ev_uid es) \<Longrightarrow> distinct es"
  by (simp add: distinct_map)

lemma agenda_uid_inj: "distinct (map ev_uid es) \<Longrightarrow> a \<in> set es \<Longrightarrow> b \<in> set es \<Longrightarrow> ev_uid a = ev_uid b \<Longrightarrow> a = b"
  by (auto simp: distinct_map dest: inj_onD)

lemma sorted_wrt_remove1: "sorted_wrt P xs \<Longrightarrow> sorted_wrt P (remove1 x xs)"
  by (induction xs) (auto dest: in_set_takeD notin_set_remove1 set_remove1_subset [THEN subsetD])

lemma distinct_map_remove1: "distinct (map f xs) \<Longrightarrow> distinct (map f (remove1 x xs))"
  by (induction xs) (auto dest: set_remove1_subset [THEN subsetD])

lemma agenda_wf_new: "agenda_wf B (0, [])"
  by (simp add: agenda_wf_def)

lemma agenda_wf_call:
  assumes "agenda_call B c a = Some (r, a')" and "agenda_wf B a"
  shows "agenda_wf B a'"
proof -
  obtain t es where a: "a = (t, es)" by (cases a)
  show ?thesis
  proof (cases c)
    case (Call_Insert e)
    then show ?thesis using assms
      by (auto simp: a agenda_call_def agenda_wf_def sorted_insert_due distinct_uid_insert_due split: if_splits)
  next
    case Call_RemoveNext
    then show ?thesis using assms
      by (auto simp: a agenda_call_def agenda_wf_def Event_less_ts split: list.splits)
  next
    case (Call_Remove e)
    then show ?thesis using assms
      by (auto simp: a agenda_call_def agenda_wf_def sorted_wrt_remove1 distinct_map_remove1 length_remove1
          split: if_splits dest: set_remove1_subset [THEN subsetD])
  qed (use assms in \<open>auto simp: a agenda_call_def agenda_wf_def split: list.splits\<close>)
qed

text \<open>The contract: a relation between queues and agendas that every call keeps, with the same reply.
  The calls of a client are those of a set, so that a queue may implement a part of the interface.\<close>

locale scheduler =
  fixes S :: "('e, 'q) Scheduler" and calls :: "'e sched_call set" and B :: nat
    and R :: "'q \<Rightarrow> 'e agenda \<Rightarrow> bool"
  assumes new: "R (sc_new S) (0, [])"
    and call: "R q a \<Longrightarrow> agenda_wf B a \<Longrightarrow> c \<in> calls \<Longrightarrow> agenda_call B c a = Some (r, a')
      \<Longrightarrow> \<exists>q'. sched_call S c q = Some (r, q') \<and> R q' a'"
begin

lemma simulates:
  assumes "R q a" and "agenda_wf B a" and "set cs \<subseteq> calls" and "agenda_calls B cs a = Some (rs, a')"
  shows "\<exists>q'. sched_calls S cs q = Some (rs, q') \<and> R q' a'"
  using assms
proof (induction cs arbitrary: q a rs)
  case (Cons c cs)
  from Cons.prems(4) obtain r a1 rs1 where
    1: "agenda_call B c a = Some (r, a1)" and 2: "agenda_calls B cs a1 = Some (rs1, a')" and rs: "rs = r # rs1"
    by (auto elim!: bind_eq_SomeE)
  obtain q1 where q1: "sched_call S c q = Some (r, q1)" "R q1 a1"
    using call [OF Cons.prems(1,2) _ 1] Cons.prems(3) by auto
  obtain q' where "sched_calls S cs q1 = Some (rs1, q')" "R q' a'"
    using Cons.IH [OF q1(2) agenda_wf_call [OF 1 Cons.prems(2)] _ 2] Cons.prems(3) by auto
  then show ?case by (simp add: q1 rs)
qed simp

lemma replies:
  assumes "set cs \<subseteq> calls" and "agenda_calls B cs (0, []) = Some (rs, a)"
  shows "map_option fst (sched_calls S cs (sc_new S)) = Some rs"
  using simulates [OF new agenda_wf_new assms] by auto

end

subsection \<open>The list\<close>

fun list_Insert :: "'e Event \<Rightarrow> 'e Event list \<Rightarrow> 'e Event list" where
  "list_Insert ev [] = [ev]"
| "list_Insert ev (i # is) = (if EventKey_less (ev_key ev) (ev_key i) then ev # i # is else i # list_Insert ev is)"

definition list_PeekNext :: "'e Event list \<Rightarrow> 'e Event option" where
  "list_PeekNext es = (case es of [] \<Rightarrow> None | e # _ \<Rightarrow> Some e)"

definition list_RemoveNext :: "'e Event list \<Rightarrow> ('e Event \<times> 'e Event list) option" where
  "list_RemoveNext es = (case es of [] \<Rightarrow> None | e # es \<Rightarrow> Some (e, es))"

fun list_Remove :: "'e Event \<Rightarrow> 'e Event list \<Rightarrow> 'e Event list option" where
  "list_Remove ev [] = None"
| "list_Remove ev (i # is) = (if k_uid (ev_key i) = k_uid (ev_key ev)
     then do { guard (ev_impl ev = ev_impl i); Some is }
     else map_option ((#) i) (list_Remove ev is))"

definition ListScheduler :: "('e, 'e Event list) Scheduler" where
  "ListScheduler = \<lparr>sc_new = [], sc_Insert = \<lambda>e q. Some (list_Insert e q), sc_IsEmpty = (\<lambda>q. q = []),
     sc_PeekNext = list_PeekNext, sc_RemoveNext = list_RemoveNext, sc_Remove = list_Remove\<rparr>"

lemma list_Insert_due: "list_Insert e es = insert_due e es"
  by (induction es) (auto simp: Event_less_def)

lemma list_Remove_member:
  "distinct (map ev_uid es) \<Longrightarrow> e \<in> set es \<Longrightarrow> list_Remove e es = Some (remove1 e es)"
  by (induction es) (auto simp: image_iff)

definition list_rel :: "'e Event list \<Rightarrow> 'e agenda \<Rightarrow> bool" where
  "list_rel q a \<longleftrightarrow> q = snd a"

lemmas agenda_defs = agenda_call_def agenda_wf_def
lemmas sched_splits = if_splits list.splits prod.splits sched_call.splits

lemma list_meets:
  assumes "list_rel q a" and "agenda_wf B a" and "agenda_call B c a = Some (r, a')"
  shows "\<exists>q'. sched_call ListScheduler c q = Some (r, q') \<and> list_rel q' a'"
  using assms list_Remove_member [of "snd a"]
  by (cases c; cases a) (auto simp: agenda_defs list_rel_def sched_call_def ListScheduler_def list_Insert_due
      list_PeekNext_def list_RemoveNext_def split: if_splits list.splits)

interpretation list_sched: scheduler ListScheduler UNIV B list_rel
  by unfold_locales (auto simp: list_rel_def ListScheduler_def list_meets [unfolded ListScheduler_def list_rel_def])

subsection \<open>The ordered map\<close>

text \<open>A \<^verbatim>\<open>std::map\<close> from the key to the body; the context is part of the key but not of its order, so
  it stands with the body. The insertion is the one of the event queue of \<open>Sim_Events\<close>.\<close>

type_synonym 'e event_map = "(event_key \<times> u32 \<times> 'e option) list"

definition map_key :: "EventKey \<Rightarrow> event_key" where
  "map_key k = (uint (k_ts k), k_uid k)"

definition map_entry :: "'e Event \<Rightarrow> event_key \<times> u32 \<times> 'e option" where
  "map_entry e = (map_key (ev_key e), k_context (ev_key e), ev_impl e)"

definition map_event :: "event_key \<times> u32 \<times> 'e option \<Rightarrow> 'e Event" where
  "map_event x = (case x of ((t, u), c, i) \<Rightarrow>
     \<lparr>ev_impl = i, ev_key = \<lparr>k_ts = word_of_int t, k_uid = u, k_context = c\<rparr>\<rparr>)"

definition map_Insert :: "'e Event \<Rightarrow> 'e event_map \<Rightarrow> 'e event_map option" where
  "map_Insert ev m = sched_Insert (map_key (ev_key ev)) (k_context (ev_key ev), ev_impl ev) m"

definition map_PeekNext :: "'e event_map \<Rightarrow> 'e Event option" where
  "map_PeekNext m = (case m of [] \<Rightarrow> None | x # _ \<Rightarrow> Some (map_event x))"

definition map_RemoveNext :: "'e event_map \<Rightarrow> ('e Event \<times> 'e event_map) option" where
  "map_RemoveNext m = (case m of [] \<Rightarrow> None | x # m \<Rightarrow> Some (map_event x, m))"

text \<open>Not finding the key leaves the end of the map, which must not be dereferenced.\<close>

definition map_Remove :: "'e Event \<Rightarrow> 'e event_map \<Rightarrow> 'e event_map option" where
  "map_Remove ev m = do {
     (_, i) \<leftarrow> map_of m (map_key (ev_key ev));
     guard (i = ev_impl ev);
     Some (filter (\<lambda>(k, _). k \<noteq> map_key (ev_key ev)) m) }"

definition MapScheduler :: "('e, 'e event_map) Scheduler" where
  "MapScheduler = \<lparr>sc_new = [], sc_Insert = map_Insert, sc_IsEmpty = (\<lambda>q. q = []),
     sc_PeekNext = map_PeekNext, sc_RemoveNext = map_RemoveNext, sc_Remove = map_Remove\<rparr>"

lemma map_event_entry [simp]: "map_event (map_entry e) = e"
  by (cases e) (simp add: map_event_def map_entry_def map_key_def)

lemma map_event_eq: "map_entry e = x \<Longrightarrow> map_event x = e"
  by auto

lemma fst_map_entry [simp]: "fst (map_entry e) = map_key (ev_key e)"
  by (simp add: map_entry_def)

lemma key_less_map_key: "key_less (map_key a) (map_key b) \<longleftrightarrow> EventKey_less a b"
  unfolding key_less_def EventKey_less_def map_key_def fst_conv snd_conv
  by (metis word_less_def word_uint_eq_iff)

lemma map_key_uid: "map_key a = map_key b \<Longrightarrow> k_uid a = k_uid b"
  by (simp add: map_key_def)

text \<open>The insertion of \<open>Sim_Events\<close> is the insertion into the order of the events.\<close>

lemma sched_Insert_due:
  assumes "\<And>x. fst (f x) = map_key (ev_key x)" and "ev_uid e \<notin> ev_uid ` set es"
  shows "sched_Insert (map_key (ev_key e)) (snd (f e)) (map f es) = Some (map f (insert_due e es))"
  using assms(2)
proof (induction es)
  case Nil
  show ?case using assms(1) [of e] by (cases "f e") simp
next
  case (Cons x xs)
  obtain v where x: "f x = (map_key (ev_key x), v)" using assms(1) [of x] by (cases "f x") simp
  have e: "f e = (map_key (ev_key e), snd (f e))" using assms(1) [of e] by (cases "f e") simp
  have "Event_less e x \<or> Event_less x e" using Cons.prems Event_less_linear [of e x] by auto
  then show ?case using Cons x e by (auto simp: key_less_map_key Event_less_def dest: EventKey_less_trans)
qed

lemma map_Insert_entry:
  "ev_uid e \<notin> ev_uid ` set es \<Longrightarrow> map_Insert e (map map_entry es) = Some (map map_entry (insert_due e es))"
  using sched_Insert_due [of map_entry e es] by (simp add: map_Insert_def) (simp add: map_entry_def)

lemma map_of_entry:
  "distinct (map ev_uid es) \<Longrightarrow> e \<in> set es \<Longrightarrow>
     map_of (map map_entry es) (map_key (ev_key e)) = Some (k_context (ev_key e), ev_impl e)"
proof (rule map_of_is_SomeI)
  assume di: "distinct (map ev_uid es)"
  then have "inj_on (\<lambda>e. map_key (ev_key e)) (set es)"
    by (intro inj_onI) (auto dest: map_key_uid agenda_uid_inj)
  then show "distinct (map fst (map map_entry es))" using agenda_distinct [OF di] by (simp add: distinct_map comp_def)
qed (simp add: map_entry_def image_iff, metis)

lemma map_filter_entry:
  assumes "distinct (map ev_uid es)" and "e \<in> set es"
  shows "filter (\<lambda>(k, _). k \<noteq> map_key (ev_key e)) (map map_entry es) = map map_entry (remove1 e es)"
proof -
  have "map_key (ev_key x) = map_key (ev_key e) \<longleftrightarrow> x = e" if "x \<in> set es" for x
    using agenda_uid_inj [OF assms(1) that assms(2)] by (auto dest: map_key_uid)
  then have "filter ((\<lambda>(k, _). k \<noteq> map_key (ev_key e)) \<circ> map_entry) es = filter (\<lambda>x. x \<noteq> e) es"
    by (intro filter_cong) (auto simp: case_prod_unfold)
  then show ?thesis
    using distinct_remove1_removeAll [OF agenda_distinct [OF assms(1)], of e]
    by (simp add: filter_map removeAll_filter_not_eq eq_commute)
qed

definition map_rel :: "'e event_map \<Rightarrow> 'e agenda \<Rightarrow> bool" where
  "map_rel q a \<longleftrightarrow> q = map map_entry (snd a)"

lemma map_meets:
  assumes "map_rel q a" and "agenda_wf B a" and "agenda_call B c a = Some (r, a')"
  shows "\<exists>q'. sched_call MapScheduler c q = Some (r, q') \<and> map_rel q' a'"
proof -
  obtain t es where a: "a = (t, es)" by (cases a)
  have q: "q = map map_entry es" and di: "distinct (map ev_uid es)"
    using assms by (auto simp: map_rel_def agenda_wf_def a)
  show ?thesis
  proof (cases c)
    case (Call_Remove e)
    then show ?thesis using assms(3) map_of_entry [OF di] map_filter_entry [OF di]
      by (simp add: a q agenda_call_def map_rel_def sched_call_def MapScheduler_def map_Remove_def split: if_splits) auto
  qed (use assms(3) in \<open>auto simp: a q agenda_call_def map_rel_def sched_call_def MapScheduler_def map_Insert_entry
      map_PeekNext_def map_RemoveNext_def map_event_eq split: if_splits list.splits\<close>)
qed

interpretation map_sched: scheduler MapScheduler UNIV B map_rel
  by unfold_locales (auto simp: map_rel_def MapScheduler_def map_meets [unfolded MapScheduler_def map_rel_def])

subsection \<open>The priority queue of the standard library\<close>

text \<open>\<^verbatim>\<open>std::priority_queue\<close> with \<^verbatim>\<open>std::greater\<close>: its top is an element that no other is less than. The
  order of the other elements in its vector is left to the library and is not seen through the
  interface: \<^verbatim>\<open>remove\<close> looks for a number, and each number is pending once.\<close>

fun pq_top :: "'e Event list \<Rightarrow> 'e Event option" where
  "pq_top [] = None"
| "pq_top (e # c) = (case pq_top c of None \<Rightarrow> Some e | Some m \<Rightarrow> Some (if Event_greater e m then m else e))"

definition pq_Insert :: "'e Event \<Rightarrow> 'e Event list \<Rightarrow> 'e Event list" where
  "pq_Insert ev c = ev # c"

definition pq_RemoveNext :: "'e Event list \<Rightarrow> ('e Event \<times> 'e Event list) option" where
  "pq_RemoveNext c = do { ev \<leftarrow> pq_top c; Some (ev, remove1 ev c) }"

fun pq_find_erase :: "'e Event \<Rightarrow> 'e Event list \<Rightarrow> bool \<times> 'e Event list" where
  "pq_find_erase ev [] = (False, [])"
| "pq_find_erase ev (x # c) = (if Event_eq x ev then (True, c)
     else case pq_find_erase ev c of (b, c) \<Rightarrow> (b, x # c))"

definition pq_Remove :: "'e Event \<Rightarrow> 'e Event list \<Rightarrow> 'e Event list" where
  "pq_Remove ev c = snd (pq_find_erase ev c)"

definition PriorityQueueScheduler :: "('e, 'e Event list) Scheduler" where
  "PriorityQueueScheduler = \<lparr>sc_new = [], sc_Insert = \<lambda>e q. Some (pq_Insert e q), sc_IsEmpty = (\<lambda>q. q = []),
     sc_PeekNext = pq_top, sc_RemoveNext = pq_RemoveNext, sc_Remove = \<lambda>e q. Some (pq_Remove e q)\<rparr>"

lemma pq_top_None [simp]: "pq_top c = None \<longleftrightarrow> c = []"
  by (cases c) (auto split: option.splits)

lemma pq_top_least:
  "pq_top c = Some m \<Longrightarrow> m \<in> set c \<and> (\<forall>x \<in> set c. \<not> Event_less x m)"
proof (induction c arbitrary: m)
  case (Cons e c)
  then show ?case
    by (cases "pq_top c") (auto simp: Event_greater_flip split: if_splits
        dest: Event_less_asym Event_not_less_trans)
qed simp

lemma pq_find_erase_member:
  "distinct (map ev_uid c) \<Longrightarrow> e \<in> set c \<Longrightarrow> pq_find_erase e c = (True, remove1 e c)"
  by (induction c) (auto simp: Event_eq_def EventKey_eq_def image_iff)

text \<open>An unordered bag of the pending events.\<close>

definition bag_rel :: "'e Event list \<Rightarrow> 'e agenda \<Rightarrow> bool" where
  "bag_rel q a \<longleftrightarrow> mset q = mset (snd a)"

lemma bag_distinct: "mset q = mset es \<Longrightarrow> distinct (map ev_uid q) \<longleftrightarrow> distinct (map ev_uid es)"
  by (metis mset_map mset_eq_imp_distinct_iff)

lemma bag_head:
  assumes "mset q = mset (e # es)" and "sorted_wrt Event_less (e # es)" and "m \<in> set q"
    and "\<forall>x \<in> set q. \<not> Event_less x m"
  shows "m = e"
proof -
  have "set q = set (e # es)" using assms(1) by (rule mset_eq_setD)
  then show ?thesis using assms(2-4) by auto
qed

lemma bag_meets:
  assumes "bag_rel q a" and "agenda_wf B a" and "agenda_call B c a = Some (r, a')"
  shows "\<exists>q'. sched_call PriorityQueueScheduler c q = Some (r, q') \<and> bag_rel q' a'"
proof -
  obtain t es where a: "a = (t, es)" by (cases a)
  have ms: "mset q = mset es" and so: "sorted_wrt Event_less es" and di: "distinct (map ev_uid es)"
    using assms by (auto simp: bag_rel_def agenda_wf_def a)
  have top: "pq_top q = Some e" if "es = e # es'" for e es'
  proof (cases "pq_top q")
    case (Some m)
    then show ?thesis using bag_head [of q e es' m] pq_top_least [of q m] ms so that by auto
  qed (use ms that in auto)
  have emp: "q = [] \<longleftrightarrow> es = []" using ms by auto
  show ?thesis
    using assms(3) ms top emp pq_find_erase_member [of q] bag_distinct [OF ms] di mset_eq_setD [OF ms]
    by (cases c) (auto simp: a agenda_call_def bag_rel_def sched_call_def PriorityQueueScheduler_def pq_Insert_def
        pq_RemoveNext_def pq_Remove_def split: if_splits list.splits)
qed

interpretation bag_sched: scheduler PriorityQueueScheduler UNIV B bag_rel
  by unfold_locales (auto simp: bag_rel_def PriorityQueueScheduler_def
      bag_meets [unfolded PriorityQueueScheduler_def bag_rel_def])

end
