(* ===== verification/Heap_Scheduler.thy ===== *)
theory Heap_Scheduler
  imports Schedulers
begin

text \<open>
  The event queue in a binary heap (\<^verbatim>\<open>heap-scheduler.cc\<close>). The vector starts with an element that is
  not used, so that the children of \<open>i\<close> are \<open>2 * i\<close> and \<open>2 * i + 1\<close>. Insertion and taking the next
  event keep the order of the heap and meet the contract of \<open>Schedulers\<close>. \<^verbatim>\<open>Remove\<close> keeps the
  pending events but not the order of the heap: the element it moves from the end only sinks,
  also where it would have to rise, and the events that follow are then taken in the wrong order.
\<close>

type_synonym 'e heap = "'e Event list"

definition heap_new :: "'e heap" where
  "heap_new = [\<lparr>ev_impl = None, ev_key = \<lparr>k_ts = 0, k_uid = 0, k_context = 0\<rparr>\<rparr>]"

definition Parent :: "nat \<Rightarrow> nat" where "Parent i = i div 2"
definition LeftChild :: "nat \<Rightarrow> nat" where "LeftChild i = i * 2"
definition RightChild :: "nat \<Rightarrow> nat" where "RightChild i = i * 2 + 1"
definition Root :: nat where "Root = 1"
definition IsRoot :: "nat \<Rightarrow> bool" where "IsRoot i \<longleftrightarrow> i = Root"
definition Last :: "'e heap \<Rightarrow> nat" where "Last h = length h - 1"
definition IsBottom :: "'e heap \<Rightarrow> nat \<Rightarrow> bool" where "IsBottom h i \<longleftrightarrow> i \<ge> length h"

definition Exch :: "nat \<Rightarrow> nat \<Rightarrow> 'e heap \<Rightarrow> 'e heap option" where
  "Exch a b h = do { guard (b < length h \<and> a < length h); Some (h[a := h ! b, b := h ! a]) }"

definition IsLessStrictly :: "'e heap \<Rightarrow> nat \<Rightarrow> nat \<Rightarrow> bool" where
  "IsLessStrictly h a b \<longleftrightarrow> Event_less (h ! a) (h ! b)"

definition Smallest :: "'e heap \<Rightarrow> nat \<Rightarrow> nat \<Rightarrow> nat" where
  "Smallest h a b = (if IsLessStrictly h a b then a else b)"

definition heap_IsEmpty :: "'e heap \<Rightarrow> bool" where
  "heap_IsEmpty h \<longleftrightarrow> length h = 1"

text \<open>The loops of \<^verbatim>\<open>BottomUp\<close> and \<^verbatim>\<open>TopDown\<close>, from an index.\<close>

function bottom_up :: "'e heap \<Rightarrow> nat \<Rightarrow> 'e heap option" where
  "bottom_up h i = (if \<not> IsRoot i \<and> IsLessStrictly h i (Parent i)
     then do { h \<leftarrow> Exch i (Parent i) h; bottom_up h (Parent i) } else Some h)"
  by auto

termination
proof (relation "measure snd")
  fix h h' :: "'e heap" and i
  assume "\<not> IsRoot i \<and> IsLessStrictly h i (Parent i)"
  then have "i \<noteq> 0" by (cases i) (auto simp: IsLessStrictly_def Parent_def)
  then show "((h', Parent i), h, i) \<in> measure snd" by (simp add: Parent_def)
qed simp

declare bottom_up.simps [simp del]

definition BottomUp :: "'e heap \<Rightarrow> 'e heap option" where
  "BottomUp h = bottom_up h (Last h)"

partial_function (option) TopDown :: "'e heap \<Rightarrow> nat \<Rightarrow> 'e heap option" where
  [code]: "TopDown h i =
     (if \<not> IsBottom h (RightChild i) then
        (let t = Smallest h (LeftChild i) (RightChild i) in
         if IsLessStrictly h i t then Some h
         else do { h \<leftarrow> Exch i t h; TopDown h t })
      else if IsBottom h i then Some h
      else if IsBottom h (LeftChild i) then Some h
      else if IsLessStrictly h i (LeftChild i) then Some h
      else Exch i (LeftChild i) h)"

definition heap_Insert :: "'e Event \<Rightarrow> 'e heap \<Rightarrow> 'e heap option" where
  "heap_Insert ev h = BottomUp (h @ [ev])"

definition heap_PeekNext :: "'e heap \<Rightarrow> 'e Event option" where
  "heap_PeekNext h = do { guard (Root < length h); Some (h ! Root) }"

definition heap_RemoveNext :: "'e heap \<Rightarrow> ('e Event \<times> 'e heap) option" where
  "heap_RemoveNext h = do {
     guard (Root < length h);
     let ev = h ! Root;
     h \<leftarrow> Exch Root (Last h) h;
     h \<leftarrow> TopDown (butlast h) Root;
     Some (ev, h) }"

text \<open>The first index from 1 whose number is the wanted one.\<close>

definition heap_find :: "u32 \<Rightarrow> 'e heap \<Rightarrow> nat option" where
  "heap_find uid h = List.find (\<lambda>i. uid = k_uid (ev_key (h ! i))) [1..<length h]"

definition heap_Remove :: "'e Event \<Rightarrow> 'e heap \<Rightarrow> 'e heap option" where
  "heap_Remove ev h = do {
     i \<leftarrow> heap_find (k_uid (ev_key ev)) h;
     guard (ev_impl (h ! i) = ev_impl ev);
     h \<leftarrow> Exch i (Last h) h;
     TopDown (butlast h) i }"

definition HeapScheduler :: "('e, 'e heap) Scheduler" where
  "HeapScheduler = \<lparr>sc_new = heap_new, sc_Insert = heap_Insert, sc_IsEmpty = heap_IsEmpty,
     sc_PeekNext = heap_PeekNext, sc_RemoveNext = heap_RemoveNext, sc_Remove = heap_Remove\<rparr>"

lemmas heap_index = Parent_def LeftChild_def RightChild_def Root_def IsRoot_def Last_def IsBottom_def
  IsLessStrictly_def Smallest_def

subsection \<open>The order of the heap\<close>

text \<open>\<open>not_above h a b\<close>: the element at \<open>b\<close> is not less than the one at \<open>a\<close>.\<close>

definition not_above :: "'e heap \<Rightarrow> nat \<Rightarrow> nat \<Rightarrow> bool" where
  "not_above h a b \<longleftrightarrow> \<not> Event_less (h ! b) (h ! a)"

definition heap_ok :: "'e heap \<Rightarrow> bool" where
  "heap_ok h \<longleftrightarrow> (\<forall>i. 2 \<le> i \<and> i < length h \<longrightarrow> not_above h (i div 2) i)"

text \<open>The order with one place where it may fail: above \<open>k\<close>, or below it.\<close>

definition heap_ok_up :: "'e heap \<Rightarrow> nat \<Rightarrow> bool" where
  "heap_ok_up h k \<longleftrightarrow> (\<forall>i. 2 \<le> i \<and> i < length h \<longrightarrow> (i \<noteq> k \<longrightarrow> not_above h (i div 2) i)
     \<and> (i div 2 = k \<and> 2 \<le> k \<longrightarrow> not_above h (k div 2) i))"

definition heap_ok_down :: "'e heap \<Rightarrow> nat \<Rightarrow> bool" where
  "heap_ok_down h k \<longleftrightarrow> (\<forall>i. 2 \<le> i \<and> i < length h \<longrightarrow> (i div 2 \<noteq> k \<longrightarrow> not_above h (i div 2) i)
     \<and> (i div 2 = k \<and> 2 \<le> k \<longrightarrow> not_above h (k div 2) i))"

text \<open>What an operation keeps: the unused element and the pending events.\<close>

definition same_events :: "'e heap \<Rightarrow> 'e heap \<Rightarrow> bool" where
  "same_events h h' \<longleftrightarrow> length h' = length h \<and> mset h' = mset h \<and> h' ! 0 = h ! 0"

lemma same_events_refl [simp]: "same_events h h"
  by (simp add: same_events_def)

lemma same_events_trans: "same_events h h' \<Longrightarrow> same_events h' h'' \<Longrightarrow> same_events h h''"
  by (simp add: same_events_def)

lemma Exch_Some:
  assumes "0 < a" and "a < length h" and "0 < b" and "b < length h"
  obtains h' where "Exch a b h = Some h'" and "h' = h[a := h ! b, b := h ! a]" and "same_events h h'"
  using assms by (auto simp: Exch_def same_events_def mset_swap)

lemma not_above_trans: "not_above h a b \<Longrightarrow> not_above h b c \<Longrightarrow> not_above h a c"
  using Event_not_less_trans unfolding not_above_def by blast

lemma not_above_refl [simp]: "not_above h a a"
  by (simp add: not_above_def)

lemma root_least:
  assumes "heap_ok h" and "1 \<le> i" and "i < length h"
  shows "not_above h 1 i"
  using assms(2,3)
proof (induction i rule: less_induct)
  case (less i)
  show ?case
  proof (cases "i = 1")
    case False
    then have "not_above h 1 (i div 2)" using less by auto
    moreover have "not_above h (i div 2) i" using assms(1) False less.prems by (auto simp: heap_ok_def)
    ultimately show ?thesis by (rule not_above_trans)
  qed simp
qed

lemma heap_ok_push: "heap_ok h \<Longrightarrow> 1 \<le> length h \<Longrightarrow> heap_ok_up (h @ [e]) (length h)"
  by (auto simp: heap_ok_def heap_ok_up_def not_above_def nth_append)

lemma exch_up:
  assumes "heap_ok_up h k" and "2 \<le> k" and "k < length h" and "Event_less (h ! k) (h ! (k div 2))"
    and "h' = h[k := h ! (k div 2), k div 2 := h ! k]"
  shows "heap_ok_up h' (k div 2)"
proof -
  let ?p = "k div 2"
  have p: "?p < k" "1 \<le> ?p" "?p \<noteq> k" using assms(2) by auto
  have n: "h' ! i = (if i = ?p then h ! k else if i = k then h ! ?p else h ! i)" if "i < length h" for i
    using that assms(3,5) p by (auto simp: nth_list_update)
  have par: "i div 2 < length h" if "i < length h" for i using that by auto
  have ord: "not_above h (i div 2) i" if "2 \<le> i" "i < length h" "i \<noteq> k" for i
    using assms(1) that by (simp add: heap_ok_up_def)
  have below: "not_above h ?p i" if "2 \<le> i" "i < length h" "i div 2 = k" for i
    using assms(1,2) that by (simp add: heap_ok_up_def)
  show ?thesis
    unfolding heap_ok_up_def
  proof (intro allI impI conjI)
    fix i assume i: "2 \<le> i \<and> i < length h'"
    then have il: "2 \<le> i" "i < length h" using assms(5) by auto
    { assume ne: "i \<noteq> ?p"
      consider "i = k" | "i \<noteq> k" "i div 2 = k" | "i \<noteq> k" "i div 2 = ?p" | "i div 2 \<noteq> k" "i div 2 \<noteq> ?p" by auto
      then show "not_above h' (i div 2) i"
      proof cases
        case 1
        then show ?thesis using n [of ?p] n [of k] assms(3,4) p Event_less_asym
          by (auto simp: not_above_def)
      next
        case 2
        then show ?thesis using below [of i] il n [of i] n [of k] assms(3) ne p by (auto simp: not_above_def)
      next
        case 3
        have "not_above h ?p i" using ord [of i] il 3 by simp
        then have "\<not> Event_less (h ! i) (h ! k)"
          using assms(4) Event_less_trans by (auto simp: not_above_def)
        then show ?thesis using 3 il n [of i] n [of ?p] assms(3) ne p by (auto simp: not_above_def)
      next
        case 4
        then have "i \<noteq> k" by auto
        then show ?thesis using 4 ord [of i] il n [of i] n [of "i div 2"] par ne by (auto simp: not_above_def)
      qed }
    { assume c: "i div 2 = ?p \<and> 2 \<le> ?p"
      then have pp: "not_above h (?p div 2) ?p" using ord [of ?p] p assms(3) by auto
      have q: "?p div 2 < ?p" using c by auto
      have "not_above h (?p div 2) i \<or> i = k" using c ord [of i] il not_above_trans [OF pp] by metis
      then show "not_above h' (?p div 2) i"
        using pp n [of i] n [of "?p div 2"] il q p assms(3) c by (auto simp: not_above_def) }
  qed
qed

lemma bottom_up_ok:
  assumes "heap_ok_up h k" and "1 \<le> k" and "k < length h"
  shows "\<exists>h'. bottom_up h k = Some h' \<and> heap_ok h' \<and> same_events h h'"
  using assms
proof (induction k arbitrary: h rule: less_induct)
  case (less k)
  show ?case
  proof (cases "k \<noteq> 1 \<and> Event_less (h ! k) (h ! (k div 2))")
    case True
    then have k: "2 \<le> k" "k div 2 < k" "1 \<le> k div 2" using less.prems(2) by auto
    obtain h1 where h1: "Exch k (k div 2) h = Some h1" "h1 = h[k := h ! (k div 2), k div 2 := h ! k]" "same_events h h1"
      by (rule Exch_Some [of k h "k div 2"]) (use k less.prems in auto)
    have "heap_ok_up h1 (k div 2)" using exch_up [OF less.prems(1) k(1) less.prems(3) _ h1(2)] True by simp
    moreover have "k div 2 < length h1" using k less.prems(3) h1(2) by simp
    ultimately obtain h' where h': "bottom_up h1 (k div 2) = Some h'" "heap_ok h'" "same_events h1 h'"
      using less.IH [OF k(2) _ k(3)] by blast
    then show ?thesis using True h1(1) same_events_trans [OF h1(3) h'(3)]
      by (subst bottom_up.simps) (simp add: heap_index)
  next
    case False
    then have ok: "not_above h (k div 2) k \<or> k = 1" by (auto simp: not_above_def)
    have "heap_ok h" unfolding heap_ok_def
    proof (intro allI impI)
      fix i assume "2 \<le> i \<and> i < length h"
      then show "not_above h (i div 2) i" using less.prems(1) ok by (cases "i = k") (auto simp: heap_ok_up_def)
    qed
    then show ?thesis using False by (subst bottom_up.simps) (auto simp: heap_index)
  qed
qed

lemma exch_down:
  assumes "heap_ok_down h k" and "1 \<le> k" and "t div 2 = k" and "2 \<le> t" and "t < length h" and "not_above h t k"
    and "\<And>i. i < length h \<Longrightarrow> i div 2 = k \<Longrightarrow> not_above h t i" and "h' = h[k := h ! t, t := h ! k]"
  shows "heap_ok_down h' t"
proof -
  have k: "k < t" "k < length h" using assms(3-5) by auto
  have n: "h' ! i = (if i = t then h ! k else if i = k then h ! t else h ! i)" if "i < length h" for i
    using that assms(5,8) k by (auto simp: nth_list_update)
  have par: "i div 2 < length h" if "i < length h" for i using that by auto
  have ord: "not_above h (i div 2) i" if "2 \<le> i" "i < length h" "i div 2 \<noteq> k" for i
    using assms(1) that by (simp add: heap_ok_down_def)
  show ?thesis
    unfolding heap_ok_down_def
  proof (intro allI impI conjI)
    fix i assume i: "2 \<le> i \<and> i < length h'"
    then have il: "2 \<le> i" "i < length h" using assms(8) by auto
    { assume ne: "i div 2 \<noteq> t"
      consider "i = t" | "i = k" | "i div 2 = k" "i \<noteq> t" | "i \<noteq> t" "i \<noteq> k" "i div 2 \<noteq> k" by auto
      then show "not_above h' (i div 2) i"
      proof cases
        case 1
        then show ?thesis using n [of t] n [of k] assms(3,5,6) k by (auto simp: not_above_def)
      next
        case 2
        then have kk: "2 \<le> k" using il by simp
        then have "not_above h (k div 2) t" using assms(1,3,4,5) by (auto simp: heap_ok_down_def)
        moreover have "k div 2 \<noteq> k" "k div 2 \<noteq> t" using kk k by auto
        ultimately show ?thesis using 2 n [of k] n [of "k div 2"] k par by (auto simp: not_above_def)
      next
        case 3
        then show ?thesis using assms(7) [of i] il n [of i] n [of k] k by (auto simp: not_above_def)
      next
        case 4
        then show ?thesis using ord [of i] il n [of i] n [of "i div 2"] par ne by (auto simp: not_above_def)
      qed }
    { assume c: "i div 2 = t \<and> 2 \<le> t"
      then have "not_above h t i" using ord [of i] il k by auto
      moreover have "i \<noteq> t" "i \<noteq> k" using c k by auto
      ultimately show "not_above h' (t div 2) i" using n [of i] n [of k] il k assms(3) by (auto simp: not_above_def) }
  qed
qed

lemma heap_ok_down_leaf:
  assumes "heap_ok_down h k" and "\<And>i. 2 \<le> i \<Longrightarrow> i < length h \<Longrightarrow> i div 2 = k \<Longrightarrow> not_above h k i"
  shows "heap_ok h"
  using assms unfolding heap_ok_def heap_ok_down_def by blast

lemma Smallest_cases:
  "Smallest h a b = a \<and> not_above h a b \<or> Smallest h a b = b \<and> not_above h b a"
  by (auto simp: Smallest_def IsLessStrictly_def not_above_def dest: Event_less_asym)

lemma not_above_less: "Event_less (h ! a) (h ! b) \<Longrightarrow> not_above h a b"
  by (simp add: not_above_def Event_less_asym)

lemma not_above_total: "\<not> Event_less (h ! a) (h ! b) \<Longrightarrow> not_above h b a"
  by (simp add: not_above_def)

lemma div2_cases: "i div 2 = (k :: nat) \<Longrightarrow> i = 2 * k \<or> i = 2 * k + 1"
  by presburger

lemma TopDown_keeps:
  assumes "1 \<le> k"
  shows "\<exists>h'. TopDown h k = Some h' \<and> same_events h h' \<and> (heap_ok_down h k \<longrightarrow> heap_ok h')"
  using assms
proof (induction "length h - k" arbitrary: h k rule: less_induct)
  case less
  let ?l = "2 * k" and ?r = "2 * k + 1"
  note unf = TopDown.simps [of h k]
  show ?case
  proof (cases "?r < length h")
    case True
    define t where "t = Smallest h ?l ?r"
    have t: "t div 2 = k" "2 \<le> t" "t < length h" "k < t" and tmin: "not_above h t ?l" "not_above h t ?r"
      using Smallest_cases [of h ?l ?r] True less.prems by (auto simp: t_def)
    have tleast: "not_above h t i" if "i div 2 = k" for i using tmin div2_cases [OF that] by auto
    show ?thesis
    proof (cases "Event_less (h ! k) (h ! t)")
      case stop: True
      have "heap_ok h" if "heap_ok_down h k"
        using heap_ok_down_leaf [OF that] not_above_trans [OF not_above_less [OF stop] tleast] by blast
      then show ?thesis using unf True stop by (simp add: heap_index t_def mult.commute Let_def)
    next
      case False
      obtain h1 where h1: "Exch k t h = Some h1" "h1 = h[k := h ! t, t := h ! k]" "same_events h h1"
        by (rule Exch_Some [of k h t]) (use t less.prems in auto)
      have "length h1 - t < length h - k" using h1(2) t by auto
      then obtain h' where h': "TopDown h1 t = Some h'" "same_events h1 h'" "heap_ok_down h1 t \<longrightarrow> heap_ok h'"
        using less.hyps [of h1 t] t(2) by auto
      have "heap_ok_down h1 t" if "heap_ok_down h k"
        using exch_down [OF that less.prems t(1-3) not_above_total [OF False] tleast h1(2)] .
      moreover have "TopDown h k = TopDown h1 t"
        using unf True False h1(1) by (simp add: heap_index t_def mult.commute Let_def)
      ultimately show ?thesis using h' same_events_trans [OF h1(3) h'(2)] by simp
    qed
  next
    case False
    show ?thesis
    proof (cases "?l < length h \<and> \<not> Event_less (h ! k) (h ! ?l)")
      case True
      obtain h1 where h1: "Exch k ?l h = Some h1" "h1 = h[k := h ! ?l, ?l := h ! k]" "same_events h h1"
        by (rule Exch_Some [of k h ?l]) (use True less.prems in auto)
      have least: "not_above h ?l i" if "i < length h" "i div 2 = k" for i
        using div2_cases [OF that(2)] that(1) False by auto
      have "heap_ok h1" if "heap_ok_down h k"
      proof (rule heap_ok_down_leaf)
        show "heap_ok_down h1 ?l"
          by (rule exch_down [OF that less.prems _ _ _ not_above_total least h1(2)]) (use True less.prems in auto)
        show "not_above h1 ?l i" if "i < length h1" "i div 2 = ?l" for i
          using that False h1(2) less.prems by auto
      qed
      then show ?thesis using unf True False h1 less.prems by (simp add: heap_index mult.commute)
    next
      case stop: False
      have "heap_ok h" if "heap_ok_down h k"
      proof (rule heap_ok_down_leaf [OF that])
        fix i assume "2 \<le> i" "i < length h" "i div 2 = k"
        then show "not_above h k i" using div2_cases [of i k] stop False not_above_less by auto
      qed
      moreover have "TopDown h k = Some h" using unf False stop by (auto simp: heap_index mult.commute)
      ultimately show ?thesis by simp
    qed
  qed
qed

subsection \<open>The contract\<close>

text \<open>The heap of an agenda: the unused element, then the pending events in heap order.\<close>

definition heap_holds :: "'e heap \<Rightarrow> 'e agenda \<Rightarrow> bool" where
  "heap_holds h a \<longleftrightarrow> h \<noteq> [] \<and> mset h = add_mset (h ! 0) (mset (snd a))"

definition heap_rel :: "'e heap \<Rightarrow> 'e agenda \<Rightarrow> bool" where
  "heap_rel h a \<longleftrightarrow> heap_holds h a \<and> heap_ok h"

lemma heap_holds_tl: "h \<noteq> [] \<Longrightarrow> mset h = add_mset (h ! 0) (mset (tl h))"
  by (cases h) auto

lemma heap_holds_iff: "heap_holds h a \<longleftrightarrow> h \<noteq> [] \<and> mset (tl h) = mset (snd a)"
  using heap_holds_tl [of h] by (auto simp: heap_holds_def)

lemma heap_holds_length: "heap_holds h a \<Longrightarrow> length h = length (snd a) + 1"
  unfolding heap_holds_def using size_mset [of h] by simp

lemma heap_holds_same: "same_events h h' \<Longrightarrow> heap_holds h a \<Longrightarrow> heap_holds h' a"
  by (auto simp: same_events_def heap_holds_def)

lemma heap_holds_set: "heap_holds h a \<Longrightarrow> set (snd a) = set (tl h)"
  by (simp add: heap_holds_iff) (metis mset_eq_setD)

lemma set_tl_nth: "e \<in> set (tl h) \<longleftrightarrow> (\<exists>i. 1 \<le> i \<and> i < length h \<and> h ! i = e)"
proof
  assume "e \<in> set (tl h)"
  then obtain j where "j < length h - 1" "tl h ! j = e" by (auto simp: in_set_conv_nth)
  then show "\<exists>i. 1 \<le> i \<and> i < length h \<and> h ! i = e" by (intro exI [of _ "Suc j"]) (auto simp: nth_tl)
next
  assume "\<exists>i. 1 \<le> i \<and> i < length h \<and> h ! i = e"
  then obtain j where "Suc j < length h" "h ! Suc j = e" by (metis Suc_le_D One_nat_def)
  then show "e \<in> set (tl h)" by (cases h) auto
qed

lemma heap_holds_nth:
  "heap_holds h a \<Longrightarrow> e \<in> set (snd a) \<longleftrightarrow> (\<exists>i. 1 \<le> i \<and> i < length h \<and> h ! i = e)"
  by (simp only: heap_holds_set set_tl_nth)

text \<open>Moving the last element to \<open>i\<close> and dropping the end takes the event at \<open>i\<close> out.\<close>

lemma exch_last:
  assumes "heap_holds h (t, es)" and "1 \<le> i" and "i < length h"
  obtains h1 where "Exch i (Last h) h = Some h1" and "heap_holds (butlast h1) (t', remove1 (h ! i) es)"
    and "\<And>j. j < length h - 1 \<Longrightarrow> butlast h1 ! j = (if j = i then h ! (length h - 1) else h ! j)"
    and "length (butlast h1) = length h - 1"
proof -
  let ?n = "length h - 1"
  obtain h1 where h1: "Exch i ?n h = Some h1" "h1 = h[i := h ! ?n, ?n := h ! i]" "same_events h h1"
    by (rule Exch_Some [of i h ?n]) (use assms(2,3) in auto)
  have len: "length h1 = length h" using h1(2) by simp
  have "h1 \<noteq> []" using assms(3) len by (metis list.size(3) not_less_zero)
  then have "last h1 = h1 ! ?n" by (simp add: last_conv_nth len)
  also have "\<dots> = h ! i" using h1(2) assms(3) by (simp add: nth_list_update_eq)
  finally have last: "last h1 = h ! i" .
  have nth: "butlast h1 ! j = (if j = i then h ! ?n else h ! j)" if "j < ?n" for j
    using that h1(2) assms(3) by (auto simp: nth_butlast nth_list_update)
  have "mset h1 = add_mset (h ! i) (mset (butlast h1))"
    using last assms(3) len by (metis append_butlast_last_id length_0_conv mset.simps mset_append add.right_neutral
        add_mset_add_single less_nat_zero_code)
  moreover have "mset h1 = add_mset (h ! 0) (mset es)" using h1(3) assms(1) by (simp add: same_events_def heap_holds_def)
  moreover have "h ! i \<in> set es" using heap_holds_nth [OF assms(1), of "h ! i"] assms(2,3) by auto
  ultimately have "add_mset (h ! i) (mset (butlast h1)) = add_mset (h ! i) (add_mset (h ! 0) (mset (remove1 (h ! i) es)))"
    by (simp add: add_mset_commute)
  then have "mset (butlast h1) = add_mset (h ! 0) (mset (remove1 (h ! i) es))" by simp
  moreover have "butlast h1 ! 0 = h ! 0" "butlast h1 \<noteq> []"
    using nth [of 0] assms(2,3) len by (auto simp flip: length_0_conv)
  ultimately have "heap_holds (butlast h1) (t', remove1 (h ! i) es)" by (simp add: heap_holds_def)
  then show thesis using that h1(1) nth len by (simp add: Last_def)
qed

lemma heap_Insert_ok:
  assumes "heap_rel h (t, es)"
  shows "\<exists>h'. heap_Insert e h = Some h' \<and> heap_rel h' (t', insert_due e es)"
proof -
  have h: "heap_ok h" "heap_holds h (t, es)" using assms by (auto simp: heap_rel_def)
  then have l: "1 \<le> length h" using heap_holds_length by fastforce
  obtain h' where h': "bottom_up (h @ [e]) (length h) = Some h'" "heap_ok h'" "same_events (h @ [e]) h'"
    using bottom_up_ok [OF heap_ok_push [OF h(1) l, of e] l] by auto
  have "heap_holds (h @ [e]) (t', insert_due e es)"
    using h(2) l by (auto simp: heap_holds_def nth_append)
  then show ?thesis using h' heap_holds_same by (auto simp: heap_Insert_def BottomUp_def Last_def heap_rel_def)
qed

lemma heap_root:
  assumes "heap_rel h (t, e # es)" and "sorted_wrt Event_less (e # es)"
  shows "h ! 1 = e" and "1 < length h"
proof -
  have h: "heap_ok h" "heap_holds h (t, e # es)" using assms by (auto simp: heap_rel_def)
  then show l: "1 < length h" using heap_holds_length by fastforce
  have "mset (tl h) = mset (e # es)" using h(2) by (simp add: heap_holds_iff)
  moreover have "h ! 1 \<in> set (tl h)" using l by (cases h) auto
  moreover have "\<not> Event_less x (h ! 1)" if x: "x \<in> set (tl h)" for x
  proof -
    obtain i where "1 \<le> i" "i < length h" "h ! i = x" using iffD1 [OF set_tl_nth x] by blast
    then show ?thesis using root_least [OF h(1)] by (auto simp: not_above_def)
  qed
  ultimately show "h ! 1 = e" by (intro bag_head [OF _ assms(2), of "tl h"]) simp_all
qed

lemma heap_RemoveNext_ok:
  assumes "heap_rel h (t, e # es)" and "sorted_wrt Event_less (e # es)"
  shows "\<exists>h'. heap_RemoveNext h = Some (e, h') \<and> heap_rel h' (t', es)"
proof -
  note root = heap_root [OF assms]
  have h: "heap_ok h" "heap_holds h (t, e # es)" using assms by (auto simp: heap_rel_def)
  obtain h1 where h1: "Exch 1 (Last h) h = Some h1" "heap_holds (butlast h1) (t', remove1 (h ! 1) (e # es))"
    "\<And>j. j < length h - 1 \<Longrightarrow> butlast h1 ! j = (if j = 1 then h ! (length h - 1) else h ! j)"
    "length (butlast h1) = length h - 1"
    by (rule exch_last [OF h(2), of 1]) (use root(2) in auto)
  have "heap_ok_down (butlast h1) 1"
    unfolding heap_ok_down_def
  proof (intro allI impI conjI)
    fix i assume i: "2 \<le> i \<and> i < length (butlast h1)" and ne: "i div 2 \<noteq> 1"
    then have "not_above h (i div 2) i" "i div 2 < length h - 1" using h(1) h1(4) by (auto simp: heap_ok_def)
    then show "not_above (butlast h1) (i div 2) i" using i ne h1(3) [of i] h1(3) [of "i div 2"] h1(4)
      by (simp add: not_above_def)
  qed auto
  then obtain h' where "TopDown (butlast h1) 1 = Some h'" "heap_ok h'" "same_events (butlast h1) h'"
    using TopDown_keeps [of 1 "butlast h1"] by auto
  then show ?thesis using h1(1,2) root heap_holds_same
    by (auto simp: heap_RemoveNext_def Root_def heap_rel_def Let_def)
qed

definition no_remove :: "'e sched_call set" where
  "no_remove = {c. \<forall>e. c \<noteq> Call_Remove e}"

lemma heap_meets:
  assumes "heap_rel q a" and "agenda_wf B a" and "c \<in> no_remove" and "agenda_call B c a = Some (r, a')"
  shows "\<exists>q'. sched_call HeapScheduler c q = Some (r, q') \<and> heap_rel q' a'"
proof -
  obtain t es where a: "a = (t, es)" by (cases a)
  have rel: "heap_rel q (t, es)" and so: "sorted_wrt Event_less es" using assms(1,2) by (auto simp: a agenda_wf_def)
  have emp: "heap_IsEmpty q \<longleftrightarrow> es = []"
    using rel heap_holds_length [of q "(t, es)"] by (auto simp: heap_rel_def heap_IsEmpty_def)
  note call = assms(4) [unfolded a agenda_call_def]
  show ?thesis
  proof (cases c)
    case (Call_Insert e)
    then show ?thesis using call heap_Insert_ok [OF rel, of e t]
      by (auto simp: sched_call_def HeapScheduler_def split: if_splits)
  next
    case Call_IsEmpty
    then show ?thesis using call rel emp by (auto simp: sched_call_def HeapScheduler_def)
  next
    case Call_PeekNext
    then obtain e es' where es: "es = e # es'" "r = Reply_Event e" "a' = (t, es)" using call by (auto split: list.splits)
    then show ?thesis using heap_root [of q t e es'] rel so
      by (auto simp: Call_PeekNext sched_call_def HeapScheduler_def heap_PeekNext_def Root_def)
  next
    case Call_RemoveNext
    then obtain e es' where es: "es = e # es'" "r = Reply_Event e" "a' = (ev_ts e, es')" using call by (auto split: list.splits)
    then show ?thesis using heap_RemoveNext_ok [of q t e es' "ev_ts e"] rel so
      by (auto simp: Call_RemoveNext sched_call_def HeapScheduler_def)
  next
    case (Call_Remove e)
    then show ?thesis using assms(3) by (simp add: no_remove_def)
  qed
qed

lemma heap_rel_new: "heap_rel heap_new (0, [])"
  by (simp add: heap_rel_def heap_holds_def heap_ok_def heap_new_def)

interpretation heap_sched: scheduler HeapScheduler no_remove B heap_rel
  by unfold_locales (auto simp: HeapScheduler_def heap_rel_new heap_meets [unfolded HeapScheduler_def])

subsection \<open>Removing an event\<close>

lemma heap_find_member:
  assumes "heap_holds h (t, es)" and "distinct (map ev_uid es)" and "e \<in> set es"
  obtains i where "heap_find (ev_uid e) h = Some i" and "1 \<le> i" and "i < length h" and "h ! i = e"
proof -
  obtain j where j: "1 \<le> j" "j < length h" "h ! j = e" using heap_holds_nth [OF assms(1), of e] assms(3) by auto
  then have "heap_find (ev_uid e) h \<noteq> None" by (auto simp: heap_find_def find_None_iff)
  then obtain i where i: "heap_find (ev_uid e) h = Some i" by auto
  then have "1 \<le> i" "i < length h" "ev_uid e = ev_uid (h ! i)" by (auto simp: heap_find_def find_Some_iff nth_upt)
  moreover have "h ! i \<in> set es" using heap_holds_nth [OF assms(1), of "h ! i"] calculation by auto
  ultimately show thesis using that i agenda_uid_inj [OF assms(2) _ assms(3)] by simp
qed

text \<open>The removal takes out the event and no other, and keeps the order when the element moved from
  the end is not less than the one above the place it is moved to.\<close>

lemma heap_Remove_keeps:
  assumes "heap_rel h (t, es)" and "distinct (map ev_uid es)" and "e \<in> set es"
  obtains i h' where "heap_find (ev_uid e) h = Some i" and "heap_Remove e h = Some h'"
    and "heap_holds h' (t, remove1 e es)"
    and "i = 1 \<or> not_above h (i div 2) (Last h) \<Longrightarrow> heap_rel h' (t, remove1 e es)"
proof -
  have h: "heap_ok h" "heap_holds h (t, es)" using assms(1) by (auto simp: heap_rel_def)
  obtain i where i: "heap_find (ev_uid e) h = Some i" "1 \<le> i" "i < length h" "h ! i = e"
    using heap_find_member [OF h(2) assms(2,3)] .
  obtain h1 where h1: "Exch i (Last h) h = Some h1" "heap_holds (butlast h1) (t, remove1 (h ! i) es)"
    "\<And>j. j < length h - 1 \<Longrightarrow> butlast h1 ! j = (if j = i then h ! (length h - 1) else h ! j)"
    "length (butlast h1) = length h - 1"
    by (rule exch_last [OF h(2) i(2,3)]) (rule that)
  have down: "heap_ok_down (butlast h1) i" if "i = 1 \<or> not_above h (i div 2) (Last h)"
    unfolding heap_ok_down_def
  proof (intro allI impI conjI)
    fix j assume j: "2 \<le> j \<and> j < length (butlast h1)"
    note nth = h1(3) [of j] h1(3) [of "j div 2"] h1(3) [of "i div 2"]
    have ord: "not_above h (k div 2) k" if "2 \<le> k" "k < length h" for k using h(1) that by (simp add: heap_ok_def)
    show "not_above (butlast h1) (j div 2) j" if "j div 2 \<noteq> i"
      using that j nth ord [of j] h1(4) \<open>i = 1 \<or> _\<close> by (auto simp: not_above_def Last_def)
    show "not_above (butlast h1) (i div 2) j" if "j div 2 = i \<and> 2 \<le> i"
    proof -
      have "not_above h (i div 2) j" using not_above_trans [OF ord [of i]] ord [of j] that j h1(4) i(3) by auto
      moreover have "i div 2 < length h - 1" "i div 2 \<noteq> i" "j \<noteq> i" "j < length h - 1" using that j h1(4) by auto
      ultimately show ?thesis using nth by (simp add: not_above_def)
    qed
  qed
  obtain h' where "TopDown (butlast h1) i = Some h'" "same_events (butlast h1) h'" "heap_ok_down (butlast h1) i \<longrightarrow> heap_ok h'"
    using TopDown_keeps [OF i(2)] by blast
  then show thesis using that [of i h'] i h1(1,2) down heap_holds_same
    by (auto simp: heap_Remove_def heap_rel_def)
qed

text \<open>Seven events of which one is removed.\<close>

definition timed :: "u64 \<Rightarrow> nat Event" where
  "timed t = \<lparr>ev_impl = Some (unat t), ev_key = \<lparr>k_ts = t, k_uid = ucast t + 3, k_context = 0\<rparr>\<rparr>"

definition misorder_calls :: "nat sched_call list" where
  "misorder_calls = map (\<lambda>t. Call_Insert (timed t)) [1, 4, 2, 5, 6, 7, 3] @ [Call_Remove (timed 5)]
     @ [Call_RemoveNext, Call_RemoveNext, Call_RemoveNext, Call_RemoveNext]"

definition taken :: "nat sched_reply list \<Rightarrow> u64 list" where
  "taken rs = concat (map (\<lambda>r. case r of Reply_Event e \<Rightarrow> [ev_ts e] | _ \<Rightarrow> []) rs)"

lemma misorder_legal:
  "\<exists>a. agenda_calls (2 ^ 46) misorder_calls (0, [])
     = Some (map (\<lambda>_. Reply_Done) [1, 4, 2, 5, 6, 7, 3, 5 :: u64] @ map (\<lambda>t. Reply_Event (timed t)) [1, 2, 3, 4], a)"
  by (simp add: misorder_calls_def agenda_call_def timed_def Event_less_def EventKey_less_def)

text \<open>After a removal the heap may return events out of order: the calls keep the rules of the interface and ask for
  the events of times 1, 2, 3, 4, and the heap returns 1, 2, 4, 3.\<close>

lemma heap_remove_misorders:
  "(\<exists>rs a. agenda_calls (2 ^ 46) misorder_calls (0, []) = Some (rs, a) \<and> taken rs = [1, 2, 3, 4])
   \<and> map_option (\<lambda>(rs, _). taken rs) (sched_calls HeapScheduler misorder_calls heap_new) = Some [1, 2, 4, 3]"
proof
  show "\<exists>rs a. agenda_calls (2 ^ 46) misorder_calls (0, []) = Some (rs, a) \<and> taken rs = [1, 2, 3, 4]"
    using misorder_legal by (auto simp: taken_def timed_def)
qed code_simp

end
