(* ===== verification/Calendar_Scheduler.thy ===== *)
theory Calendar_Scheduler
  imports Schedulers
begin

text \<open>
  The calendar queue (\<^verbatim>\<open>calendar-scheduler.cc\<close>): an array of buckets, each a sorted list of the
  events whose time falls on it, the time being cut into pieces of \<open>c_width\<close> that are dealt to the
  buckets in turn. The search starts at the bucket of the last event taken and looks one round ahead; when
  nothing is due in it, the least of the first events is taken. The array is doubled or halved with the number of
  events, and the width is then chosen anew from a sample of the next events. The theory shows that
  the queue meets the contract of \<open>Schedulers\<close>, in both orders of the buckets, for times below
  \<open>2 ^ 46\<close> ns, where the bound of the last bucket does not wrap.
\<close>

record 'e cal =
  c_buckets :: "'e Event list list"
  c_nBuckets :: u32
  c_width :: u64
  c_lastPrio :: u64
  c_lastBucket :: u32
  c_bucketTop :: u64
  c_qSize :: u32
  c_reverse :: bool

text \<open>The three functions \<^verbatim>\<open>SetReverse\<close> chooses.\<close>

definition NextEvent :: "bool \<Rightarrow> 'e Event list \<Rightarrow> 'e Event" where
  "NextEvent rv b = (if rv then last b else hd b)"

definition Order :: "bool \<Rightarrow> EventKey \<Rightarrow> EventKey \<Rightarrow> bool" where
  "Order rv a b = (if rv then EventKey_greater a b else EventKey_less a b)"

definition Pop :: "bool \<Rightarrow> 'e Event list \<Rightarrow> 'e Event list" where
  "Pop rv b = (if rv then butlast b else tl b)"

definition Hash :: "u64 \<Rightarrow> 'e cal \<Rightarrow> u32" where
  "Hash ts c = ucast ((ts div c_width c) mod ucast (c_nBuckets c))"

text \<open>A width or a number of buckets of 0 divides by 0.\<close>

definition cal_Init :: "u32 \<Rightarrow> u64 \<Rightarrow> u64 \<Rightarrow> 'e cal \<Rightarrow> 'e cal option" where
  "cal_Init n w start c = do {
     guard (n \<noteq> 0 \<and> w \<noteq> 0);
     let c = c\<lparr>c_buckets := replicate (unat n) [], c_nBuckets := n, c_width := w, c_lastPrio := start\<rparr>;
     Some (c\<lparr>c_lastBucket := Hash start c, c_bucketTop := (start div w + 1) * w\<rparr>) }"

definition cal_new :: "bool \<Rightarrow> 'e cal" where
  "cal_new rv = \<lparr>c_buckets = [[], []], c_nBuckets = 2, c_width = 1, c_lastPrio = 0, c_lastBucket = 0,
     c_bucketTop = 1, c_qSize = 0, c_reverse = rv\<rparr>"

fun bucket_insert :: "bool \<Rightarrow> 'e Event \<Rightarrow> 'e Event list \<Rightarrow> 'e Event list" where
  "bucket_insert rv ev [] = [ev]"
| "bucket_insert rv ev (i # is) = (if Order rv (ev_key ev) (ev_key i) then ev # i # is
     else i # bucket_insert rv ev is)"

definition DoInsert :: "'e Event \<Rightarrow> 'e cal \<Rightarrow> 'e cal" where
  "DoInsert ev c = (let i = unat (Hash (ev_ts ev) c) in
     c\<lparr>c_buckets := (c_buckets c)[i := bucket_insert (c_reverse c) ev (c_buckets c ! i)]\<rparr>)"

definition cal_IsEmpty :: "'e cal \<Rightarrow> bool" where
  "cal_IsEmpty c \<longleftrightarrow> c_qSize c = 0"

text \<open>The search of \<^verbatim>\<open>PeekNext\<close> and \<^verbatim>\<open>DoRemoveNext\<close> from bucket \<open>i\<close> whose time ends at \<open>bt\<close>: \<open>Inl\<close> an
  event that is due, with its bucket and the end of its time, or \<open>Inr\<close> the least of the first events and its
  bucket. The first argument bounds the rounds; one for each bucket is enough.\<close>

fun cal_scan :: "nat \<Rightarrow> 'e cal \<Rightarrow> u32 \<Rightarrow> u64 \<Rightarrow> EventKey \<Rightarrow> (u32 \<times> 'e Event) option
    \<Rightarrow> ((u32 \<times> u64 \<times> 'e Event) + (EventKey \<times> (u32 \<times> 'e Event) option)) option" where
  "cal_scan 0 c i bt minKey best = None"
| "cal_scan (Suc k) c i bt minKey best = (
     let b = c_buckets c ! unat i; next = NextEvent (c_reverse c) b in
     if b \<noteq> [] \<and> ev_ts next < bt then Some (Inl (i, bt, next))
     else let less = (b \<noteq> [] \<and> EventKey_less (ev_key next) minKey);
              minKey = (if less then ev_key next else minKey);
              best = (if less then Some (i, next) else best);
              i' = (i + 1) mod c_nBuckets c
          in if i' \<noteq> c_lastBucket c then cal_scan k c i' (bt + c_width c) minKey best
             else Some (Inr (minKey, best)))"

definition cal_PeekNext :: "'e cal \<Rightarrow> 'e Event option" where
  "cal_PeekNext c = do {
     guard (\<not> cal_IsEmpty c);
     let minKey = \<lparr>k_ts = -1, k_uid = -1, k_context = 0\<rparr>;
     r \<leftarrow> cal_scan (unat (c_nBuckets c)) c (c_lastBucket c) (c_bucketTop c) minKey None;
     Some (case r of Inl (_, _, next) \<Rightarrow> next
       | Inr (_, Some (_, next)) \<Rightarrow> next
       | Inr (minKey, None) \<Rightarrow> \<lparr>ev_impl = None, ev_key = minKey\<rparr>) }"

definition pop_bucket :: "u32 \<Rightarrow> 'e cal \<Rightarrow> 'e cal" where
  "pop_bucket i c = c\<lparr>c_buckets := (c_buckets c)[unat i := Pop (c_reverse c) (c_buckets c ! unat i)]\<rparr>"

definition DoRemoveNext :: "'e cal \<Rightarrow> ('e Event \<times> 'e cal) option" where
  "DoRemoveNext c = do {
     guard (\<not> cal_IsEmpty c);
     let minKey = \<lparr>k_ts = -1, k_uid = 0, k_context = 0xffffffff\<rparr>;
     r \<leftarrow> cal_scan (unat (c_nBuckets c)) c (c_lastBucket c) (c_bucketTop c) minKey None;
     case r of
       Inl (i, bt, next) \<Rightarrow>
         Some (next, pop_bucket i (c\<lparr>c_lastBucket := i, c_lastPrio := ev_ts next, c_bucketTop := bt\<rparr>))
     | Inr (minKey, Some (i, next)) \<Rightarrow>
         Some (next, pop_bucket i (c\<lparr>c_lastPrio := k_ts minKey, c_lastBucket := Hash (k_ts minKey) c,
           c_bucketTop := (k_ts minKey div c_width c + 1) * c_width c\<rparr>))
     | Inr (_, None) \<Rightarrow> None }"

fun take_samples :: "nat \<Rightarrow> 'e cal \<Rightarrow> ('e Event list \<times> 'e cal) option" where
  "take_samples 0 c = Some ([], c)"
| "take_samples (Suc n) c = do {
     (e, c) \<leftarrow> DoRemoveNext c;
     (es, c) \<leftarrow> take_samples n c;
     Some (e # es, c) }"

definition nSamples :: "u32 \<Rightarrow> u32" where
  "nSamples q = min 25 (if q \<le> 5 then q else 5 + q div 10)"

text \<open>The times between the samples, their average and the width made of it.\<close>

fun separations :: "u64 list \<Rightarrow> u64 list" where
  "separations (cur # next # ts) = (next - cur) # separations (next # ts)"
| "separations _ = []"

definition sample_width :: "u32 \<Rightarrow> u64 list \<Rightarrow> u64" where
  "sample_width n ts = (let twiceAvg = sum_list (separations ts) div (ucast (n - 1)) * 2 in
     max (sum_list (filter (\<lambda>d. d \<le> twiceAvg) (separations ts)) * 3) 1)"

definition CalculateNewWidth :: "'e cal \<Rightarrow> (u64 \<times> 'e cal) option" where
  "CalculateNewWidth c = (if c_qSize c < 2 then Some (1, c) else do {
     let n = nSamples (c_qSize c);
     (samples, c1) \<leftarrow> take_samples (unat n) c;
     let c2 = fold DoInsert samples c1;
     Some (sample_width n (map ev_ts samples),
       c2\<lparr>c_lastBucket := c_lastBucket c, c_bucketTop := c_bucketTop c, c_lastPrio := c_lastPrio c\<rparr>) })"

definition DoResize :: "u32 \<Rightarrow> u64 \<Rightarrow> 'e cal \<Rightarrow> 'e cal option" where
  "DoResize newSize newWidth c = do {
     c' \<leftarrow> cal_Init newSize newWidth (c_lastPrio c) c;
     Some (fold DoInsert (concat (c_buckets c)) c') }"

definition Resize :: "u32 \<Rightarrow> 'e cal \<Rightarrow> 'e cal option" where
  "Resize newSize c = do { (newWidth, c) \<leftarrow> CalculateNewWidth c; DoResize newSize newWidth c }"

definition ResizeUp :: "'e cal \<Rightarrow> 'e cal option" where
  "ResizeUp c = (if c_qSize c > c_nBuckets c * 2 \<and> c_nBuckets c < 32768 then Resize (c_nBuckets c * 2) c else Some c)"

definition ResizeDown :: "'e cal \<Rightarrow> 'e cal option" where
  "ResizeDown c = (if c_qSize c < c_nBuckets c div 2 then Resize (c_nBuckets c div 2) c else Some c)"

definition cal_Insert :: "'e Event \<Rightarrow> 'e cal \<Rightarrow> 'e cal option" where
  "cal_Insert ev c = (let c = DoInsert ev c in ResizeUp (c\<lparr>c_qSize := c_qSize c + 1\<rparr>))"

definition cal_RemoveNext :: "'e cal \<Rightarrow> ('e Event \<times> 'e cal) option" where
  "cal_RemoveNext c = do {
     guard (\<not> cal_IsEmpty c);
     (ev, c) \<leftarrow> DoRemoveNext c;
     c \<leftarrow> ResizeDown (c\<lparr>c_qSize := c_qSize c - 1\<rparr>);
     Some (ev, c) }"

text \<open>Within a bucket the removal is the one of the list.\<close>

definition cal_Remove :: "'e Event \<Rightarrow> 'e cal \<Rightarrow> 'e cal option" where
  "cal_Remove ev c = do {
     guard (\<not> cal_IsEmpty c);
     let i = unat (Hash (ev_ts ev) c);
     b \<leftarrow> list_Remove ev (c_buckets c ! i);
     ResizeDown (c\<lparr>c_buckets := (c_buckets c)[i := b], c_qSize := c_qSize c - 1\<rparr>) }"

definition CalendarScheduler :: "bool \<Rightarrow> ('e, 'e cal) Scheduler" where
  "CalendarScheduler rv = \<lparr>sc_new = cal_new rv, sc_Insert = cal_Insert, sc_IsEmpty = cal_IsEmpty,
     sc_PeekNext = cal_PeekNext, sc_RemoveNext = cal_RemoveNext, sc_Remove = cal_Remove\<rparr>"

lemma cal_new_Init: "cal_Init 2 1 0 c = Some (cal_new (c_reverse c)\<lparr>c_qSize := c_qSize c\<rparr>)"
proof -
  have "replicate 2 ([] :: 'a Event list) = [[], []]" by (simp add: numeral_2_eq_2)
  then show ?thesis by (cases c) (simp add: cal_Init_def cal_new_def Hash_def)
qed

subsection \<open>A bucket\<close>

definition bucket_less :: "bool \<Rightarrow> 'e Event \<Rightarrow> 'e Event \<Rightarrow> bool" where
  "bucket_less rv a b = (if rv then Event_less b a else Event_less a b)"

lemma Order_less: "Order rv (ev_key a) (ev_key b) \<longleftrightarrow> bucket_less rv a b"
  by (simp add: Order_def bucket_less_def EventKey_greater_flip Event_less_def)

lemma bucket_less_trans: "bucket_less rv a b \<Longrightarrow> bucket_less rv b c \<Longrightarrow> bucket_less rv a c"
  by (auto simp: bucket_less_def intro: Event_less_trans split: if_splits)

lemma bucket_less_linear: "ev_uid a \<noteq> ev_uid b \<Longrightarrow> bucket_less rv a b \<or> bucket_less rv b a"
  using Event_less_linear [of a b] by (auto simp: bucket_less_def)

lemma mset_bucket_insert [simp]: "mset (bucket_insert rv e b) = add_mset e (mset b)"
  by (induction b) auto

lemma set_bucket_insert [simp]: "set (bucket_insert rv e b) = insert e (set b)"
  by (metis mset_bucket_insert set_mset_add_mset_insert set_mset_mset)

lemma sorted_bucket_insert:
  "sorted_wrt (bucket_less rv) b \<Longrightarrow> ev_uid e \<notin> ev_uid ` set b \<Longrightarrow> sorted_wrt (bucket_less rv) (bucket_insert rv e b)"
proof (induction b)
  case (Cons x xs)
  then have "bucket_less rv e x \<or> bucket_less rv x e" using bucket_less_linear [of e x] by auto
  then show ?case using Cons bucket_less_trans [of rv e x] by (auto simp: Order_less)
qed simp

lemma bucket_next:
  assumes "sorted_wrt (bucket_less rv) b" and "b \<noteq> []"
  shows "NextEvent rv b \<in> set b" and "x \<in> set b \<Longrightarrow> x = NextEvent rv b \<or> Event_less (NextEvent rv b) x"
    and "mset b = add_mset (NextEvent rv b) (mset (Pop rv b))" and "sorted_wrt (bucket_less rv) (Pop rv b)"
proof -
  have "NextEvent rv b \<in> set b \<and> (x \<in> set b \<longrightarrow> x = NextEvent rv b \<or> Event_less (NextEvent rv b) x)
    \<and> mset b = add_mset (NextEvent rv b) (mset (Pop rv b)) \<and> sorted_wrt (bucket_less rv) (Pop rv b)"
  proof (cases rv)
    case True
    obtain b' e where "b = b' @ [e]" using assms(2) by (metis append_butlast_last_id)
    then show ?thesis using assms(1) by (auto simp: True NextEvent_def Pop_def bucket_less_def sorted_wrt_append)
  next
    case False
    obtain e b' where "b = e # b'" using assms(2) by (cases b) auto
    then show ?thesis using assms(1) by (auto simp: False NextEvent_def Pop_def bucket_less_def)
  qed
  then show "NextEvent rv b \<in> set b" and "x \<in> set b \<Longrightarrow> x = NextEvent rv b \<or> Event_less (NextEvent rv b) x"
    and "mset b = add_mset (NextEvent rv b) (mset (Pop rv b))" and "sorted_wrt (bucket_less rv) (Pop rv b)"
    by auto
qed

lemma mset_concat_update:
  "i < length bs \<Longrightarrow> mset (concat (bs[i := b])) + mset (bs ! i) = mset (concat bs) + mset b"
  by (induction bs arbitrary: i) (auto split: nat.splits simp: ac_simps)

subsection \<open>The state of the queue\<close>

abbreviation cn :: "'e cal \<Rightarrow> nat" where "cn c \<equiv> unat (c_nBuckets c)"
abbreviation cw :: "'e cal \<Rightarrow> nat" where "cw c \<equiv> unat (c_width c)"
abbreviation cal_events :: "'e cal \<Rightarrow> 'e Event list" where "cal_events c \<equiv> concat (c_buckets c)"

text \<open>The piece of time of an event, and its bucket.\<close>

definition piece :: "'e cal \<Rightarrow> u64 \<Rightarrow> nat" where
  "piece c ts = unat ts div cw c"

definition cal_shape :: "'e cal \<Rightarrow> bool" where
  "cal_shape c \<longleftrightarrow> length (c_buckets c) = cn c \<and> 1 \<le> cn c \<and> cn c < 2 ^ 16 \<and> 1 \<le> cw c \<and> cw c \<le> 3 * 2 ^ 46"

definition bucket_ok :: "'e cal \<Rightarrow> nat \<Rightarrow> 'e Event list \<Rightarrow> bool" where
  "bucket_ok c i b \<longleftrightarrow> sorted_wrt (bucket_less (c_reverse c)) b \<and> (\<forall>e \<in> set b. piece c (ev_ts e) mod cn c = i)"

definition cal_ok :: "'e cal \<Rightarrow> bool" where
  "cal_ok c \<longleftrightarrow> cal_shape c \<and> (\<forall>i < cn c. bucket_ok c i (c_buckets c ! i))"

definition cal_clock :: "'e cal \<Rightarrow> bool" where
  "cal_clock c \<longleftrightarrow> unat (c_lastPrio c) < 2 ^ 46 \<and> unat (c_lastBucket c) = piece c (c_lastPrio c) mod cn c
     \<and> unat (c_bucketTop c) = (piece c (c_lastPrio c) + 1) * cw c"

definition cal_due :: "'e cal \<Rightarrow> 'e Event \<Rightarrow> bool" where
  "cal_due c e \<longleftrightarrow> c_lastPrio c \<le> ev_ts e \<and> unat (ev_ts e) < 2 ^ 46"

lemma Hash_piece:
  assumes "cal_shape c"
  shows "unat (Hash ts c) = piece c ts mod cn c"
proof -
  let ?q = "(ts div c_width c) mod (ucast (c_nBuckets c) :: u64)"
  have q: "unat ?q = piece c ts mod cn c"
    by (simp add: piece_def unat_div_distrib unat_mod_distrib unat_ucast_up)
  have "piece c ts mod cn c < cn c" "cn c < 65536" using assms by (simp_all add: cal_shape_def)
  then have "piece c ts mod cn c < 65536" by linarith
  then have "unat ?q < 2 ^ LENGTH(32)" using q by simp
  then show ?thesis using q by (simp add: Hash_def unsigned_ucast_eq take_bit_nat_eq_self)
qed

lemma concat_nth: "e \<in> set (concat bs) \<longleftrightarrow> (\<exists>i < length bs. e \<in> set (bs ! i))"
  by (simp only: set_concat UN_iff) (metis in_set_conv_nth)

lemma event_bucket:
  assumes "cal_ok c" and "e \<in> set (cal_events c)"
  shows "e \<in> set (c_buckets c ! (piece c (ev_ts e) mod cn c))" and "piece c (ev_ts e) mod cn c < cn c"
proof -
  obtain i where "i < cn c" "e \<in> set (c_buckets c ! i)"
    using assms concat_nth [of e "c_buckets c"] by (auto simp: cal_ok_def cal_shape_def)
  then show "e \<in> set (c_buckets c ! (piece c (ev_ts e) mod cn c))" "piece c (ev_ts e) mod cn c < cn c"
    using assms(1) by (auto simp: cal_ok_def bucket_ok_def)
qed

text \<open>The \<open>j\<close>-th bucket of a round, and whether its first event is due in it.\<close>

definition round_piece :: "'e cal \<Rightarrow> nat \<Rightarrow> nat" where
  "round_piece c j = piece c (c_lastPrio c) + j"

definition round_bucket :: "'e cal \<Rightarrow> nat \<Rightarrow> 'e Event list" where
  "round_bucket c j = c_buckets c ! (round_piece c j mod cn c)"

abbreviation first_of :: "'e cal \<Rightarrow> 'e Event list \<Rightarrow> 'e Event" where
  "first_of c b \<equiv> NextEvent (c_reverse c) b"

definition hit :: "'e cal \<Rightarrow> nat \<Rightarrow> bool" where
  "hit c j \<longleftrightarrow> round_bucket c j \<noteq> [] \<and> piece c (ev_ts (first_of c (round_bucket c j))) = round_piece c j"

lemma piece_mono: "a \<le> b \<Longrightarrow> piece c a \<le> piece c b"
  by (simp add: piece_def div_le_mono word_le_nat_alt)

lemma bucket_piece:
  assumes "cal_ok c" and "e \<in> set (round_bucket c j)"
  shows "piece c (ev_ts e) mod cn c = round_piece c j mod cn c" and "e \<in> set (cal_events c)"
proof -
  have "0 < cn c" using assms(1) by (auto simp: cal_ok_def cal_shape_def)
  then have l: "round_piece c j mod cn c < cn c" by simp
  then show "piece c (ev_ts e) mod cn c = round_piece c j mod cn c"
    using assms by (auto simp: cal_ok_def bucket_ok_def round_bucket_def)
  show "e \<in> set (cal_events c)"
    using assms l concat_nth [of e "c_buckets c"] by (auto simp: cal_ok_def cal_shape_def round_bucket_def)
qed

lemma same_piece:
  fixes p q n :: nat
  assumes "p mod n = q mod n" and "p \<le> q" and "q < p + n"
  shows "p = q"
proof -
  have "(q - p) mod n = 0" using assms(1,2) by (metis mod_eq_dvd_iff_nat dvd_imp_mod_0)
  moreover have "q - p < n" using assms(2,3) by linarith
  ultimately show ?thesis using assms(2) by simp
qed

text \<open>The test of the code is a hit: an event of the bucket that falls before its end falls into its
  own piece, because no pending event is before the last one taken.\<close>

lemma hit_test:
  assumes "cal_ok c" and "j < cn c" and "\<forall>e \<in> set (cal_events c). cal_due c e"
    and "e \<in> set (round_bucket c j)"
  shows "unat (ev_ts e) < (round_piece c j + 1) * cw c \<longleftrightarrow> piece c (ev_ts e) = round_piece c j"
proof -
  have w: "0 < cw c" using assms(1) by (auto simp: cal_ok_def cal_shape_def)
  note b = bucket_piece [OF assms(1,4)]
  have "unat (ev_ts e) < (round_piece c j + 1) * cw c \<longleftrightarrow> piece c (ev_ts e) < round_piece c j + 1"
    unfolding piece_def using w by (simp only: div_less_iff_less_mult)
  also have "\<dots> \<longleftrightarrow> piece c (ev_ts e) = round_piece c j"
  proof
    assume lt: "piece c (ev_ts e) < round_piece c j + 1"
    have "piece c (c_lastPrio c) \<le> piece c (ev_ts e)"
      using assms(3) b(2) by (auto simp: cal_due_def intro: piece_mono)
    then have "round_piece c j < piece c (ev_ts e) + cn c" using assms(2) by (simp add: round_piece_def)
    then show "piece c (ev_ts e) = round_piece c j" using same_piece [OF b(1)] lt by simp
  qed simp
  finally show ?thesis .
qed

subsection \<open>The search\<close>

definition scan_inv :: "'e cal \<Rightarrow> EventKey \<Rightarrow> nat \<Rightarrow> EventKey \<Rightarrow> (u32 \<times> 'e Event) option \<Rightarrow> bool" where
  "scan_inv c mk0 j mk best \<longleftrightarrow> (\<forall>j' < j. \<not> hit c j')
     \<and> (\<forall>j' < j. round_bucket c j' \<noteq> [] \<longrightarrow> \<not> EventKey_less (ev_key (first_of c (round_bucket c j'))) mk)
     \<and> (case best of None \<Rightarrow> mk = mk0
        | Some (i, e) \<Rightarrow> mk = ev_key e \<and> (\<exists>j' < j. unat i = round_piece c j' mod cn c \<and> round_bucket c j' \<noteq> []
            \<and> e = first_of c (round_bucket c j')))"

definition scan_post :: "'e cal \<Rightarrow> EventKey \<Rightarrow> (u32 \<times> u64 \<times> 'e Event) + (EventKey \<times> (u32 \<times> 'e Event) option) \<Rightarrow> bool" where
  "scan_post c mk0 r \<longleftrightarrow> (case r of
       Inl (i, bt, e) \<Rightarrow> \<exists>j < cn c. hit c j \<and> (\<forall>j' < j. \<not> hit c j') \<and> unat i = round_piece c j mod cn c
         \<and> unat bt = (round_piece c j + 1) * cw c \<and> e = first_of c (round_bucket c j)
     | Inr (mk, best) \<Rightarrow> scan_inv c mk0 (cn c) mk best)"

lemma round_end:
  assumes "cal_shape c" and "unat (c_lastPrio c) < 2 ^ 46" and "j < cn c"
  shows "(round_piece c j + 1) * cw c < 2 ^ 64"
proof -
  have "piece c (c_lastPrio c) * cw c \<le> unat (c_lastPrio c)" by (simp add: piece_def)
  moreover have "(j + 1) * cw c \<le> 2 ^ 16 * (3 * 2 ^ 46)"
    using assms(1,3) by (intro mult_mono) (auto simp: cal_shape_def)
  ultimately show ?thesis using assms(2) by (simp add: round_piece_def algebra_simps)
qed

lemma next_round:
  assumes "cal_shape c" and "unat i = round_piece c j mod cn c"
  shows "unat ((i + 1) mod c_nBuckets c) = round_piece c (Suc j) mod cn c"
proof -
  have "unat i < cn c" using assms by (simp add: cal_shape_def)
  then have "unat (i + 1) = unat i + 1" using assms(1) by (subst unat_add_nowrap) (auto simp: cal_shape_def)
  then show ?thesis by (simp add: unat_mod_distrib assms(2) round_piece_def mod_Suc_eq)
qed

lemma round_over:
  assumes "j < cn c"
  shows "round_piece c (Suc j) mod cn c = round_piece c 0 mod cn c \<longleftrightarrow> Suc j = cn c"
proof
  assume "round_piece c (Suc j) mod cn c = round_piece c 0 mod cn c"
  then have "(round_piece c (Suc j) - round_piece c 0) mod cn c = 0"
    by (metis dvd_imp_mod_0 le_add1 mod_eq_dvd_iff_nat round_piece_def add.right_neutral)
  then have "Suc j mod cn c = 0" by (simp add: round_piece_def)
  then show "Suc j = cn c" using assms by (metis Suc_lessI mod_less nat.distinct(1))
qed (simp add: round_piece_def)

lemma scan_inv_next:
  assumes "scan_inv c mk0 j mk best" and "\<not> hit c j" and "unat i = round_piece c j mod cn c"
    and "le \<longleftrightarrow> round_bucket c j \<noteq> [] \<and> EventKey_less (ev_key (first_of c (round_bucket c j))) mk"
  shows "scan_inv c mk0 (Suc j) (if le then ev_key (first_of c (round_bucket c j)) else mk)
     (if le then Some (i, first_of c (round_bucket c j)) else best)"
proof (cases le)
  case True
  then show ?thesis using assms
    by (auto simp: scan_inv_def less_Suc_eq dest: EventKey_less_trans)
next
  case False
  then show ?thesis using assms
    by (auto simp: scan_inv_def less_Suc_eq split: option.splits)
qed

lemma cal_scan_post:
  assumes "cal_ok c" and "cal_clock c" and "\<forall>e \<in> set (cal_events c). cal_due c e"
    and "j < cn c" and "k = cn c - j" and "unat i = round_piece c j mod cn c" and "unat bt = (round_piece c j + 1) * cw c"
    and "scan_inv c mk0 j mk best"
  shows "\<exists>r. cal_scan k c i bt mk best = Some r \<and> scan_post c mk0 r"
  using assms(4-8)
proof (induction k arbitrary: j i bt mk best)
  case (Suc k)
  have shape: "cal_shape c" using assms(1) by (simp add: cal_ok_def)
  let ?b = "round_bucket c j"
  have b: "c_buckets c ! unat i = ?b" using Suc.prems(3) by (simp add: round_bucket_def)
  have test: "?b \<noteq> [] \<and> ev_ts (first_of c ?b) < bt \<longleftrightarrow> hit c j"
  proof (cases "?b = []")
    case False
    have "round_piece c j mod cn c < cn c" using shape by (simp add: cal_shape_def)
    then have "sorted_wrt (bucket_less (c_reverse c)) ?b"
      using assms(1) by (auto simp: cal_ok_def bucket_ok_def round_bucket_def)
    then have "first_of c ?b \<in> set ?b" using False by (rule bucket_next(1))
    then show ?thesis using hit_test [OF assms(1) Suc.prems(1) assms(3)] Suc.prems(4) False
      by (simp add: hit_def word_less_nat_alt)
  qed (simp add: hit_def)
  show ?case
  proof (cases "hit c j")
    case True
    have "\<forall>j' < j. \<not> hit c j'" using Suc.prems(5) by (simp add: scan_inv_def)
    then have "scan_post c mk0 (Inl (i, bt, first_of c ?b))" using True Suc.prems by (auto simp: scan_post_def)
    then show ?thesis using True test b by (simp add: Let_def)
  next
    case False
    let ?less = "?b \<noteq> [] \<and> EventKey_less (ev_key (first_of c ?b)) mk"
    let ?mk = "if ?less then ev_key (first_of c ?b) else mk" and ?best = "if ?less then Some (i, first_of c ?b) else best"
    let ?i = "(i + 1) mod c_nBuckets c"
    have inv: "scan_inv c mk0 (Suc j) ?mk ?best" by (rule scan_inv_next [OF Suc.prems(5) False Suc.prems(3)]) simp
    have i': "unat ?i = round_piece c (Suc j) mod cn c" by (rule next_round [OF shape Suc.prems(3)])
    have last: "?i = c_lastBucket c \<longleftrightarrow> Suc j = cn c"
      using i' round_over [OF Suc.prems(1)] assms(2) by (simp add: cal_clock_def round_piece_def word_eq_iff_unsigned [where 'a = nat])
    have step: "cal_scan (Suc k) c i bt mk best =
        (if ?i \<noteq> c_lastBucket c then cal_scan k c ?i (bt + c_width c) ?mk ?best else Some (Inr (?mk, ?best)))"
    proof -
      have nt: "(?b \<noteq> [] \<and> ev_ts (first_of c ?b) < bt) = False" using test False by simp
      show ?thesis by (simp only: cal_scan.simps Let_def b nt if_False)
    qed
    show ?thesis
    proof (cases "Suc j = cn c")
      case True
      then have "cal_scan (Suc k) c i bt mk best = Some (Inr (?mk, ?best))"
        using last by (intro trans [OF step] if_not_P) simp
      then show ?thesis using inv True by (auto simp only: scan_post_def sum.case prod.case)
    next
      case more: False
      then have j: "Suc j < cn c" using Suc.prems(1) by simp
      have small: "(round_piece c (Suc j) + 1) * cw c < 2 ^ LENGTH(64)"
        using round_end [OF shape _ j] assms(2) unfolding cal_clock_def by simp
      have sum: "unat bt + cw c = (round_piece c (Suc j) + 1) * cw c"
        unfolding Suc.prems(4) round_piece_def by simp
      have bt': "unat (bt + c_width c) = (round_piece c (Suc j) + 1) * cw c"
        unfolding sum [symmetric] by (rule unat_add_nowrap) (unfold sum, rule small)
      have "k = cn c - Suc j" using Suc.prems(2) j by linarith
      then obtain r where r: "cal_scan k c ?i (bt + c_width c) ?mk ?best = Some r" "scan_post c mk0 r"
        using Suc.IH [OF j _ i' bt' inv] by blast
      have "cal_scan (Suc k) c i bt mk best = Some r" 
        using last more by (intro trans [OF step] trans [OF if_P r(1)]) simp
      then show ?thesis using r(2) by blast
    qed
  qed
qed simp

text \<open>What the search finds is the event due next.\<close>

lemma round_of_event:
  assumes "cal_ok c" and "e \<in> set (cal_events c)"
  obtains j where "j < cn c" and "e \<in> set (round_bucket c j)" and "cal_due c e \<and> piece c (ev_ts e) < round_piece c j + cn c
     \<longrightarrow> piece c (ev_ts e) = round_piece c j"
proof -
  let ?n = "cn c" and ?L = "piece c (c_lastPrio c)" and ?p = "piece c (ev_ts e)"
  have n: "0 < ?n" using assms(1) by (auto simp: cal_ok_def cal_shape_def)
  define j where "j = (?p + (?n - ?L mod ?n)) mod ?n"
  have "(?L + j) mod ?n = (?L mod ?n + (?p + (?n - ?L mod ?n))) mod ?n" by (simp add: j_def mod_simps)
  also have "?L mod ?n + (?p + (?n - ?L mod ?n)) = ?p + ?n"
    using mod_less_divisor [OF n, of ?L] by linarith
  finally have j: "round_piece c j mod ?n = ?p mod ?n" by (simp add: round_piece_def)
  have jn: "j < ?n" using n by (simp add: j_def)
  show thesis
  proof (rule that [OF jn])
    show "e \<in> set (round_bucket c j)" using event_bucket(1) [OF assms] j by (simp add: round_bucket_def)
    show "cal_due c e \<and> ?p < round_piece c j + ?n \<longrightarrow> ?p = round_piece c j"
    proof
      assume d: "cal_due c e \<and> ?p < round_piece c j + ?n"
      then have "?L \<le> ?p" by (auto simp: cal_due_def intro: piece_mono)
      then show "?p = round_piece c j"
      proof (cases "?p \<le> round_piece c j")
        case True
        have "round_piece c j < ?p + ?n" using \<open>?L \<le> ?p\<close> jn unfolding round_piece_def by linarith
        then show ?thesis by (rule same_piece [OF j [symmetric] True])
      next
        case False
        then show ?thesis using same_piece [OF j] d by simp
      qed
    qed
  qed
qed

lemma bucket_first:
  assumes "cal_ok c" and "round_bucket c j \<noteq> []"
  shows "first_of c (round_bucket c j) \<in> set (round_bucket c j)"
    and "x \<in> set (round_bucket c j) \<Longrightarrow> x = first_of c (round_bucket c j) \<or> Event_less (first_of c (round_bucket c j)) x"
proof -
  have "round_piece c j mod cn c < cn c" using assms(1) by (simp add: cal_ok_def cal_shape_def)
  then have so: "sorted_wrt (bucket_less (c_reverse c)) (round_bucket c j)"
    using assms(1) by (auto simp: cal_ok_def bucket_ok_def round_bucket_def)
  show "first_of c (round_bucket c j) \<in> set (round_bucket c j)" by (rule bucket_next(1) [OF so assms(2)])
  show "x \<in> set (round_bucket c j) \<Longrightarrow> x = first_of c (round_bucket c j) \<or> Event_less (first_of c (round_bucket c j)) x"
    by (rule bucket_next(2) [OF so assms(2)])
qed

lemma hit_least:
  assumes "cal_ok c" and "\<forall>e \<in> set (cal_events c). cal_due c e" and "j < cn c" and "hit c j"
    and "\<forall>j' < j. \<not> hit c j'" and "x \<in> set (cal_events c)"
  shows "\<not> Event_less x (first_of c (round_bucket c j))"
proof
  let ?e = "first_of c (round_bucket c j)"
  assume less: "Event_less x ?e"
  then have le: "piece c (ev_ts x) \<le> round_piece c j"
    using assms(4) piece_mono [OF Event_less_ts [OF less], of c] by (simp add: hit_def)
  obtain i where i: "i < cn c" "x \<in> set (round_bucket c i)"
    "cal_due c x \<and> piece c (ev_ts x) < round_piece c i + cn c \<longrightarrow> piece c (ev_ts x) = round_piece c i"
    using round_of_event [OF assms(1,6)] .
  have p: "piece c (ev_ts x) = round_piece c i"
    using i(3) assms(2,3,6) le by (auto simp: round_piece_def)
  then have ij: "i \<le> j" using le by (simp add: round_piece_def)
  have ne: "round_bucket c i \<noteq> []" using i(2) by auto
  note first = bucket_first [OF assms(1) ne]
  show False
  proof (cases "i = j")
    case True
    then show False using first(2) [OF i(2)] less Event_less_asym by auto
  next
    case False
    have fe: "first_of c (round_bucket c i) \<in> set (cal_events c)" using bucket_piece(2) [OF assms(1) first(1)] .
    have "ev_ts (first_of c (round_bucket c i)) \<le> ev_ts x" using first(2) [OF i(2)] Event_less_ts by auto
    then have "piece c (ev_ts (first_of c (round_bucket c i))) \<le> round_piece c i" using piece_mono p by metis
    moreover have "piece c (c_lastPrio c) \<le> piece c (ev_ts (first_of c (round_bucket c i)))"
      using assms(2) fe by (auto simp: cal_due_def intro: piece_mono)
    ultimately have "piece c (ev_ts (first_of c (round_bucket c i))) = round_piece c i"
      using same_piece [OF bucket_piece(1) [OF assms(1) first(1)]] i(1) by (simp add: round_piece_def)
    then have "hit c i" using ne by (simp add: hit_def)
    then show False using assms(5) ij False by simp
  qed
qed

lemma best_least:
  assumes "cal_ok c" and "scan_inv c mk0 (cn c) mk (Some (i, e))" and "x \<in> set (cal_events c)"
  shows "\<not> Event_less x e"
proof -
  obtain j where j: "j < cn c" "x \<in> set (round_bucket c j)" using round_of_event [OF assms(1,3)] by metis
  then have ne: "round_bucket c j \<noteq> []" by auto
  then have "\<not> Event_less (first_of c (round_bucket c j)) e"
    using assms(2) j(1) by (auto simp: scan_inv_def Event_less_def)
  then show ?thesis using bucket_first(2) [OF assms(1) ne j(2)] by (auto dest: Event_less_trans)
qed

lemma best_exists:
  assumes "cal_ok c" and "scan_inv c mk0 (cn c) mk best" and "x \<in> set (cal_events c)"
    and "\<forall>e \<in> set (cal_events c). EventKey_less (ev_key e) mk0"
  shows "best \<noteq> None"
proof
  assume none: "best = None"
  obtain j where j: "j < cn c" "x \<in> set (round_bucket c j)" using round_of_event [OF assms(1,3)] by metis
  then have ne: "round_bucket c j \<noteq> []" by auto
  have "first_of c (round_bucket c j) \<in> set (cal_events c)"
    using bucket_piece(2) [OF assms(1) bucket_first(1) [OF assms(1) ne]] .
  then show False using assms(2,4) none j(1) ne by (auto simp: scan_inv_def)
qed

subsection \<open>Taking the next event\<close>

definition same_layout :: "'e cal \<Rightarrow> 'e cal \<Rightarrow> bool" where
  "same_layout c c' \<longleftrightarrow> c_nBuckets c' = c_nBuckets c \<and> c_width c' = c_width c \<and> c_reverse c' = c_reverse c
     \<and> c_qSize c' = c_qSize c"

lemma same_layout_refl [simp]: "same_layout c c"
  by (simp add: same_layout_def)

lemma same_layout_trans: "same_layout c c' \<Longrightarrow> same_layout c' c'' \<Longrightarrow> same_layout c c''"
  by (simp add: same_layout_def)

lemma piece_layout: "same_layout c c' \<Longrightarrow> piece c' = piece c"
  by (auto simp: same_layout_def piece_def)

lemma cal_ok_update:
  assumes "cal_ok c" and "i < cn c" and "bucket_ok c i b" and "same_layout c c'"
    and "c_buckets c' = (c_buckets c)[i := b]"
  shows "cal_ok c'" and "mset (cal_events c') + mset (c_buckets c ! i) = mset (cal_events c) + mset b"
proof -
  have l: "length (c_buckets c) = cn c" using assms(1) by (simp add: cal_ok_def cal_shape_def)
  have "bucket_ok c' k (c_buckets c' ! k)" if "k < cn c" for k
    using assms that l piece_layout [OF assms(4)]
    by (cases "k = i") (auto simp: cal_ok_def bucket_ok_def same_layout_def nth_list_update)
  then show "cal_ok c'" using assms(1,4,5) by (auto simp: cal_ok_def cal_shape_def same_layout_def)
  show "mset (cal_events c') + mset (c_buckets c ! i) = mset (cal_events c) + mset b"
    using mset_concat_update [of i "c_buckets c" b] assms(2,5) l by simp
qed

lemma pop_ok:
  assumes "cal_ok c" and "unat i < cn c" and "c_buckets c ! unat i \<noteq> []" and "same_layout c c1" and "c_buckets c1 = c_buckets c"
  shows "cal_ok (pop_bucket i c1)" and "same_layout c (pop_bucket i c1)"
    and "mset (cal_events c) = add_mset (first_of c (c_buckets c ! unat i)) (mset (cal_events (pop_bucket i c1)))"
proof -
  let ?b = "c_buckets c ! unat i"
  have ok: "bucket_ok c (unat i) ?b" using assms(1,2) by (simp add: cal_ok_def)
  note nx = bucket_next [of "c_reverse c" ?b, OF _ assms(3)]
  have ms: "mset ?b = add_mset (first_of c ?b) (mset (Pop (c_reverse c) ?b))" using nx(3) ok by (simp add: bucket_ok_def)
  have "set (Pop (c_reverse c) ?b) \<subseteq> set ?b" by (auto simp: Pop_def dest: in_set_butlastD list.set_sel(2) [OF assms(3)])
  then have pop: "bucket_ok c (unat i) (Pop (c_reverse c) ?b)" using ok nx(4) by (auto simp: bucket_ok_def)
  have bs: "c_buckets (pop_bucket i c1) = (c_buckets c)[unat i := Pop (c_reverse c) ?b]"
    using assms(4,5) by (simp add: pop_bucket_def same_layout_def)
  show same: "same_layout c (pop_bucket i c1)" using assms(4) by (simp add: pop_bucket_def same_layout_def)
  show "cal_ok (pop_bucket i c1)" by (rule cal_ok_update(1) [OF assms(1,2) pop same bs])
  show "mset (cal_events c) = add_mset (first_of c ?b) (mset (cal_events (pop_bucket i c1)))"
    using cal_ok_update(2) [OF assms(1,2) pop same bs] by (simp only: ms) simp
qed

lemma end_of_piece:
  assumes "cal_shape c" and "unat ts < 2 ^ 46"
  shows "unat ((ts div c_width c + 1) * c_width c) = (piece c ts + 1) * cw c"
proof -
  have q: "unat (ts div c_width c) = piece c ts" and le: "piece c ts \<le> unat ts"
    by (simp_all add: unat_div_distrib piece_def)
  have q1: "unat (ts div c_width c + 1) = piece c ts + 1"
    using le assms(2) by (subst unat_add_nowrap) (simp_all add: q)
  have "piece c ts * cw c \<le> unat ts" by (simp add: piece_def)
  moreover have "cw c \<le> 3 * 2 ^ 46" using assms(1) by (simp add: cal_shape_def)
  ultimately have "(piece c ts + 1) * cw c < 2 ^ 64" using assms(2) by simp
  then show ?thesis using q1 by (subst unat_mult_nowrap) simp_all
qed

lemma cal_search:
  assumes "cal_ok c" and "cal_clock c" and "\<forall>e \<in> set (cal_events c). cal_due c e"
    and "mset (cal_events c) = mset (e # es)" and "sorted_wrt Event_less (e # es)"
    and "\<forall>x \<in> set (cal_events c). EventKey_less (ev_key x) mk0"
  obtains r i where "cal_scan (cn c) c (c_lastBucket c) (c_bucketTop c) mk0 None = Some r"
    and "unat i = piece c (ev_ts e) mod cn c" and "c_buckets c ! unat i \<noteq> []" and "e = first_of c (c_buckets c ! unat i)"
    and "(\<exists>bt. r = Inl (i, bt, e) \<and> unat bt = (piece c (ev_ts e) + 1) * cw c) \<or> r = Inr (ev_key e, Some (i, e))"
proof -
  have n: "0 < cn c" using assms(1) by (auto simp: cal_ok_def cal_shape_def)
  have start: "scan_inv c mk0 0 mk0 None" by (simp add: scan_inv_def)
  obtain r where r: "cal_scan (cn c) c (c_lastBucket c) (c_bucketTop c) mk0 None = Some r" "scan_post c mk0 r"
    using cal_scan_post [OF assms(1-3) n _ _ _ start, of "cn c"] assms(2) by (auto simp: cal_clock_def round_piece_def)
  have head: "x = e" if "x \<in> set (cal_events c)" "\<forall>y \<in> set (cal_events c). \<not> Event_less y x" for x
    using bag_head [OF assms(4,5) that] .
  have ev: "first_of c (round_bucket c j) \<in> set (cal_events c)"
    "piece c (ev_ts (first_of c (round_bucket c j))) mod cn c = round_piece c j mod cn c"
    if "round_bucket c j \<noteq> []" for j
    using bucket_piece [OF assms(1) bucket_first(1) [OF assms(1) that]] by auto
  show thesis
  proof (cases r)
    case (Inl z)
    obtain i bt x where z: "z = (i, bt, x)" by (cases z)
    have "\<exists>j < cn c. hit c j \<and> (\<forall>j' < j. \<not> hit c j') \<and> unat i = round_piece c j mod cn c
        \<and> unat bt = (round_piece c j + 1) * cw c \<and> x = first_of c (round_bucket c j)"
      using r(2) by (simp only: Inl z scan_post_def sum.case prod.case)
    then obtain j where j: "r = Inl (i, bt, x)" "j < cn c" "hit c j" "\<forall>j' < j. \<not> hit c j'"
      "unat i = round_piece c j mod cn c" "unat bt = (round_piece c j + 1) * cw c" "x = first_of c (round_bucket c j)"
      using Inl z by blast
    have ne: "round_bucket c j \<noteq> []" and p: "piece c (ev_ts x) = round_piece c j" using j(3,7) by (auto simp: hit_def)
    have "x = e" using head [of x] ev(1) [OF ne] hit_least [OF assms(1,3) j(2-4)] j(7) by blast
    then have e: "e = first_of c (round_bucket c j)" "piece c (ev_ts e) = round_piece c j" "r = Inl (i, bt, e)"
      using j(1,7) p by simp_all
    have b: "c_buckets c ! unat i = round_bucket c j" using j(5) by (simp only: round_bucket_def)
    show thesis
    proof (rule that [OF r(1)])
      show "unat i = piece c (ev_ts e) mod cn c" using e(2) j(5) by simp
      show "(\<exists>bt. r = Inl (i, bt, e) \<and> unat bt = (piece c (ev_ts e) + 1) * cw c) \<or> r = Inr (ev_key e, Some (i, e))"
        using e(2,3) j(6) by auto
    qed (use b e(1) ne in simp_all)
  next
    case (Inr z)
    obtain mk best where z: "z = (mk, best)" by (cases z)
    have inv: "r = Inr (mk, best)" "scan_inv c mk0 (cn c) mk best"
      using r(2) by (simp_all only: Inr z scan_post_def sum.case prod.case)
    have "e \<in> set (cal_events c)" using assms(4) by (metis list.set_intros(1) mset_eq_setD)
    then have "best \<noteq> None" by (rule best_exists [OF assms(1) inv(2) _ assms(6)])
    then obtain i x where best: "best = Some (i, x)" by (metis not_None_eq surj_pair)
    then obtain j where j: "mk = ev_key x" "j < cn c" "unat i = round_piece c j mod cn c" "round_bucket c j \<noteq> []"
      "x = first_of c (round_bucket c j)" using inv(2) by (auto simp: scan_inv_def)
    have "x = e" using head [of x] ev(1) [OF j(4)] best_least [OF assms(1) inv(2) [unfolded best]] j(5) by blast
    have b: "c_buckets c ! unat i = round_bucket c j" using j(3) by (simp only: round_bucket_def)
    show thesis
    proof (rule that [OF r(1)])
      show "unat i = piece c (ev_ts e) mod cn c" using \<open>x = e\<close> j(3,5) ev(2) [OF j(4)] by simp
      show "(\<exists>bt. r = Inl (i, bt, e) \<and> unat bt = (piece c (ev_ts e) + 1) * cw c) \<or> r = Inr (ev_key e, Some (i, e))"
        using \<open>x = e\<close> best inv(1) j(1) by simp
    qed (use b \<open>x = e\<close> j(4,5) in simp_all)
  qed
qed

lemma due_mset: "mset (cal_events c) = mset es \<Longrightarrow> (\<forall>e \<in> set (cal_events c). P e) \<longleftrightarrow> (\<forall>e \<in> set es. P e)"
  using mset_eq_setD by blast

lemma due_below: "cal_due c e \<Longrightarrow> EventKey_less (ev_key e) k" if "k_ts k = -1"
proof -
  assume "cal_due c e"
  then have "ev_ts e < -1" by (simp add: cal_due_def word_less_nat_alt unsigned_minus_1_eq_mask mask_eq_exp_minus_1)
  then show ?thesis using that by (simp add: EventKey_less_def)
qed

lemma DoRemoveNext_ok:
  assumes "cal_ok c" and "cal_clock c" and "\<forall>x \<in> set (e # es). cal_due c x" and "c_qSize c \<noteq> 0"
    and "mset (cal_events c) = mset (e # es)" and "sorted_wrt Event_less (e # es)"
  obtains c' where "DoRemoveNext c = Some (e, c')" and "cal_ok c'" and "cal_clock c'" and "c_lastPrio c' = ev_ts e"
    and "same_layout c c'" and "mset (cal_events c') = mset es"
proof -
  let ?mk = "\<lparr>k_ts = -1, k_uid = 0, k_context = 0xffffffff\<rparr> :: EventKey"
  have due: "\<forall>x \<in> set (cal_events c). cal_due c x" using due_mset [OF assms(5)] assms(3) by blast
  have shape: "cal_shape c" using assms(1) by (simp add: cal_ok_def)
  have below: "\<forall>x \<in> set (cal_events c). EventKey_less (ev_key x) ?mk" 
    using due due_below [of ?mk c] by (metis EventKey.select_convs(1))
  obtain r i where r: "cal_scan (cn c) c (c_lastBucket c) (c_bucketTop c) ?mk None = Some r"
    and i: "unat i = piece c (ev_ts e) mod cn c" and b: "c_buckets c ! unat i \<noteq> []" "e = first_of c (c_buckets c ! unat i)"
    and res: "(\<exists>bt. r = Inl (i, bt, e) \<and> unat bt = (piece c (ev_ts e) + 1) * cw c) \<or> r = Inr (ev_key e, Some (i, e))"
    by (rule cal_search [OF assms(1,2) due assms(5,6) below]) (rule that)
  have il: "unat i < cn c" using i shape by (simp add: cal_shape_def)
  have small: "unat (ev_ts e) < 2 ^ 46" using assms(3) by (simp add: cal_due_def)
  obtain c1 where c1: "DoRemoveNext c = Some (e, pop_bucket i c1)" "same_layout c c1" "c_buckets c1 = c_buckets c"
    "c_lastPrio c1 = ev_ts e" "unat (c_lastBucket c1) = piece c (ev_ts e) mod cn c"
    "unat (c_bucketTop c1) = (piece c (ev_ts e) + 1) * cw c"
  proof (cases r)
    case (Inl z)
    then obtain bt where bt: "r = Inl (i, bt, e)" "unat bt = (piece c (ev_ts e) + 1) * cw c" using res by auto
    show thesis
      by (rule that [of "c\<lparr>c_lastBucket := i, c_lastPrio := ev_ts e, c_bucketTop := bt\<rparr>"])
        (use assms(4) r bt i in \<open>simp_all add: DoRemoveNext_def cal_IsEmpty_def same_layout_def\<close>)
  next
    case (Inr z)
    then have r': "r = Inr (ev_key e, Some (i, e))" using res by auto
    show thesis
      by (rule that [of "c\<lparr>c_lastPrio := ev_ts e, c_lastBucket := Hash (ev_ts e) c,
            c_bucketTop := (ev_ts e div c_width c + 1) * c_width c\<rparr>"])
        (use assms(4) r r' in \<open>simp_all add: DoRemoveNext_def cal_IsEmpty_def same_layout_def Hash_piece [OF shape]
          end_of_piece [OF shape small]\<close>)
  qed
  note pop = pop_ok [OF assms(1) il b(1) c1(2,3)]
  have lay: "c_nBuckets (pop_bucket i c1) = c_nBuckets c" "c_width (pop_bucket i c1) = c_width c"
    using pop(2) by (simp_all add: same_layout_def)
  show thesis
  proof (rule that [OF c1(1) pop(1) _ _ pop(2)])
    show "cal_clock (pop_bucket i c1)" using c1(4-6) small lay piece_layout [OF pop(2)]
      by (simp add: cal_clock_def) (simp add: pop_bucket_def)
    show "mset (cal_events (pop_bucket i c1)) = mset es" using pop(3) b(2) assms(5) by simp
  qed (simp add: pop_bucket_def c1(4))
qed

subsection \<open>Inserting and resizing\<close>

lemma DoInsert_ok:
  assumes "cal_ok c" and "ev_uid e \<notin> ev_uid ` set (cal_events c)"
  shows "cal_ok (DoInsert e c)" and "mset (cal_events (DoInsert e c)) = add_mset e (mset (cal_events c))"
    and "same_layout c (DoInsert e c)"
proof -
  have shape: "cal_shape c" using assms(1) by (simp add: cal_ok_def)
  let ?i = "unat (Hash (ev_ts e) c)"
  let ?b = "c_buckets c ! ?i"
  have i: "?i = piece c (ev_ts e) mod cn c" by (rule Hash_piece [OF shape])
  have il: "?i < cn c" using i shape by (simp add: cal_shape_def)
  have ok: "bucket_ok c ?i ?b" using assms(1) il by (simp add: cal_ok_def)
  have "?b \<in> set (c_buckets c)" using il shape by (simp add: cal_shape_def)
  then have "ev_uid e \<notin> ev_uid ` set ?b" using assms(2) by auto
  then have "bucket_ok c ?i (bucket_insert (c_reverse c) e ?b)"
    using ok i sorted_bucket_insert by (auto simp: bucket_ok_def)
  moreover show same: "same_layout c (DoInsert e c)" by (simp add: DoInsert_def same_layout_def Let_def)
  moreover have bs: "c_buckets (DoInsert e c) = (c_buckets c)[?i := bucket_insert (c_reverse c) e ?b]"
    by (simp add: DoInsert_def Let_def)
  ultimately show "cal_ok (DoInsert e c)" "mset (cal_events (DoInsert e c)) = add_mset e (mset (cal_events c))"
    using cal_ok_update [OF assms(1) il] by fastforce+
qed

lemma DoInsert_clock [simp]: "c_lastPrio (DoInsert e c) = c_lastPrio c" "c_lastBucket (DoInsert e c) = c_lastBucket c"
  "c_bucketTop (DoInsert e c) = c_bucketTop c"
  by (simp_all add: DoInsert_def Let_def)

lemma fold_DoInsert_ok:
  assumes "cal_ok c" and "distinct (map ev_uid (es @ cal_events c))"
  shows "cal_ok (fold DoInsert es c) \<and> mset (cal_events (fold DoInsert es c)) = mset es + mset (cal_events c)
     \<and> same_layout c (fold DoInsert es c) \<and> c_lastPrio (fold DoInsert es c) = c_lastPrio c
     \<and> c_lastBucket (fold DoInsert es c) = c_lastBucket c \<and> c_bucketTop (fold DoInsert es c) = c_bucketTop c"
  using assms
proof (induction es arbitrary: c)
  case (Cons e es)
  have new: "ev_uid e \<notin> ev_uid ` set (cal_events c)" using Cons.prems(2) by auto
  note ins = DoInsert_ok [OF Cons.prems(1) new]
  have "mset (map ev_uid (es @ cal_events (DoInsert e c))) = mset (map ev_uid ((e # es) @ cal_events c))"
    using ins(2) by (simp del: mset_map add: mset_map)
  then have "distinct (map ev_uid (es @ cal_events (DoInsert e c)))"
    using Cons.prems(2) mset_eq_imp_distinct_iff by blast
  then show ?case using Cons.IH [OF ins(1)] ins(2,3) same_layout_trans by auto
qed simp

text \<open>The samples are the events due first, and taking them and putting them back leaves the queue.\<close>

lemma take_samples_ok:
  assumes "cal_ok c" and "cal_clock c" and "\<forall>x \<in> set es. cal_due c x" and "c_qSize c \<noteq> 0"
    and "mset (cal_events c) = mset es" and "sorted_wrt Event_less es" and "n \<le> length es"
  obtains c' where "take_samples n c = Some (take n es, c')" and "cal_ok c'"
    and "same_layout c c'" and "mset (cal_events c') = mset (drop n es)"
  using assms
proof (induction n arbitrary: c es thesis)
  case (Suc n)
  from Suc.prems(8) obtain e es' where es: "es = e # es'" by (cases es) auto
  obtain c1 where c1: "DoRemoveNext c = Some (e, c1)" "cal_ok c1" "cal_clock c1" "c_lastPrio c1 = ev_ts e"
    "same_layout c c1" "mset (cal_events c1) = mset es'"
    by (rule DoRemoveNext_ok [OF Suc.prems(2,3) _ Suc.prems(5), of e es']) (use Suc.prems es in auto)
  have due: "\<forall>x \<in> set es'. cal_due c1 x"
    using Suc.prems(4,7) by (auto simp: es cal_due_def c1(4) Event_less_ts)
  obtain c2 where c2: "take_samples n c1 = Some (take n es', c2)" "cal_ok c2" "same_layout c1 c2"
    "mset (cal_events c2) = mset (drop n es')"
    by (rule Suc.IH [OF _ c1(2,3) due _ c1(6)]) (use Suc.prems c1(5) es in \<open>auto simp: same_layout_def\<close>)
  show ?case by (rule Suc.prems(1) [of c2]) (use c1 c2 es in \<open>auto intro: same_layout_trans\<close>)
qed simp

text \<open>The width is at least 1 and at most three times the time the samples span.\<close>

lemma unat_sum_list_le: "unat (sum_list ds) \<le> sum_list (map unat (ds :: u64 list))"
proof (induction ds)
  case (Cons d ds)
  have "unat (d + sum_list ds) \<le> unat d + unat (sum_list ds)" by (simp add: unat_word_ariths)
  then show ?case using Cons by simp
qed simp

lemma sum_separations:
  "sorted ts \<Longrightarrow> \<forall>t \<in> set ts. unat t < B \<Longrightarrow> ts \<noteq> [] \<Longrightarrow> sum_list (map unat (separations ts)) + unat (hd ts) < B"
  by (induction ts rule: separations.induct) (auto simp: unat_sub word_le_nat_alt)

lemma sum_filter_le: "sum_list (map unat (filter P ds)) \<le> sum_list (map unat (ds :: u64 list))"
  by (induction ds) auto

lemma sample_width_bounds:
  assumes "sorted ts" and "\<forall>t \<in> set ts. unat t < 2 ^ 46" and "ts \<noteq> []"
  shows "1 \<le> unat (sample_width n ts)" and "unat (sample_width n ts) \<le> 3 * 2 ^ 46"
proof -
  let ?twice = "sum_list (separations ts) div (ucast (n - 1)) * 2"
  let ?s = "sum_list (filter (\<lambda>d. d \<le> ?twice) (separations ts))"
  have w: "sample_width n ts = max (?s * 3) 1" by (simp add: sample_width_def Let_def)
  have "unat ?s \<le> sum_list (map unat (separations ts))"
    using unat_sum_list_le sum_filter_le order_trans by blast
  then have "unat ?s < 2 ^ 46" using sum_separations [OF assms] by linarith
  moreover have "unat (?s * 3) \<le> unat ?s * 3" by (simp add: unat_word_ariths)
  ultimately have "unat (?s * 3) \<le> 3 * 2 ^ 46" by linarith
  then show "1 \<le> unat (sample_width n ts)" "unat (sample_width n ts) \<le> 3 * 2 ^ 46"
    unfolding w unat_max by simp_all
qed

lemma nSamples_le:
  assumes "2 \<le> q"
  shows "unat (nSamples q) \<le> unat q" and "0 < unat (nSamples q)"
proof -
  have q: "2 \<le> unat q" using assms by (simp add: word_le_nat_alt)
  have dq: "unat q div 10 < 429496730" using u32_lt [of q] by linarith
  have d: "unat (5 + q div 10) = 5 + unat q div 10"
    using dq by (subst unat_add_nowrap) (simp_all add: unat_div_distrib)
  show "unat (nSamples q) \<le> unat q" "0 < unat (nSamples q)"
    using q by (auto simp: nSamples_def unat_min d word_le_nat_alt)
qed

definition cal_rel :: "bool \<Rightarrow> 'e cal \<Rightarrow> 'e agenda \<Rightarrow> bool" where
  "cal_rel rv c a \<longleftrightarrow> (case a of (t, es) \<Rightarrow> cal_ok c \<and> cal_clock c \<and> c_lastPrio c = t \<and> mset (cal_events c) = mset es
     \<and> unat (c_qSize c) = length es \<and> c_reverse c = rv)"

lemma cal_rel_due: "cal_rel rv c (t, es) \<Longrightarrow> agenda_wf (2 ^ 46) (t, es) \<Longrightarrow> \<forall>x \<in> set es. cal_due c x"
  by (auto simp: cal_rel_def agenda_wf_def cal_due_def)

lemma CalculateNewWidth_ok:
  assumes "cal_rel rv c (t, es)" and "agenda_wf (2 ^ 46) (t, es)"
  obtains w c' where "CalculateNewWidth c = Some (w, c')" and "cal_rel rv c' (t, es)" and "1 \<le> unat w" and "unat w \<le> 3 * 2 ^ 46"
proof (cases "c_qSize c < 2")
  case True
  then show thesis using that [of 1 c] assms(1) by (simp add: CalculateNewWidth_def)
next
  case False
  then have q: "2 \<le> c_qSize c" by simp
  let ?n = "nSamples (c_qSize c)"
  have rel: "cal_ok c" "cal_clock c" "c_lastPrio c = t" "mset (cal_events c) = mset es" "unat (c_qSize c) = length es"
    using assms(1) by (auto simp: cal_rel_def)
  have so: "sorted_wrt Event_less es" and di: "distinct (map ev_uid es)" and due: "\<forall>x \<in> set es. cal_due c x"
    using assms(2) cal_rel_due [OF assms] by (auto simp: agenda_wf_def)
  have n: "unat ?n \<le> length es" "0 < unat ?n" using nSamples_le [OF q] rel(5) by auto
  have q0: "c_qSize c \<noteq> 0" using q by auto
  obtain c1 where c1: "take_samples (unat ?n) c = Some (take (unat ?n) es, c1)" "cal_ok c1" "same_layout c c1"
    "mset (cal_events c1) = mset (drop (unat ?n) es)"
    using take_samples_ok [OF rel(1,2) due q0 rel(4) so n(1)] by blast
  let ?s = "take (unat ?n) es" and ?c2 = "fold DoInsert (take (unat ?n) es) c1"
  have all: "mset ?s + mset (cal_events c1) = mset es" using c1(4) by (metis append_take_drop_id mset_append)
  have "distinct (map ev_uid (?s @ cal_events c1))"
    by (rule iffD2 [OF bag_distinct di]) (simp only: all mset_append)
  note put = fold_DoInsert_ok [OF c1(2) this]
  have lay: "same_layout c ?c2" using put same_layout_trans [OF c1(3)] by blast
  let ?c3 = "?c2\<lparr>c_lastBucket := c_lastBucket c, c_bucketTop := c_bucketTop c, c_lastPrio := c_lastPrio c\<rparr>"
  have lay3: "same_layout c ?c3" "same_layout ?c2 ?c3" using lay by (simp_all add: same_layout_def)
  have eqs: "c_nBuckets ?c3 = c_nBuckets c" "c_width ?c3 = c_width c" "c_qSize ?c3 = c_qSize c" "c_reverse ?c3 = c_reverse c"
    using lay3(1) by (simp_all add: same_layout_def)
  have "cal_ok ?c3" using put piece_layout [OF lay3(2)] by (auto simp: cal_ok_def cal_shape_def bucket_ok_def)
  moreover have "cal_clock ?c3" using rel(2) piece_layout [OF lay3(1)] eqs by (simp add: cal_clock_def)
  ultimately have rel3: "cal_rel rv ?c3 (t, es)"
    using put all rel eqs assms(1) by (simp add: cal_rel_def)
  have "sorted (map ev_ts ?s)"
    unfolding sorted_wrt_map by (rule sorted_wrt_mono_rel [OF _ sorted_wrt_take [OF so]]) (rule Event_less_ts)
  moreover have "\<forall>x \<in> set (map ev_ts ?s). unat x < 2 ^ 46" using due by (auto simp: cal_due_def dest!: in_set_takeD)
  moreover have "map ev_ts ?s \<noteq> []" using n by auto
  ultimately have w: "1 \<le> unat (sample_width ?n (map ev_ts ?s))" "unat (sample_width ?n (map ev_ts ?s)) \<le> 3 * 2 ^ 46"
    using sample_width_bounds by blast+
  show thesis by (rule that [OF _ rel3 w]) (use False c1(1) in \<open>simp add: CalculateNewWidth_def Let_def\<close>)
qed

lemma cal_Init_ok:
  assumes "1 \<le> unat n" and "unat n < 2 ^ 16" and "1 \<le> unat w" and "unat w \<le> 3 * 2 ^ 46" and "unat t < 2 ^ 46"
  obtains c' where "cal_Init n w t c = Some c'" and "cal_ok c'" and "cal_clock c'" and "cal_events c' = []"
    and "c_lastPrio c' = t" and "c_qSize c' = c_qSize c" and "c_reverse c' = c_reverse c"
proof -
  let ?c1 = "c\<lparr>c_buckets := replicate (unat n) [], c_nBuckets := n, c_width := w, c_lastPrio := t\<rparr>"
  let ?c2 = "?c1\<lparr>c_lastBucket := Hash t ?c1, c_bucketTop := (t div w + 1) * w\<rparr>"
  have shape: "cal_shape ?c1" using assms(1-4) by (simp add: cal_shape_def)
  have p: "piece ?c2 = piece ?c1" by (rule ext) (simp add: piece_def)
  show thesis
  proof (rule that [of ?c2])
    have "n \<noteq> 0" "w \<noteq> 0" using assms(1,3) by auto
    then show "cal_Init n w t c = Some ?c2" by (simp add: cal_Init_def Let_def)
    show "cal_ok ?c2" using shape by (simp add: cal_ok_def cal_shape_def bucket_ok_def)
    show "cal_clock ?c2" unfolding cal_clock_def p
      using assms(5) Hash_piece [OF shape, of t] end_of_piece [OF shape assms(5)] by simp
  qed simp_all
qed

lemma Resize_ok:
  assumes "cal_rel rv c (t, es)" and "agenda_wf (2 ^ 46) (t, es)" and "1 \<le> unat n" and "unat n < 2 ^ 16"
  shows "\<exists>c'. Resize n c = Some c' \<and> cal_rel rv c' (t, es)"
proof -
  obtain w c1 where c1: "CalculateNewWidth c = Some (w, c1)" "cal_rel rv c1 (t, es)" "1 \<le> unat w" "unat w \<le> 3 * 2 ^ 46"
    by (rule CalculateNewWidth_ok [OF assms(1,2)])
  have t: "c_lastPrio c1 = t" "unat t < 2 ^ 46" using c1(2) by (auto simp: cal_rel_def cal_clock_def)
  obtain c2 where c2: "cal_Init n w t c1 = Some c2" "cal_ok c2" "cal_clock c2" "cal_events c2 = []" "c_lastPrio c2 = t"
    "c_qSize c2 = c_qSize c1" "c_reverse c2 = c_reverse c1"
    by (rule cal_Init_ok [OF assms(3,4) c1(3,4) t(2)])
  have "distinct (map ev_uid (cal_events c1 @ cal_events c2))"
    by (rule iffD2 [OF bag_distinct, of _ es])
      (use assms(2) c1(2) in \<open>simp_all only: c2(4) append_Nil2 cal_rel_def agenda_wf_def prod.case\<close>)
  note f = fold_DoInsert_ok [OF c2(2) this]
  let ?c3 = "fold DoInsert (cal_events c1) c2"
  have "cal_clock ?c3" using f c2(3) piece_layout [of c2 ?c3] by (auto simp: cal_clock_def same_layout_def)
  then have "cal_rel rv ?c3 (t, es)" using f c2 c1(2) by (auto simp: cal_rel_def same_layout_def)
  moreover have "Resize n c = Some ?c3" using c1(1) c2(1) t(1) by (simp add: Resize_def DoResize_def)
  ultimately show ?thesis by blast
qed

subsection \<open>The contract\<close>

lemma ResizeUp_ok:
  assumes "cal_rel rv c a" and "agenda_wf (2 ^ 46) a"
  shows "\<exists>c'. ResizeUp c = Some c' \<and> cal_rel rv c' a"
proof (cases "c_qSize c > c_nBuckets c * 2 \<and> c_nBuckets c < 32768")
  case True
  obtain t es where a: "a = (t, es)" by (cases a)
  have "1 \<le> cn c" using assms(1) by (simp add: a cal_rel_def cal_ok_def cal_shape_def)
  moreover have "cn c < 32768" using True by (simp add: word_less_nat_alt)
  moreover from this have "unat (c_nBuckets c * 2) = cn c * 2" by (subst unat_mult_nowrap) simp_all
  ultimately show ?thesis using Resize_ok [of rv c t es "c_nBuckets c * 2"] assms True by (simp add: ResizeUp_def a)
qed (use assms in \<open>auto simp: ResizeUp_def\<close>)

lemma ResizeDown_ok:
  assumes "cal_rel rv c a" and "agenda_wf (2 ^ 46) a"
  shows "\<exists>c'. ResizeDown c = Some c' \<and> cal_rel rv c' a"
proof (cases "c_qSize c < c_nBuckets c div 2")
  case True
  obtain t es where a: "a = (t, es)" by (cases a)
  have half: "unat (c_nBuckets c div 2) = cn c div 2" by (simp add: unat_div_distrib)
  have "1 \<le> unat (c_nBuckets c div 2)" using True unfolding word_less_nat_alt by linarith
  moreover have "cn c < 2 ^ 16" using assms(1) by (simp add: a cal_rel_def cal_ok_def cal_shape_def)
  ultimately show ?thesis using Resize_ok [of rv c t es "c_nBuckets c div 2"] assms True half by (simp add: ResizeDown_def a)
qed (use assms in \<open>auto simp: ResizeDown_def\<close>)

lemma cal_rel_size:
  assumes "cal_ok c" and "cal_clock c" and "c_lastPrio c = t" and "mset (cal_events c) = mset es"
    and "unat q = length es" and "c_reverse c = rv"
  shows "cal_rel rv (c\<lparr>c_qSize := q\<rparr>) (t, es)"
proof -
  have "piece (c\<lparr>c_qSize := q\<rparr>) = piece c" by (rule ext) (simp add: piece_def)
  then show ?thesis using assms by (simp add: cal_rel_def cal_ok_def cal_shape_def bucket_ok_def cal_clock_def)
qed

lemma unat_pred: "unat (q :: u32) = Suc n \<Longrightarrow> unat (q - 1) = n"
proof -
  assume q: "unat q = Suc n"
  then have "1 \<le> q" by (simp add: word_le_nat_alt)
  then show ?thesis using q by (simp add: unat_sub)
qed

lemma cal_Insert_ok:
  assumes "cal_rel rv c (t, es)" and "agenda_wf (2 ^ 46) (t, insert_due e es)" and "ev_uid e \<notin> ev_uid ` set es"
  shows "\<exists>c'. cal_Insert e c = Some c' \<and> cal_rel rv c' (t, insert_due e es)"
proof -
  have rel: "cal_ok c" "cal_clock c" "c_lastPrio c = t" "mset (cal_events c) = mset es" "unat (c_qSize c) = length es"
    "c_reverse c = rv" using assms(1) by (auto simp: cal_rel_def)
  have "ev_uid e \<notin> ev_uid ` set (cal_events c)" using assms(3) mset_eq_setD [OF rel(4)] by simp
  note ins = DoInsert_ok [OF rel(1) this]
  have "unat (c_qSize c + 1) = length (insert_due e es)"
    using assms(2) rel(5) by (subst unat_add_nowrap) (simp_all add: agenda_wf_def)
  moreover have "c_qSize (DoInsert e c) = c_qSize c" "c_reverse (DoInsert e c) = rv"
    using ins(3) rel(6) by (simp_all add: same_layout_def)
  moreover have "cal_clock (DoInsert e c)"
    using rel(2) ins(3) piece_layout [OF ins(3)] by (simp add: cal_clock_def same_layout_def)
  ultimately have "cal_rel rv ((DoInsert e c)\<lparr>c_qSize := c_qSize (DoInsert e c) + 1\<rparr>) (t, insert_due e es)"
    using ins rel(3,4) by (intro cal_rel_size) simp_all
  then show ?thesis using ResizeUp_ok [OF _ assms(2)] by (simp add: cal_Insert_def Let_def)
qed

lemma cal_PeekNext_ok:
  assumes "cal_rel rv c (t, e # es)" and "agenda_wf (2 ^ 46) (t, e # es)"
  shows "cal_PeekNext c = Some e"
proof -
  let ?mk = "\<lparr>k_ts = -1, k_uid = -1, k_context = 0\<rparr> :: EventKey"
  have rel: "cal_ok c" "cal_clock c" "mset (cal_events c) = mset (e # es)" "unat (c_qSize c) = length (e # es)"
    using assms(1) by (auto simp: cal_rel_def)
  have so: "sorted_wrt Event_less (e # es)" using assms(2) by (simp add: agenda_wf_def)
  have due: "\<forall>x \<in> set (cal_events c). cal_due c x" using due_mset [OF rel(3)] cal_rel_due [OF assms] by blast
  have below: "\<forall>x \<in> set (cal_events c). EventKey_less (ev_key x) ?mk"
    using due due_below [of ?mk c] by (metis EventKey.select_convs(1))
  obtain r i where r: "cal_scan (cn c) c (c_lastBucket c) (c_bucketTop c) ?mk None = Some r"
    "(\<exists>bt. r = Inl (i, bt, e) \<and> unat bt = (piece c (ev_ts e) + 1) * cw c) \<or> r = Inr (ev_key e, Some (i, e))"
    by (rule cal_search [OF rel(1,2) due rel(3) so below])
  then have "(case r of Inl (_, _, next) \<Rightarrow> next | Inr (_, Some (_, next)) \<Rightarrow> next
      | Inr (minKey, None) \<Rightarrow> \<lparr>ev_impl = None, ev_key = minKey\<rparr>) = e" by auto
  moreover have "c_qSize c \<noteq> 0" using rel(4) by auto
  ultimately show ?thesis using r(1) by (simp add: cal_PeekNext_def cal_IsEmpty_def)
qed

lemma cal_RemoveNext_ok:
  assumes "cal_rel rv c (t, e # es)" and "agenda_wf (2 ^ 46) (t, e # es)" and "agenda_wf (2 ^ 46) (ev_ts e, es)"
  shows "\<exists>c'. cal_RemoveNext c = Some (e, c') \<and> cal_rel rv c' (ev_ts e, es)"
proof -
  have rel: "cal_ok c" "cal_clock c" "mset (cal_events c) = mset (e # es)" "unat (c_qSize c) = Suc (length es)"
    "c_reverse c = rv" using assms(1) by (auto simp: cal_rel_def)
  have so: "sorted_wrt Event_less (e # es)" using assms(2) by (simp add: agenda_wf_def)
  have q: "c_qSize c \<noteq> 0" using rel(4) by auto
  obtain c1 where c1: "DoRemoveNext c = Some (e, c1)" "cal_ok c1" "cal_clock c1" "c_lastPrio c1 = ev_ts e"
    "same_layout c c1" "mset (cal_events c1) = mset es"
    by (rule DoRemoveNext_ok [OF rel(1,2) cal_rel_due [OF assms(1,2)] q rel(3) so])
  have "cal_rel rv (c1\<lparr>c_qSize := c_qSize c1 - 1\<rparr>) (ev_ts e, es)"
    by (rule cal_rel_size [OF c1(2-4,6)]) (use c1(5) rel(5) unat_pred [OF rel(4)] in \<open>simp_all add: same_layout_def\<close>)
  then obtain c2 where "ResizeDown (c1\<lparr>c_qSize := c_qSize c1 - 1\<rparr>) = Some c2" "cal_rel rv c2 (ev_ts e, es)"
    using ResizeDown_ok [OF _ assms(3)] by blast
  then show ?thesis using q c1(1) by (simp add: cal_RemoveNext_def cal_IsEmpty_def)
qed

lemma mset_cancel: "A + add_mset e M = add_mset e N + M \<Longrightarrow> A = N"
  by simp

lemma cal_Remove_ok:
  assumes "cal_rel rv c (t, es)" and "agenda_wf (2 ^ 46) (t, es)" and "e \<in> set es" and "agenda_wf (2 ^ 46) (t, remove1 e es)"
  shows "\<exists>c'. cal_Remove e c = Some c' \<and> cal_rel rv c' (t, remove1 e es)"
proof -
  have rel: "cal_ok c" "cal_clock c" "c_lastPrio c = t" "mset (cal_events c) = mset es" "unat (c_qSize c) = length es"
    "c_reverse c = rv" using assms(1) by (auto simp: cal_rel_def)
  have shape: "cal_shape c" using rel(1) by (simp add: cal_ok_def)
  let ?i = "piece c (ev_ts e) mod cn c"
  let ?b = "c_buckets c ! ?i"
  have ein: "e \<in> set (cal_events c)" using assms(3) mset_eq_setD [OF rel(4)] by simp
  note eb = event_bucket [OF rel(1) ein]
  have "distinct (map ev_uid (cal_events c))"
    using assms(2) bag_distinct [OF rel(4)] by (simp add: agenda_wf_def)
  moreover have "?b \<in> set (c_buckets c)" using eb(2) shape by (simp add: cal_shape_def)
  ultimately have di: "distinct (map ev_uid ?b)" by (auto simp: map_concat distinct_concat_iff)
  have rm: "list_Remove e ?b = Some (remove1 e ?b)" by (rule list_Remove_member [OF di eb(1)])
  let ?c1 = "c\<lparr>c_buckets := (c_buckets c)[?i := remove1 e ?b]\<rparr>"
  have ok: "bucket_ok c ?i (remove1 e ?b)"
    using rel(1) eb(2) set_remove1_subset [of e ?b] by (auto simp: cal_ok_def bucket_ok_def sorted_wrt_remove1)
  have same: "same_layout c ?c1" by (simp add: same_layout_def)
  have bs: "c_buckets ?c1 = (c_buckets c)[?i := remove1 e ?b]" by simp
  note up = cal_ok_update [OF rel(1) eb(2) ok same bs]
  have "mset ?b = add_mset e (mset (remove1 e ?b))" "mset es = add_mset e (mset (remove1 e es))"
    using eb(1) assms(3) by simp_all
  then have "mset (cal_events ?c1) + add_mset e (mset (remove1 e ?b)) = add_mset e (mset (remove1 e es)) + mset (remove1 e ?b)"
    using up(2) rel(4) by (simp only:)
  then have ms: "mset (cal_events ?c1) = mset (remove1 e es)" by (rule mset_cancel)
  have len: "unat (c_qSize c) = Suc (length (remove1 e es))" using rel(5) assms(3) by (simp add: length_remove1) (metis Suc_pred length_pos_if_in_set)
  have "cal_clock ?c1" using rel(2) piece_layout [OF same] by (simp add: cal_clock_def)
  then have "cal_rel rv (?c1\<lparr>c_qSize := c_qSize c - 1\<rparr>) (t, remove1 e es)"
    using rel(3,6) unat_pred [OF len] by (intro cal_rel_size [OF up(1) _ _ ms]) simp_all
  moreover have "c_qSize c \<noteq> 0" using len by auto
  ultimately show ?thesis
    using ResizeDown_ok [OF _ assms(4)] Hash_piece [OF shape] rm
    by (simp add: cal_Remove_def cal_IsEmpty_def Let_def)
qed

lemma cal_rel_new: "cal_rel rv (cal_new rv) (0, [])"
proof -
  have "bucket_ok (cal_new rv) i (c_buckets (cal_new rv) ! i)" if "i < 2" for i
    using that by (auto simp: cal_new_def bucket_ok_def less_2_cases_iff)
  then show ?thesis
    by (auto simp: cal_rel_def cal_ok_def cal_clock_def cal_shape_def piece_def) (simp_all add: cal_new_def)
qed

lemma cal_meets:
  assumes "cal_rel rv q a" and "agenda_wf (2 ^ 46) a" and "agenda_call (2 ^ 46) c a = Some (r, a')"
  shows "\<exists>q'. sched_call (CalendarScheduler rv) c q = Some (r, q') \<and> cal_rel rv q' a'"
proof -
  obtain t es where a: "a = (t, es)" by (cases a)
  have rel: "cal_rel rv q (t, es)" and wf: "agenda_wf (2 ^ 46) (t, es)" and wf': "agenda_wf (2 ^ 46) a'"
    using assms agenda_wf_call [OF assms(3,2)] by (simp_all add: a)
  note call = assms(3) [unfolded a agenda_call_def]
  show ?thesis
  proof (cases c)
    case (Call_Insert e)
    then have "ev_uid e \<notin> ev_uid ` set es" "r = Reply_Done" "a' = (t, insert_due e es)"
      using call by (auto split: if_splits)
    then show ?thesis using cal_Insert_ok [OF rel] wf' by (auto simp: Call_Insert sched_call_def CalendarScheduler_def)
  next
    case Call_IsEmpty
    have "cal_IsEmpty q \<longleftrightarrow> es = []" using rel by (auto simp: cal_rel_def cal_IsEmpty_def unat_eq_0)
    then show ?thesis using call rel by (auto simp: Call_IsEmpty sched_call_def CalendarScheduler_def)
  next
    case Call_PeekNext
    then obtain e es' where "es = e # es'" "r = Reply_Event e" "a' = (t, es)" using call by (auto split: list.splits)
    then show ?thesis using cal_PeekNext_ok [of rv q t e es'] rel wf
      by (auto simp: Call_PeekNext sched_call_def CalendarScheduler_def)
  next
    case Call_RemoveNext
    then obtain e es' where "es = e # es'" "r = Reply_Event e" "a' = (ev_ts e, es')" using call by (auto split: list.splits)
    then show ?thesis using cal_RemoveNext_ok [of rv q t e es'] rel wf wf'
      by (auto simp: Call_RemoveNext sched_call_def CalendarScheduler_def)
  next
    case (Call_Remove e)
    then have "e \<in> set es" "r = Reply_Done" "a' = (t, remove1 e es)" using call by (auto split: if_splits)
    then show ?thesis using cal_Remove_ok [OF rel wf] wf' by (auto simp: Call_Remove sched_call_def CalendarScheduler_def)
  qed
qed

interpretation cal_sched: scheduler "CalendarScheduler rv" UNIV "2 ^ 46" "cal_rel rv"
  by unfold_locales (auto simp: CalendarScheduler_def cal_rel_new cal_meets [unfolded CalendarScheduler_def])

end
