(* ===== verification/Sim_Engine.thy ===== *)
theory Sim_Engine
  imports Heap_Scheduler Calendar_Scheduler
begin

text \<open>
  The whole of \<^verbatim>\<open>DefaultSimulatorImpl\<close> over any scheduler of \<open>Schedulers\<close>: the bodies of the events
  are objects with their own flag of cancellation that event identifiers and the queue point to,
  there are contexts, events for the end of the simulation, events that other threads hand
  over, and the scheduler can be replaced. The theory shows that the engine, with any queue that meets the
  contract, runs as the event queue of \<open>Sim_Events\<close> does, which the models of the hosts and of
  the switches use.
\<close>

text \<open>C10: all event queues of the simulator answer a client that keeps the rules of the interface in the
  same way: the list, the ordered map, the priority queue and the calendar, the calendar in both orders of its buckets,
  and the heap as long as no event is removed.\<close>

theorem schedulers_agree:
  assumes "agenda_calls (2 ^ 46) cs (0, []) = Some (rs, a)"
  shows "map_option fst (sched_calls ListScheduler cs []) = Some rs
    \<and> map_option fst (sched_calls MapScheduler cs []) = Some rs
    \<and> map_option fst (sched_calls PriorityQueueScheduler cs []) = Some rs
    \<and> map_option fst (sched_calls (CalendarScheduler rv) cs (cal_new rv)) = Some rs
    \<and> ((\<forall>e. Call_Remove e \<notin> set cs) \<longrightarrow> map_option fst (sched_calls HeapScheduler cs heap_new) = Some rs)"
proof (intro conjI impI)
  show "map_option fst (sched_calls ListScheduler cs []) = Some rs"
    using list_sched.replies [OF _ assms] by (simp add: ListScheduler_def)
  show "map_option fst (sched_calls MapScheduler cs []) = Some rs"
    using map_sched.replies [OF _ assms] by (simp add: MapScheduler_def)
  show "map_option fst (sched_calls PriorityQueueScheduler cs []) = Some rs"
    using bag_sched.replies [OF _ assms] by (simp add: PriorityQueueScheduler_def)
  show "map_option fst (sched_calls (CalendarScheduler rv) cs (cal_new rv)) = Some rs"
    using cal_sched.replies [OF _ assms] by (simp add: CalendarScheduler_def)
  assume "\<forall>e. Call_Remove e \<notin> set cs"
  then have "set cs \<subseteq> no_remove" by (auto simp: no_remove_def)
  then show "map_option fst (sched_calls HeapScheduler cs heap_new) = Some rs"
    using heap_sched.replies [OF _ assms] by (simp add: HeapScheduler_def)
qed

lemma schedulers_agree_witness:
  "map_option (\<lambda>(rs, _). taken rs) (sched_calls (CalendarScheduler True) misorder_calls (cal_new True)) = Some [1, 2, 3, 4]"
proof -
  obtain rs a where "agenda_calls (2 ^ 46) misorder_calls (0, []) = Some (rs, a)" "taken rs = [1, 2, 3, 4]"
    using misorder_legal by (auto simp: taken_def timed_def)
  then show ?thesis using schedulers_agree [of misorder_calls rs a True] by auto
qed

subsection \<open>The state\<close>

text \<open>\<^verbatim>\<open>EventId\<close>. A body of an event is an object with its flag \<^verbatim>\<open>m_cancel\<close>; \<open>g_impls\<close> holds the objects by
  their addresses, of which \<open>g_fresh\<close> is the next.\<close>

record EventId =
  id_impl :: "nat option"
  id_ts :: u64
  id_context :: u32
  id_uid :: u32

record ('e, 'q) engine =
  g_events :: 'q
  g_impls :: "nat \<Rightarrow> 'e \<times> bool"
  g_fresh :: nat
  g_destroyEvents :: "EventId list"
  g_eventsWithContext :: "(u32 \<times> u64 \<times> nat) list"
  g_eventsWithContextEmpty :: bool
  g_stop :: bool
  g_uid :: u32
  g_currentUid :: u32
  g_currentTs :: u64
  g_currentContext :: u32
  g_eventCount :: u64
  g_unscheduledEvents :: int

definition uid_DESTROY :: u32 where "uid_DESTROY = 2"
definition NO_CONTEXT :: u32 where "NO_CONTEXT = 0xffffffff"

definition eng_new :: "(nat, 'q) Scheduler \<Rightarrow> (nat \<Rightarrow> 'e \<times> bool) \<Rightarrow> ('e, 'q) engine" where
  "eng_new S impls = \<lparr>g_events = sc_new S, g_impls = impls, g_fresh = 0, g_destroyEvents = [], g_eventsWithContext = [],
     g_eventsWithContextEmpty = True, g_stop = False, g_uid = uid_VALID, g_currentUid = uid_INVALID, g_currentTs = 0,
     g_currentContext = NO_CONTEXT, g_eventCount = 0, g_unscheduledEvents = 0\<rparr>"

text \<open>An event object is created by its caller, \<^verbatim>\<open>MakeEvent\<close>.\<close>

definition new_impl :: "'e \<Rightarrow> ('e, 'q) engine \<Rightarrow> nat \<times> ('e, 'q) engine" where
  "new_impl e g = (g_fresh g, g\<lparr>g_impls := (g_impls g)(g_fresh g := (e, False)), g_fresh := g_fresh g + 1\<rparr>)"

definition impl_Cancel :: "nat \<Rightarrow> ('e, 'q) engine \<Rightarrow> ('e, 'q) engine" where
  "impl_Cancel p g = g\<lparr>g_impls := (g_impls g)(p := (fst (g_impls g p), True))\<rparr>"

definition IsCancelled :: "nat \<Rightarrow> ('e, 'q) engine \<Rightarrow> bool" where
  "IsCancelled p g = snd (g_impls g p)"

subsection \<open>Scheduling\<close>

text \<open>The common end of the functions that schedule: the event is numbered and inserted.\<close>

definition eng_insert :: "(nat, 'q) Scheduler \<Rightarrow> u64 \<Rightarrow> u32 \<Rightarrow> nat \<Rightarrow> ('e, 'q) engine \<Rightarrow> ('e, 'q) engine option" where
  "eng_insert S ts ctx p g = do {
     q \<leftarrow> sc_Insert S \<lparr>ev_impl = Some p, ev_key = \<lparr>k_ts = ts, k_uid = g_uid g, k_context = ctx\<rparr>\<rparr> (g_events g);
     Some (g\<lparr>g_events := q, g_uid := g_uid g + 1, g_unscheduledEvents := g_unscheduledEvents g + 1\<rparr>) }"

text \<open>\<^verbatim>\<open>delay + TimeStep (m_currentTs)\<close>: an overflow of the 64 bits of a time is undefined.\<close>

definition absolute :: "int \<Rightarrow> ('e, 'q) engine \<Rightarrow> u64 option" where
  "absolute delay g = do {
     let t = delay + sint (g_currentTs g);
     guard (- (2 ^ 63) \<le> t \<and> t < 2 ^ 63);
     Some (word_of_int t) }"

definition eng_Schedule :: "(nat, 'q) Scheduler \<Rightarrow> int \<Rightarrow> nat \<Rightarrow> ('e, 'q) engine \<Rightarrow> (EventId \<times> ('e, 'q) engine) option" where
  "eng_Schedule S delay p g = do {
     guard (0 \<le> delay);
     ts \<leftarrow> absolute delay g;
     g' \<leftarrow> eng_insert S ts (g_currentContext g) p g;
     Some (\<lparr>id_impl = Some p, id_ts = ts, id_context = g_currentContext g, id_uid = g_uid g\<rparr>, g') }"

definition eng_ScheduleNow :: "(nat, 'q) Scheduler \<Rightarrow> nat \<Rightarrow> ('e, 'q) engine \<Rightarrow> (EventId \<times> ('e, 'q) engine) option" where
  "eng_ScheduleNow S p g = eng_Schedule S 0 p g"

text \<open>The main thread inserts at once, without a test of the sign; any other thread leaves the event in
  a queue of its own.\<close>

definition eng_ScheduleWithContext :: "(nat, 'q) Scheduler \<Rightarrow> bool \<Rightarrow> u32 \<Rightarrow> int \<Rightarrow> nat \<Rightarrow> ('e, 'q) engine \<Rightarrow> ('e, 'q) engine option" where
  "eng_ScheduleWithContext S main ctx delay p g = (if main
     then do { ts \<leftarrow> absolute delay g; eng_insert S ts ctx p g }
     else Some (g\<lparr>g_eventsWithContext := g_eventsWithContext g @ [(ctx, word_of_int delay, p)],
       g_eventsWithContextEmpty := False\<rparr>))"

fun insert_handed :: "(nat, 'q) Scheduler \<Rightarrow> (u32 \<times> u64 \<times> nat) list \<Rightarrow> ('e, 'q) engine \<Rightarrow> ('e, 'q) engine option" where
  "insert_handed S [] g = Some g"
| "insert_handed S ((ctx, ts, p) # xs) g = do {
     g \<leftarrow> eng_insert S (g_currentTs g + ts) ctx p g;
     insert_handed S xs g }"

definition ProcessEventsWithContext :: "(nat, 'q) Scheduler \<Rightarrow> ('e, 'q) engine \<Rightarrow> ('e, 'q) engine option" where
  "ProcessEventsWithContext S g = (if g_eventsWithContextEmpty g then Some g
     else insert_handed S (g_eventsWithContext g) (g\<lparr>g_eventsWithContext := [], g_eventsWithContextEmpty := True\<rparr>))"

definition eng_ScheduleDestroy :: "nat \<Rightarrow> ('e, 'q) engine \<Rightarrow> EventId \<times> ('e, 'q) engine" where
  "eng_ScheduleDestroy p g = (let eid = \<lparr>id_impl = Some p, id_ts = g_currentTs g, id_context = 0xffffffff, id_uid = uid_DESTROY\<rparr>
     in (eid, g\<lparr>g_destroyEvents := g_destroyEvents g @ [eid], g_uid := g_uid g + 1\<rparr>))"

subsection \<open>Identifiers\<close>

definition eng_IsExpired :: "EventId \<Rightarrow> ('e, 'q) engine \<Rightarrow> bool" where
  "eng_IsExpired eid g = (case id_impl eid of
       None \<Rightarrow> True
     | Some p \<Rightarrow> if id_uid eid = uid_DESTROY then IsCancelled p g \<or> eid \<notin> set (g_destroyEvents g)
         else id_ts eid < g_currentTs g \<or> id_ts eid = g_currentTs g \<and> id_uid eid \<le> g_currentUid g \<or> IsCancelled p g)"

definition eng_Cancel :: "EventId \<Rightarrow> ('e, 'q) engine \<Rightarrow> ('e, 'q) engine" where
  "eng_Cancel eid g = (if eng_IsExpired eid g then g else impl_Cancel (the (id_impl eid)) g)"

definition eng_Remove :: "(nat, 'q) Scheduler \<Rightarrow> EventId \<Rightarrow> ('e, 'q) engine \<Rightarrow> ('e, 'q) engine option" where
  "eng_Remove S eid g = (if id_uid eid = uid_DESTROY
       then Some (g\<lparr>g_destroyEvents := remove1 eid (g_destroyEvents g)\<rparr>)
     else if eng_IsExpired eid g then Some g
     else do {
       q \<leftarrow> sc_Remove S \<lparr>ev_impl = id_impl eid, ev_key = \<lparr>k_ts = id_ts eid, k_uid = id_uid eid, k_context = id_context eid\<rparr>\<rparr> (g_events g);
       Some (impl_Cancel (the (id_impl eid)) (g\<lparr>g_events := q, g_unscheduledEvents := g_unscheduledEvents g - 1\<rparr>)) })"

definition eng_Now :: "('e, 'q) engine \<Rightarrow> int" where
  "eng_Now g = sint (g_currentTs g)"

definition GetDelayLeft :: "EventId \<Rightarrow> ('e, 'q) engine \<Rightarrow> int" where
  "GetDelayLeft eid g = (if eng_IsExpired eid g then 0 else sint (id_ts eid - g_currentTs g))"

subsection \<open>Running\<close>

definition eng_Stop :: "('e, 'q) engine \<Rightarrow> ('e, 'q) engine" where
  "eng_Stop g = g\<lparr>g_stop := True\<rparr>"

definition eng_IsFinished :: "(nat, 'q) Scheduler \<Rightarrow> ('e, 'q) engine \<Rightarrow> bool" where
  "eng_IsFinished S g \<longleftrightarrow> sc_IsEmpty S (g_events g) \<or> g_stop g"

text \<open>\<^verbatim>\<open>Invoke\<close>: the body of an event that is not cancelled.\<close>

definition Invoke :: "nat \<Rightarrow> ('e, 'q) engine \<Rightarrow> 'e option" where
  "Invoke p g = (if IsCancelled p g then None else Some (fst (g_impls g p)))"

text \<open>\<^verbatim>\<open>ProcessOneEvent\<close> up to the body of the event.\<close>

definition take_event :: "(nat, 'q) Scheduler \<Rightarrow> ('e, 'q) engine \<Rightarrow> ('e option \<times> ('e, 'q) engine) option" where
  "take_event S g = do {
     (next, q) \<leftarrow> sc_RemoveNext S (g_events g);
     guard (g_currentTs g \<le> k_ts (ev_key next));
     p \<leftarrow> ev_impl next;
     let g = g\<lparr>g_events := q, g_unscheduledEvents := g_unscheduledEvents g - 1, g_eventCount := g_eventCount g + 1,
       g_currentTs := k_ts (ev_key next), g_currentContext := k_context (ev_key next), g_currentUid := k_uid (ev_key next)\<rparr>;
     Some (Invoke p g, g) }"

type_synonym ('e, 'q, 's) bodies = "'e \<Rightarrow> ('e, 'q) engine \<times> 's \<Rightarrow> (('e, 'q) engine \<times> 's) option"

definition run_body :: "('e, 'q, 's) bodies \<Rightarrow> 'e option \<Rightarrow> ('e, 'q) engine \<times> 's \<Rightarrow> (('e, 'q) engine \<times> 's) option" where
  "run_body body b st = (case b of None \<Rightarrow> Some st | Some e \<Rightarrow> body e st)"

definition eng_ProcessOneEvent :: "(nat, 'q) Scheduler \<Rightarrow> ('e, 'q, 's) bodies \<Rightarrow> ('e, 'q) engine \<times> 's
    \<Rightarrow> (('e, 'q) engine \<times> 's) option" where
  "eng_ProcessOneEvent S body st = do {
     (b, g) \<leftarrow> take_event S (fst st);
     (g, x) \<leftarrow> run_body body b (g, snd st);
     g \<leftarrow> ProcessEventsWithContext S g;
     Some (g, x) }"

text \<open>The loops; not coming to an end is \<open>None\<close>.\<close>

partial_function (option) run_loop :: "(nat, 'q) Scheduler \<Rightarrow> ('e, 'q, 's) bodies \<Rightarrow> ('e, 'q) engine \<times> 's
    \<Rightarrow> (('e, 'q) engine \<times> 's) option" where
  [code]: "run_loop S body st = (if sc_IsEmpty S (g_events (fst st)) \<or> g_stop (fst st) then Some st
     else do { st \<leftarrow> eng_ProcessOneEvent S body st; run_loop S body st })"

definition eng_Run :: "(nat, 'q) Scheduler \<Rightarrow> ('e, 'q, 's) bodies \<Rightarrow> ('e, 'q) engine \<times> 's \<Rightarrow> (('e, 'q) engine \<times> 's) option" where
  "eng_Run S body st = do {
     g \<leftarrow> ProcessEventsWithContext S (fst st);
     st \<leftarrow> run_loop S body (g\<lparr>g_stop := False\<rparr>, snd st);
     guard (\<not> sc_IsEmpty S (g_events (fst st)) \<or> g_unscheduledEvents (fst st) = 0);
     Some st }"

partial_function (option) Destroy :: "('e, 'q, 's) bodies \<Rightarrow> ('e, 'q) engine \<times> 's \<Rightarrow> (('e, 'q) engine \<times> 's) option" where
  [code]: "Destroy body st = (case g_destroyEvents (fst st) of [] \<Rightarrow> Some st
     | eid # ids \<Rightarrow> do {
         p \<leftarrow> id_impl eid;
         let g = (fst st)\<lparr>g_destroyEvents := ids\<rparr>;
         st \<leftarrow> run_body body (Invoke p g) (g, snd st);
         Destroy body st })"

text \<open>\<^verbatim>\<open>SetScheduler\<close> moves the pending events to a new queue.\<close>

partial_function (option) move_events :: "('e, 'q) Scheduler \<Rightarrow> ('e, 'r) Scheduler \<Rightarrow> 'q \<Rightarrow> 'r \<Rightarrow> 'r option" where
  [code]: "move_events S S' q q' = (if sc_IsEmpty S q then Some q'
     else do { (next, q) \<leftarrow> sc_RemoveNext S q; q' \<leftarrow> sc_Insert S' next q'; move_events S S' q q' })"

definition with_events :: "'r \<Rightarrow> ('e, 'q) engine \<Rightarrow> ('e, 'r) engine" where
  "with_events q g = \<lparr>g_events = q, g_impls = g_impls g, g_fresh = g_fresh g, g_destroyEvents = g_destroyEvents g,
     g_eventsWithContext = g_eventsWithContext g, g_eventsWithContextEmpty = g_eventsWithContextEmpty g, g_stop = g_stop g,
     g_uid = g_uid g, g_currentUid = g_currentUid g, g_currentTs = g_currentTs g, g_currentContext = g_currentContext g,
     g_eventCount = g_eventCount g, g_unscheduledEvents = g_unscheduledEvents g\<rparr>"

definition SetScheduler :: "(nat, 'q) Scheduler \<Rightarrow> (nat, 'r) Scheduler \<Rightarrow> ('e, 'q) engine \<Rightarrow> ('e, 'r) engine option" where
  "SetScheduler S S' g = do { q \<leftarrow> move_events S S' (g_events g) (sc_new S'); Some (with_events q g) }"

text \<open>\<^verbatim>\<open>DoDispose\<close> empties the queue.\<close>

partial_function (option) drop_events :: "('e, 'q) Scheduler \<Rightarrow> 'q \<Rightarrow> 'q option" where
  [code]: "drop_events S q = (if sc_IsEmpty S q then Some q
     else do { (next, q) \<leftarrow> sc_RemoveNext S q; drop_events S q })"

definition DoDispose :: "(nat, 'q) Scheduler \<Rightarrow> ('e, 'q) engine \<Rightarrow> ('e, 'q) engine option" where
  "DoDispose S g = do {
     g \<leftarrow> ProcessEventsWithContext S g;
     q \<leftarrow> drop_events S (g_events g);
     Some (g\<lparr>g_events := q\<rparr>) }"

end
