(* ===== verification/Engine_Refinement.thy ===== *)
theory Engine_Refinement
  imports Sim_Engine
begin

text \<open>
  The engine of \<open>Sim_Engine\<close> refines the event queue of \<open>Sim_Events\<close>: with any queue that meets the
  contract of \<open>Schedulers\<close>, every run of the engine is a run of \<open>Sim_Events\<close> with the same events
  executed in the same order. The relation between the two is kept inside the locale \<open>engine_queue\<close>, which
  is interpreted on the queues of the code.
\<close>

subsection \<open>The relation\<close>

abbreviation current_of :: "('e, 'q) engine \<Rightarrow> event_key" where
  "current_of g \<equiv> (uint (g_currentTs g), g_currentUid g)"

definition abs_event :: "('e, 'q) engine \<Rightarrow> nat Event \<Rightarrow> event_key \<times> 'e \<times> bool" where
  "abs_event g e = (map_key (ev_key e), g_impls g (the (ev_impl e)))"

definition abs_sim :: "('e, 'q) engine \<Rightarrow> nat Event list \<Rightarrow> 'e sim" where
  "abs_sim g es = \<lparr>m_currentTs = uint (g_currentTs g), m_currentUid = g_currentUid g, m_uid = g_uid g,
     m_unscheduledEvents = g_unscheduledEvents g, m_eventCount = g_eventCount g, m_events = map (abs_event g) es\<rparr>"

text \<open>The event an identifier stands for.\<close>

definition id_event :: "EventId \<Rightarrow> nat Event" where
  "id_event i = \<lparr>ev_impl = id_impl i, ev_key = \<lparr>k_ts = id_ts i, k_uid = id_uid i, k_context = id_context i\<rparr>\<rparr>"

abbreviation id_key :: "EventId \<Rightarrow> event_key" where
  "id_key i \<equiv> map_key (ev_key (id_event i))"

text \<open>What holds of an identifier that was given out: its event is pending, or its time has come, or it was
  cancelled. \<open>H\<close> are the objects that are not yet in the queue.\<close>

definition id_ok :: "('e, 'q) engine \<Rightarrow> nat Event list \<Rightarrow> nat list \<Rightarrow> EventId \<Rightarrow> bool" where
  "id_ok g es H i \<longleftrightarrow> (\<exists>p. id_impl i = Some p \<and> p < g_fresh g \<and> p \<notin> set H
       \<and> (id_event i \<in> set es \<or> \<not> key_less (current_of g) (id_key i) \<or> IsCancelled p g))
     \<and> 4 \<le> id_uid i \<and> id_uid i < g_uid g \<and> (\<forall>e \<in> set es. ev_uid e = id_uid i \<longrightarrow> e = id_event i)"

definition impls_ok :: "('e, 'q) engine \<Rightarrow> nat Event list \<Rightarrow> nat list \<Rightarrow> bool" where
  "impls_ok g es H \<longleftrightarrow> (\<forall>e \<in> set es. \<exists>p. ev_impl e = Some p \<and> p < g_fresh g \<and> p \<notin> set H)
     \<and> distinct (map ev_impl es) \<and> distinct H \<and> (\<forall>p \<in> set H. p < g_fresh g \<and> \<not> IsCancelled p g)"

definition clock_ok :: "nat \<Rightarrow> ('e, 'q) engine \<Rightarrow> u64 \<Rightarrow> nat Event list \<Rightarrow> bool" where
  "clock_ok B g t es \<longleftrightarrow> agenda_wf B (t, es) \<and> t \<le> g_currentTs g \<and> unat (g_currentTs g) < B \<and> sim_wf (abs_sim g es) \<and> 4 \<le> g_uid g"

definition engine_inv :: "nat \<Rightarrow> ('q \<Rightarrow> nat agenda \<Rightarrow> bool) \<Rightarrow> ('e, 'q) engine \<Rightarrow> EventId set \<Rightarrow> u64 \<Rightarrow> nat Event list
    \<Rightarrow> nat list \<Rightarrow> bool" where
  "engine_inv B R g I t es H \<longleftrightarrow> R (g_events g) (t, es) \<and> clock_ok B g t es \<and> impls_ok g es H \<and> (\<forall>i \<in> I. id_ok g es H i)"

lemma abs_sim_simps [simp]: "m_currentTs (abs_sim g es) = uint (g_currentTs g)" "m_currentUid (abs_sim g es) = g_currentUid g"
  "m_uid (abs_sim g es) = g_uid g" "m_unscheduledEvents (abs_sim g es) = g_unscheduledEvents g"
  "m_eventCount (abs_sim g es) = g_eventCount g" "m_events (abs_sim g es) = map (abs_event g) es"
  by (simp_all add: abs_sim_def)

lemma fst_abs_event [simp]: "fst (abs_event g e) = map_key (ev_key e)"
  by (simp add: abs_event_def)

lemma event_keys_abs [simp]: "event_keys (abs_sim g es) = map (\<lambda>e. map_key (ev_key e)) es"
  by (simp add: event_keys_def)

lemma abs_event_cong: "\<forall>e \<in> set es. g_impls g' (the (ev_impl e)) = g_impls g (the (ev_impl e)) \<Longrightarrow>
    map (abs_event g') es = map (abs_event g) es"
  by (simp add: abs_event_def)

lemma clock_uids: "clock_ok B g t es \<Longrightarrow> e \<in> set es \<Longrightarrow> ev_uid e < g_uid g"
  by (auto simp: clock_ok_def sim_wf_def map_key_def)

lemma clock_distinct: "clock_ok B g t es \<Longrightarrow> distinct (map ev_uid es)"
  by (simp add: clock_ok_def agenda_wf_def)

lemma clock_length:
  assumes "clock_ok B g t es"
  shows "length es \<le> unat (g_uid g)"
proof -
  have "set (map (\<lambda>e. unat (ev_uid e)) es) \<subseteq> {..<unat (g_uid g)}" using clock_uids [OF assms] by (auto simp: word_less_nat_alt)
  moreover have "distinct (map (\<lambda>e. unat (ev_uid e)) es)"
    using clock_distinct [OF assms] by (auto simp: distinct_map inj_on_def word_unat_eq_iff [symmetric])
  ultimately show ?thesis by (metis card_lessThan card_mono distinct_card finite_lessThan length_map)
qed

lemma map_of_abs:
  assumes "distinct (map ev_uid es)" and "e \<in> set es"
  shows "map_of (map (abs_event g) es) (map_key (ev_key e)) = Some (g_impls g (the (ev_impl e)))"
proof (rule map_of_is_SomeI)
  have "inj_on (\<lambda>e. map_key (ev_key e)) (set es)"
    using assms(1) by (intro inj_onI) (auto dest: map_key_uid agenda_uid_inj)
  then show "distinct (map fst (map (abs_event g) es))" using agenda_distinct [OF assms(1)] by (simp add: distinct_map comp_def)
  show "(map_key (ev_key e), g_impls g (the (ev_impl e))) \<in> set (map (abs_event g) es)"
    using assms(2) by (force simp: abs_event_def)
qed

lemma map_of_abs_None: "k \<notin> (\<lambda>e. map_key (ev_key e)) ` set es \<Longrightarrow> map_of (map (abs_event g) es) k = None"
  by (auto simp: map_of_eq_None_iff image_image)

text \<open>An identifier that was given out is expired in the engine when it is in \<open>Sim_Events\<close>, and otherwise its
  event is pending.\<close>

lemma id_uid_DESTROY: "id_ok g es H i \<Longrightarrow> id_uid i \<noteq> uid_DESTROY"
  by (auto simp: id_ok_def uid_DESTROY_def)

lemma key_less_current: "\<not> key_less (current_of g) (id_key i) \<longleftrightarrow>
    id_ts i < g_currentTs g \<or> id_ts i = g_currentTs g \<and> id_uid i \<le> g_currentUid g"
proof -
  have cur: "current_of g = map_key \<lparr>k_ts = g_currentTs g, k_uid = g_currentUid g, k_context = 0\<rparr>" by (simp add: map_key_def)
  show ?thesis unfolding cur key_less_map_key by (auto simp: EventKey_less_def id_event_def)
qed

lemma expired_iff:
  assumes "id_ok g es H i" and "distinct (map ev_uid es)"
  shows "eng_IsExpired i g \<longleftrightarrow> IsExpired (Some (id_key i)) (abs_sim g es)"
    and "\<not> eng_IsExpired i g \<Longrightarrow> id_event i \<in> set es"
proof -
  obtain p where p: "id_impl i = Some p" "id_event i \<in> set es \<or> \<not> key_less (current_of g) (id_key i) \<or> IsCancelled p g"
    using assms(1) by (auto simp: id_ok_def)
  have eng: "eng_IsExpired i g \<longleftrightarrow> \<not> key_less (current_of g) (id_key i) \<or> IsCancelled p g"
    using id_uid_DESTROY [OF assms(1)] by (auto simp: eng_IsExpired_def p(1) key_less_current)
  show "\<not> eng_IsExpired i g \<Longrightarrow> id_event i \<in> set es" using eng p(2) by blast
  have m: "map_of (map (abs_event g) es) (id_key i) = (if id_event i \<in> set es then Some (g_impls g p) else None)"
  proof (cases "id_event i \<in> set es")
    case True
    then show ?thesis using map_of_abs [OF assms(2) True, of g] p(1) by (simp add: id_event_def)
  next
    case False
    have "id_key i \<noteq> map_key (ev_key e)" if "e \<in> set es" for e
      using assms(1) that False by (auto simp: id_ok_def id_event_def dest: map_key_uid)
    then show ?thesis using False map_of_abs_None [of "id_key i" es g] by auto
  qed
  show "eng_IsExpired i g \<longleftrightarrow> IsExpired (Some (id_key i)) (abs_sim g es)"
    using eng p(2) m by (cases "g_impls g p") (auto simp: IsExpired_alt IsCancelled_def)
qed

text \<open>The objects the queue and the other threads hold, and the events for the end of the simulation, which have
  objects of their own.\<close>

definition used :: "nat Event list \<Rightarrow> nat list \<Rightarrow> nat set" where
  "used es H = set H \<union> {p. \<exists>e \<in> set es. ev_impl e = Some p}"

definition destroy_ok :: "('e, 'q) engine \<Rightarrow> nat set \<Rightarrow> bool" where
  "destroy_ok g U \<longleftrightarrow> (\<forall>i \<in> set (g_destroyEvents g). \<exists>p. id_impl i = Some p \<and> p < g_fresh g \<and> p \<notin> U)"

lemma destroy_ok_mono:
  assumes "destroy_ok g U" and "set (g_destroyEvents g') \<subseteq> set (g_destroyEvents g)" and "g_fresh g \<le> g_fresh g'"
    and "U' \<subseteq> U \<union> {p. g_fresh g \<le> p}"
  shows "destroy_ok g' U'"
  unfolding destroy_ok_def
proof
  fix i assume "i \<in> set (g_destroyEvents g')"
  then obtain p where "id_impl i = Some p" "p < g_fresh g" "p \<notin> U" using assms(1,2) by (auto simp: destroy_ok_def)
  then show "\<exists>p. id_impl i = Some p \<and> p < g_fresh g' \<and> p \<notin> U'" using assms(3,4) by (intro exI [of _ p]) auto
qed

lemma used_simps: "used es (p # H) = insert p (used es H)" "used (insert_due e es) H = used [e] [] \<union> used es H"
  "used es (H @ H') = used es H \<union> used es H'" "used [e] [] = {p. ev_impl e = Some p}"
  by (auto simp: used_def)

lemma used_mono: "set es \<subseteq> set es' \<Longrightarrow> used es H \<subseteq> used es' H"
  by (auto simp: used_def)

text \<open>The parts of an insertion.\<close>

definition new_event :: "('e, 'q) engine \<Rightarrow> u64 \<Rightarrow> u32 \<Rightarrow> nat \<Rightarrow> nat Event" where
  "new_event g ts ctx p = \<lparr>ev_impl = Some p, ev_key = \<lparr>k_ts = ts, k_uid = g_uid g, k_context = ctx\<rparr>\<rparr>"

definition new_id :: "('e, 'q) engine \<Rightarrow> u64 \<Rightarrow> u32 \<Rightarrow> nat \<Rightarrow> EventId" where
  "new_id g ts ctx p = \<lparr>id_impl = Some p, id_ts = ts, id_context = ctx, id_uid = g_uid g\<rparr>"

definition numbered :: "'q \<Rightarrow> ('e, 'q) engine \<Rightarrow> ('e, 'q) engine" where
  "numbered q g = g\<lparr>g_events := q, g_uid := g_uid g + 1, g_unscheduledEvents := g_unscheduledEvents g + 1\<rparr>"

lemma numbered_simps [simp]: "g_uid (numbered q g) = g_uid g + 1" "g_currentTs (numbered q g) = g_currentTs g"
  "g_eventsWithContext (numbered q g) = g_eventsWithContext g"
  "g_eventsWithContextEmpty (numbered q g) = g_eventsWithContextEmpty g"
  by (simp_all add: numbered_def)

text \<open>What the relation does not look at.\<close>

lemma abs_event_frame [simp]:
  "abs_event (g\<lparr>g_destroyEvents := d\<rparr>) = abs_event g"
  "abs_event (g\<lparr>g_eventsWithContext := w\<rparr>) = abs_event g"
  "abs_event (g\<lparr>g_eventsWithContextEmpty := b\<rparr>) = abs_event g"
  "abs_event (g\<lparr>g_stop := b\<rparr>) = abs_event g"
  by (simp_all add: abs_event_def fun_eq_iff)

lemma engine_inv_frame [simp]:
  "engine_inv B R (g\<lparr>g_destroyEvents := d\<rparr>) I t es H = engine_inv B R g I t es H"
  "engine_inv B R (g\<lparr>g_eventsWithContext := w\<rparr>) I t es H = engine_inv B R g I t es H"
  "engine_inv B R (g\<lparr>g_eventsWithContextEmpty := b\<rparr>) I t es H = engine_inv B R g I t es H"
  "engine_inv B R (g\<lparr>g_stop := b\<rparr>) I t es H = engine_inv B R g I t es H"
  by (simp_all add: engine_inv_def clock_ok_def impls_ok_def id_ok_def IsCancelled_def abs_sim_def)

lemma abs_sim_frame [simp]:
  "abs_sim (g\<lparr>g_destroyEvents := d\<rparr>) es = abs_sim g es"
  "abs_sim (g\<lparr>g_eventsWithContext := w\<rparr>) es = abs_sim g es"
  "abs_sim (g\<lparr>g_eventsWithContextEmpty := b\<rparr>) es = abs_sim g es"
  "abs_sim (g\<lparr>g_stop := b\<rparr>) es = abs_sim g es"
  by (simp_all add: abs_sim_def)

lemma impls_ok_perm: "mset H = mset H' \<Longrightarrow> impls_ok g es H = impls_ok g es H'"
  using mset_eq_setD [of H H'] mset_eq_imp_distinct_iff [of H H'] by (simp add: impls_ok_def)

lemma engine_inv_perm:
  assumes "mset H = mset H'"
  shows "engine_inv B R g I t es H = engine_inv B R g I t es H'"
  using impls_ok_perm [OF assms, of g es] mset_eq_setD [OF assms] by (simp add: engine_inv_def id_ok_def)

text \<open>A fresh object.\<close>

lemma new_impl_inv:
  assumes "engine_inv B R g I t es H" and "new_impl e g = (p, g')"
  shows "engine_inv B R g' I t es (p # H)" and "abs_sim g' es = abs_sim g es"
proof -
  have g': "p = g_fresh g" "g' = g\<lparr>g_impls := (g_impls g)(g_fresh g := (e, False)), g_fresh := g_fresh g + 1\<rparr>"
    using assms(2) by (auto simp: new_impl_def)
  have impls: "impls_ok g es H" using assms(1) by (simp add: engine_inv_def)
  have below: "the (ev_impl x) \<noteq> g_fresh g" if "x \<in> set es" for x using impls that by (auto simp: impls_ok_def)
  have "\<forall>x \<in> set es. g_impls g' (the (ev_impl x)) = g_impls g (the (ev_impl x))"
    using below by (auto simp: g'(2))
  then have same: "map (abs_event g') es = map (abs_event g) es" by (rule abs_event_cong)
  then show abs: "abs_sim g' es = abs_sim g es" by (simp add: abs_sim_def g'(2))
  have "impls_ok g' es (p # H)"
    using impls by (fastforce simp: impls_ok_def g' IsCancelled_def)
  moreover have "id_ok g' es (p # H) i" if ok: "id_ok g es H i" for i
  proof -
    obtain q where "id_impl i = Some q" "q < g_fresh g" using ok by (auto simp: id_ok_def)
    then show ?thesis using ok by (simp add: id_ok_def g' IsCancelled_def)
  qed
  ultimately show "engine_inv B R g' I t es (p # H)"
    using assms(1) abs by (auto simp: engine_inv_def clock_ok_def g'(2))
qed

text \<open>A number that is not used.\<close>

lemma bump_inv:
  assumes "engine_inv B R g I t es H" and "unat (g_uid g) + 1 < 2 ^ 32"
    and "g' = g\<lparr>g_destroyEvents := d, g_uid := g_uid g + 1\<rparr>"
  shows "engine_inv B R g' I t es H"
proof -
  have same: "abs_event g' = abs_event g" by (rule ext) (simp add: abs_event_def assms(3))
  have "abs_sim g' es = ScheduleDestroy (abs_sim g es)" by (simp add: abs_sim_def same ScheduleDestroy_def) (simp add: assms(3))
  then have "sim_wf (abs_sim g' es)"
    using ScheduleDestroy_wf [of "abs_sim g es"] assms(1,2) by (simp add: engine_inv_def clock_ok_def)
  moreover have suc: "v < g_uid g + 1" if "v \<le> g_uid g" for v using uid_less_Suc [OF assms(2) that] .
  moreover have "4 \<le> g_uid g + 1" using suc [of 4] assms(1) by (auto simp: engine_inv_def clock_ok_def intro: less_imp_le)
  moreover have "id_ok g' es H i" if "id_ok g es H i" for i
    using that suc [of "id_uid i"] by (auto simp: id_ok_def assms(3) IsCancelled_def)
  ultimately show ?thesis using assms(1)
    by (simp add: engine_inv_def clock_ok_def impls_ok_def) (simp add: assms(3) IsCancelled_def)
qed

lemma uint_below: "unat w < n \<Longrightarrow> uint w < int n"
  by (metis of_nat_less_iff of_nat_unat)

lemma distinct_map_insert_due:
  "distinct (map f (insert_due e es)) \<longleftrightarrow> f e \<notin> f ` set es \<and> distinct (map f es)"
  by (induction es) auto

subsection \<open>The steps\<close>

locale engine_queue = scheduler S UNIV B R
  for S :: "(nat, 'q) Scheduler" and B :: nat and R :: "'q \<Rightarrow> nat agenda \<Rightarrow> bool" +
  assumes small: "0 < B" "B \<le> 2 ^ 63"
begin

lemma queue_Insert:
  assumes "R q (t, es)" and "agenda_wf B (t, es)" and "t \<le> ev_ts e" and "unat (ev_ts e) < B"
    and "ev_uid e \<notin> ev_uid ` set es" and "length es + 1 < 2 ^ 32"
  shows "\<exists>q'. sc_Insert S e q = Some q' \<and> R q' (t, insert_due e es)"
  using call [OF assms(1,2), of "Call_Insert e"] assms(3-6) by (auto simp: agenda_call_def sched_call_def)

lemma queue_RemoveNext:
  assumes "R q (t, es)" and "agenda_wf B (t, es)" and "es = e # es'"
  shows "\<exists>q'. sc_RemoveNext S q = Some (e, q') \<and> R q' (ev_ts e, es')"
  using call [OF assms(1,2), of Call_RemoveNext] assms(3) by (auto simp: agenda_call_def sched_call_def)

lemma queue_Remove:
  assumes "R q (t, es)" and "agenda_wf B (t, es)" and "e \<in> set es"
  shows "\<exists>q'. sc_Remove S e q = Some q' \<and> R q' (t, remove1 e es)"
  using call [OF assms(1,2), of "Call_Remove e"] assms(3) by (auto simp: agenda_call_def sched_call_def)

lemma queue_IsEmpty:
  assumes "R q (t, es)" and "agenda_wf B (t, es)"
  shows "sc_IsEmpty S q \<longleftrightarrow> es = []"
  using call [OF assms, of Call_IsEmpty] by (auto simp: agenda_call_def sched_call_def)

text \<open>An object enters the queue, and a fresh one is created.\<close>

lemma insert_step:
  assumes "engine_inv B R g I t es (p # H)" and "g_currentTs g \<le> ts" and "unat ts < B" and "unat (g_uid g) + 1 < 2 ^ 32"
  obtains q where "eng_insert S ts ctx p g = Some (numbered q g)"
    and "engine_inv B R (numbered q g) (insert (new_id g ts ctx p) I) t (insert_due (new_event g ts ctx p) es) H"
    and "sim_step (abs_sim g es) [] (abs_sim (numbered q g) (insert_due (new_event g ts ctx p) es))"
proof -
  let ?ev = "\<lparr>ev_impl = Some p, ev_key = \<lparr>k_ts = ts, k_uid = g_uid g, k_context = ctx\<rparr>\<rparr>"
  let ?i = "\<lparr>id_impl = Some p, id_ts = ts, id_context = ctx, id_uid = g_uid g\<rparr>"
  have inv: "R (g_events g) (t, es)" "clock_ok B g t es" "impls_ok g es (p # H)" "\<forall>i \<in> I. id_ok g es (p # H) i"
    using assms(1) by (simp_all add: engine_inv_def)
  have wf: "agenda_wf B (t, es)" "t \<le> g_currentTs g" "sim_wf (abs_sim g es)" "4 \<le> g_uid g"
    using inv(2) by (simp_all add: clock_ok_def)
  have new: "ev_uid ?ev \<notin> ev_uid ` set es" using clock_uids [OF inv(2)] by fastforce
  have len: "length es + 1 < 2 ^ 32" using clock_length [OF inv(2)] assms(4) by linarith
  have le: "t \<le> ev_ts ?ev" using wf(2) assms(2) by simp
  obtain q where q: "sc_Insert S ?ev (g_events g) = Some q" "R q (t, insert_due ?ev es)"
    using queue_Insert [OF inv(1) wf(1) le _ new len] assms(3) by auto
  let ?g = "g\<lparr>g_events := q, g_uid := g_uid g + 1, g_unscheduledEvents := g_unscheduledEvents g + 1\<rparr>"
  have eng: "eng_insert S ts ctx p g = Some ?g" using q(1) by (simp add: eng_insert_def)
  have agenda: "agenda_wf B (t, insert_due ?ev es)"
    by (rule agenda_wf_call [OF _ wf(1), of "Call_Insert ?ev" Reply_Done])
      (use le new len assms(3) in \<open>simp add: agenda_call_def\<close>)
  have live: "\<not> IsCancelled p g" using inv(3) by (simp add: impls_ok_def)
  then have body: "g_impls g p = (fst (g_impls g p), False)" by (cases "g_impls g p") (simp add: IsCancelled_def)
  have same: "abs_event ?g = abs_event g" by (rule ext) (simp add: abs_event_def)
  have "sched_Insert (uint ts, g_uid g) (fst (g_impls g p), False) (map (abs_event g) es) = Some (map (abs_event g) (insert_due ?ev es))"
    using sched_Insert_due [of "abs_event g" ?ev es] new body by (simp add: abs_event_def map_key_def)
  moreover have "uint (g_currentTs g) \<le> uint ts" using assms(2) by (simp add: word_le_def)
  moreover have "uint ts \<le> max_time" using uint_below [of ts "2 ^ 63"] assms(3) small(2) by (simp add: max_time_def)
  ultimately have sched: "Schedule (uint ts - uint (g_currentTs g)) (fst (g_impls g p)) (abs_sim g es)
      = Some (Some (uint ts, g_uid g), abs_sim ?g (insert_due ?ev es))"
    by (simp add: Schedule_def Let_def same abs_sim_def)
  have step: "sim_step (abs_sim g es) [] (abs_sim ?g (insert_due ?ev es))"
    by (rule sim_step.Sched [OF sched]) (use assms(4) in simp)
  have suc: "v < g_uid g + 1" if "v \<le> g_uid g" for v using uid_less_Suc [OF assms(4) that] .
  have "4 \<le> g_uid g + 1" using suc [OF wf(4)] by (rule less_imp_le)
  then have clock: "clock_ok B ?g t (insert_due ?ev es)"
    using agenda inv(2) sim_step_wf [OF step wf(3)] by (simp add: clock_ok_def)
  have impls: "impls_ok ?g (insert_due ?ev es) H"
    using inv(3) by (auto simp: impls_ok_def IsCancelled_def distinct_map_insert_due)
  have old: "id_ok ?g (insert_due ?ev es) H i" if "i \<in> I" for i
    using inv(4) that suc by (fastforce simp: id_ok_def IsCancelled_def)
  have "\<forall>e \<in> set es. ev_uid e \<noteq> g_uid g" using new by (auto simp: image_iff)
  then have "id_ok ?g (insert_due ?ev es) H ?i"
    using inv(3) wf(4) suc [OF order_refl] by (auto simp: id_ok_def impls_ok_def id_event_def)
  then have "engine_inv B R ?g (insert ?i I) t (insert_due ?ev es) H"
    using q(2) clock impls old by (auto simp: engine_inv_def)
  then show thesis using that [of q] eng step by (simp add: numbered_def new_id_def new_event_def)
qed

text \<open>Cancelling and removing.\<close>

lemma cancel_key:
  assumes "engine_inv B R g I t es H" and "i \<in> I" and "\<not> eng_IsExpired i g"
  obtains p where "id_impl i = Some p" and "id_event i \<in> set es" and "p \<notin> set H"
    and "\<forall>e \<in> set es. the (ev_impl e) = p \<longleftrightarrow> map_key (ev_key e) = id_key i"
    and "\<forall>e \<in> set es. the (ev_impl e) = p \<longleftrightarrow> e = id_event i"
proof -
  have inv: "clock_ok B g t es" "impls_ok g es H" "id_ok g es H i" using assms(1,2) by (simp_all add: engine_inv_def)
  obtain p where p: "id_impl i = Some p" "p \<notin> set H" using inv(3) by (auto simp: id_ok_def)
  note di = clock_distinct [OF inv(1)]
  have mem: "id_event i \<in> set es" by (rule expired_iff(2) [OF inv(3) di assms(3)])
  have one: "the (ev_impl e) = p \<longleftrightarrow> e = id_event i" if "e \<in> set es" for e
  proof
    assume e: "the (ev_impl e) = p"
    have "\<exists>p. ev_impl e = Some p" using inv(2) that by (auto simp: impls_ok_def)
    then have "ev_impl e = ev_impl (id_event i)" using e p(1) by (auto simp: id_event_def)
    moreover have "inj_on ev_impl (set es)" using inv(2) by (simp add: impls_ok_def distinct_map)
    ultimately show "e = id_event i" using that mem by (simp add: inj_on_eq_iff)
  qed (simp add: id_event_def p(1))
  show thesis
  proof (rule that [OF p(1) mem p(2)])
    show "\<forall>e \<in> set es. the (ev_impl e) = p \<longleftrightarrow> map_key (ev_key e) = id_key i"
      using one agenda_uid_inj [OF di _ mem] map_key_uid by blast
  qed (use one in blast)
qed

lemma cancel_inv:
  assumes "engine_inv B R g I t es H" and "p \<notin> set H"
  shows "engine_inv B R (impl_Cancel p g) I t es H"
proof -
  have fields: "g_events (impl_Cancel p g) = g_events g" "g_currentTs (impl_Cancel p g) = g_currentTs g"
    "g_currentUid (impl_Cancel p g) = g_currentUid g" "g_uid (impl_Cancel p g) = g_uid g" "g_fresh (impl_Cancel p g) = g_fresh g"
    "g_unscheduledEvents (impl_Cancel p g) = g_unscheduledEvents g" by (simp_all add: impl_Cancel_def)
  have c: "IsCancelled q (impl_Cancel p g) \<longleftrightarrow> q = p \<or> IsCancelled q g" for q by (simp add: impl_Cancel_def IsCancelled_def)
  have "sim_wf (abs_sim (impl_Cancel p g) es) = sim_wf (abs_sim g es)" by (simp add: sim_wf_def fields)
  then show ?thesis using assms by (auto simp: engine_inv_def clock_ok_def impls_ok_def id_ok_def c fields)
qed

lemma eng_Cancel_step:
  assumes "engine_inv B R g I t es H" and "i \<in> I"
  shows "engine_inv B R (eng_Cancel i g) I t es H" and "abs_sim (eng_Cancel i g) es = Cancel (Some (id_key i)) (abs_sim g es)"
proof -
  have ex: "eng_IsExpired i g \<longleftrightarrow> IsExpired (Some (id_key i)) (abs_sim g es)"
    using expired_iff(1) assms clock_distinct unfolding engine_inv_def by blast
  have "engine_inv B R (eng_Cancel i g) I t es H \<and> abs_sim (eng_Cancel i g) es = Cancel (Some (id_key i)) (abs_sim g es)"
  proof (cases "eng_IsExpired i g")
    case False
    obtain p where p: "id_impl i = Some p" "p \<notin> set H" "\<forall>e \<in> set es. the (ev_impl e) = p \<longleftrightarrow> map_key (ev_key e) = id_key i"
      using cancel_key [OF assms False] by metis
    have "map (abs_event (impl_Cancel p g)) es = map (\<lambda>(k, e, c). (k, e, c \<or> Some k = Some (id_key i))) (map (abs_event g) es)"
      unfolding map_map using p(3) by (intro map_cong refl) (auto simp: abs_event_def impl_Cancel_def split: prod.splits intro: fst_eqD)
    then have "abs_sim (impl_Cancel p g) es = Cancel (Some (id_key i)) (abs_sim g es)"
      using False ex by (simp add: Cancel_def abs_sim_def) (simp add: impl_Cancel_def)
    then show ?thesis using False p(1) cancel_inv [OF assms(1) p(2)] by (simp add: eng_Cancel_def)
  qed (use ex assms in \<open>simp add: eng_Cancel_def Cancel_def\<close>)
  then show "engine_inv B R (eng_Cancel i g) I t es H" "abs_sim (eng_Cancel i g) es = Cancel (Some (id_key i)) (abs_sim g es)"
    by simp_all
qed

lemma eng_Remove_step:
  assumes "engine_inv B R g I t es H" and "i \<in> I"
  shows "\<exists>g' es'. eng_Remove S i g = Some g' \<and> engine_inv B R g' I t es' H
     \<and> abs_sim g' es' = Remove (Some (id_key i)) (abs_sim g es)
     \<and> g_eventsWithContext g' = g_eventsWithContext g \<and> g_eventsWithContextEmpty g' = g_eventsWithContextEmpty g
     \<and> set es' \<subseteq> set es \<and> g_destroyEvents g' = g_destroyEvents g \<and> g_fresh g' = g_fresh g"
proof -
  have inv: "R (g_events g) (t, es)" "clock_ok B g t es" "impls_ok g es H" "id_ok g es H i" "\<forall>i \<in> I. id_ok g es H i"
    using assms by (simp_all add: engine_inv_def)
  have wf: "agenda_wf B (t, es)" "sim_wf (abs_sim g es)" using inv(2) by (simp_all add: clock_ok_def)
  note di = clock_distinct [OF inv(2)]
  have ex: "eng_IsExpired i g \<longleftrightarrow> IsExpired (Some (id_key i)) (abs_sim g es)" by (rule expired_iff(1) [OF inv(4) di])
  have nd: "id_uid i \<noteq> uid_DESTROY" by (rule id_uid_DESTROY [OF inv(4)])
  show ?thesis
  proof (cases "eng_IsExpired i g")
    case True
    then show ?thesis using assms(1) ex nd by (auto simp: eng_Remove_def Remove_def)
  next
    case False
    let ?e = "id_event i"
    obtain p where p: "id_impl i = Some p" "?e \<in> set es" "p \<notin> set H" "\<forall>e \<in> set es. the (ev_impl e) = p \<longleftrightarrow> map_key (ev_key e) = id_key i"
      "\<forall>e \<in> set es. the (ev_impl e) = p \<longleftrightarrow> e = ?e" using cancel_key [OF assms False] by blast
    obtain q where q: "sc_Remove S ?e (g_events g) = Some q" "R q (t, remove1 ?e es)"
      using queue_Remove [OF inv(1) wf(1) p(2)] by auto
    let ?es = "remove1 ?e es" and ?g = "g\<lparr>g_events := q, g_unscheduledEvents := g_unscheduledEvents g - 1\<rparr>"
    have rm: "set ?es = set es - {?e}" "?es = filter (\<lambda>x. x \<noteq> ?e) es"
      using agenda_distinct [OF di] by (auto simp: distinct_remove1_removeAll removeAll_filter_not_eq eq_commute)
    have eng: "eng_Remove S i g = Some (impl_Cancel p ?g)"
      using nd False q(1) p(1) by (simp add: eng_Remove_def id_event_def)
    have "map (abs_event (impl_Cancel p ?g)) ?es = map (abs_event g) ?es"
      by (rule abs_event_cong) (use p(5) rm(1) in \<open>auto simp: impl_Cancel_def\<close>)
    also have "\<dots> = filter (\<lambda>(k, _). Some k \<noteq> Some (id_key i)) (map (abs_event g) es)"
      unfolding rm(2) filter_map using p(4,5) by (intro arg_cong [of _ _ "map (abs_event g)"] filter_cong refl) (auto simp: abs_event_def)
    finally have abs: "abs_sim (impl_Cancel p ?g) ?es = Remove (Some (id_key i)) (abs_sim g es)"
      using False ex by (simp add: Remove_def abs_sim_def) (simp add: impl_Cancel_def)
    have wf': "agenda_wf B (t, ?es)"
      by (rule agenda_wf_call [OF _ wf(1), of "Call_Remove ?e" Reply_Done]) (use p(2) in \<open>simp add: agenda_call_def\<close>)
    have "clock_ok B (impl_Cancel p ?g) t ?es"
      using inv(2) wf' Remove_wf [OF wf(2), of "Some (id_key i)"] abs by (simp add: clock_ok_def) (simp add: impl_Cancel_def)
    moreover have "impls_ok (impl_Cancel p ?g) ?es H"
      using inv(3) p(3) rm(1) distinct_map_remove1 [of ev_impl es ?e]
      by (auto simp: impls_ok_def impl_Cancel_def IsCancelled_def)
    moreover have "id_ok (impl_Cancel p ?g) ?es H j" if "j \<in> I" for j
    proof -
      have j: "id_ok g es H j" using inv(5) that by blast
      have "id_impl j = Some p" if "id_event j = ?e" using that p(1) by (simp add: id_event_def)
      then show ?thesis using j rm(1) by (auto simp: id_ok_def impl_Cancel_def IsCancelled_def)
    qed
    ultimately have "engine_inv B R (impl_Cancel p ?g) I t ?es H"
      using q(2) by (simp add: engine_inv_def) (simp add: impl_Cancel_def)
    then show ?thesis using eng abs rm(1) by (auto simp: impl_Cancel_def)
  qed
qed

text \<open>Cancelling an event for the end of the simulation.\<close>

lemma cancel_destroy:
  assumes "engine_inv B R g I t es H" and "destroy_ok g (used es H)" and "id_uid i = uid_DESTROY"
  shows "engine_inv B R (eng_Cancel i g) I t es H" and "abs_sim (eng_Cancel i g) es = abs_sim g es"
proof -
  have "engine_inv B R (eng_Cancel i g) I t es H \<and> abs_sim (eng_Cancel i g) es = abs_sim g es"
  proof (cases "eng_IsExpired i g")
    case False
    then have "i \<in> set (g_destroyEvents g)" using assms(3) by (auto simp: eng_IsExpired_def split: option.splits)
    then obtain p where p: "id_impl i = Some p" "p \<notin> used es H" using assms(2) by (auto simp: destroy_ok_def)
    have impls: "\<forall>e \<in> set es. \<exists>q. ev_impl e = Some q" using assms(1) by (auto simp: engine_inv_def impls_ok_def)
    have "map (abs_event (impl_Cancel p g)) es = map (abs_event g) es"
      by (rule abs_event_cong) (use p(2) impls in \<open>auto simp: used_def impl_Cancel_def\<close>)
    then have "abs_sim (impl_Cancel p g) es = abs_sim g es" by (simp add: abs_sim_def) (simp add: impl_Cancel_def)
    then show ?thesis using False p cancel_inv [OF assms(1)] by (simp add: eng_Cancel_def used_def)
  qed (use assms in \<open>simp add: eng_Cancel_def\<close>)
  then show "engine_inv B R (eng_Cancel i g) I t es H" "abs_sim (eng_Cancel i g) es = abs_sim g es" by simp_all
qed

text \<open>Taking the next event.\<close>

lemma take_event_step:
  assumes "engine_inv B R g I t es H" and "take_event S g = Some (b, g')" and "\<not> sc_IsEmpty S (g_events g)"
  shows "\<exists>es' t'. engine_inv B R g' I t' es' H \<and> ProcessOneEvent (abs_sim g es) = Some (b, abs_sim g' es')
     \<and> g_eventsWithContext g' = g_eventsWithContext g \<and> g_eventsWithContextEmpty g' = g_eventsWithContextEmpty g
     \<and> set es' \<subseteq> set es \<and> g_destroyEvents g' = g_destroyEvents g \<and> g_fresh g' = g_fresh g"
proof -
  have inv: "R (g_events g) (t, es)" "clock_ok B g t es" "impls_ok g es H" "\<forall>i \<in> I. id_ok g es H i"
    using assms by (simp_all add: engine_inv_def)
  have wf: "agenda_wf B (t, es)" "sim_wf (abs_sim g es)" using inv(2) by (simp_all add: clock_ok_def)
  have "es \<noteq> []" using queue_IsEmpty [OF inv(1) wf(1)] assms(3) by simp
  then obtain e es' where es: "es = e # es'" by (cases es) auto
  obtain q where q: "sc_RemoveNext S (g_events g) = Some (e, q)" "R q (ev_ts e, es')"
    using queue_RemoveNext [OF inv(1) wf(1) es] by auto
  obtain p where p: "ev_impl e = Some p" using inv(3) by (auto simp: impls_ok_def es)
  let ?g = "g\<lparr>g_events := q, g_unscheduledEvents := g_unscheduledEvents g - 1, g_eventCount := g_eventCount g + 1,
       g_currentTs := ev_ts e, g_currentContext := k_context (ev_key e), g_currentUid := ev_uid e\<rparr>"
  have g': "g' = ?g" "b = Invoke p ?g"
    using assms(2) q(1) p by (auto simp: take_event_def guard_bind_eq_Some Let_def)
  have same: "abs_event ?g = abs_event g" by (rule ext) (simp add: abs_event_def)
  have late: "g_currentTs g \<le> ev_ts e" using assms(2) q(1) p by (auto simp: take_event_def guard_bind_eq_Some Let_def)
  have "abs_event g e = (map_key (ev_key e), fst (g_impls g p), IsCancelled p g)"
    by (cases "g_impls g p") (simp add: abs_event_def p IsCancelled_def)
  then have proc: "ProcessOneEvent (abs_sim g es) = Some (b, abs_sim g' es')"
    using late by (cases "g_impls g p")
      (simp add: ProcessOneEvent_def es g' Invoke_def IsCancelled_def map_key_def word_le_def abs_sim_def same)
  have wf': "agenda_wf B (ev_ts e, es')"
    by (rule agenda_wf_call [OF _ wf(1), of Call_RemoveNext "Reply_Event e"]) (simp add: agenda_call_def es)
  have "unat (ev_ts e) < B" using wf(1) by (simp add: agenda_wf_def es)
  then have clock: "clock_ok B g' (ev_ts e) es'"
    using inv(2) wf' ProcessOneEvent_wf [OF proc wf(2)] by (simp add: clock_ok_def g'(1))
  have impls: "impls_ok g' es' H" using inv(3) by (auto simp: impls_ok_def es g'(1) IsCancelled_def)
  have cur: "current_of g' = map_key (ev_key e)" by (simp add: g'(1) map_key_def)
  have past: "key_less (current_of g) (map_key (ev_key e))" using wf(2) by (simp add: sim_wf_def es)
  have "id_ok g' es' H i" if "i \<in> I" for i
  proof -
    have i: "id_ok g es H i" using inv(4) that by blast
    have "\<not> key_less (current_of g') (id_key i)" if "id_event i = e \<or> \<not> key_less (current_of g) (id_key i)"
      using that key_less_trans [OF past, of "id_key i"] unfolding cur by auto
    then show ?thesis using i unfolding id_ok_def es by (auto simp: g'(1) IsCancelled_def)
  qed
  then have "engine_inv B R g' I (ev_ts e) es' H" using q(2) clock impls by (simp add: engine_inv_def g'(1))
  then show ?thesis using proc g'(1) es by auto
qed

text \<open>The events other threads handed over enter the queue together.\<close>

lemma engine_inv_fewer:
  assumes "engine_inv B R g I t es H" and "I' \<subseteq> I"
  shows "engine_inv B R g I' t es H"
  using assms by (auto simp: engine_inv_def)

lemma engine_inv_drop: "engine_inv B R g I t es (p # H) \<Longrightarrow> engine_inv B R g I t es H"
  by (fastforce simp: engine_inv_def impls_ok_def id_ok_def)

lemma insert_handed_step:
  assumes "engine_inv B R g I t es (map (snd \<circ> snd) xs @ H)" and "unat (g_uid g) + length xs < 2 ^ 32"
    and "\<forall>(c, ts, p) \<in> set xs. unat (g_currentTs g) + unat ts < B"
  shows "\<exists>g' es'. insert_handed S xs g = Some g' \<and> engine_inv B R g' I t es' H \<and> sim_run (abs_sim g es) [] (abs_sim g' es')
     \<and> g_eventsWithContext g' = g_eventsWithContext g \<and> used es' H \<subseteq> used es (map (snd \<circ> snd) xs @ H)
     \<and> g_destroyEvents g' = g_destroyEvents g \<and> g_fresh g' = g_fresh g"
  using assms
proof (induction xs arbitrary: g es)
  case Nil
  then show ?case using sim_run.Start by auto
next
  case (Cons x xs)
  obtain c ts p where x: "x = (c, ts, p)" by (cases x)
  have sum: "unat (g_currentTs g) + unat ts < B" using Cons.prems(3) by (simp add: x)
  then have add: "unat (g_currentTs g + ts) = unat (g_currentTs g) + unat ts"
    using small(2) by (intro unat_add_nowrap) simp
  let ?ts = "g_currentTs g + ts"
  obtain q where q: "eng_insert S ?ts c p g = Some (numbered q g)"
    "engine_inv B R (numbered q g) (insert (new_id g ?ts c p) I) t (insert_due (new_event g ?ts c p) es) (map (snd \<circ> snd) xs @ H)"
    "sim_step (abs_sim g es) [] (abs_sim (numbered q g) (insert_due (new_event g ?ts c p) es))"
  proof (rule insert_step [of g I t es p "map (snd \<circ> snd) xs @ H" ?ts c])
    show "g_currentTs g \<le> ?ts" using add by (simp add: word_le_nat_alt)
  qed (use Cons.prems(1,2) add sum in \<open>simp_all add: x comp_def\<close>)
  let ?g = "numbered q g" and ?es = "insert_due (new_event g ?ts c p) es"
  have "unat (g_uid g + 1) = unat (g_uid g) + 1" using Cons.prems(2) by (subst unat_add_nowrap) simp_all
  then have small_uid: "unat (g_uid ?g) + length xs < 2 ^ 32" and near: "\<forall>(c, ts, p) \<in> set xs. unat (g_currentTs ?g) + unat ts < B"
    using Cons.prems(2,3) by auto
  obtain g' es' where g': "insert_handed S xs ?g = Some g'" "engine_inv B R g' I t es' H"
    "sim_run (abs_sim ?g ?es) [] (abs_sim g' es')" "g_eventsWithContext g' = g_eventsWithContext ?g"
    "used es' H \<subseteq> used ?es (map (snd \<circ> snd) xs @ H)" "g_destroyEvents g' = g_destroyEvents ?g" "g_fresh g' = g_fresh ?g"
    using Cons.IH [OF engine_inv_fewer [OF q(2) subset_insertI] small_uid near] by blast
  have "sim_run (abs_sim g es) ([] @ []) (abs_sim g' es')"
    using sim_run_trans [OF g'(3)] sim_run.Step [OF sim_run.Start q(3)] by simp
  then have run: "sim_run (abs_sim g es) [] (abs_sim g' es')" by simp
  have "used es' H \<subseteq> used es (map (snd \<circ> snd) (x # xs) @ H)"
    using g'(5) by (auto simp: x new_event_def used_simps)
  moreover have "insert_handed S (x # xs) g = Some g'" using q(1) g'(1) by (simp add: x)
  moreover have "g_eventsWithContext g' = g_eventsWithContext g" "g_destroyEvents g' = g_destroyEvents g" "g_fresh g' = g_fresh g"
    using g'(4,6,7) by (simp_all add: numbered_def)
  ultimately show ?case using run g'(2) by blast
qed

end

subsection \<open>Runs\<close>

text \<open>A step of the engine with the identifiers that were given out, and what it executed. The
  counter of the events stops before it wraps, and times stay below a bound. \<open>Begin\<close> is the start of \<^verbatim>\<open>Run\<close>, which
  takes back an earlier \<^verbatim>\<open>Stop\<close> once it has called \<^verbatim>\<open>ProcessEventsWithContext\<close> (\<open>Handed\<close>). The counter \<open>g_unscheduledEvents\<close>
  is a 32-bit \<^verbatim>\<open>int\<close> in the code and has no bound here: it is the number of pending events, so the two agree
  while fewer than \<open>2 ^ 31\<close> events are pending.\<close>

inductive engine_step :: "(nat, 'q) Scheduler \<Rightarrow> nat \<Rightarrow> ('e, 'q) engine \<times> EventId set \<Rightarrow> (event_key \<times> 'e option) list
    \<Rightarrow> ('e, 'q) engine \<times> EventId set \<Rightarrow> bool" for S B where
  Sched: "new_impl e g = (p, g1) \<Longrightarrow> eng_Schedule S d p g1 = Some (i, g2) \<Longrightarrow> unat (g_uid g) + 1 < 2 ^ 32 \<Longrightarrow> unat (id_ts i) < B
    \<Longrightarrow> engine_step S B (g, I) [] (g2, insert i I)"
| Context: "new_impl e g = (p, g1) \<Longrightarrow> eng_ScheduleWithContext S True c d p g1 = Some g2 \<Longrightarrow> 0 \<le> d
    \<Longrightarrow> absolute d g = Some ts \<Longrightarrow> unat ts < B \<Longrightarrow> unat (g_uid g) + 1 < 2 ^ 32 \<Longrightarrow> engine_step S B (g, I) [] (g2, I)"
| Thread: "new_impl e g = (p, g1) \<Longrightarrow> eng_ScheduleWithContext S False c d p g1 = Some g2 \<Longrightarrow> engine_step S B (g, I) [] (g2, I)"
| Handed: "ProcessEventsWithContext S g = Some g' \<Longrightarrow> unat (g_uid g) + length (g_eventsWithContext g) < 2 ^ 32
    \<Longrightarrow> \<forall>(c, ts, p) \<in> set (g_eventsWithContext g). unat (g_currentTs g) + unat ts < B \<Longrightarrow> engine_step S B (g, I) [] (g', I)"
| Canc: "i \<in> I \<or> id_uid i = uid_DESTROY \<Longrightarrow> engine_step S B (g, I) [] (eng_Cancel i g, I)"
| Rem: "i \<in> I \<or> id_uid i = uid_DESTROY \<Longrightarrow> eng_Remove S i g = Some g' \<Longrightarrow> engine_step S B (g, I) [] (g', I)"
| Dest: "new_impl e g = (p, g1) \<Longrightarrow> eng_ScheduleDestroy p g1 = (i, g2) \<Longrightarrow> unat (g_uid g) + 1 < 2 ^ 32
    \<Longrightarrow> engine_step S B (g, I) [] (g2, I)"
| Stop: "engine_step S B (g, I) [] (eng_Stop g, I)"
| Begin: "engine_step S B (g, I) [] (g\<lparr>g_stop := False\<rparr>, I)"
| Exec: "\<not> eng_IsFinished S g \<Longrightarrow> take_event S g = Some (b, g')
    \<Longrightarrow> engine_step S B (g, I) [(current_of g', b)] (g', I)"

inductive engine_run :: "(nat, 'q) Scheduler \<Rightarrow> nat \<Rightarrow> ('e, 'q) engine \<times> EventId set \<Rightarrow> (event_key \<times> 'e option) list
    \<Rightarrow> ('e, 'q) engine \<times> EventId set \<Rightarrow> bool" for S B where
  Start: "engine_run S B x [] x"
| Step: "engine_run S B x l x' \<Longrightarrow> engine_step S B x' l' x'' \<Longrightarrow> engine_run S B x (l' @ l) x''"

definition engine_rel :: "nat \<Rightarrow> ('q \<Rightarrow> nat agenda \<Rightarrow> bool) \<Rightarrow> ('e, 'q) engine \<times> EventId set \<Rightarrow> 'e sim \<Rightarrow> bool" where
  "engine_rel B R x s \<longleftrightarrow> (\<exists>t es. engine_inv B R (fst x) (snd x) t es (map (snd \<circ> snd) (g_eventsWithContext (fst x)))
     \<and> destroy_ok (fst x) (used es (map (snd \<circ> snd) (g_eventsWithContext (fst x)))) \<and> s = abs_sim (fst x) es)"

lemma engine_relI:
  "engine_inv B R g I t es (map (snd \<circ> snd) (g_eventsWithContext g)) \<Longrightarrow> abs_sim g es = s
    \<Longrightarrow> destroy_ok g (used es (map (snd \<circ> snd) (g_eventsWithContext g))) \<Longrightarrow> engine_rel B R (g, I) s"
  by (auto simp: engine_rel_def)

lemma engine_relE:
  assumes "engine_rel B R (g, I) s"
  obtains t es where "engine_inv B R g I t es (map (snd \<circ> snd) (g_eventsWithContext g))" and "s = abs_sim g es"
    and "destroy_ok g (used es (map (snd \<circ> snd) (g_eventsWithContext g)))"
  using assms by (auto simp: engine_rel_def)

lemma absolute_Some:
  assumes "absolute d g = Some ts" and "0 \<le> d" and "unat (g_currentTs g) < 2 ^ 63"
  shows "g_currentTs g \<le> ts"
proof -
  have u: "uint (g_currentTs g) < 2 ^ 63" using uint_below [OF assms(3)] by simp
  then have "sint (g_currentTs g) = uint (g_currentTs g)" by (rule sint_u64_small)
  then have t: "d + uint (g_currentTs g) < 2 ^ 63" "ts = word_of_int (d + uint (g_currentTs g))"
    using assms(1) by (auto simp: absolute_def Let_def guard_bind_eq_Some)
  have "uint ts = d + uint (g_currentTs g)"
    unfolding t(2) uint_word_of_int using t(1) assms(2) by (intro mod_pos_pos_trivial) auto
  then show ?thesis using assms(2) by (simp add: word_le_def)
qed

context engine_queue
begin

lemma run_one: "sim_step s l s' \<Longrightarrow> sim_run s l s'"
  using sim_run.Step [OF sim_run.Start] by fastforce

lemma clock_small: "engine_inv B R g I t es H \<Longrightarrow> unat (g_currentTs g) < 2 ^ 63"
  using small(2) by (auto simp: engine_inv_def clock_ok_def)

lemma step_refines:
  assumes "engine_step S B x l x'" and "engine_rel B R x s"
  shows "\<exists>s'. sim_run s l s' \<and> engine_rel B R x' s'"
  using assms
proof (induction rule: engine_step.induct)
  case (Sched e g p g1 d i g2 I)
  then obtain t es where inv: "engine_inv B R g I t es (map (snd \<circ> snd) (g_eventsWithContext g))" "s = abs_sim g es"
    "destroy_ok g (used es (map (snd \<circ> snd) (g_eventsWithContext g)))"
    by (elim engine_relE)
  note n = new_impl_inv [OF inv(1) Sched.hyps(1)]
  have g1: "g_uid g1 = g_uid g" "g_currentTs g1 = g_currentTs g" "g_eventsWithContext g1 = g_eventsWithContext g"
    using Sched.hyps(1) by (auto simp: new_impl_def)
  obtain ts where ts: "absolute d g1 = Some ts" "0 \<le> d" "eng_insert S ts (g_currentContext g1) p g1 = Some g2"
    "i = new_id g1 ts (g_currentContext g1) p"
    using Sched.hyps(2) by (auto simp: eng_Schedule_def new_id_def guard_bind_eq_Some elim!: bind_eq_SomeE)
  have le: "g_currentTs g1 \<le> ts" by (rule absolute_Some [OF ts(1,2) clock_small [OF n(1)]])
  obtain q where q: "eng_insert S ts (g_currentContext g1) p g1 = Some (numbered q g1)"
    "engine_inv B R (numbered q g1) (insert i I) t (insert_due (new_event g1 ts (g_currentContext g1) p) es)
       (map (snd \<circ> snd) (g_eventsWithContext g))"
    "sim_step (abs_sim g1 es) [] (abs_sim (numbered q g1) (insert_due (new_event g1 ts (g_currentContext g1) p) es))"
    using insert_step [OF n(1) le] Sched.hyps(3,4) ts(4) g1(1) by (metis EventId.select_convs(2) new_id_def)
  have g2: "g2 = numbered q g1" using ts(3) q(1) by simp
  have "destroy_ok g2 (used (insert_due (new_event g1 ts (g_currentContext g1) p) es) (map (snd \<circ> snd) (g_eventsWithContext g)))"
    by (rule destroy_ok_mono [OF inv(3)]) (use Sched.hyps(1) in \<open>auto simp: g2 numbered_def new_event_def new_impl_def used_simps\<close>)
  then have "engine_rel B R (g2, insert i I) (abs_sim (numbered q g1) (insert_due (new_event g1 ts (g_currentContext g1) p) es))"
    by (intro engine_relI [OF _ _]) (use q(2) g1(3) in \<open>simp_all add: g2\<close>)
  then show ?case using run_one [OF q(3)] n(2) inv(2) by auto
next
  case (Context e g p g1 c d g2 ts I)
  then obtain t es where inv: "engine_inv B R g I t es (map (snd \<circ> snd) (g_eventsWithContext g))" "s = abs_sim g es"
    "destroy_ok g (used es (map (snd \<circ> snd) (g_eventsWithContext g)))"
    by (elim engine_relE)
  note n = new_impl_inv [OF inv(1) Context.hyps(1)]
  have g1: "g_uid g1 = g_uid g" "g_currentTs g1 = g_currentTs g" "g_eventsWithContext g1 = g_eventsWithContext g"
    using Context.hyps(1) by (auto simp: new_impl_def)
  have ts: "absolute d g1 = Some ts" "eng_insert S ts c p g1 = Some g2"
    using Context.hyps(2,4) g1(2) by (auto simp: eng_ScheduleWithContext_def absolute_def)
  have le: "g_currentTs g1 \<le> ts" by (rule absolute_Some [OF ts(1) Context.hyps(3) clock_small [OF n(1)]])
  obtain q where q: "eng_insert S ts c p g1 = Some (numbered q g1)"
    "engine_inv B R (numbered q g1) (insert (new_id g1 ts c p) I) t (insert_due (new_event g1 ts c p) es)
       (map (snd \<circ> snd) (g_eventsWithContext g))"
    "sim_step (abs_sim g1 es) [] (abs_sim (numbered q g1) (insert_due (new_event g1 ts c p) es))"
    using insert_step [OF n(1) le] Context.hyps(5,6) g1(1) by metis
  have g2: "g2 = numbered q g1" using ts(2) q(1) by simp
  have "destroy_ok g2 (used (insert_due (new_event g1 ts c p) es) (map (snd \<circ> snd) (g_eventsWithContext g)))"
    by (rule destroy_ok_mono [OF inv(3)]) (use Context.hyps(1) in \<open>auto simp: g2 numbered_def new_event_def new_impl_def used_simps\<close>)
  then have "engine_rel B R (g2, I) (abs_sim (numbered q g1) (insert_due (new_event g1 ts c p) es))"
    by (intro engine_relI [OF _ _]) (use engine_inv_fewer [OF q(2), of I] g1(3) in \<open>auto simp: g2\<close>)
  then show ?case using run_one [OF q(3)] n(2) inv(2) by auto
next
  case (Thread e g p g1 c d g2 I)
  then obtain t es where inv: "engine_inv B R g I t es (map (snd \<circ> snd) (g_eventsWithContext g))" "s = abs_sim g es"
    "destroy_ok g (used es (map (snd \<circ> snd) (g_eventsWithContext g)))"
    by (elim engine_relE)
  note n = new_impl_inv [OF inv(1) Thread.hyps(1)]
  have "g_eventsWithContext g1 = g_eventsWithContext g" using Thread.hyps(1) by (auto simp: new_impl_def)
  then have g2: "g2 = g1\<lparr>g_eventsWithContext := g_eventsWithContext g @ [(c, word_of_int d, p)], g_eventsWithContextEmpty := False\<rparr>"
    using Thread.hyps(2) by (simp add: eng_ScheduleWithContext_def)
  have "engine_inv B R g1 I t es (map (snd \<circ> snd) (g_eventsWithContext g) @ [p])"
    using n(1) by (subst engine_inv_perm [where H' = "p # map (snd \<circ> snd) (g_eventsWithContext g)"]) simp_all
  moreover have "destroy_ok g2 (used es (map (snd \<circ> snd) (g_eventsWithContext g) @ [p]))"
    by (rule destroy_ok_mono [OF inv(3)]) (use Thread.hyps(1) in \<open>auto simp: g2 new_impl_def used_def\<close>)
  ultimately have "engine_rel B R (g2, I) s"
    by (intro engine_relI [of _ _ _ _ t es]) (use n(2) inv(2) in \<open>simp_all add: g2\<close>)
  then show ?case using sim_run.Start by blast
next
  case (Handed g g' I)
  then obtain t es where inv: "engine_inv B R g I t es (map (snd \<circ> snd) (g_eventsWithContext g))" "s = abs_sim g es"
    "destroy_ok g (used es (map (snd \<circ> snd) (g_eventsWithContext g)))"
    by (elim engine_relE)
  show ?case
  proof (cases "g_eventsWithContextEmpty g")
    case True
    then show ?thesis using Handed sim_run.Start by (auto simp: ProcessEventsWithContext_def)
  next
    case False
    let ?g = "g\<lparr>g_eventsWithContext := [], g_eventsWithContextEmpty := True\<rparr>"
    obtain g2 es' where g2: "insert_handed S (g_eventsWithContext g) ?g = Some g2" "engine_inv B R g2 I t es' []"
      "sim_run (abs_sim ?g es) [] (abs_sim g2 es')" "g_eventsWithContext g2 = g_eventsWithContext ?g"
      "used es' [] \<subseteq> used es (map (snd \<circ> snd) (g_eventsWithContext g))" "g_destroyEvents g2 = g_destroyEvents ?g" "g_fresh g2 = g_fresh ?g"
      using insert_handed_step [of ?g I t es "g_eventsWithContext g" "[]"] inv(1) Handed.hyps(2,3) by auto
    have g': "g' = g2" using Handed.hyps(1) False g2(1) by (simp add: ProcessEventsWithContext_def)
    have "destroy_ok g2 (used es' [])" by (rule destroy_ok_mono [OF inv(3)]) (use g2(5-7) in auto)
    then have "engine_rel B R (g2, I) (abs_sim g2 es')" using g2(2,4) by (intro engine_relI [of _ _ _ _ t es']) simp_all
    then show ?thesis using g2(3) inv(2) g' by auto
  qed
next
  case (Canc i I g)
  then obtain t es where inv: "engine_inv B R g I t es (map (snd \<circ> snd) (g_eventsWithContext g))" "s = abs_sim g es"
    "destroy_ok g (used es (map (snd \<circ> snd) (g_eventsWithContext g)))"
    by (elim engine_relE)
  have same: "g_eventsWithContext (eng_Cancel i g) = g_eventsWithContext g" "g_destroyEvents (eng_Cancel i g) = g_destroyEvents g"
    "g_fresh (eng_Cancel i g) = g_fresh g" by (simp_all add: eng_Cancel_def impl_Cancel_def)
  have d: "destroy_ok (eng_Cancel i g) (used es (map (snd \<circ> snd) (g_eventsWithContext g)))"
    by (rule destroy_ok_mono [OF inv(3)]) (simp_all add: same)
  show ?case
  proof (cases "id_uid i = uid_DESTROY")
    case True
    note c = cancel_destroy [OF inv(1,3) True]
    have "engine_rel B R (eng_Cancel i g, I) s"
      by (intro engine_relI [of _ _ _ _ t es]) (use c d same inv(2) in simp_all)
    then show ?thesis using sim_run.Start by blast
  next
    case False
    then have "i \<in> I" using Canc.hyps by blast
    note c = eng_Cancel_step [OF inv(1) this]
    have "engine_rel B R (eng_Cancel i g, I) (Cancel (Some (id_key i)) s)"
      by (intro engine_relI [of _ _ _ _ t es]) (use c d same inv(2) in simp_all)
    then show ?thesis using run_one [OF sim_step.Canc] by blast
  qed
next
  case (Rem i I g g')
  then obtain t es where inv: "engine_inv B R g I t es (map (snd \<circ> snd) (g_eventsWithContext g))" "s = abs_sim g es"
    "destroy_ok g (used es (map (snd \<circ> snd) (g_eventsWithContext g)))"
    by (elim engine_relE)
  show ?case
  proof (cases "id_uid i = uid_DESTROY")
    case True
    then have "g' = g\<lparr>g_destroyEvents := remove1 i (g_destroyEvents g)\<rparr>" using Rem.hyps(2) by (simp add: eng_Remove_def)
    moreover have "destroy_ok g' (used es (map (snd \<circ> snd) (g_eventsWithContext g)))"
      by (rule destroy_ok_mono [OF inv(3)]) (use calculation set_remove1_subset [of i "g_destroyEvents g"] in auto)
    ultimately have "engine_rel B R (g', I) s" using inv(1,2) by (intro engine_relI [of _ _ _ _ t es]) simp_all
    then show ?thesis using sim_run.Start by blast
  next
    case False
    then have "i \<in> I" using Rem.hyps(1) by blast
    then obtain es' where r: "engine_inv B R g' I t es' (map (snd \<circ> snd) (g_eventsWithContext g))"
      "abs_sim g' es' = Remove (Some (id_key i)) (abs_sim g es)" "g_eventsWithContext g' = g_eventsWithContext g"
      "set es' \<subseteq> set es" "g_destroyEvents g' = g_destroyEvents g" "g_fresh g' = g_fresh g"
      using eng_Remove_step [OF inv(1) \<open>i \<in> I\<close>] Rem.hyps(2) by auto
    have "destroy_ok g' (used es' (map (snd \<circ> snd) (g_eventsWithContext g)))"
      by (rule destroy_ok_mono [OF inv(3)]) (use r(5,6) used_mono [OF r(4)] in auto)
    then have "engine_rel B R (g', I) (Remove (Some (id_key i)) s)"
      by (intro engine_relI [of _ _ _ _ t es']) (use r inv(2) in simp_all)
    then show ?thesis using run_one [OF sim_step.Rem] by blast
  qed
next
  case (Dest e g p g1 i g2 I)
  then obtain t es where inv: "engine_inv B R g I t es (map (snd \<circ> snd) (g_eventsWithContext g))" "s = abs_sim g es"
    "destroy_ok g (used es (map (snd \<circ> snd) (g_eventsWithContext g)))"
    by (elim engine_relE)
  note n = new_impl_inv [OF inv(1) Dest.hyps(1)]
  have g1: "g_uid g1 = g_uid g" "g_eventsWithContext g1 = g_eventsWithContext g" using Dest.hyps(1) by (auto simp: new_impl_def)
  let ?s = "ScheduleDestroy s"
  have g2: "g2 = g1\<lparr>g_destroyEvents := g_destroyEvents g1 @ [i], g_uid := g_uid g1 + 1\<rparr>"
    using Dest.hyps(2) by (auto simp: eng_ScheduleDestroy_def Let_def)
  have step: "sim_step s [] ?s" by (rule sim_step.Dest) (use Dest.hyps(3) inv(2) in simp)
  have abs: "abs_sim g2 es = ?s" using n(2) inv(2) g1(1) by (simp add: abs_sim_def ScheduleDestroy_def g2) (simp add: abs_event_def)
  have "engine_inv B R g2 I t es (map (snd \<circ> snd) (g_eventsWithContext g))"
    by (rule bump_inv [OF engine_inv_drop [OF n(1)]]) (use Dest.hyps(3) g1 g2 in auto)
  moreover have "destroy_ok g2 (used es (map (snd \<circ> snd) (g_eventsWithContext g)))"
  proof -
    have i: "id_impl i = Some p" using Dest.hyps(2) by (auto simp: eng_ScheduleDestroy_def Let_def)
    have p: "p = g_fresh g" "g_fresh g2 = Suc (g_fresh g)" "g_destroyEvents g1 = g_destroyEvents g"
      using Dest.hyps(1) by (auto simp: new_impl_def g2)
    have "p \<notin> used es (map (snd \<circ> snd) (g_eventsWithContext g))"
      using inv(1) by (fastforce simp: p(1) used_def engine_inv_def impls_ok_def)
    moreover have "\<exists>q. id_impl j = Some q \<and> q < g_fresh g2 \<and> q \<notin> used es (map (snd \<circ> snd) (g_eventsWithContext g))"
      if "j \<in> set (g_destroyEvents g)" for j
      using inv(3) that p(2) by (fastforce simp: destroy_ok_def)
    ultimately show ?thesis using i p by (auto simp: destroy_ok_def g2)
  qed
  ultimately have "engine_rel B R (g2, I) ?s" by (intro engine_relI [OF _ abs]) (simp_all add: g1(2) g2)
  then show ?case using run_one [OF step] by blast
next
  case (Stop g I)
  then show ?case using sim_run.Start by (auto simp: engine_rel_def eng_Stop_def destroy_ok_def)
next
  case (Begin g I)
  then show ?case using sim_run.Start by (auto simp: engine_rel_def destroy_ok_def)
next
  case (Exec g b g' I)
  then obtain t es where inv: "engine_inv B R g I t es (map (snd \<circ> snd) (g_eventsWithContext g))" "s = abs_sim g es"
    "destroy_ok g (used es (map (snd \<circ> snd) (g_eventsWithContext g)))"
    by (elim engine_relE)
  have "\<not> sc_IsEmpty S (g_events g)" using Exec.hyps(1) by (simp add: eng_IsFinished_def)
  then obtain es' t' where e: "engine_inv B R g' I t' es' (map (snd \<circ> snd) (g_eventsWithContext g))"
    "ProcessOneEvent (abs_sim g es) = Some (b, abs_sim g' es')" "g_eventsWithContext g' = g_eventsWithContext g"
    "set es' \<subseteq> set es" "g_destroyEvents g' = g_destroyEvents g" "g_fresh g' = g_fresh g"
    using take_event_step [OF inv(1) Exec.hyps(2)] by auto
  have "destroy_ok g' (used es' (map (snd \<circ> snd) (g_eventsWithContext g)))"
    by (rule destroy_ok_mono [OF inv(3)]) (use e(5,6) used_mono [OF e(4)] in auto)
  then have rel: "engine_rel B R (g', I) (abs_sim g' es')" using e(1,3) by (intro engine_relI) simp_all
  have "sim_run s [(current_of g', b)] (abs_sim g' es')" using run_one [OF sim_step.Exec [OF e(2)]] inv(2) by simp
  then show ?case using rel by blast
qed

lemma run_refines:
  assumes "engine_run S B x l x'" and "engine_rel B R x s"
  shows "\<exists>s'. sim_run s l s' \<and> engine_rel B R x' s'"
  using assms
proof (induction rule: engine_run.induct)
  case (Start x)
  then show ?case using sim_run.Start by blast
next
  case (Step x l x' l' x'')
  then obtain s1 s2 where "sim_run s l s1" "sim_run s1 l' s2" "engine_rel B R x'' s2" using step_refines by blast
  then show ?case using sim_run_trans by blast
qed

lemma start_rel: "engine_rel B R (eng_new S impls, {}) sim_init"
proof -
  let ?g = "eng_new S impls"
  have abs: "abs_sim ?g [] = sim_init" by (simp add: abs_sim_def eng_new_def sim_init_def)
  have "clock_ok B ?g 0 []"
    unfolding clock_ok_def abs using agenda_wf_new [of B] sim_wf_init small(1) by (simp add: eng_new_def uid_VALID_def)
  moreover have "R (g_events ?g) (0, [])" using new by (simp add: eng_new_def)
  ultimately have "engine_inv B R ?g {} 0 [] []" by (simp add: engine_inv_def impls_ok_def)
  then show ?thesis unfolding engine_rel_def
    by (intro exI [of _ 0] exI [of _ "[]"]) (use abs in \<open>simp add: eng_new_def destroy_ok_def\<close>)
qed

lemma take_event_total:
  assumes "engine_inv B R g I t es H" and "\<not> sc_IsEmpty S (g_events g)"
  shows "take_event S g \<noteq> None"
proof -
  have inv: "R (g_events g) (t, es)" "agenda_wf B (t, es)" "sim_wf (abs_sim g es)" "impls_ok g es H"
    using assms(1) by (simp_all add: engine_inv_def clock_ok_def)
  obtain e es' where es: "es = e # es'" using queue_IsEmpty [OF inv(1,2)] assms(2) by (cases es) auto
  obtain q where q: "sc_RemoveNext S (g_events g) = Some (e, q)" using queue_RemoveNext [OF inv(1,2) es] by auto
  have "key_less (current_of g) (map_key (ev_key e))" using inv(3) by (simp add: sim_wf_def es)
  then have "g_currentTs g \<le> ev_ts e" by (auto simp: key_less_def map_key_def word_le_def)
  moreover obtain p where "ev_impl e = Some p" using inv(4) by (auto simp: impls_ok_def es)
  ultimately show ?thesis using q by (simp add: take_event_def Let_def)
qed

lemma rel_facts:
  assumes "engine_rel B R (g, I) s"
  shows "m_currentTs s = uint (g_currentTs g) \<and> (\<forall>i \<in> I. eng_IsExpired i g \<longleftrightarrow> IsExpired (Some (id_key i)) s)
    \<and> (\<not> eng_IsFinished S g \<longrightarrow> take_event S g \<noteq> None)
    \<and> (sc_IsEmpty S (g_events g) \<longrightarrow> g_unscheduledEvents g = 0)"
proof -
  obtain t es where inv: "engine_inv B R g I t es (map (snd \<circ> snd) (g_eventsWithContext g))" "s = abs_sim g es"
    using assms by (auto simp: engine_rel_def)
  have c: "R (g_events g) (t, es)" "clock_ok B g t es" "\<forall>i \<in> I. id_ok g es (map (snd \<circ> snd) (g_eventsWithContext g)) i"
    using inv(1) by (simp_all add: engine_inv_def)
  have "sc_IsEmpty S (g_events g) \<longrightarrow> g_unscheduledEvents g = 0"
    using queue_IsEmpty [OF c(1)] c(2) by (auto simp: clock_ok_def sim_wf_def)
  moreover have "\<not> eng_IsFinished S g \<longrightarrow> take_event S g \<noteq> None"
    using take_event_total [OF inv(1)] by (simp add: eng_IsFinished_def)
  moreover have "\<forall>i \<in> I. eng_IsExpired i g \<longleftrightarrow> IsExpired (Some (id_key i)) s"
    using expired_iff(1) [OF _ clock_distinct [OF c(2)]] c(3) inv(2) by blast
  ultimately show ?thesis using inv(2) by simp
qed

text \<open>Moving the events to another queue.\<close>

lemma drain_moves:
  assumes "engine_queue S' B' R'" and "R q (t, es)" and "agenda_wf B (t, es)" and "R' q' (0, done)"
    and "agenda_wf B' (0, done @ es)"
  shows "\<exists>r. move_events S S' q q' = Some r \<and> R' r (0, done @ es)"
  using assms(2-)
proof (induction es arbitrary: q t q' "done")
  case Nil
  then show ?case using queue_IsEmpty [OF Nil.prems(1,2)] by (subst move_events.simps) auto
next
  case (Cons e es)
  obtain q1 where q1: "sc_RemoveNext S q = Some (e, q1)" "R q1 (ev_ts e, es)"
    using queue_RemoveNext [OF Cons.prems(1,2)] by auto
  have wf1: "agenda_wf B (ev_ts e, es)"
    by (rule agenda_wf_call [OF _ Cons.prems(2), of Call_RemoveNext "Reply_Event e"]) (simp add: agenda_call_def)
  have all: "agenda_wf B' (0, done @ e # es)" using Cons.prems(4) by simp
  then have dn: "agenda_wf B' (0, done)" and new: "ev_uid e \<notin> ev_uid ` set done" and len: "length done + 1 < 2 ^ 32"
    and lt: "\<forall>x \<in> set done. Event_less x e" and b: "unat (ev_ts e) < B'"
    by (auto simp: agenda_wf_def sorted_wrt_append)
  obtain q2 where q2: "sc_Insert S' e q' = Some q2" "R' q2 (0, insert_due e done)"
    using engine_queue.queue_Insert [OF assms(1) Cons.prems(3) dn _ b new len] by auto
  have ins: "insert_due e done = done @ [e]" using lt by (induction "done") (auto dest: Event_less_asym)
  obtain r where "move_events S S' q1 q2 = Some r" "R' r (0, (done @ [e]) @ es)"
    using Cons.IH [OF q1(2) wf1, of q2 "done @ [e]"] q2(2) ins all by auto
  then show ?case using queue_IsEmpty [OF Cons.prems(1,2)] q1(1) q2(1) by (subst move_events.simps) auto
qed

text \<open>The loop of \<^verbatim>\<open>DoDispose\<close> ends.\<close>

lemma drop_events_ends:
  assumes "R q (t, es)" and "agenda_wf B (t, es)"
  shows "\<exists>r. drop_events S q = Some r \<and> sc_IsEmpty S r"
  using assms
proof (induction es arbitrary: q t)
  case Nil
  then show ?case using queue_IsEmpty [OF Nil.prems] by (subst drop_events.simps) auto
next
  case (Cons e es)
  obtain q1 where q1: "sc_RemoveNext S q = Some (e, q1)" "R q1 (ev_ts e, es)"
    using queue_RemoveNext [OF Cons.prems] by auto
  have "agenda_wf B (ev_ts e, es)"
    by (rule agenda_wf_call [OF _ Cons.prems(2), of Call_RemoveNext "Reply_Event e"]) (simp add: agenda_call_def)
  then show ?case using Cons.IH [OF q1(2)] queue_IsEmpty [OF Cons.prems] q1(1) by (subst drop_events.simps) auto
qed

end

text \<open>A queue can be replaced by any other at any time.\<close>

lemma SetScheduler_rel:
  assumes "engine_queue S B R" and "engine_queue S' B' R'" and "engine_rel B R (g, I) s" and "B \<le> B'"
  shows "\<exists>g'. SetScheduler S S' g = Some g' \<and> engine_rel B' R' (g', I) s"
proof -
  obtain t es where inv: "engine_inv B R g I t es (map (snd \<circ> snd) (g_eventsWithContext g))" "s = abs_sim g es"
    "destroy_ok g (used es (map (snd \<circ> snd) (g_eventsWithContext g)))"
    using assms(3) by (elim engine_relE)
  have c: "R (g_events g) (t, es)" "agenda_wf B (t, es)" "unat (g_currentTs g) < B'" using inv(1) assms(4)
    by (auto simp: engine_inv_def clock_ok_def)
  have wf: "agenda_wf B' (0, es)" using c(2) assms(4) by (auto simp: agenda_wf_def)
  have n: "R' (sc_new S') (0, [])" using assms(2) by (simp add: engine_queue_def scheduler_def)
  obtain q where q: "move_events S S' (g_events g) (sc_new S') = Some q" "R' q (0, es)"
    using engine_queue.drain_moves [OF assms(1,2) c(1,2) n] wf by auto
  let ?g = "with_events q g"
  have same: "abs_event ?g = abs_event g" by (rule ext) (simp add: abs_event_def with_events_def)
  have abs: "abs_sim ?g es = abs_sim g es" by (simp add: abs_sim_def same) (simp add: with_events_def)
  have "engine_inv B' R' ?g I 0 es (map (snd \<circ> snd) (g_eventsWithContext g))"
    using inv(1) q(2) wf c(3) unfolding engine_inv_def clock_ok_def abs
    by (auto simp: impls_ok_def id_ok_def with_events_def IsCancelled_def)
  moreover have "destroy_ok ?g (used es (map (snd \<circ> snd) (g_eventsWithContext g)))"
    by (rule destroy_ok_mono [OF inv(3)]) (simp_all add: with_events_def)
  ultimately have "engine_rel B' R' (?g, I) s"
    by (intro engine_relI [of _ _ _ _ 0 es]) (use abs inv(2) in \<open>simp_all add: with_events_def\<close>)
  then show ?thesis using q(1) by (simp add: SetScheduler_def)
qed

subsection \<open>The queues of the code\<close>

interpretation list_engine: engine_queue ListScheduler "2 ^ 63" list_rel
  by unfold_locales simp_all

interpretation map_engine: engine_queue MapScheduler "2 ^ 63" map_rel
  by unfold_locales simp_all

interpretation bag_engine: engine_queue PriorityQueueScheduler "2 ^ 63" bag_rel
  by unfold_locales simp_all

interpretation cal_engine: engine_queue "CalendarScheduler rv" "2 ^ 46" "cal_rel rv"
  by unfold_locales simp_all

text \<open>C11: with any queue that meets the contract of the schedulers, every run of the simulator is a run of the
  event queue the models of the hosts and of the switches are built on, with the same events executed
  in the same order; the identifiers given out expire in both at once, the assertion on the clock never fails, and no
  event is lost when the queue runs empty.\<close>

theorem engine_refines_events:
  assumes "engine_queue S B R" and "engine_run S B (eng_new S impls, {}) l (g, I)"
  shows "\<exists>s. sim_run sim_init l s \<and> m_currentTs s = uint (g_currentTs g)
    \<and> (\<forall>i \<in> I. eng_IsExpired i g \<longleftrightarrow> IsExpired (Some (map_key (ev_key (id_event i)))) s)
    \<and> (\<not> eng_IsFinished S g \<longrightarrow> take_event S g \<noteq> None)
    \<and> (sc_IsEmpty S (g_events g) \<longrightarrow> g_unscheduledEvents g = 0)"
  using engine_queue.run_refines [OF assms engine_queue.start_rel [OF assms(1)]] engine_queue.rel_facts [OF assms(1)]
  by blast

text \<open>An event is scheduled and runs.\<close>

abbreviation demo_start :: "(nat, nat event_map) engine" where
  "demo_start \<equiv> eng_new MapScheduler (\<lambda>_. (0, False))"

definition demo_scheduled :: "(nat, nat event_map) engine" where
  "demo_scheduled = demo_start\<lparr>g_events := [((5, 4), NO_CONTEXT, Some 0)], g_impls := (\<lambda>_. (0, False))(0 := (7, False)),
     g_fresh := 1, g_uid := 5, g_unscheduledEvents := 1\<rparr>"

definition demo_ran :: "(nat, nat event_map) engine" where
  "demo_ran = demo_scheduled\<lparr>g_events := [], g_unscheduledEvents := 0, g_eventCount := 1, g_currentTs := 5, g_currentUid := 4\<rparr>"

definition demo_id :: EventId where
  "demo_id = \<lparr>id_impl = Some 0, id_ts = 5, id_context = NO_CONTEXT, id_uid = 4\<rparr>"

lemma demo_engine_run: "engine_run MapScheduler (2 ^ 63) (demo_start, {}) [((5, 4), Some 7)] (demo_ran, {demo_id})"
proof -
  let ?g1 = "demo_start\<lparr>g_impls := (\<lambda>_. (0, False))(0 := (7, False)), g_fresh := 1\<rparr>"
  have new: "new_impl 7 demo_start = (0, ?g1)" by (simp add: new_impl_def eng_new_def)
  have sched: "eng_Schedule MapScheduler 5 0 ?g1 = Some (demo_id, demo_scheduled)"
    by (simp add: eng_Schedule_def absolute_def eng_insert_def MapScheduler_def map_Insert_def map_key_def eng_new_def
        demo_scheduled_def demo_id_def uid_VALID_def Let_def)
  have "engine_step MapScheduler (2 ^ 63) (demo_start, {}) [] (demo_scheduled, insert demo_id {})"
    by (rule engine_step.Sched [OF new sched]) (simp_all add: eng_new_def uid_VALID_def demo_id_def)
  then have run: "engine_run MapScheduler (2 ^ 63) (demo_start, {}) ([] @ []) (demo_scheduled, {demo_id})"
    by (rule engine_run.Step [OF engine_run.Start])
  have "take_event MapScheduler demo_scheduled = Some (Some 7, demo_ran)"
    by (simp add: take_event_def MapScheduler_def map_RemoveNext_def map_event_def demo_scheduled_def demo_ran_def eng_new_def
        Invoke_def IsCancelled_def NO_CONTEXT_def Let_def)
  moreover have "\<not> eng_IsFinished MapScheduler demo_scheduled"
    by (simp add: eng_IsFinished_def MapScheduler_def demo_scheduled_def eng_new_def)
  ultimately have "engine_step MapScheduler (2 ^ 63) (demo_scheduled, {demo_id}) [(current_of demo_ran, Some 7)] (demo_ran, {demo_id})"
    by (intro engine_step.Exec)
  then show ?thesis using engine_run.Step [OF run] by (simp add: demo_ran_def)
qed

lemma engine_refines_events_witness: "\<exists>s. sim_run sim_init [((5, 4), Some (7 :: nat))] s \<and> m_currentTs s = 5"
proof -
  obtain s where "sim_run sim_init [((5, 4), Some (7 :: nat))] s \<and> m_currentTs s = uint (g_currentTs demo_ran)"
    using engine_refines_events [OF map_engine.engine_queue_axioms demo_engine_run] by blast
  then show ?thesis by (auto simp: demo_ran_def)
qed

end
