(* ===== verification/Qbb_Channel.thy ===== *)
theory Qbb_Channel
  imports Sim_Events
begin

text \<open>
  The cable between two devices (\<^verbatim>\<open>qbb-channel.cc\<close>). A transmission schedules the reception at the other
  device after the transmission time and the delay of the channel, on the event queue of
  \<open>Sim_Events\<close>; its events are the deliveries, a device and a packet. The theory shows that the channel is a
  queue: a packet that is sent after another on the same direction never overtakes it.
\<close>

datatype wire_state = INITIALIZING | IDLE | TRANSMITTING | PROPAGATING

text \<open>A device is named by a number; null pointers are \<open>None\<close>.\<close>

record Link =
  l_state :: wire_state
  l_src :: "nat option"
  l_dst :: "nat option"

record QbbChannel =
  ch_delay :: int
  ch_nDevices :: int
  ch_link :: "nat \<Rightarrow> Link"

definition N_DEVICES :: int where "N_DEVICES = 2"

text \<open>The constructor leaves the states of the two wires as it finds them in memory, \<open>ws\<close>.\<close>

definition QbbChannel_init :: "(nat \<Rightarrow> wire_state) \<Rightarrow> int \<Rightarrow> QbbChannel" where
  "QbbChannel_init ws delay = \<lparr>ch_delay = delay, ch_nDevices = 0,
     ch_link = \<lambda>i. \<lparr>l_state = ws i, l_src = None, l_dst = None\<rparr>\<rparr>"

definition Attach :: "nat \<Rightarrow> QbbChannel \<Rightarrow> QbbChannel option" where
  "Attach d c = do {
     guard (ch_nDevices c < N_DEVICES);
     let n = nat (ch_nDevices c);
     let c = c\<lparr>ch_link := (ch_link c)(n := (ch_link c n)\<lparr>l_src := Some d\<rparr>), ch_nDevices := ch_nDevices c + 1\<rparr>;
     Some (if ch_nDevices c = N_DEVICES then
       c\<lparr>ch_link := (ch_link c)(
         0 := (ch_link c 0)\<lparr>l_dst := l_src (ch_link c 1), l_state := IDLE\<rparr>,
         1 := (ch_link c 1)\<lparr>l_dst := l_src (ch_link c 0), l_state := IDLE\<rparr>)\<rparr>
     else c) }"

definition IsInitialized :: "QbbChannel \<Rightarrow> unit option" where
  "IsInitialized c = guard (l_state (ch_link c 0) \<noteq> INITIALIZING \<and> l_state (ch_link c 1) \<noteq> INITIALIZING)"

definition wire_of :: "QbbChannel \<Rightarrow> nat \<Rightarrow> nat" where
  "wire_of c src = (if Some src = l_src (ch_link c 0) then 0 else 1)"

type_synonym 'p delivery = "nat \<times> 'p"

text \<open>The code calls \<^verbatim>\<open>ScheduleWithContext\<close> with the number of the destination's node as the context, which only labels the
  event (the engine of \<open>Sim_Engine\<close> keeps it; the queue of \<open>Sim_Events\<close> has none). Unlike \<^verbatim>\<open>Schedule\<close> it does not test that
  the delay is not negative. Transmission times and the delay of a channel are not, and then the two do the same; with a
  negative sum the model stops here, the code when the event that lies in the past reaches the
  assertion of \<^verbatim>\<open>ProcessOneEvent\<close>.\<close>

definition chan_TransmitStart :: "QbbChannel \<Rightarrow> 'p \<Rightarrow> nat \<Rightarrow> int \<Rightarrow> 'p delivery sim \<Rightarrow> (event_id \<times> 'p delivery sim) option" where
  "chan_TransmitStart c p src txTime s = do {
     _ \<leftarrow> IsInitialized c;
     dst \<leftarrow> l_dst (ch_link c (wire_of c src));
     Schedule (txTime + ch_delay c) (dst, p) s }"

definition GetSource :: "QbbChannel \<Rightarrow> nat \<Rightarrow> nat option" where
  "GetSource c i = l_src (ch_link c i)"

definition GetDestination :: "QbbChannel \<Rightarrow> nat \<Rightarrow> nat option" where
  "GetDestination c i = l_dst (ch_link c i)"

definition GetQbbDevice :: "QbbChannel \<Rightarrow> nat \<Rightarrow> nat option option" where
  "GetQbbDevice c i = do { guard (i < 2); Some (l_src (ch_link c i)) }"

subsection \<open>A channel of two devices\<close>

definition cable :: "(nat \<Rightarrow> wire_state) \<Rightarrow> int \<Rightarrow> nat \<Rightarrow> nat \<Rightarrow> QbbChannel option" where
  "cable ws delay a b = do { c \<leftarrow> Attach a (QbbChannel_init ws delay); Attach b c }"

lemma cable_ends:
  assumes "cable ws delay a b = Some c"
  shows "IsInitialized c = Some ()" and "ch_delay c = delay" and "GetSource c 0 = Some a" and "GetSource c 1 = Some b"
    and "GetDestination c 0 = Some b" and "GetDestination c 1 = Some a" and "Attach d c = None"
  using assms by (auto simp: cable_def Attach_def QbbChannel_init_def N_DEVICES_def Let_def IsInitialized_def
      GetSource_def GetDestination_def)

lemma cable_Some: "\<exists>c. cable ws delay a b = Some c"
  by (simp add: cable_def Attach_def QbbChannel_init_def N_DEVICES_def Let_def)

text \<open>A third device fails the assertion. With one end attached a transmission fails on the null pointer
  of its destination; the assertion on the states need not see it, as nothing has set them.\<close>

lemma half_attached_fails: "Attach a (QbbChannel_init ws delay) = Some c \<Longrightarrow> chan_TransmitStart c p src t s = None"
  by (auto simp: Attach_def QbbChannel_init_def N_DEVICES_def Let_def chan_TransmitStart_def wire_of_def IsInitialized_def guard_def)

lemma half_attached_unseen: "\<exists>c. Attach a (QbbChannel_init (\<lambda>_. IDLE) delay) = Some c \<and> IsInitialized c = Some ()"
  by (simp add: Attach_def QbbChannel_init_def N_DEVICES_def Let_def IsInitialized_def)

lemma transmit_delivers:
  assumes "cable ws delay a b = Some c" and "a \<noteq> b" and "chan_TransmitStart c p src txTime s = Some (k, s')" and "src \<in> {a, b}"
  shows "k = Some (m_currentTs s + txTime + delay, m_uid s)"
    and "Schedule (txTime + delay) (if src = a then b else a, p) s = Some (k, s')"
proof -
  have "l_dst (ch_link c (wire_of c src)) = Some (if src = a then b else a)"
    using cable_ends(3-6) [OF assms(1)] assms(2,4) by (auto simp: wire_of_def GetSource_def GetDestination_def)
  then show S: "Schedule (txTime + delay) (if src = a then b else a, p) s = Some (k, s')"
    using assms(3) cable_ends(1,2) [OF assms(1)] by (simp add: chan_TransmitStart_def)
  show "k = Some (m_currentTs s + txTime + delay, m_uid s)" by (rule Schedule_Some [OF S]) (simp add: algebra_simps)
qed

subsection \<open>Order\<close>

lemma sim_step_uid: "sim_step s l s' \<Longrightarrow> sim_wf s \<Longrightarrow> m_uid s \<le> m_uid s'"
proof (induction rule: sim_step.induct)
  case (Sched d e s ev s')
  then show ?case using uid_less_Suc [of "m_uid s" "m_uid s"] by (elim Schedule_Some) (auto intro: less_imp_le)
next
  case (Dest s)
  then show ?case using uid_less_Suc [of "m_uid s" "m_uid s"] by (auto simp: ScheduleDestroy_def intro: less_imp_le)
next
  case (Exec s e s')
  then show ?case by (elim ProcessOneEvent_Some) simp
qed simp_all

lemma sim_run_uid: "sim_run s l s' \<Longrightarrow> sim_wf s \<Longrightarrow> m_uid s \<le> m_uid s'"
  by (induction rule: sim_run.induct) (auto intro: order_trans sim_step_uid sim_run_wf)

text \<open>C36: a cable delivers each packet to the other device, after its transmission time and the delay of the
  channel, and in the order the packets were sent: when a device starts the second transmission
  not before the end of the first, its packet is never received before the first one, whatever else
  the simulation does.\<close>

theorem channel_fifo:
  assumes "cable ws delay a b = Some c" and "a \<noteq> b" and "src \<in> {a, b}" and "sim_run sim_init l s1"
    and "chan_TransmitStart c p1 src tx1 s1 = Some (Some k1, s1')" and "unat (m_uid s1) + 1 < 2 ^ 32"
    and "sim_run s1' l' s2" and "m_currentTs s1 + tx1 \<le> m_currentTs s2" and "0 \<le> tx2"
    and "chan_TransmitStart c p2 src tx2 s2 = Some (Some k2, s2')" and "unat (m_uid s2) + 1 < 2 ^ 32"
    and "sim_run s2' l'' s3"
  shows "fst k1 = m_currentTs s1 + tx1 + delay \<and> fst k2 = m_currentTs s2 + tx2 + delay
    \<and> (k1, (if src = a then b else a, p1), False) \<in> set (m_events s1')
    \<and> (\<forall>newer older b2. l'' @ l' = newer @ (k2, b2) # older \<longrightarrow> k1 \<notin> fst ` set newer)"
proof (intro conjI allI impI)
  note t1 = transmit_delivers [OF assms(1,2,5,3)] and t2 = transmit_delivers [OF assms(1,2,10,3)]
  show f1: "fst k1 = m_currentTs s1 + tx1 + delay" and f2: "fst k2 = m_currentTs s2 + tx2 + delay"
    using t1(1) t2(1) by simp_all
  have wf1: "sim_wf s1" by (rule sim_run_wf [OF assms(4) sim_wf_init])
  obtain es where es: "sched_Insert (tx1 + delay + m_currentTs s1, m_uid s1) ((if src = a then b else a, p1), False) (m_events s1) = Some es"
    "s1' = s1\<lparr>m_uid := m_uid s1 + 1, m_unscheduledEvents := m_unscheduledEvents s1 + 1, m_events := es\<rparr>"
    by (rule Schedule_Some [OF t1(2)])
  show "(k1, (if src = a then b else a, p1), False) \<in> set (m_events s1')"
    using sched_Insert_set [OF es(1)] t1(1) es(2) by (simp add: algebra_simps)
  have run1: "sim_run sim_init l s1'"
    using sim_run.Step [OF assms(4) sim_step.Sched [OF t1(2) assms(6)]] by simp
  have wf2: "sim_wf s2" by (rule sim_run_wf [OF sim_run_trans [OF assms(7) run1] sim_wf_init])
  have "m_uid s1 < m_uid s1'" using uid_less_Suc [OF assms(6) order_refl] es(2) by simp
  then have "m_uid s1 < m_uid s2" using sim_run_uid [OF assms(7) sim_run_wf [OF run1 sim_wf_init]] by (rule less_le_trans)
  then have lt: "key_less k1 k2" using t1(1) t2(1) assms(8,9) by (auto simp: key_less_def)
  have run2: "sim_run s1' l' s2'" using sim_run.Step [OF assms(7) sim_step.Sched [OF t2(2) assms(11)]] by simp
  have "sim_run sim_init ((l'' @ l') @ l) s3" using sim_run_trans [OF sim_run_trans [OF assms(12) run2] run1] by simp
  then have so: "sorted_wrt (\<lambda>a b. key_less b a) (map fst ((l'' @ l') @ l))" using executed_history sim_wf_init by blast
  fix newer older b2 assume split: "l'' @ l' = newer @ (k2, b2) # older"
  show "k1 \<notin> fst ` set newer"
  proof
    assume "k1 \<in> fst ` set newer"
    then have "key_less k2 k1" using so unfolding split by (auto simp: sorted_wrt_append)
    then show False using lt key_less_trans key_less_irrefl by blast
  qed
qed

text \<open>Two packets on a cable with a delay of 10: the first is sent at 0, the second at 5, when an event of the
  device (here a delivery to device 0) marks the end of the first transmission.\<close>

definition demo_cable :: QbbChannel where
  "demo_cable = \<lparr>ch_delay = 10, ch_nDevices = 2, ch_link = (\<lambda>i. \<lparr>l_state = IDLE, l_src = None, l_dst = None\<rparr>)(
     0 := \<lparr>l_state = IDLE, l_src = Some 1, l_dst = Some 2\<rparr>, 1 := \<lparr>l_state = IDLE, l_src = Some 2, l_dst = Some 1\<rparr>)\<rparr>"

definition demo_queue :: "int \<Rightarrow> u32 \<Rightarrow> u32 \<Rightarrow> u64 \<Rightarrow> (event_key \<times> nat delivery) list \<Rightarrow> nat delivery sim" where
  "demo_queue t cur uid n es = \<lparr>m_currentTs = t, m_currentUid = cur, m_uid = uid, m_unscheduledEvents = int (length es),
     m_eventCount = n, m_events = map (\<lambda>(k, e). (k, e, False)) es\<rparr>"

lemma demo_cable_built: "cable (\<lambda>_. IDLE) 10 1 2 = Some demo_cable"
  by (auto simp: cable_def Attach_def QbbChannel_init_def N_DEVICES_def Let_def demo_cable_def fun_eq_iff)

lemmas demo_chan_defs = demo_queue_def sim_init_def uid_VALID_def uid_INVALID_def max_time_def Schedule_def ProcessOneEvent_def
  chan_TransmitStart_def IsInitialized_def wire_of_def demo_cable_def key_less_def Let_def

lemma demo_exec:
  assumes "ProcessOneEvent s = Some (Some e, s')"
  shows "sim_run s [((m_currentTs s', m_currentUid s'), Some e)] s'"
  using sim_run.Step [OF sim_run.Start sim_step.Exec [OF assms]] by simp

lemma demo_chan_runs:
  shows "sim_run sim_init [] (demo_queue 0 0 5 0 [((5, 4), (0, 0))])"
    and "chan_TransmitStart demo_cable 7 1 5 (demo_queue 0 0 5 0 [((5, 4), (0, 0))])
      = Some (Some (15, 5), demo_queue 0 0 6 0 [((5, 4), (0, 0)), ((15, 5), (2, 7))])"
    and "sim_run (demo_queue 0 0 6 0 [((5, 4), (0, 0)), ((15, 5), (2, 7))]) [((5, 4), Some (0, 0))] (demo_queue 5 4 6 1 [((15, 5), (2, 7))])"
    and "chan_TransmitStart demo_cable 8 1 5 (demo_queue 5 4 6 1 [((15, 5), (2, 7))])
      = Some (Some (20, 6), demo_queue 5 4 7 1 [((15, 5), (2, 7)), ((20, 6), (2, 8))])"
    and "sim_run (demo_queue 5 4 7 1 [((15, 5), (2, 7)), ((20, 6), (2, 8))]) [((20, 6), Some (2, 8)), ((15, 5), Some (2, 7))]
      (demo_queue 20 6 7 3 [])"
proof -
  have "sim_step sim_init [] (demo_queue 0 0 5 0 [((5, 4), (0, 0))])"
    by (rule sim_step.Sched [of 5 "(0, 0)" _ "Some (5, 4)"]) (simp_all add: demo_chan_defs)
  then show "sim_run sim_init [] (demo_queue 0 0 5 0 [((5, 4), (0, 0))])" using sim_run.Step [OF sim_run.Start] by fastforce
  show "sim_run (demo_queue 0 0 6 0 [((5, 4), (0, 0)), ((15, 5), (2, 7))]) [((5, 4), Some (0, 0))] (demo_queue 5 4 6 1 [((15, 5), (2, 7))])"
    using demo_exec [of "demo_queue 0 0 6 0 [((5, 4), (0, 0)), ((15, 5), (2, 7))]" "(0, 0)" "demo_queue 5 4 6 1 [((15, 5), (2, 7))]"]
    by (simp add: demo_chan_defs)
  have 1: "sim_run (demo_queue 5 4 7 1 [((15, 5), (2, 7)), ((20, 6), (2, 8))]) [((15, 5), Some (2, 7))] (demo_queue 15 5 7 2 [((20, 6), (2, 8))])"
    using demo_exec [of "demo_queue 5 4 7 1 [((15, 5), (2, 7)), ((20, 6), (2, 8))]" "(2, 7)" "demo_queue 15 5 7 2 [((20, 6), (2, 8))]"]
    by (simp add: demo_chan_defs)
  have 2: "sim_run (demo_queue 15 5 7 2 [((20, 6), (2, 8))]) [((20, 6), Some (2, 8))] (demo_queue 20 6 7 3 [])"
    using demo_exec [of "demo_queue 15 5 7 2 [((20, 6), (2, 8))]" "(2, 8)" "demo_queue 20 6 7 3 []"]
    by (simp add: demo_chan_defs)
  show "sim_run (demo_queue 5 4 7 1 [((15, 5), (2, 7)), ((20, 6), (2, 8))]) [((20, 6), Some (2, 8)), ((15, 5), Some (2, 7))]
      (demo_queue 20 6 7 3 [])" using sim_run_trans [OF 2 1] by simp
qed (simp_all add: demo_chan_defs)

lemma channel_fifo_witness: "fst (15 :: int, 5 :: u32) = 0 + 5 + 10 \<and> fst (20 :: int, 6 :: u32) = 5 + 5 + 10
    \<and> ((15, 5), (2, 7), False) \<in> set (m_events (demo_queue 0 0 6 0 [((5, 4), (0, 0)), ((15, 5), (2, 7))]))"
  using channel_fifo [OF demo_cable_built _ _ demo_chan_runs(1,2) _ demo_chan_runs(3) _ _ demo_chan_runs(4) _ demo_chan_runs(5)]
  by (simp add: demo_queue_def)

end
