(* ===== verification/Spec2Isabelle.thy ===== *)
theory Spec2Isabelle
  imports Data_Rate Egress_Queue Switch_Mmu Sim_Events Queue_Pair Rdma_Host Cc_Dcqcn Cc_Hpcc Cc_Others Rdma_Receive Rdma_Flow
    Switch_Telemetry Switch_Node Switch_Recursion Switch_Invariants Switch_Accounting Switch_Forwarding Switch_Routing Network
    Engine_Refinement Qbb_Channel
begin

text \<open>
  The verification development of the HPCC simulator: RDMA hosts with hardware congestion control, the
  switches between them with priority flow control and in-band telemetry, and the parts of the network and
  core modules of ns-3 that they rest on.

  \<^bold>\<open>The program and how its parts interact.\<close> A host (\<^verbatim>\<open>RdmaHw\<close>, src/point-to-point/model/rdma-hw.cc)
  keeps queue pairs (rdma-queue-pair.cc) for its flows; its card (\<^verbatim>\<open>QbbNetDevice\<close>, qbb-net-device.cc) asks them in
  round robin for the next packet, within a window and at a rate. Packets cross switches (switch-node.cc): a switch
  looks up the port, is asked for admission by its buffer management (switch-mmu.cc), queues the packet in the
  class of its port (broadcom-egress-queue.cc), pauses and resumes its neighbours by pause frames, and when a packet
  leaves marks it and writes telemetry into its header (int-header.cc, pint.cc). The receiver
  acknowledges and returns the telemetry; the sender's congestion control (DCQCN, HPCC, TIMELY, DCTCP, HPCC-PINT, PowerTCP,
  the explicit fair rate) sets its rate. A cable (qbb-channel.cc) carries a packet to the other end after its transmission time and
  its delay. Everything runs as events of one queue (default-simulator-impl.cc), which is kept by one of five exchangeable
  schedulers (list-, map-, heap-, priority-queue- and calendar-scheduler.cc).

  \<^bold>\<open>Which theory models which part.\<close>
  \<^item> \<open>Hpcc_Prelude\<close>: words, bytes, guards in the option monad, sums in which one summand changes.
  \<^item> \<open>Cpp_Double\<close>: the C++ double as a rational, infinity or not a number, rounded to nearest even; conversions that
    C++ leaves undefined are \<open>None\<close>.
  \<^item> \<open>Fixed_Point_Time\<close>, \<open>Data_Rate\<close>: int64x64-128.cc, nstime.h, data-rate.cc.
  \<^item> \<open>Wire_Bytes\<close>, \<open>Int_Header\<close>, \<open>Packet_Headers\<close>, \<open>Custom_Header\<close>, \<open>Packet_Model\<close>: the bytes of a packet
    (buffer.cc, int-header.h, the headers of src/point-to-point and of IPv4 and UDP, custom-header.cc), then
    the packet as a record of its fields, which the parts above the wire use; the round trips justify that step.
  \<^item> \<open>Egress_Queue\<close>: old-drop-tail-queue.cc and broadcom-egress-queue.cc, strict priority, round robin and deficit
    round robin. The locale \<open>fifo\<close> is interpreted on the drop-tail queue.
  \<^item> \<open>Sim_Events\<close>: the event queue as the parts above use it. \<open>Schedulers\<close>: the interface of scheduler.h as a record of operations
    \<open>Scheduler\<close>, the list, the ordered map and the priority queue. \<open>Heap_Scheduler\<close>, \<open>Calendar_Scheduler\<close>:
    the binary heap and the calendar queue with its resizing. \<open>Sim_Engine\<close>: the record \<open>engine\<close> with all operations of
    default-simulator-impl.cc, event-impl.cc and event-id.cc over any scheduler. \<open>Qbb_Channel\<close>: the cable.
  \<^item> \<open>Queue_Pair\<close>, \<open>Rdma_Host\<close>, \<open>Rdma_Receive\<close>: queue pairs with their flow hash (hash-murmur3.cc), the host and its
    card as a record \<open>host\<close> of which every handler of rdma-hw.cc and qbb-net-device.cc is a function.
  \<^item> \<open>Cc_Dcqcn\<close>, \<open>Cc_Hpcc\<close>, \<open>Cc_Others\<close>: the congestion control algorithms of rdma-hw.cc.
  \<^item> \<open>Switch_Mmu\<close>: switch-mmu.cc. \<open>Switch_Telemetry\<close>: what \<^verbatim>\<open>SwitchNotifyDequeue\<close> writes into packets.
    \<open>Switch_Node\<close>: the record \<open>SwitchNode\<close> with its ports, and the handlers of switch-node.cc and of the switch side
    of qbb-net-device.cc.
  \<^item> \<open>Switch_Demo\<close>: a concrete switch and a packet that makes it pause a port, for the witnesses.

  \<^bold>\<open>What the lemmas show.\<close>
  \<^item> Buffer: \<open>Switch_Mmu\<close> proves the accounting of an abstract switch that admits, releases, pauses and resumes
    (\<open>mmu_step\<close>). \<open>Switch_Recursion\<close> proves that the nested calls of \<^verbatim>\<open>DequeueAndTransmit\<close> end.
    \<open>Switch_Invariants\<close> states the interface \<open>switch_handlers\<close>: what an invariant must keep at each elementary
    step, with the packets a handler holds at that moment, so that every handler keeps it. It is
    interpreted four times: twice in \<open>Switch_Accounting\<close> (the buffer is charged for what waits; a paused class
    holds bytes of the buffer, so that its last packet resumes it, with a resume frame) and twice in
    \<open>Switch_Forwarding\<close> (what may be done to a packet, and through which port it leaves; packets are
    conserved). A packet keeps its size, its IPv4 header but for the congestion bits and its payload but for the telemetry.
    \<open>Switch_Contents\<close> counts what is in a switch. \<open>Switch_Routing\<close>
    has the hash, the path of a flow and lossless admission.
  \<^item> Transport: \<open>Rdma_Flow\<close> refines two hosts over a lossy, reordering network to a reliable stream.
    \<open>Network\<close> refines hosts and switches over any correctly routed topology to that, and concludes that a completed
    flow is delivered.
  \<^item> Congestion control: the rates stay in their limits under any order of events and acknowledgements; a single-rate HPCC
    update that finds the averaged utilization at the target yields at most the committed rate plus one increment; the multi-bottleneck variant agrees with HPCC on one
    bottleneck; with the explicit fair rate the sender adopts the minimum of the path.
  \<^item> Card: which queue pair is served, which finished ones are forgotten, and when the timer is set. A pending timer is
    not moved to an earlier time (\<open>wake_up_set\<close>), and may not be set at all (\<open>lost_wake_up\<close>).
  \<^item> Events: the locale \<open>scheduler\<close> is the contract of an event queue, a simulation of its calls by a sorted list, on times of
    at most \<open>B\<close> nanoseconds. It is interpreted on each of the five schedulers, on the heap for calls without removals: after
    a removal the heap may misorder (\<open>heap_remove_misorders\<close>). \<open>Engine_Refinement\<close> extends it to
    \<open>engine_queue\<close> and proves once that the simulator over such a queue runs as the queue of \<open>Sim_Events\<close>,
    also when it is stopped and run again, and when events, destroy events among them, are cancelled;
    it is interpreted on the four queues that meet the contract in full. The cable delivers in order and on time.
  \<^item> Wire and queues: round trips of headers and rates, exactness of telemetry differences and of transmission
    times, exact counters and work conservation of the port queues, service of a waiting queue within seven served packets of
    round robin, order of events.

  \<^bold>\<open>Conventions.\<close> Integers have the width of the code; an operation is \<open>None\<close> where the code has undefined behaviour, fails an
  assertion or aborts. Arrays are functions of an index whose bounds the operations check. Random draws, identifications of
  frames, the functions of libm and uninitialised memory are arguments of the operations that use them.
  Traces and logs are left out.

  \<^bold>\<open>Fuel.\<close> \<open>sw_DequeueAndTransmit\<close> runs \<open>dequeue_fuel\<close> with one level more than the packets that wait in the classes 1 and up;
  \<open>dequeue_terminates\<close> shows that more fuel, and any value below it, give the same result. \<open>drop_queue\<close> has
  one level more than the packets of the port, \<open>dequeue_all\<close> as many as the packets of its queue, \<open>dwrr_loop\<close> the
  \<open>16 * qCnt\<close> rounds of the code, and the division of \<open>Fixed_Point_Time\<close> the 64 rounds of its digits.

  The sifting of the heap, the loop of the simulator, \<open>Destroy\<close>, \<open>move_events\<close> and \<open>drop_events\<close> are
  partial functions, \<open>None\<close> where they do not end; the contracts, \<open>SetScheduler_rel\<close> and \<open>drop_events_ends\<close> show that a result exists for those
  whose end does not depend on the bodies of the events. A search of the calendar visits each bucket once, as the loop of the code.

  \<^bold>\<open>Bounds of the event queues.\<close> The calendar multiplies sums of times by 3, and the end of a bucket is a sum of a time and
  as many widths as there are buckets; no such value wraps for times below 2^46 ns (19 hours). The other queues need no bound, and
  the simulator one of 2^63 ns, where a time becomes negative. The number of an event has 32 bits: the refinement is for runs
  in which it does not wrap.

  \<^bold>\<open>Assumptions of the network.\<close> Routes lead to a host only for its address (\<open>well_routed\<close>), a host sends neither under the
  address of the other host of the flow nor to itself (\<open>proper\<close>), other hosts do not send packets of the
  flow, the key of the flow is unique at its sender and the flow is smaller than 4 GiB (\<open>flow_inv\<close>); beyond
  that limit \<open>large_flow_never_finishes\<close> shows that the code fails.

  \<^bold>\<open>Clocks.\<close> The code has one simulator with one clock. In the model every host and every switch has a clock and the
  events of its own; the steps \<open>Wait\<close> of \<open>Rdma_Flow\<close> and of \<open>Switch_Invariants\<close> move a clock on, at most to the next event of its
  node (\<open>wait_until\<close>). A run of the code, in which an event of one node finds all clocks at its time, is a run of the model in
  which the other nodes wait until then; runs in which the clocks differ are runs of the model too, so that
  the theorems on runs hold for more runs than the code has.

  \<^bold>\<open>Not modelled.\<close> In the step relation of \<open>Network\<close> a packet on a wire may cross its link at any later time and in any
  order, which allows more runs than the cable of \<open>Qbb_Channel\<close>; the loss of a whole link is the down port alone. Locks, reference counts
  and the simulator of real time and of distributed runs are left out. Remote
  channels (MPI), the helpers and scripts that build topologies and write traces, the client application and the
  driver that connects it, and the modules of ns-3 that this program does not use (wireless, LTE, TCP and so on) are
  left out. No theorem states that a flow completes: the code has no retransmission timer, and the loss of
  the last packets of a flow stops it for ever.
\<close>

end
